(* ===== verification/Prelude.thy ===== *)
theory Prelude
  imports Main "HOL-Library.Word" "HOL-Library.Tree"
begin

text \<open>
  Shared vocabulary of the development: the machine types of the C sources, the
  collections that carry automation from one component to the next, and the generic
  facts on lists, sorted lists and machine words that several components use.
\<close>

unbundle bit_operations_syntax

section \<open>Machine types\<close>

type_synonym u8 = "8 word"
type_synonym u16 = "16 word"
type_synonym u32 = "32 word"
type_synonym u64 = "64 word"

section \<open>Collections of facts\<close>

named_theorems u64_arith "64-bit comparisons and wrap-around read as integers"
named_theorems inorder_simps "what a tree operation does to the sequence of its nodes"
named_theorems inv_intros "operations keep the invariant of their component"

section \<open>Words read as integers\<close>

lemma uint64_less: "uint (x::u64) < 18446744073709551616"
  using uint_lt2p [of x] by simp

lemma uint32_less: "uint (x::u32) < 4294967296"
  using uint_lt2p [of x] by simp

lemma uint8_less: "uint (x::u8) < 256"
  using uint_lt2p [of x] by simp

lemma uint64_plus [u64_arith]:
  "uint (x + y :: u64) = (uint x + uint y) mod 18446744073709551616"
  by (simp add: uint_word_ariths)

lemma uint64_minus [u64_arith]:
  "uint (x - y :: u64) = (uint x - uint y) mod 18446744073709551616"
  by (simp add: uint_word_ariths)

lemma uint64_plus_small:
  "uint x + uint y < 18446744073709551616 \<Longrightarrow> uint (x + y :: u64) = uint x + uint y"
  by (simp add: uint64_plus)

lemma uint64_minus_cases:
  "uint (x - y :: u64)
     = (if uint y \<le> uint x then uint x - uint y
        else uint x - uint y + 18446744073709551616)"
proof (cases "uint y \<le> uint x")
  case True
  have "(uint x - uint y) mod 18446744073709551616 = uint x - uint y"
    using True uint64_less [of x] uint_ge_0 [of y] by (intro mod_pos_pos_trivial) linarith+
  with True show ?thesis by (simp add: uint64_minus)
next
  case False
  have "(uint x - uint y) mod 18446744073709551616
      = (uint x - uint y + 18446744073709551616) mod 18446744073709551616"
    by simp
  also have "\<dots> = uint x - uint y + 18446744073709551616"
    using False uint64_less [of y] uint_ge_0 [of x] by (intro mod_pos_pos_trivial) linarith+
  finally show ?thesis using False by (simp add: uint64_minus)
qed

lemma uint64_plus_sint:
  "uint (x + y :: u64) = (uint x + sint y) mod 18446744073709551616"
proof -
  have "x + y = word_of_int (uint x + sint y)" by simp
  then show ?thesis by (simp only: uint_word_of_int) simp
qed

lemma sint64_bounds: "- 9223372036854775808 \<le> sint (x::u64) \<and> sint x < 9223372036854775808"
  using sint_ge [of x] sint_lt [of x] by simp

text \<open>
  Adding a signed offset to an unsigned quantity and comparing with a limit below \<open>2^63\<close>:
  the machine comparison is the mathematical one.
\<close>

lemma plus_signed_le:
  assumes "uint a < 9223372036854775808" and "uint lim < 9223372036854775808"
  shows "a + off \<le> (lim :: u64) \<longleftrightarrow> 0 \<le> uint a + sint off \<and> uint a + sint off \<le> uint lim"
proof -
  let ?d = "uint a + sint off"
  have bounds: "- 9223372036854775808 \<le> ?d" "?d < 18446744073709551616"
    using assms(1) sint64_bounds [of off] uint_ge_0 [of a] by linarith+
  have "?d mod 18446744073709551616 = (if 0 \<le> ?d then ?d else ?d + 18446744073709551616)"
  proof (cases "0 \<le> ?d")
    case True
    then show ?thesis using bounds by simp
  next
    case False
    have "(?d + 18446744073709551616) mod 18446744073709551616 = ?d + 18446744073709551616"
      using False bounds by (intro mod_pos_pos_trivial) linarith+
    with False show ?thesis by simp
  qed
  moreover have "a + off \<le> lim \<longleftrightarrow> ?d mod 18446744073709551616 \<le> uint lim"
    by (simp only: word_le_def uint64_plus_sint)
  ultimately show ?thesis using bounds assms(2) by (auto split: if_splits)
qed

lemmas word_order_int = word_less_def word_le_def

section \<open>Sorted lists\<close>

lemma sorted_wrt_mid:
  "sorted_wrt P (xs @ x # ys)
     \<longleftrightarrow> sorted_wrt P xs \<and> sorted_wrt P ys
       \<and> (\<forall>a\<in>set xs. P a x) \<and> (\<forall>b\<in>set ys. P x b) \<and> (\<forall>a\<in>set xs. \<forall>b\<in>set ys. P a b)"
  by (auto simp: sorted_wrt_append)

lemma sorted_wrt_drop_mid:
  "sorted_wrt P (xs @ x # ys) \<Longrightarrow> sorted_wrt P (xs @ ys)"
  by (auto simp: sorted_wrt_append)

lemma sint64_small: "uint (n::u64) < 9223372036854775808 \<Longrightarrow> sint n = uint n"
  using signed_take_bit_int_eq_self [of 63 "uint n"] uint_ge_0 [of n] by (simp add: sint_uint)

lemma sint64_cases: "sint (x :: u64) = (if uint x < 9223372036854775808 then uint x else uint x - 18446744073709551616)"
proof (cases "uint x < 9223372036854775808")
  case True
  then show ?thesis by (simp add: sint64_small)
next
  case False
  have b: "uint x < 18446744073709551616" by (rule uint64_less)
  have "signed_take_bit 63 (uint x) = signed_take_bit 63 (uint x - 18446744073709551616)"
    by (rule signed_take_bit_eq_iff_take_bit_eq [THEN iffD2]) (simp add: take_bit_eq_mod mod_diff_right_eq [symmetric])
  also have "\<dots> = uint x - 18446744073709551616"
    using False b by (intro signed_take_bit_int_eq_self) simp_all
  finally show ?thesis using False by (simp add: sint_uint)
qed

lemma int_div_less_iff: "0 < q \<Longrightarrow> m div q < n \<longleftrightarrow> m < n * (q :: int)"
proof
  assume q: "0 < q" and "m div q < n"
  then have "(m div q + 1) * q \<le> n * q" by (intro mult_right_mono) simp_all
  moreover have "(m div q + 1) * q = m div q * q + q" by (simp add: distrib_right)
  moreover have "m = m div q * q + m mod q" by simp
  ultimately show "m < n * q" using pos_mod_bound [OF q, of m] by linarith
next
  assume q: "0 < q" and m: "m < n * q"
  show "m div q < n"
  proof (rule ccontr)
    assume "\<not> m div q < n"
    then have "n * q \<le> m div q * q" using q by (intro mult_right_mono) simp_all
    moreover have "m = m div q * q + m mod q" by simp
    ultimately show False using pos_mod_sign [OF q, of m] m by linarith
  qed
qed

lemma uint_shifted_1: "k < 64 \<Longrightarrow> uint (push_bit k 1 :: u64) = 2 ^ k"
  unfolding unsigned_push_bit_eq by (simp add: take_bit_of_exp)

lemma uint_all_ones: "k < 64 \<Longrightarrow> uint (push_bit k 1 - 1 :: u64) = 2 ^ k - 1"
proof -
  assume k: "k < 64"
  have "uint (1 :: u64) \<le> uint (push_bit k 1 :: u64)" using uint_shifted_1 [OF k] by simp
  then show ?thesis using uint64_minus_cases [of "push_bit k 1" 1] uint_shifted_1 [OF k] by simp
qed

section \<open>Single bits of words\<close>

lemma bits_bounded: "{i. bit (x :: 'a::len word) i} \<subseteq> {..<LENGTH('a)}"
  using bit_imp_le_length by blast

lemma nat_lowest_bit:
  "0 < n \<Longrightarrow> \<exists>k. bit n k \<and> (\<forall>i<k. \<not> bit n i) \<and> (\<forall>i. bit (n AND (n - 1)) i \<longleftrightarrow> bit n i \<and> i \<noteq> k)"
  for n :: nat
proof (induction n rule: nat_bit_induct)
  case zero
  then show ?case by simp
next
  case (even n)
  then obtain k where k: "bit n k" "\<forall>i<k. \<not> bit n i"
    "\<And>i. bit (n AND (n - 1)) i \<longleftrightarrow> bit n i \<and> i \<noteq> k" by blast
  have e: "2 * n - 1 = 2 * (n - 1) + 1" using even.hyps by simp
  have "bit (2 * n AND (2 * n - 1)) i \<longleftrightarrow> bit (2 * n) i \<and> i \<noteq> Suc k" for i
    using k(3) [of "i - 1"] unfolding e bit_and_iff by (cases i) (auto simp: bit_0 bit_Suc)
  moreover have "\<not> bit (2 * n) i" if "i < Suc k" for i
    using that k(2) by (cases i) (auto simp: bit_0 bit_Suc)
  moreover have "bit (2 * n) (Suc k)" using k(1) by (simp add: bit_Suc)
  ultimately show ?case by blast
next
  case (odd n)
  have "bit (Suc (2 * n) AND (Suc (2 * n) - 1)) i \<longleftrightarrow> bit (Suc (2 * n)) i \<and> i \<noteq> 0" for i
    unfolding bit_and_iff by (cases i) (auto simp: bit_0 bit_Suc)
  moreover have "bit (Suc (2 * n)) 0" by (simp add: bit_0)
  ultimately show ?case by blast
qed

lemma lowest_bit:
  assumes "v \<noteq> (0 :: 'a::len word)"
  obtains k where "bit v k" and "\<forall>i<k. \<not> bit v i" and "\<forall>i. bit (v AND (v - 1)) i \<longleftrightarrow> bit v i \<and> i \<noteq> k"
proof -
  have e: "unat (v - 1) = unat v - 1" using assms by (rule unat_minus_one)
  have b: "bit w i \<longleftrightarrow> bit (unat w) i" for w :: "'a word" and i
    by (auto simp: bit_unsigned_iff possible_bit_def dest: bit_imp_le_length)
  have "0 < unat v" using assms by (simp add: unat_gt_0)
  from nat_lowest_bit [OF this] obtain k where
    k: "bit (unat v) k" "\<forall>i<k. \<not> bit (unat v) i"
      "\<And>i. bit (unat v AND (unat v - 1)) i \<longleftrightarrow> bit (unat v) i \<and> i \<noteq> k" by blast
  have "bit (v AND (v - 1)) i \<longleftrightarrow> bit v i \<and> i \<noteq> k" for i
    using k(3) [of i] unfolding bit_and_iff b [of v] b [of "v - 1"] e .
  then show ?thesis using that k(1,2) b by blast
qed

lemma isolate_lowest:
  assumes "bit (v :: 'a::len word) k" and "\<forall>i<k. \<not> bit v i"
  shows "v AND - v = push_bit k 1"
proof (rule bit_word_eqI)
  fix i assume "i < LENGTH('a)"
  have "v \<noteq> 0" using assms(1) by auto
  then obtain j where j: "bit v j" "\<forall>i<j. \<not> bit v i" "\<forall>i. bit (v AND (v - 1)) i \<longleftrightarrow> bit v i \<and> i \<noteq> j"
    using lowest_bit by blast
  have "j = k" using assms j(1,2) by (metis linorder_neqE_nat)
  have "- v = NOT (v - 1)" by (rule minus_eq_not_minus_1)
  then have "bit (v AND - v) i \<longleftrightarrow> bit v i \<and> \<not> bit (v - 1) i"
    using bit_imp_le_length [of v i] by (auto simp: bit_and_iff bit_not_iff possible_bit_def)
  also have "\<dots> \<longleftrightarrow> i = k" using j(3) [rule_format, of i] j(1) \<open>j = k\<close> by (auto simp: bit_and_iff)
  also have "\<dots> \<longleftrightarrow> bit (push_bit k 1 :: 'a word) i"
    using \<open>i < LENGTH('a)\<close> unfolding bit_push_bit_iff by (auto simp: bit_1_iff possible_bit_def)
  finally show "bit (v AND - v) i \<longleftrightarrow> bit (push_bit k 1 :: 'a word) i" .
qed

lemma highest_bit:
  assumes "x \<noteq> (0 :: 'a::len word)"
  shows "bit x (Max {i. bit x i})" and "\<forall>i>Max {i. bit x i}. \<not> bit x i"
proof -
  have f: "finite {i. bit x i}" using finite_subset [OF bits_bounded [of x]] by simp
  have "{i. bit x i} \<noteq> {}" using assms by (auto simp: bit_eq_iff)
  then show "bit x (Max {i. bit x i})" "\<forall>i>Max {i. bit x i}. \<not> bit x i"
    using Max_in [OF f] Max_ge [OF f] by fastforce+
qed

lemma power_of_two:
  assumes "(x :: 'a::len word) \<noteq> 0" and "x AND (x - 1) = 0"
  obtains k where "x = push_bit k 1" "k < LENGTH('a)"
proof -
  obtain k where k: "bit x k" "\<forall>i<k. \<not> bit x i" "\<forall>i. bit (x AND (x - 1)) i \<longleftrightarrow> bit x i \<and> i \<noteq> k"
    by (rule lowest_bit [OF assms(1)])
  have b: "bit x i \<longleftrightarrow> i = k" for i
    using k(1) spec [OF k(3), of i] assms(2) by (cases "i = k") simp_all
  have kl: "k < LENGTH('a)" using k(1) by (rule bit_imp_le_length)
  have "x = push_bit k 1"
  proof (rule bit_word_eqI)
    fix i assume i: "i < LENGTH('a)"
    have "bit (push_bit k 1 :: 'a word) i \<longleftrightarrow> i = k"
      using i unfolding bit_push_bit_iff by (auto simp: bit_1_iff possible_bit_def)
    then show "bit x i = bit (push_bit k 1 :: 'a word) i" using b by blast
  qed
  then show ?thesis using that kl by blast
qed

lemma round_down:
  "uint (x AND NOT (mask k) :: 'a::len word) = uint x - uint x mod 2 ^ k"
proof -
  have "x AND NOT (mask k) = x AND NOT (take_bit k x)"
    by (rule bit_word_eqI) (auto simp: bit_and_iff bit_not_iff bit_mask_iff bit_take_bit_iff possible_bit_def)
  also have "\<dots> = x - take_bit k x"
    by (rule disjunctive_diff [symmetric]) (simp add: bit_take_bit_iff)
  finally have e: "x AND NOT (mask k) = x - take_bit k x" .
  have t: "uint (take_bit k x) = uint x mod 2 ^ k"
    unfolding unsigned_take_bit_eq by (rule take_bit_eq_mod)
  have "uint x mod 2 ^ k \<le> uint x" by (rule zmod_le_nonneg_dividend) simp
  then have "uint (x - take_bit k x) = uint x - uint (take_bit k x)"
    by (intro uint_sub_lem [THEN iffD1]) (simp add: t)
  then show ?thesis by (simp add: e t)
qed

lemma uint32_Suc: "uint x + 1 < 4294967296 \<Longrightarrow> uint (x + 1 :: u32) = uint x + 1"
  by (simp add: uint_word_ariths)

lemma uint32_pred: "0 < uint x \<Longrightarrow> uint (x - 1 :: u32) = uint x - 1"
  using uint32_less [of x] by (simp add: uint_word_ariths)

lemma uint_ucast_u32: "uint (ucast (x :: u32) :: u64) = uint x"
  by (simp add: unsigned_ucast_eq take_bit_int_eq_self order_less_trans [OF uint32_less])

lemma unat32_less: "unat (x :: u32) < 2 ^ 32"
  using unsigned_less [of x] by simp

lemma ucast_u16: "uint (x :: u32) < 65536 \<Longrightarrow> ucast (ucast x :: u16) = x"
  unfolding word_uint_eq_iff by (simp add: unsigned_ucast_eq unsigned_take_bit_eq take_bit_int_eq_self)

lemma find_filter: "find P (filter Q xs) = find (\<lambda>x. Q x \<and> P x) xs"
  by (induction xs) auto

lemma find_cong_set: "(\<And>x. x \<in> set xs \<Longrightarrow> P x = Q x) \<Longrightarrow> find P xs = find Q xs"
  by (induction xs) auto

lemma find_member: "find P xs = Some x \<Longrightarrow> x \<in> set xs \<and> P x"
  by (induction xs) (auto split: if_splits)

end
