(* ===== verification/Regions.thy ===== *)
theory Regions
  imports Prelude
begin

text \<open>
  The memory regions the bounds checker keeps (\<open>struct tree_node\<close> of
  \<^verbatim>\<open>src/src/runtime/generic/bcheck.c\<close> without its links), read as intervals of
  addresses, and the interface through which the checking functions use the tree of
  regions: the locale \<open>region_store\<close>, with the facts the checks rest on proved once
  from its laws.
\<close>

section \<open>Nodes\<close>

record region =
  rg_start :: u64
  rg_size :: u64
  rg_type :: u8
  rg_invalid :: bool

definition CPRIME_TYPE_NONE :: u8 where "CPRIME_TYPE_NONE = 0"
definition CPRIME_TYPE_MALLOC :: u8 where "CPRIME_TYPE_MALLOC = 1"
definition CPRIME_TYPE_CALLOC :: u8 where "CPRIME_TYPE_CALLOC = 2"
definition CPRIME_TYPE_REALLOC :: u8 where "CPRIME_TYPE_REALLOC = 3"
definition CPRIME_TYPE_MEMALIGN :: u8 where "CPRIME_TYPE_MEMALIGN = 4"
definition CPRIME_TYPE_STRDUP :: u8 where "CPRIME_TYPE_STRDUP = 5"

definition new_node :: "u64 \<Rightarrow> u64 \<Rightarrow> region" where
  "new_node addr sz =
     \<lparr>rg_start = addr, rg_size = sz, rg_type = CPRIME_TYPE_NONE, rg_invalid = False\<rparr>"

section \<open>Regions as intervals\<close>

definition rg_end :: "region \<Rightarrow> int" where
  "rg_end r = uint (rg_start r) + uint (rg_size r)"

definition covers :: "region \<Rightarrow> u64 \<Rightarrow> bool" where
  "covers r addr \<longleftrightarrow> uint (rg_start r) \<le> uint addr \<and> uint addr < rg_end r"

definition wf_region :: "region \<Rightarrow> bool" where
  "wf_region r \<longleftrightarrow> 0 < uint (rg_size r) \<and> rg_end r < 18446744073709551616"

definition wf_regions :: "region list \<Rightarrow> bool" where
  "wf_regions xs \<longleftrightarrow>
     (\<forall>x\<in>set xs. wf_region x) \<and> sorted_wrt (\<lambda>x y. rg_end x \<le> uint (rg_start y)) xs"

definition fresh_range :: "u64 \<Rightarrow> u64 \<Rightarrow> region list \<Rightarrow> bool" where
  "fresh_range addr sz xs \<longleftrightarrow>
     (\<forall>r\<in>set xs. rg_end r \<le> uint addr \<or> uint addr + uint sz \<le> uint (rg_start r))"

lemma uint_rg_end: "wf_region r \<Longrightarrow> uint (rg_start r + rg_size r) = rg_end r"
  by (simp add: wf_region_def rg_end_def uint64_plus_small)

lemma wf_regions_mid:
  "wf_regions (xs @ r # ys) \<longleftrightarrow>
     wf_regions (xs @ ys) \<and> wf_region r \<and> (\<forall>x\<in>set xs. rg_end x \<le> uint (rg_start r))
     \<and> (\<forall>y\<in>set ys. rg_end r \<le> uint (rg_start y))"
  by (auto simp: wf_regions_def sorted_wrt_append)

lemma wf_regions_append:
  "wf_regions (xs @ ys) \<longleftrightarrow>
     wf_regions xs \<and> wf_regions ys \<and> (\<forall>x\<in>set xs. \<forall>y\<in>set ys. rg_end x \<le> uint (rg_start y))"
  by (auto simp: wf_regions_def sorted_wrt_append)

lemma wf_region_bounds:
  "wf_region r \<Longrightarrow> uint (rg_start r) < rg_end r"
  by (simp add: wf_region_def rg_end_def)

lemma wf_regions_disjoint:
  assumes "wf_regions xs" and "r \<in> set xs" and "s \<in> set xs" and "r \<noteq> s"
  shows "rg_end r \<le> uint (rg_start s) \<or> rg_end s \<le> uint (rg_start r)"
  using assms by (induction xs) (auto simp: wf_regions_def)

lemma wf_regionsD: "wf_regions xs \<Longrightarrow> r \<in> set xs \<Longrightarrow> wf_region r"
  by (simp add: wf_regions_def)

lemma covers_unique:
  assumes "wf_regions xs" and "r \<in> set xs" and "s \<in> set xs" and "covers r a" and "covers s a"
  shows "r = s"
  using wf_regions_disjoint [OF assms(1-3)] assms(4,5) by (force simp: covers_def)

lemma end_unique:
  assumes "wf_regions xs" and "r \<in> set xs" and "s \<in> set xs" and "rg_end r = rg_end s"
  shows "r = s"
  using wf_regions_disjoint [OF assms(1-3)] assms wf_region_bounds [of r] wf_region_bounds [of s]
  by (force dest: wf_regionsD)

lemma start_unique:
  assumes "wf_regions xs" and "r \<in> set xs" and "s \<in> set xs" and "rg_start r = rg_start s"
  shows "r = s"
  using wf_regions_disjoint [OF assms(1-3)] assms wf_region_bounds [of r] wf_region_bounds [of s]
  by (force dest: wf_regionsD)

lemma offset_below:
  assumes "wf_region r"
  shows "p - rg_start r < rg_size r \<longleftrightarrow> covers r p"
proof -
  have "p - rg_start r < rg_size r \<longleftrightarrow> uint (p - rg_start r) < uint (rg_size r)"
    by (rule word_less_def)
  also have "\<dots> \<longleftrightarrow> covers r p"
    using assms uint64_less [of p] uint_ge_0 [of p]
    unfolding uint64_minus_cases covers_def rg_end_def wf_region_def by (simp; linarith)
  finally show ?thesis .
qed

lemma offset_at_most:
  assumes "wf_region r"
  shows "p - rg_start r \<le> rg_size r \<longleftrightarrow> covers r p \<or> uint p = rg_end r"
proof -
  have "p - rg_start r \<le> rg_size r \<longleftrightarrow> uint (p - rg_start r) \<le> uint (rg_size r)"
    by (rule word_le_def)
  also have "\<dots> \<longleftrightarrow> covers r p \<or> uint p = rg_end r"
    using assms uint64_less [of p] uint_ge_0 [of p]
    unfolding uint64_minus_cases covers_def rg_end_def wf_region_def by (simp; linarith)
  finally show ?thesis .
qed

section \<open>The interface of the region tree\<close>

text \<open>
  The search every check starts with, over whatever keeps the regions: try the root, then
  the region around the address, then the region that ends at it.
\<close>

definition locate_with ::
  "('t \<Rightarrow> region option) \<Rightarrow> (u64 \<Rightarrow> 't \<Rightarrow> 't) \<Rightarrow> (u64 \<Rightarrow> 't \<Rightarrow> 't) \<Rightarrow> u64 \<Rightarrow> 't \<Rightarrow> 't" where
  "locate_with peek seek seek_end p t =
     (let miss = (\<lambda>t. case peek t of None \<Rightarrow> False | Some n \<Rightarrow> p - rg_start n \<ge> rg_size n);
          t1 = (if miss t then seek p t else t)
      in if miss t1 then seek_end p t1 else t1)"

locale region_store =
  fixes regs :: "'t \<Rightarrow> region list"
    and inv :: "'t \<Rightarrow> bool"
    and peek :: "'t \<Rightarrow> region option"
    and seek :: "u64 \<Rightarrow> 't \<Rightarrow> 't"
    and seek_end :: "u64 \<Rightarrow> 't \<Rightarrow> 't"
    and ins :: "bool \<Rightarrow> u64 \<Rightarrow> u64 \<Rightarrow> 't \<Rightarrow> nat \<Rightarrow> ('t \<times> nat) option"
    and del :: "u64 \<Rightarrow> 't \<Rightarrow> nat \<Rightarrow> 't \<times> nat"
  assumes inv_regions: "inv t \<Longrightarrow> wf_regions (regs t)"
    and top_regs: "peek t = Some r \<Longrightarrow> r \<in> set (regs t)"
    and top_None: "peek t = None \<longleftrightarrow> regs t = []"
    and seek_regs: "regs (seek a t) = regs t"
    and seek_inv: "inv t \<Longrightarrow> inv (seek a t)"
    and seek_end_regs: "regs (seek_end a t) = regs t"
    and seek_end_inv: "inv t \<Longrightarrow> inv (seek_end a t)"
    and seek_covers: "inv t \<Longrightarrow> r \<in> set (regs t) \<Longrightarrow> covers r a \<Longrightarrow> peek (seek a t) = Some r"
    and seek_end_top:
      "inv t \<Longrightarrow> r \<in> set (regs t) \<Longrightarrow> uint a = rg_end r \<Longrightarrow> peek (seek_end a t) = Some r"
    and ins_fresh: "inv t \<Longrightarrow> wf_region (new_node a sz) \<Longrightarrow> fresh_range a sz (regs t) \<Longrightarrow>
      ins mem a sz t fl = Some (t', fl') \<Longrightarrow>
      inv t' \<and> set (regs t') = insert (new_node a sz) (set (regs t)) \<and> peek t' = Some (new_node a sz)"
    and ins_covered: "inv t \<Longrightarrow> r \<in> set (regs t) \<Longrightarrow> covers r a \<Longrightarrow>
      ins mem a sz t fl = Some (seek a t, fl)"
    and ins_memory: "ins mem a sz t fl = None \<Longrightarrow> fl = 0 \<and> \<not> mem"
    and del_regs: "inv t \<Longrightarrow> inv (fst (del a t fl))
      \<and> set (regs (fst (del a t fl))) = {r \<in> set (regs t). rg_start r \<noteq> a}"
begin

lemma locate_regs: "regs (locate_with peek seek seek_end p t) = regs t"
  by (simp add: locate_with_def Let_def seek_regs seek_end_regs)

lemma locate_inv: "inv t \<Longrightarrow> inv (locate_with peek seek seek_end p t)"
  by (simp add: locate_with_def Let_def seek_inv seek_end_inv)

lemma top_wf: "inv t \<Longrightarrow> peek t = Some n \<Longrightarrow> wf_region n"
  using inv_regions top_regs wf_regionsD by blast

lemma locate_covers:
  assumes "inv t" and "r \<in> set (regs t)" and "covers r p"
  shows "peek (locate_with peek seek seek_end p t) = Some r"
proof (cases "peek t")
  case None
  with assms(2) show ?thesis by (simp add: top_None)
next
  case (Some n)
  have n: "p - rg_start n \<ge> rg_size n \<longleftrightarrow> \<not> covers n p"
    using offset_below [OF top_wf [OF assms(1) Some]] by (simp add: linorder_not_less [symmetric])
  have r: "\<not> p - rg_start r \<ge> rg_size r"
    using offset_below [of r p] assms inv_regions wf_regionsD by (force simp: linorder_not_le)
  have "covers n p \<Longrightarrow> n = r"
    using covers_unique [OF inv_regions [OF assms(1)] top_regs [OF Some] assms(2)] assms(3) by simp
  with Some n r seek_covers [OF assms] show ?thesis
    by (auto simp: locate_with_def Let_def)
qed

lemma locate_end:
  assumes "inv t" and "r \<in> set (regs t)" and "uint p = rg_end r"
    and "\<forall>x\<in>set (regs t). \<not> covers x p"
  shows "peek (locate_with peek seek seek_end p t) = Some r"
proof -
  have miss: "p - rg_start n \<ge> rg_size n" if "peek t' = Some n" "regs t' = regs t" for n t'
    using offset_below [of n p] wf_regionsD [OF inv_regions [OF assms(1)]] top_regs that assms(4)
    by (metis linorder_not_less)
  have t1: "peek (seek p t) \<noteq> None" "peek t \<noteq> None"
    using assms(2) by (auto simp: top_None seek_regs)
  have "peek (seek_end p (seek p t)) = Some r"
    using assms by (intro seek_end_top) (auto simp: seek_inv seek_regs)
  then show ?thesis
    using t1 miss [of t] miss [of "seek p t"] by (auto simp: locate_with_def Let_def seek_regs)
qed

lemma locate_miss:
  assumes "inv t" and "\<forall>x\<in>set (regs t). \<not> covers x p \<and> uint p \<noteq> rg_end x"
    and "peek (locate_with peek seek seek_end p t) = Some n"
  shows "\<not> p - rg_start n \<le> rg_size n"
proof -
  have "n \<in> set (regs t)" using top_regs [OF assms(3)] by (simp add: locate_regs)
  then show ?thesis
    using assms(2) offset_at_most wf_regionsD [OF inv_regions [OF assms(1)]] by blast
qed

text \<open>Inserting an address range and deleting it again leaves the regions as they were.\<close>

lemma ins_del:
  assumes "inv t" and "wf_region (new_node a sz)" and "fresh_range a sz (regs t)"
    and "ins mem a sz t fl = Some (t', fl')"
  shows "set (regs (fst (del a t' fl'))) = set (regs t)"
proof -
  have "rg_start r \<noteq> a" if r: "r \<in> set (regs t)" for r
  proof
    assume s: "rg_start r = a"
    have "wf_region r" using inv_regions [OF assms(1)] r by (rule wf_regionsD)
    moreover have "rg_end r \<le> uint a \<or> uint a + uint sz \<le> uint (rg_start r)"
      using assms(3) r by (simp add: fresh_range_def)
    ultimately show False
      using assms(2) s by (auto simp: wf_region_def new_node_def rg_end_def)
  qed
  then show ?thesis
    using ins_fresh [OF assms] del_regs [of t' a fl'] by (auto simp: new_node_def)
qed

end

end
