(* ===== verification/RegionTree.thy ===== *)
theory RegionTree
  imports Regions
begin

text \<open>
  The tree of memory regions of the bounds checker, \<^verbatim>\<open>src/src/runtime/generic/bcheck.c\<close>:
  \<open>struct tree_node\<close>, the three comparison macros, the top-down \<open>splay\<close> and
  \<open>splay_end\<close>, \<open>splay_insert\<close> and \<open>splay_delete\<close>.  A node's \<open>left\<close> and
  \<open>right\<close> are the subtrees of a \<open>Node\<close>; its other fields are the record \<open>region\<close>.
  The pointers \<open>l\<close> and \<open>r\<close> of the splaying loop, which point at the last node hung
  below the stack-allocated header \<open>N\<close>, are the two lists of nodes hung so far, last
  one first; the assembly step plugs the subtrees of the final node into them.
\<close>

section \<open>Comparisons\<close>

definition compare :: "u64 \<Rightarrow> region \<Rightarrow> int" where
  "compare start t =
     (if start < rg_start t then -1
      else if start \<ge> rg_start t + rg_size t then 1 else 0)"

definition compare_end :: "u64 \<Rightarrow> region \<Rightarrow> int" where
  "compare_end start t =
     (let tend = rg_start t + rg_size t
      in if start < tend then -1 else if start > tend then 1 else 0)"

definition compare_destroy :: "u64 \<Rightarrow> region \<Rightarrow> int" where
  "compare_destroy start t =
     (if start < rg_start t then -1 else if start > rg_start t then 1 else 0)"

section \<open>Top-down splaying\<close>

type_synonym left_spine = "(region tree \<times> region) list"
type_synonym right_spine = "(region \<times> region tree) list"

fun plug_left :: "left_spine \<Rightarrow> region tree \<Rightarrow> region tree" where
  "plug_left [] x = x"
| "plug_left ((a, n) # L) x = plug_left L (Node a n x)"

fun plug_right :: "right_spine \<Rightarrow> region tree \<Rightarrow> region tree" where
  "plug_right [] x = x"
| "plug_right ((n, b) # R) x = plug_right R (Node x n b)"

definition assemble :: "left_spine \<Rightarrow> right_spine \<Rightarrow> region tree \<Rightarrow> region \<Rightarrow> region tree \<Rightarrow> region tree" where
  "assemble L R a n b = Node (plug_left L a) n (plug_right R b)"

function splay_loop ::
  "(region \<Rightarrow> int) \<Rightarrow> left_spine \<Rightarrow> right_spine \<Rightarrow> region tree \<Rightarrow> region tree" where
  "splay_loop cmp L R Leaf = Leaf"
| "splay_loop cmp L R (Node a n b) =
     (if cmp n < 0 then
        (case a of
           Leaf \<Rightarrow> assemble L R a n b
         | Node ya yn yb \<Rightarrow>
             if cmp yn < 0 then
               (if ya = Leaf then assemble L R ya yn (Node yb n b)
                else splay_loop cmp L ((yn, Node yb n b) # R) ya)
             else splay_loop cmp L ((n, b) # R) a)
      else if cmp n > 0 then
        (case b of
           Leaf \<Rightarrow> assemble L R a n b
         | Node ya yn yb \<Rightarrow>
             if cmp yn > 0 then
               (if yb = Leaf then assemble L R (Node a n ya) yn yb
                else splay_loop cmp ((Node a n ya, yn) # L) R yb)
             else splay_loop cmp ((a, n) # L) R b)
      else assemble L R a n b)"
  by pat_completeness auto
termination by (relation "measure (\<lambda>(cmp, L, R, t). size t)") auto

declare splay_loop.simps(2) [simp del]

definition splay :: "u64 \<Rightarrow> region tree \<Rightarrow> region tree" where
  "splay addr t = (if t = Leaf then t else splay_loop (compare addr) [] [] t)"

definition splay_end :: "u64 \<Rightarrow> region tree \<Rightarrow> region tree" where
  "splay_end addr t = (if t = Leaf then t else splay_loop (compare_end addr) [] [] t)"

section \<open>Insertion and deletion\<close>

text \<open>
  A node comes from the list of nodes deleted earlier (\<open>tree_free_list\<close>, of which only
  the length matters: every field of a recycled node is overwritten) or from
  \<open>BOUND_MALLOC\<close>; \<open>mem\<close> says whether that call succeeds.  The result \<open>None\<close> is
  the call of \<open>bound_alloc_error\<close>, which ends the process.
\<close>

definition splay_insert ::
  "bool \<Rightarrow> u64 \<Rightarrow> u64 \<Rightarrow> region tree \<Rightarrow> nat \<Rightarrow> (region tree \<times> nat) option" where
  "splay_insert mem addr sz t free_list =
     (let t1 = splay addr t in
      case t1 of
        Leaf \<Rightarrow>
          if free_list = 0 \<and> \<not> mem then None
          else Some (Node Leaf (new_node addr sz) Leaf, free_list - 1)
      | Node l n r \<Rightarrow>
          if compare addr n = 0 then Some (t1, free_list)
          else if free_list = 0 \<and> \<not> mem then None
          else if compare addr n < 0 then
            Some (Node l (new_node addr sz) (Node Leaf n r), free_list - 1)
          else Some (Node (Node l n Leaf) (new_node addr sz) r, free_list - 1))"

definition splay_delete :: "u64 \<Rightarrow> region tree \<Rightarrow> nat \<Rightarrow> region tree \<times> nat" where
  "splay_delete addr t free_list =
     (case splay addr t of
        Leaf \<Rightarrow> (Leaf, free_list)
      | Node l n r \<Rightarrow>
          if compare_destroy addr n = 0 then
            (if l = Leaf then (r, Suc free_list)
             else case splay addr l of
                 Leaf \<Rightarrow> (r, Suc free_list) \<comment> \<open>a splayed node is a node: not reached\<close>
               | Node xl xn xr \<Rightarrow> (Node xl xn r, Suc free_list))
          else (Node l n r, free_list))"

section \<open>Splaying only rotates\<close>

fun left_seq :: "left_spine \<Rightarrow> region list" where
  "left_seq [] = []"
| "left_seq ((a, n) # L) = left_seq L @ inorder a @ [n]"

fun right_seq :: "right_spine \<Rightarrow> region list" where
  "right_seq [] = []"
| "right_seq ((n, b) # R) = n # inorder b @ right_seq R"

lemma inorder_plug_left [inorder_simps]: "inorder (plug_left L x) = left_seq L @ inorder x"
  by (induction L x rule: plug_left.induct) auto

lemma inorder_plug_right [inorder_simps]: "inorder (plug_right R x) = inorder x @ right_seq R"
  by (induction R x rule: plug_right.induct) auto

lemma inorder_assemble [inorder_simps]:
  "inorder (assemble L R a n b) = left_seq L @ inorder a @ n # inorder b @ right_seq R"
  by (simp add: assemble_def inorder_simps)

lemma inorder_splay_loop [inorder_simps]:
  "t \<noteq> Leaf \<Longrightarrow> inorder (splay_loop cmp L R t) = left_seq L @ inorder t @ right_seq R"
proof (induction cmp L R t rule: splay_loop.induct)
  case (2 cmp L R a n b)
  then show ?case
    by (subst splay_loop.simps(2)) (auto simp: inorder_simps split: tree.split)
qed simp

lemma splay_loop_Leaf [simp]: "splay_loop cmp L R t = Leaf \<longleftrightarrow> t = Leaf"
proof (induction cmp L R t rule: splay_loop.induct)
  case (2 cmp L R a n b)
  then show ?case
    by (subst splay_loop.simps(2)) (auto simp: assemble_def split: tree.split)
qed simp

lemma splay_Leaf [simp]: "splay addr t = Leaf \<longleftrightarrow> t = Leaf"
  by (simp add: splay_def)

lemma splay_end_Leaf [simp]: "splay_end addr t = Leaf \<longleftrightarrow> t = Leaf"
  by (simp add: splay_end_def)

lemma inorder_splay [simp, inorder_simps]: "inorder (splay addr t) = inorder t"
  by (auto simp: splay_def inorder_simps)

lemma inorder_splay_end [simp, inorder_simps]: "inorder (splay_end addr t) = inorder t"
  by (auto simp: splay_end_def inorder_simps)

section \<open>What splaying brings to the root\<close>

text \<open>
  Along the inorder sequence the comparison with the key goes down from \<open>1\<close> to \<open>-1\<close>
  when the regions are sorted; everything below holds for any such comparison.
\<close>

definition descending :: "(region \<Rightarrow> int) \<Rightarrow> region list \<Rightarrow> bool" where
  "descending cmp xs = sorted_wrt (\<lambda>x y. cmp y \<le> cmp x) xs"

definition split_at_root :: "(region \<Rightarrow> int) \<Rightarrow> region tree \<Rightarrow> bool" where
  "split_at_root cmp t =
     (case t of
        Leaf \<Rightarrow> True
      | Node l n r \<Rightarrow>
          (cmp n < 0 \<longrightarrow> (\<forall>x\<in>set (inorder l). 0 < cmp x)) \<and>
          (0 < cmp n \<longrightarrow> (\<forall>x\<in>set (inorder r). cmp x < 0)))"

lemma descending_mid:
  "descending cmp (xs @ y # ys) \<longleftrightarrow>
     descending cmp xs \<and> descending cmp ys \<and> (\<forall>x\<in>set xs. cmp y \<le> cmp x)
     \<and> (\<forall>z\<in>set ys. cmp z \<le> cmp y) \<and> (\<forall>x\<in>set xs. \<forall>z\<in>set ys. cmp z \<le> cmp x)"
  by (auto simp: descending_def sorted_wrt_append)

lemma descending_below:
  "descending cmp (xs @ y # ys) \<Longrightarrow> cmp y < 0 \<Longrightarrow> z \<in> set ys \<Longrightarrow> cmp z < 0"
  by (force simp: descending_mid)

lemma descending_above:
  "descending cmp (xs @ y # ys) \<Longrightarrow> 0 < cmp y \<Longrightarrow> x \<in> set xs \<Longrightarrow> 0 < cmp x"
  by (force simp: descending_mid)

lemma split_at_root_assemble:
  assumes "cmp n < 0 \<Longrightarrow> a = Leaf" and "0 < cmp n \<Longrightarrow> b = Leaf"
    and "\<forall>x\<in>set (left_seq L). 0 < cmp x" and "\<forall>x\<in>set (right_seq R). cmp x < 0"
  shows "split_at_root cmp (assemble L R a n b)"
  using assms by (auto simp: split_at_root_def assemble_def inorder_simps simp del: set_inorder)

lemma splay_loop_splits:
  assumes "descending cmp (inorder t)"
    and "\<forall>x\<in>set (left_seq L). 0 < cmp x" and "\<forall>x\<in>set (right_seq R). cmp x < 0"
  shows "split_at_root cmp (splay_loop cmp L R t)"
  using assms
proof (induction cmp L R t rule: splay_loop.induct)
  case (1 cmp L R)
  then show ?case by (simp add: split_at_root_def)
next
  case (2 cmp L R a n b)
  note unfold = splay_loop.simps(2) [of cmp L R a n b]
  have d: "descending cmp (inorder a @ n # inorder b)" using "2.prems"(1) by simp
  consider (lt) "cmp n < 0" | (gt) "0 < cmp n" | (eq) "cmp n = 0" by linarith
  then show ?case
  proof cases
    case lt
    show ?thesis
    proof (cases a)
      case Leaf
      show ?thesis
        using lt Leaf "2.prems" by (subst unfold) (simp add: split_at_root_assemble)
    next
      case (Node ya yn yb)
      have da: "descending cmp (inorder ya @ yn # inorder yb)"
        using descending_mid [of cmp "inorder a" n "inorder b"] d Node by simp
      have nb: "\<forall>x\<in>set (inorder b). cmp x < 0" using descending_below [OF d lt] by blast
      have yb: "cmp yn < 0 \<Longrightarrow> \<forall>x\<in>set (inorder yb). cmp x < 0" using descending_below [OF da] by blast
      have dya: "descending cmp (inorder ya)" using da by (simp add: descending_mid)
      show ?thesis
      proof (cases "cmp yn < 0 \<and> ya \<noteq> Leaf")
        case True
        have "split_at_root cmp (splay_loop cmp L ((yn, Node yb n b) # R) ya)"
          using "2.IH"(1) [OF lt Node] True lt nb yb dya "2.prems"
          by (auto simp del: set_inorder)
        then show ?thesis using True lt Node by (subst unfold) simp
      next
        case False
        have "split_at_root cmp (splay_loop cmp L ((n, b) # R) a)" if "\<not> cmp yn < 0"
          using "2.IH"(2) [OF lt Node that] lt nb da Node "2.prems"
          by (auto simp del: set_inorder)
        then show ?thesis using False lt Node "2.prems"
          by (subst unfold) (auto simp: split_at_root_assemble)
      qed
    qed
  next
    case gt
    show ?thesis
    proof (cases b)
      case Leaf
      show ?thesis
        using gt Leaf "2.prems" by (subst unfold) (simp add: split_at_root_assemble)
    next
      case (Node ya yn yb)
      have db: "descending cmp (inorder ya @ yn # inorder yb)"
        using descending_mid [of cmp "inorder a" n "inorder b"] d Node by simp
      have na: "\<forall>x\<in>set (inorder a). 0 < cmp x" using descending_above [OF d gt] by blast
      have ya: "0 < cmp yn \<Longrightarrow> \<forall>x\<in>set (inorder ya). 0 < cmp x" using descending_above [OF db] by blast
      have dyb: "descending cmp (inorder yb)" using db by (simp add: descending_mid)
      have ngt: "\<not> cmp n < 0" using gt by simp
      show ?thesis
      proof (cases "0 < cmp yn \<and> yb \<noteq> Leaf")
        case True
        have "split_at_root cmp (splay_loop cmp ((Node a n ya, yn) # L) R yb)"
          using "2.IH"(3) [OF ngt gt Node] True gt na ya dyb "2.prems"
          by (auto simp del: set_inorder)
        then show ?thesis using True gt Node by (subst unfold) simp
      next
        case False
        have "split_at_root cmp (splay_loop cmp ((a, n) # L) R b)" if "\<not> 0 < cmp yn"
          using "2.IH"(4) [OF ngt gt Node that] gt na db Node "2.prems"
          by (auto simp del: set_inorder)
        then show ?thesis using False gt Node "2.prems"
          by (subst unfold) (auto simp: split_at_root_assemble)
      qed
    qed
  next
    case eq
    with "2.prems" show ?thesis by (simp add: unfold split_at_root_assemble)
  qed
qed

lemma splay_loop_finds:
  assumes d: "descending cmp (inorder t)" and hit: "\<exists>x\<in>set (inorder t). cmp x = 0"
    and root: "splay_loop cmp [] [] t = Node l n r"
  shows "cmp n = 0"
proof -
  have ne: "t \<noteq> Leaf" using root by auto
  have seq: "inorder t = inorder l @ n # inorder r"
    using inorder_splay_loop [OF ne, of cmp "[]" "[]"] root by simp
  have split: "split_at_root cmp (Node l n r)"
    using splay_loop_splits [OF d, of "[]" "[]"] root by simp
  from hit seq have "\<exists>x\<in>set (inorder l @ n # inorder r). cmp x = 0" by metis
  with split d [unfolded seq] show ?thesis
    unfolding split_at_root_def by (force simp: descending_mid)
qed

lemma splay_loop_max:
  assumes d: "descending cmp (inorder t)" and above: "\<forall>x\<in>set (inorder t). 0 < cmp x"
    and root: "splay_loop cmp [] [] t = Node l n r"
  shows "r = Leaf"
proof -
  have ne: "t \<noteq> Leaf" using root by auto
  have seq: "inorder t = inorder l @ n # inorder r"
    using inorder_splay_loop [OF ne, of cmp "[]" "[]"] root by simp
  have "split_at_root cmp (Node l n r)"
    using splay_loop_splits [OF d, of "[]" "[]"] root by simp
  with above seq have "\<forall>x\<in>set (inorder r). cmp x < 0 \<and> 0 < cmp x"
    unfolding split_at_root_def by (auto simp del: set_inorder)
  then have "\<forall>x\<in>set (inorder r). False" by fastforce
  then show ?thesis by (cases r) auto
qed

section \<open>Comparisons and intervals\<close>

definition wf_tree :: "region tree \<Rightarrow> bool" where
  "wf_tree t = wf_regions (inorder t)"

fun root :: "region tree \<Rightarrow> region option" where
  "root Leaf = None"
| "root (Node l n r) = Some n"

lemma compare_cases:
  "wf_region r \<Longrightarrow>
     compare addr r = (if uint addr < uint (rg_start r) then -1
                       else if rg_end r \<le> uint addr then 1 else 0)"
  by (simp add: compare_def word_order_int uint_rg_end)

lemma compare_end_cases:
  "wf_region r \<Longrightarrow>
     compare_end addr r = (if uint addr < rg_end r then -1
                           else if rg_end r < uint addr then 1 else 0)"
  by (simp add: compare_end_def word_order_int uint_rg_end)

lemma compare_covers: "wf_region r \<Longrightarrow> compare addr r = 0 \<longleftrightarrow> covers r addr"
  by (auto simp: compare_cases covers_def)

lemma compare_antimono:
  assumes "wf_region x" and "wf_region y" and "rg_end x \<le> uint (rg_start y)"
  shows "compare addr y \<le> compare addr x" and "compare_end addr y \<le> compare_end addr x"
  using assms wf_region_bounds [of x] wf_region_bounds [of y]
  by (auto simp: compare_cases compare_end_cases)

lemma descending_compare: "wf_regions xs \<Longrightarrow> descending (compare addr) xs"
  unfolding wf_regions_def descending_def
  by (elim conjE, erule sorted_wrt_mono_rel [rotated]) (auto intro: compare_antimono)

lemma descending_compare_end: "wf_regions xs \<Longrightarrow> descending (compare_end addr) xs"
  unfolding wf_regions_def descending_def
  by (elim conjE, erule sorted_wrt_mono_rel [rotated]) (auto intro: compare_antimono)

section \<open>Lookup, insertion and deletion\<close>

lemma wf_tree_splay [inv_intros]: "wf_tree t \<Longrightarrow> wf_tree (splay addr t)"
  by (simp add: wf_tree_def)

lemma wf_tree_splay_end [inv_intros]: "wf_tree t \<Longrightarrow> wf_tree (splay_end addr t)"
  by (simp add: wf_tree_def)

lemma splay_root_covers:
  assumes wf: "wf_tree t" and r: "r \<in> set (inorder t)" and cov: "covers r addr"
  shows "root (splay addr t) = Some r"
proof -
  obtain l n q where sp: "splay addr t = Node l n q"
    using r by (cases "splay addr t") auto
  have seq: "inorder t = inorder l @ n # inorder q"
    using inorder_splay [of addr t] sp by simp
  have "t \<noteq> Leaf" using r by auto
  with sp have loop: "splay_loop (compare addr) [] [] t = Node l n q" by (simp add: splay_def)
  have wfr: "wf_region r" using wf r by (simp add: wf_tree_def wf_regions_def)
  then have "compare addr r = 0" using cov by (simp add: compare_covers)
  then have "compare addr n = 0"
    using splay_loop_finds [OF _ _ loop] descending_compare wf r by (auto simp: wf_tree_def)
  moreover have wfm: "wf_regions (inorder l @ n # inorder q)" using wf seq by (simp add: wf_tree_def)
  ultimately have "covers n addr" by (simp add: compare_covers wf_regions_mid)
  with cov wfm r [unfolded seq] have "r = n"
    by (intro covers_unique [OF wfm]) auto
  with sp show ?thesis by simp
qed

lemma splay_end_root:
  assumes wf: "wf_tree t" and r: "r \<in> set (inorder t)" and e: "uint addr = rg_end r"
  shows "root (splay_end addr t) = Some r"
proof -
  obtain l n q where sp: "splay_end addr t = Node l n q"
    using r by (cases "splay_end addr t") auto
  have seq: "inorder t = inorder l @ n # inorder q"
    using inorder_splay_end [of addr t] sp by simp
  have "t \<noteq> Leaf" using r by auto
  with sp have loop: "splay_loop (compare_end addr) [] [] t = Node l n q" by (simp add: splay_end_def)
  have wfr: "wf_region r" using wf r by (simp add: wf_tree_def wf_regions_def)
  then have "compare_end addr r = 0" using e by (simp add: compare_end_cases)
  then have n0: "compare_end addr n = 0"
    using splay_loop_finds [OF _ _ loop] descending_compare_end wf r by (auto simp: wf_tree_def)
  have wfm: "wf_regions (inorder l @ n # inorder q)" using wf seq by (simp add: wf_tree_def)
  then have "uint addr = rg_end n" using n0 by (auto simp: compare_end_cases wf_regions_mid split: if_splits)
  with e wfm r [unfolded seq] have "r = n"
    by (intro end_unique [OF wfm]) auto
  with sp show ?thesis by simp
qed

lemma root_inorder: "root t = Some r \<Longrightarrow> r \<in> set (inorder t)"
  by (cases t) auto

lemma root_None [simp]: "root t = None \<longleftrightarrow> t = Leaf"
  by (cases t) auto

lemma splay_neighbours:
  assumes wf: "wf_tree t" and sp: "splay addr t = Node l n r"
  shows "split_at_root (compare addr) (Node l n r)"
proof -
  have "t \<noteq> Leaf" using sp by (auto simp: splay_def)
  then have "Node l n r = splay_loop (compare addr) [] [] t" using sp by (simp add: splay_def)
  then show ?thesis
    using splay_loop_splits [of "compare addr" t "[]" "[]"] wf descending_compare
    by (simp add: wf_tree_def)
qed

text \<open>
  A region apart from the new one lies below it exactly when the comparison with the new
  address is positive, and above it exactly when the comparison is negative.
\<close>

lemma apart_compare:
  assumes "wf_region x" and "wf_region (new_node addr sz)"
    and "rg_end x \<le> uint addr \<or> uint addr + uint sz \<le> uint (rg_start x)"
  shows "0 < compare addr x \<longleftrightarrow> rg_end x \<le> uint (rg_start (new_node addr sz))"
    and "compare addr x < 0 \<longleftrightarrow> rg_end (new_node addr sz) \<le> uint (rg_start x)"
    and "compare addr x \<noteq> 0"
  using assms wf_region_bounds [of x] wf_region_bounds [of "new_node addr sz"]
  by (auto simp: compare_cases new_node_def rg_end_def)

lemma splay_sides:
  assumes wf: "wf_tree t" and sp: "splay addr t = Node l n r"
  shows "compare addr n < 0 \<Longrightarrow>
      (\<forall>x\<in>set (inorder l). 0 < compare addr x) \<and> (\<forall>x\<in>set (n # inorder r). compare addr x < 0)"
    and "0 < compare addr n \<Longrightarrow>
      (\<forall>x\<in>set (inorder l @ [n]). 0 < compare addr x) \<and> (\<forall>x\<in>set (inorder r). compare addr x < 0)"
proof -
  have d: "descending (compare addr) (inorder l @ n # inorder r)"
    using descending_compare [of "inorder t"] wf inorder_splay [of addr t] sp by (simp add: wf_tree_def)
  note sides = splay_neighbours [OF wf sp, unfolded split_at_root_def tree.case]
  show "(\<forall>x\<in>set (inorder l). 0 < compare addr x) \<and> (\<forall>x\<in>set (n # inorder r). compare addr x < 0)"
    if lt: "compare addr n < 0"
  proof -
    have "\<forall>x\<in>set (inorder r). compare addr x < 0" using descending_below [OF d lt] by blast
    with lt sides show ?thesis by simp
  qed
  show "(\<forall>x\<in>set (inorder l @ [n]). 0 < compare addr x) \<and> (\<forall>x\<in>set (inorder r). compare addr x < 0)"
    if gt: "0 < compare addr n"
  proof -
    have "\<forall>x\<in>set (inorder l). 0 < compare addr x" using descending_above [OF d gt] by blast
    with gt sides show ?thesis by simp
  qed
qed

text \<open>A region apart from every other one is inserted at the root, between its neighbours.\<close>

lemma splay_insert_fresh:
  assumes wf: "wf_tree t" and sz: "wf_region (new_node addr sz)"
    and fresh: "fresh_range addr sz (inorder t)" and ok: "splay_insert mem addr sz t fl = Some (t', fl')"
  shows "wf_tree t' \<and> set (inorder t') = insert (new_node addr sz) (set (inorder t))
    \<and> root t' = Some (new_node addr sz)"
proof (cases "splay addr t")
  case Leaf
  with ok sz have "t' = Node Leaf (new_node addr sz) Leaf" and "t = Leaf"
    by (auto simp: splay_insert_def split: if_splits)
  with sz show ?thesis by (simp add: wf_tree_def wf_regions_def)
next
  case (Node l n r)
  let ?new = "new_node addr sz"
  have seq: "inorder t = inorder l @ n # inorder r" using inorder_splay [of addr t] Node by simp
  have wfs: "wf_regions (inorder l @ n # inorder r)" using wf seq by (simp add: wf_tree_def)
  have ap: "0 < compare addr x \<longleftrightarrow> rg_end x \<le> uint (rg_start ?new)"
    "compare addr x < 0 \<longleftrightarrow> rg_end ?new \<le> uint (rg_start x)" "compare addr x \<noteq> 0"
    if "x \<in> set (inorder t)" for x
    using apart_compare [OF _ sz, of x] wf fresh that
    by (auto simp: wf_tree_def fresh_range_def dest: wf_regionsD simp del: set_inorder)
  note sides = splay_sides [OF wf Node]
  show ?thesis
  proof (cases "compare addr n < 0")
    case True
    with ok Node ap(3) [of n] seq have t': "t' = Node l ?new (Node Leaf n r)"
      by (auto simp: splay_insert_def split: if_splits)
    have "wf_regions (inorder l @ ?new # (n # inorder r))"
      using sides(1) [OF True] ap seq wfs sz by (subst wf_regions_mid) (auto simp del: set_inorder)
    then show ?thesis by (auto simp: t' seq wf_tree_def)
  next
    case False
    with ap(3) [of n] seq have gt: "0 < compare addr n" by auto
    with ok Node have t': "t' = Node (Node l n Leaf) ?new r"
      by (auto simp: splay_insert_def split: if_splits)
    have "wf_regions ((inorder l @ [n]) @ ?new # inorder r)"
      using sides(2) [OF gt] ap seq wfs sz by (subst wf_regions_mid) (auto simp del: set_inorder)
    then show ?thesis by (auto simp: t' seq wf_tree_def)
  qed
qed

lemma splay_insert_covered:
  assumes wf: "wf_tree t" and r: "r \<in> set (inorder t)" and cov: "covers r addr"
  shows "splay_insert mem addr sz t fl = Some (splay addr t, fl)"
proof -
  have "root (splay addr t) = Some r" by (rule splay_root_covers [OF assms])
  moreover have "compare addr r = 0"
    using wf r cov by (auto simp: compare_covers wf_tree_def dest: wf_regionsD)
  ultimately show ?thesis by (cases "splay addr t") (auto simp: splay_insert_def)
qed

lemma splay_insert_None:
  "splay_insert mem addr sz t fl = None \<Longrightarrow> fl = 0 \<and> \<not> mem"
  by (auto simp: splay_insert_def Let_def split: tree.splits if_splits)

text \<open>
  In the subtree left of the node to delete every region ends at or below the address, so
  splaying there ends at the last one, whose right subtree is free for the other half.
\<close>

lemma splay_delete_join:
  assumes wf: "wf_tree t" and sp: "splay addr t = Node l n r" and start: "rg_start n = addr"
  shows "inorder (fst (splay_delete addr t fl)) = inorder l @ inorder r"
proof (cases "splay addr l")
  case Leaf
  with sp start show ?thesis by (simp add: splay_delete_def compare_destroy_def)
next
  case (Node xl xn xr)
  have wfs: "wf_regions (inorder l @ n # inorder r)"
    using wf inorder_splay [of addr t] sp by (simp add: wf_tree_def)
  then have wfl: "wf_regions (inorder l)" by (simp add: wf_regions_append)
  have "\<forall>x\<in>set (inorder l). rg_end x \<le> uint addr"
    using wfs start by (simp add: wf_regions_mid del: set_inorder)
  then have "\<forall>x\<in>set (inorder l). 0 < compare addr x"
    using wf_regionsD [OF wfl] wf_region_bounds by (force simp: compare_cases simp del: set_inorder)
  moreover have "splay_loop (compare addr) [] [] l = Node xl xn xr"
    using Node by (simp add: splay_def split: if_splits)
  ultimately have "xr = Leaf"
    using splay_loop_max descending_compare [OF wfl] by blast
  with inorder_splay [of addr l] Node sp start show ?thesis
    by (auto simp: splay_delete_def compare_destroy_def)
qed

text \<open>Deletion removes the one region that starts at the address, if there is one.\<close>

lemma splay_delete_regions:
  assumes wf: "wf_tree t"
  shows "wf_tree (fst (splay_delete addr t fl))
    \<and> set (inorder (fst (splay_delete addr t fl))) = {r \<in> set (inorder t). rg_start r \<noteq> addr}"
proof (cases "splay addr t")
  case Leaf
  then have "t = Leaf" by simp
  with wf show ?thesis by (simp add: splay_delete_def splay_def)
next
  case (Node l n r)
  have seq: "inorder t = inorder l @ n # inorder r" using inorder_splay [of addr t] Node by simp
  have wfs: "wf_regions (inorder l @ n # inorder r)" using wf seq by (simp add: wf_tree_def)
  have uniq: "rg_start x = rg_start n \<Longrightarrow> x \<in> set (inorder l @ n # inorder r) \<Longrightarrow> x = n" for x
    using start_unique [OF wfs, of x n] by simp
  show ?thesis
  proof (cases "compare_destroy addr n = 0")
    case True
    then have start: "rg_start n = addr" by (auto simp: compare_destroy_def split: if_splits)
    have rest: "inorder (fst (splay_delete addr t fl)) = inorder l @ inorder r"
      using splay_delete_join [OF wf Node start] by simp
    have "n \<notin> set (inorder l) \<union> set (inorder r)"
      using wfs wf_region_bounds [of n] by (force simp: wf_regions_mid simp del: set_inorder)
    with uniq start have "set (inorder l @ inorder r) = {x \<in> set (inorder t). rg_start x \<noteq> addr}"
      unfolding seq by auto
    with rest wfs show ?thesis by (simp add: wf_tree_def wf_regions_mid)
  next
    case False
    then have ns: "rg_start n \<noteq> addr" by (auto simp: compare_destroy_def)
    have "rg_start x \<noteq> addr" if x: "x \<in> set (inorder t)" for x
    proof
      assume "rg_start x = addr"
      moreover from wf x have "wf_region x" by (simp add: wf_tree_def wf_regionsD)
      ultimately have "covers x addr" using wf_region_bounds [of x] by (simp add: covers_def)
      from splay_root_covers [OF wf x this] Node have "n = x" by simp
      with ns \<open>rg_start x = addr\<close> show False by simp
    qed
    moreover have "fst (splay_delete addr t fl) = Node l n r"
      using False Node by (simp add: splay_delete_def)
    ultimately show ?thesis using wfs by (auto simp: wf_tree_def seq)
  qed
qed

section \<open>The tree is a region store\<close>

interpretation rt: region_store inorder wf_tree root splay splay_end splay_insert splay_delete
proof unfold_locales
  show "wf_tree t \<Longrightarrow> wf_regions (inorder t)" for t by (simp add: wf_tree_def)
  show "root t = Some r \<Longrightarrow> r \<in> set (inorder t)" for t r by (rule root_inorder)
  show "root t = None \<longleftrightarrow> inorder t = []" for t by simp
  show "inorder (splay a t) = inorder t" for a t by simp
  show "wf_tree t \<Longrightarrow> wf_tree (splay a t)" for a t by (rule wf_tree_splay)
  show "inorder (splay_end a t) = inorder t" for a t by simp
  show "wf_tree t \<Longrightarrow> wf_tree (splay_end a t)" for a t by (rule wf_tree_splay_end)
  show "wf_tree t \<Longrightarrow> r \<in> set (inorder t) \<Longrightarrow> covers r a \<Longrightarrow> root (splay a t) = Some r" for t r a
    by (rule splay_root_covers)
  show "wf_tree t \<Longrightarrow> r \<in> set (inorder t) \<Longrightarrow> uint a = rg_end r \<Longrightarrow> root (splay_end a t) = Some r"
    for t r a by (rule splay_end_root)
  show "wf_tree t \<Longrightarrow> wf_region (new_node a sz) \<Longrightarrow> fresh_range a sz (inorder t) \<Longrightarrow>
      splay_insert mem a sz t fl = Some (t', fl') \<Longrightarrow>
      wf_tree t' \<and> set (inorder t') = insert (new_node a sz) (set (inorder t))
      \<and> root t' = Some (new_node a sz)" for t a sz mem fl t' fl'
    by (rule splay_insert_fresh)
  show "wf_tree t \<Longrightarrow> r \<in> set (inorder t) \<Longrightarrow> covers r a \<Longrightarrow>
      splay_insert mem a sz t fl = Some (splay a t, fl)" for t r a mem sz fl
    by (rule splay_insert_covered)
  show "splay_insert mem a sz t fl = None \<Longrightarrow> fl = 0 \<and> \<not> mem" for mem a sz t fl
    by (rule splay_insert_None)
  show "wf_tree t \<Longrightarrow> wf_tree (fst (splay_delete a t fl))
      \<and> set (inorder (fst (splay_delete a t fl))) = {r \<in> set (inorder t). rg_start r \<noteq> a}"
    for t a fl by (rule splay_delete_regions)
qed

end
