(* ===== verification/BoundState.thy ===== *)
theory BoundState
  imports RegionTree
begin

text \<open>
  The state of the bounds checker (the static variables of
  \<^verbatim>\<open>src/src/runtime/generic/bcheck.c\<close>) and the checks of pointer arithmetic and
  indirection, as built for Windows, the target of the repository (\<open>MALLOC_REDIR\<close> and
  the other redirections are 0 there).  One thread runs: \<open>WAIT_SEM\<close>/\<open>POST_SEM\<close> bracket
  every use of the tree and \<open>no_checking\<close> is the calling thread's slot.  Messages are
  output and are left out; what they decide (\<open>exit(255)\<close>) is kept.
\<close>

section \<open>State\<close>

record alloca_entry =
  al_fp :: u64
  al_p :: u64
  al_size :: u64

record jmp_entry =
  jm_env :: u64
  jm_fp :: u64
  jm_end_fp :: u64
  jm_tid :: u32

text \<open>
  \<open>node_ok k\<close> says whether the C library serves the node that the \<open>k\<close>-th insertion
  may ask for; \<open>heap\<close> is the memory of the process, \<open>freed\<close> the user blocks passed
  to the C library's \<open>free\<close>, last one first (the checker's own list entries are not
  blocks of the program).  \<open>_Atomic int never_fatal\<close> and the \<open>no_checking\<close> counter
  are unbounded here.
\<close>

record bstate =
  bd_tree :: "region tree"
  tree_free_list :: nat
  alloca_list :: "alloca_entry list"
  jmp_list :: "jmp_entry list"
  free_reuse_list :: "u64 list"
  free_reuse_index :: nat
  inited :: bool
  no_strdup :: bool
  never_fatal :: int
  no_checking :: int
  counts :: "string \<Rightarrow> u64"
  node_ok :: "nat \<Rightarrow> bool"
  inserts :: nat
  heap :: "u64 \<Rightarrow> u8"
  freed :: "u64 list"

text \<open>The values the static variables start with.\<close>

definition initial_state :: "(nat \<Rightarrow> bool) \<Rightarrow> (u64 \<Rightarrow> u8) \<Rightarrow> bstate" where
  "initial_state nodes mem =
     \<lparr>bd_tree = Leaf, tree_free_list = 0, alloca_list = [], jmp_list = [],
      free_reuse_list = replicate 100 0, free_reuse_index = 0, inited = False, no_strdup = False,
      never_fatal = 0, no_checking = 0, counts = (\<lambda>_. 0), node_ok = nodes, inserts = 0,
      heap = mem, freed = []\<rparr>"

datatype 'a run = Ret 'a bstate | Exit nat bstate

fun andthen :: "'a run \<Rightarrow> ('a \<Rightarrow> bstate \<Rightarrow> 'b run) \<Rightarrow> 'b run" where
  "andthen (Ret a s) k = k a s"
| "andthen (Exit c s) k = Exit c s"

definition FREE_REUSE_SIZE :: nat where "FREE_REUSE_SIZE = 100"

definition INVALID_POINTER :: u64 where "INVALID_POINTER = - 2"

definition incr_count :: "string \<Rightarrow> bstate \<Rightarrow> bstate" where
  "incr_count x s = s\<lparr>counts := (counts s)(x := counts s x + 1)\<rparr>"

definition bound_error :: "bstate \<Rightarrow> unit run" where
  "bound_error s = (if never_fatal s = 0 then Exit 255 s else Ret () s)"

definition bounds_checking :: "int \<Rightarrow> bstate \<Rightarrow> bstate" where
  "bounds_checking no_check s = s\<lparr>no_checking := no_checking s + no_check\<rparr>"

definition bound_never_fatal :: "int \<Rightarrow> bstate \<Rightarrow> bstate" where
  "bound_never_fatal neverfatal s = s\<lparr>never_fatal := never_fatal s + neverfatal\<rparr>"

section \<open>The tree in the state\<close>

text \<open>\<open>tree = splay_insert(addr, size, tree)\<close>; running out of memory is \<open>exit(1)\<close>.\<close>

definition tree_insert :: "u64 \<Rightarrow> u64 \<Rightarrow> bstate \<Rightarrow> unit run" where
  "tree_insert addr sz s =
     (case splay_insert (node_ok s (inserts s)) addr sz (bd_tree s) (tree_free_list s) of
        None \<Rightarrow> Exit 1 s
      | Some (t, fl) \<Rightarrow>
          Ret () (s\<lparr>bd_tree := t, tree_free_list := fl, inserts := Suc (inserts s)\<rparr>))"

definition tree_delete :: "u64 \<Rightarrow> bstate \<Rightarrow> bstate" where
  "tree_delete addr s =
     (let (t, fl) = splay_delete addr (bd_tree s) (tree_free_list s)
      in s\<lparr>bd_tree := t, tree_free_list := fl\<rparr>)"

fun set_root :: "(region \<Rightarrow> region) \<Rightarrow> region tree \<Rightarrow> region tree" where
  "set_root f Leaf = Leaf"
| "set_root f (Node l n r) = Node l (f n) r"

text \<open>\<open>if (tree && tree->start == (size_t)ptr) tree->type = ...\<close>\<close>

definition tag_root :: "u64 \<Rightarrow> u8 \<Rightarrow> bstate \<Rightarrow> bstate" where
  "tag_root ptr ty s =
     (case root (bd_tree s) of
        Some n \<Rightarrow>
          if rg_start n = ptr then s\<lparr>bd_tree := set_root (\<lambda>n. n\<lparr>rg_type := ty\<rparr>) (bd_tree s)\<rparr> else s
      | None \<Rightarrow> s)"

definition locate :: "u64 \<Rightarrow> region tree \<Rightarrow> region tree" where
  "locate p t = locate_with root splay splay_end p t"

section \<open>Pointer arithmetic and indirection\<close>

definition bound_ptr_add :: "u64 \<Rightarrow> u64 \<Rightarrow> bstate \<Rightarrow> u64 \<times> bstate" where
  "bound_ptr_add p offset s =
     (if no_checking s \<noteq> 0 then (p + offset, s)
      else
        let s1 = incr_count ''bound_ptr_add_count'' s in
        if bd_tree s1 = Leaf then (p + offset, s1)
        else
          let t = locate p (bd_tree s1); s2 = s1\<lparr>bd_tree := t\<rparr> in
          case t of
            Leaf \<Rightarrow> (p + offset, s2) \<comment> \<open>searching keeps the nodes: not reached\<close>
          | Node l n r \<Rightarrow>
              let addr = p - rg_start n in
              if addr \<le> rg_size n then
                (if rg_invalid n \<or> addr + offset > rg_size n then
                   (if never_fatal s2 \<le> 0 then (INVALID_POINTER, s2) else (p + offset, s2))
                 else (p + offset, s2))
              else if p \<noteq> 0 then (p + offset, incr_count ''bound_not_found'' s2)
              else (p + offset, s2))"

text \<open>
  The macro \<open>BOUND_PTR_INDIR(dsize)\<close>, instantiated for 1, 2, 4, 8, 12 and 16 bytes;
  its counter is named after the size.
\<close>

definition bound_ptr_indir :: "string \<Rightarrow> u64 \<Rightarrow> u64 \<Rightarrow> u64 \<Rightarrow> bstate \<Rightarrow> u64 \<times> bstate" where
  "bound_ptr_indir counter dsize p offset s =
     (if no_checking s \<noteq> 0 then (p + offset, s)
      else
        let s1 = incr_count counter s in
        if bd_tree s1 = Leaf then (p + offset, s1)
        else
          let t = locate p (bd_tree s1); s2 = s1\<lparr>bd_tree := t\<rparr> in
          case t of
            Leaf \<Rightarrow> (p + offset, s2) \<comment> \<open>searching keeps the nodes: not reached\<close>
          | Node l n r \<Rightarrow>
              let addr = p - rg_start n in
              if addr \<le> rg_size n then
                (if rg_invalid n \<or> addr + offset + dsize > rg_size n then
                   (if never_fatal s2 \<le> 0 then (INVALID_POINTER, s2) else (p + offset, s2))
                 else (p + offset, s2))
              else (p + offset, incr_count ''bound_not_found'' s2))"

definition bound_ptr_indir1 :: "u64 \<Rightarrow> u64 \<Rightarrow> bstate \<Rightarrow> u64 \<times> bstate" where
  "bound_ptr_indir1 = bound_ptr_indir ''bound_ptr_indir1_count'' 1"
definition bound_ptr_indir2 :: "u64 \<Rightarrow> u64 \<Rightarrow> bstate \<Rightarrow> u64 \<times> bstate" where
  "bound_ptr_indir2 = bound_ptr_indir ''bound_ptr_indir2_count'' 2"
definition bound_ptr_indir4 :: "u64 \<Rightarrow> u64 \<Rightarrow> bstate \<Rightarrow> u64 \<times> bstate" where
  "bound_ptr_indir4 = bound_ptr_indir ''bound_ptr_indir4_count'' 4"
definition bound_ptr_indir8 :: "u64 \<Rightarrow> u64 \<Rightarrow> bstate \<Rightarrow> u64 \<times> bstate" where
  "bound_ptr_indir8 = bound_ptr_indir ''bound_ptr_indir8_count'' 8"
definition bound_ptr_indir12 :: "u64 \<Rightarrow> u64 \<Rightarrow> bstate \<Rightarrow> u64 \<times> bstate" where
  "bound_ptr_indir12 = bound_ptr_indir ''bound_ptr_indir12_count'' 12"
definition bound_ptr_indir16 :: "u64 \<Rightarrow> u64 \<Rightarrow> bstate \<Rightarrow> u64 \<times> bstate" where
  "bound_ptr_indir16 = bound_ptr_indir ''bound_ptr_indir16_count'' 16"

end
