(* ===== verification/BoundOps.thy ===== *)
theory BoundOps
  imports BoundState
begin

text \<open>
  The operations of \<^verbatim>\<open>src/src/runtime/generic/bcheck.c\<close> that change the regions:
  local variables, \<open>alloca\<close> blocks and \<open>setjmp\<close> records of a frame, static variables,
  and the allocation functions.  The frame pointer (\<open>GET_CALLER_FP\<close>), the thread id and
  the C library's allocator are arguments; a table of (address, size) pairs is the list of
  its pairs, read up to the pair whose address is 0.
\<close>

section \<open>Local and static variables\<close>

fun local_new_loop :: "u64 \<Rightarrow> (u64 \<times> u64) list \<Rightarrow> bstate \<Rightarrow> unit run" where
  "local_new_loop fp [] s = Ret () s"
| "local_new_loop fp ((addr, sz) # p) s =
     (if addr = 0 then Ret () s
      else andthen (tree_insert (addr + fp) sz (incr_count ''bound_local_new_count'' s))
             (\<lambda>_. local_new_loop fp p))"

definition bound_local_new :: "u64 \<Rightarrow> (u64 \<times> u64) list \<Rightarrow> bstate \<Rightarrow> unit run" where
  "bound_local_new fp p1 s =
     (if no_checking s \<noteq> 0 then Ret () s else local_new_loop fp p1 s)"

fun local_delete_loop :: "u64 \<Rightarrow> (u64 \<times> u64) list \<Rightarrow> bstate \<Rightarrow> bstate" where
  "local_delete_loop fp [] s = s"
| "local_delete_loop fp ((addr, sz) # p) s =
     (if addr = 0 then s
      else local_delete_loop fp p (tree_delete (addr + fp) (incr_count ''bound_local_delete_count'' s)))"

text \<open>
  Unlinking the entries of one frame from a list: those of \<open>alloca_list\<close> also leave the
  tree.  The entries kept stay in order.
\<close>

fun drop_allocas :: "u64 \<Rightarrow> alloca_entry list \<Rightarrow> bstate \<Rightarrow> alloca_entry list \<times> bstate" where
  "drop_allocas fp [] s = ([], s)"
| "drop_allocas fp (cur # rest) s =
     (if al_fp cur = fp then drop_allocas fp rest (tree_delete (al_p cur) s)
      else let (kept, s') = drop_allocas fp rest s in (cur # kept, s'))"

fun drop_jmps :: "u64 \<Rightarrow> jmp_entry list \<Rightarrow> jmp_entry list" where
  "drop_jmps fp [] = []"
| "drop_jmps fp (cur # rest) =
     (if jm_fp cur = fp then drop_jmps fp rest else cur # drop_jmps fp rest)"

definition bound_local_delete :: "u64 \<Rightarrow> (u64 \<times> u64) list \<Rightarrow> bstate \<Rightarrow> bstate" where
  "bound_local_delete fp p1 s =
     (if no_checking s \<noteq> 0 then s
      else
        let s1 = local_delete_loop fp p1 s;
            (al, s2) = drop_allocas fp (alloca_list s1) s1;
            s3 = s2\<lparr>alloca_list := al\<rparr>
        in s3\<lparr>jmp_list := drop_jmps fp (jmp_list s3)\<rparr>)"

fun static_new_loop :: "(u64 \<times> u64) list \<Rightarrow> bstate \<Rightarrow> unit run" where
  "static_new_loop [] s = Ret () s"
| "static_new_loop ((addr, sz) # p) s =
     (if addr = 0 then Ret () s else andthen (tree_insert addr sz s) (\<lambda>_. static_new_loop p))"

text \<open>\<open>fatal_env\<close>: whether \<open>CPRIME_BOUNDS_NEVER_FATAL\<close> is set in the environment.\<close>

definition bound_init_once :: "bool \<Rightarrow> bstate \<Rightarrow> bstate" where
  "bound_init_once fatal_env s =
     (if inited s then s
      else s\<lparr>inited := True, no_checking := 1, never_fatal := (if fatal_env then 1 else 0)\<rparr>)"

definition bound_init :: "bool \<Rightarrow> (u64 \<times> u64) list \<Rightarrow> bstate \<Rightarrow> unit run" where
  "bound_init fatal_env p s =
     andthen (static_new_loop p (bound_init_once fatal_env s)) (\<lambda>_ s. Ret () (s\<lparr>no_checking := 0\<rparr>))"

fun bound_exit_dll :: "(u64 \<times> u64) list \<Rightarrow> bstate \<Rightarrow> bstate" where
  "bound_exit_dll [] s = s"
| "bound_exit_dll ((addr, sz) # p) s = (if addr = 0 then s else bound_exit_dll p (tree_delete addr s))"

section \<open>alloca blocks\<close>

definition align_up :: "u64 \<Rightarrow> u64 \<Rightarrow> u64" where
  "align_up n al = (n + al) AND (- al)"

definition alloca_overlaps :: "u64 \<Rightarrow> u64 \<Rightarrow> u64 \<Rightarrow> alloca_entry \<Rightarrow> bool" where
  "alloca_overlaps fp p sz cur =
     (let cure = al_p cur + align_up (al_size cur) 16; pe = p + align_up sz 16
      in al_fp cur = fp \<and> (al_p cur \<le> p \<and> cure > p \<or> p \<le> al_p cur \<and> pe > al_p cur))"

fun drop_overlapping :: "u64 \<Rightarrow> u64 \<Rightarrow> u64 \<Rightarrow> alloca_entry list \<Rightarrow> bstate \<Rightarrow> alloca_entry list \<times> bstate" where
  "drop_overlapping fp p sz [] s = ([], s)"
| "drop_overlapping fp p sz (cur # rest) s =
     (if alloca_overlaps fp p sz cur then (rest, tree_delete (al_p cur) s)
      else let (kept, s') = drop_overlapping fp p sz rest s in (cur # kept, s'))"

text \<open>\<open>entry_ok\<close>: whether \<open>BOUND_MALLOC\<close> served the list entry \<open>new\<close>.\<close>

definition bound_new_region :: "bool \<Rightarrow> u64 \<Rightarrow> u64 \<Rightarrow> u64 \<Rightarrow> bstate \<Rightarrow> unit run" where
  "bound_new_region entry_ok fp p sz s =
     (if no_checking s \<noteq> 0 then Ret () s
      else
        let s1 = incr_count ''bound_alloca_count'' s;
            (al, s2) = drop_overlapping fp p sz (alloca_list s1) s1;
            s3 = s2\<lparr>alloca_list := al\<rparr>
        in andthen (tree_insert p sz s3)
             (\<lambda>_ s4. Ret () (if entry_ok
                then s4\<lparr>alloca_list := \<lparr>al_fp = fp, al_p = p, al_size = sz\<rparr> # alloca_list s4\<rparr>
                else s4)))"

section \<open>setjmp and longjmp\<close>

fun update_jmp :: "jmp_entry \<Rightarrow> jmp_entry list \<Rightarrow> jmp_entry list option" where
  "update_jmp e [] = None"
| "update_jmp e (jl # rest) =
     (if jm_env jl = jm_env e then Some (e # rest)
      else map_option (\<lambda>rest'. jl # rest') (update_jmp e rest))"

definition bound_setjmp :: "bool \<Rightarrow> jmp_entry \<Rightarrow> bstate \<Rightarrow> bstate" where
  "bound_setjmp entry_ok e s =
     (if no_checking s \<noteq> 0 then s
      else
        let s1 = incr_count ''bound_setjmp_count'' s in
        case update_jmp e (jmp_list s1) of
          Some jl \<Rightarrow> s1\<lparr>jmp_list := jl\<rparr>
        | None \<Rightarrow> if entry_ok then s1\<lparr>jmp_list := e # jmp_list s1\<rparr> else s1)"

text \<open>The entries of the thread in front of the one jumped to go.\<close>

fun drop_newer_jmps :: "u64 \<Rightarrow> u32 \<Rightarrow> jmp_entry list \<Rightarrow> jmp_entry list" where
  "drop_newer_jmps e tid [] = []"
| "drop_newer_jmps e tid (cur # rest) =
     (if jm_env cur = e \<and> jm_tid cur = tid then cur # rest
      else if jm_tid cur = tid then drop_newer_jmps e tid rest
      else cur # drop_newer_jmps e tid rest)"

fun search_frame :: "u64 \<Rightarrow> u64 \<Rightarrow> region tree \<Rightarrow> region option" where
  "search_frame start_fp end_fp Leaf = None"
| "search_frame start_fp end_fp (Node l n r) =
     (if rg_start n < start_fp \<or> rg_start n > end_fp then
        (if rg_start n < start_fp then search_frame start_fp end_fp r
         else search_frame start_fp end_fp l)
      else Some n)"

fun drop_alloca_at :: "u64 \<Rightarrow> alloca_entry list \<Rightarrow> alloca_entry list" where
  "drop_alloca_at p [] = []"
| "drop_alloca_at p (cur # rest) =
     (if al_p cur = p then rest else cur # drop_alloca_at p rest)"

text \<open>The loop deletes one region per round and may run forever when a deletion misses.\<close>

partial_function (option) unwind_frames :: "u64 \<Rightarrow> u64 \<Rightarrow> bstate \<Rightarrow> bstate option" where
  "unwind_frames start_fp end_fp s =
     (case search_frame start_fp end_fp (bd_tree s) of
        None \<Rightarrow> Some s
      | Some n \<Rightarrow>
          unwind_frames start_fp end_fp
            (tree_delete (rg_start n)
              (s\<lparr>alloca_list := drop_alloca_at (rg_start n) (alloca_list s)\<rparr>)))"

definition bound_long_jump :: "u64 \<Rightarrow> u32 \<Rightarrow> u64 \<Rightarrow> bstate \<Rightarrow> bstate option" where
  "bound_long_jump env tid start_fp s =
     (if no_checking s \<noteq> 0 then Some s
      else
        let s1 = incr_count ''bound_longjmp_count'' s in
        case List.find (\<lambda>jl. jm_env jl = env \<and> jm_tid jl = tid) (jmp_list s1) of
          None \<Rightarrow> Some s1
        | Some jl \<Rightarrow>
            unwind_frames start_fp (jm_end_fp jl)
              (s1\<lparr>jmp_list := drop_newer_jmps env tid (jmp_list s1)\<rparr>))"

section \<open>Allocation\<close>

text \<open>
  \<open>alloc n\<close> is the pointer the C library's \<open>malloc(n)\<close> returns (0 for failure) and
  \<open>ralloc p n\<close> that of \<open>realloc(p, n)\<close>.
\<close>

definition track :: "string \<Rightarrow> u8 \<Rightarrow> u64 \<Rightarrow> u64 \<Rightarrow> bstate \<Rightarrow> unit run" where
  "track counter ty ptr sz s =
     (let s1 = incr_count counter s in
      if ptr \<noteq> 0 then
        andthen (tree_insert ptr (if sz \<noteq> 0 then sz else sz + 1) s1)
          (\<lambda>_ s2. Ret () (tag_root ptr ty s2))
      else Ret () s1)"

definition bound_malloc :: "(u64 \<Rightarrow> u64) \<Rightarrow> u64 \<Rightarrow> bstate \<Rightarrow> u64 run" where
  "bound_malloc alloc sz s =
     (let ptr = alloc (sz + 1) in
      if inited s \<and> no_checking s = 0 then
        andthen (track ''bound_malloc_count'' CPRIME_TYPE_MALLOC ptr sz s) (\<lambda>_. Ret ptr)
      else Ret ptr s)"

definition bound_memalign :: "(u64 \<Rightarrow> u64) \<Rightarrow> u64 \<Rightarrow> u64 \<Rightarrow> bstate \<Rightarrow> u64 run" where
  "bound_memalign alloc align sz s =
     (let ptr = (if align > 4 then 0 else alloc (sz + 1)) in
      if no_checking s = 0 then
        andthen (track ''bound_memalign_count'' CPRIME_TYPE_MEMALIGN ptr sz s) (\<lambda>_. Ret ptr)
      else Ret ptr s)"

definition set_bytes :: "u64 \<Rightarrow> u8 \<Rightarrow> u64 \<Rightarrow> (u64 \<Rightarrow> u8) \<Rightarrow> u64 \<Rightarrow> u8" where
  "set_bytes s c n h = (\<lambda>a. if a - s < n then c else h a)"

definition libc_free :: "u64 \<Rightarrow> bstate \<Rightarrow> bstate" where
  "libc_free ptr s = s\<lparr>freed := ptr # freed s\<rparr>"

definition mark_invalid :: "bstate \<Rightarrow> bstate" where
  "mark_invalid s = s\<lparr>bd_tree := set_root (\<lambda>n. n\<lparr>rg_invalid := True\<rparr>) (bd_tree s)\<rparr>"

text \<open>
  The block freed goes into the ring of the last 100 freed blocks; the block it displaces
  leaves the tree and is the one the C library frees.
\<close>

definition recycle :: "u64 \<Rightarrow> bstate \<Rightarrow> u64 \<times> bstate" where
  "recycle ptr s =
     (let p = free_reuse_list s ! free_reuse_index s;
          s1 = s\<lparr>free_reuse_list := (free_reuse_list s)[free_reuse_index s := ptr],
                 free_reuse_index := (free_reuse_index s + 1) mod FREE_REUSE_SIZE\<rparr>
      in (p, if p \<noteq> 0 then tree_delete p s1 else s1))"

definition bound_free :: "u64 \<Rightarrow> bstate \<Rightarrow> unit run" where
  "bound_free ptr s =
     (if ptr = 0 \<or> bd_tree s = Leaf then Ret () s
      else if inited s \<and> no_checking s = 0 then
        let s1 = incr_count ''bound_free_count'' s;
            s2 = s1\<lparr>bd_tree := splay ptr (bd_tree s1)\<rparr>
        in case root (bd_tree s2) of
             None \<Rightarrow> Ret () (libc_free ptr s2) \<comment> \<open>the tree is not empty: not reached\<close>
           | Some n \<Rightarrow>
               if rg_start n = ptr then
                 (if rg_invalid n then bound_error s2
                  else
                    let s3 = mark_invalid s2;
                        s4 = s3\<lparr>heap := set_bytes ptr 0x5a (rg_size n) (heap s3)\<rparr>;
                        (p, s5) = recycle ptr s4
                    in Ret () (libc_free p s5))
               else Ret () (libc_free ptr s2)
      else Ret () (libc_free ptr s))"

definition bound_realloc :: "(u64 \<Rightarrow> u64 \<Rightarrow> u64) \<Rightarrow> u64 \<Rightarrow> u64 \<Rightarrow> bstate \<Rightarrow> u64 run" where
  "bound_realloc ralloc ptr sz s =
     (if sz = 0 then andthen (bound_free ptr s) (\<lambda>_. Ret 0)
      else
        let new_ptr = ralloc ptr (sz + 1) in
        if no_checking s = 0 then
          let s1 = incr_count ''bound_realloc_count'' s;
              s2 = (if ptr \<noteq> 0 then tree_delete ptr s1 else s1)
          in if new_ptr \<noteq> 0 then
               andthen (tree_insert new_ptr (if sz \<noteq> 0 then sz else sz + 1) s2)
                 (\<lambda>_ s3. Ret new_ptr (tag_root new_ptr CPRIME_TYPE_REALLOC s3))
             else Ret new_ptr s2
        else Ret new_ptr s)"

definition bound_calloc :: "(u64 \<Rightarrow> u64) \<Rightarrow> u64 \<Rightarrow> u64 \<Rightarrow> bstate \<Rightarrow> u64 run" where
  "bound_calloc alloc nmemb sz0 s =
     (let sz = sz0 * nmemb; ptr = alloc (sz + 1) in
      if ptr \<noteq> 0 then
        let s1 = s\<lparr>heap := set_bytes ptr 0 sz (heap s)\<rparr> in
        if no_checking s1 = 0 then
          andthen (track ''bound_calloc_count'' CPRIME_TYPE_CALLOC ptr sz s1) (\<lambda>_. Ret ptr)
        else Ret ptr s1
      else Ret ptr s)"

end
