(* ===== verification/BoundMem.thy ===== *)
theory BoundMem
  imports BoundOps
begin

text \<open>
  The checked memory and string functions of \<^verbatim>\<open>src/src/runtime/generic/bcheck.c\<close>.
  A scan for the terminating zero may run past every region and never end: it is a
  \<open>partial_function\<close> whose value \<open>None\<close> is the loop that does not return.  What the C
  library's \<open>memcpy\<close>, \<open>memmove\<close>, \<open>memset\<close>, \<open>strcpy\<close>, \<open>strncpy\<close>, \<open>strcat\<close> and
  \<open>strncat\<close> write is their standard meaning.
\<close>

section \<open>The two checks\<close>

definition bound_check :: "u64 \<Rightarrow> u64 \<Rightarrow> bstate \<Rightarrow> unit run" where
  "bound_check p sz s =
     (if sz \<noteq> 0 then
        let (q, s1) = bound_ptr_add p sz s
        in if q = INVALID_POINTER then bound_error s1 else Ret () s1
      else Ret () s)"

definition check_overlap :: "u64 \<Rightarrow> u64 \<Rightarrow> u64 \<Rightarrow> u64 \<Rightarrow> bstate \<Rightarrow> bool run" where
  "check_overlap p1 n1 p2 n2 s =
     (let p1e = p1 + n1; p2e = p2 + n2 in
      if no_checking s = 0 \<and> n1 \<noteq> 0 \<and> n2 \<noteq> 0 \<and>
         (p1 \<le> p2 \<and> p1e > p2 \<or> p2 \<le> p1 \<and> p2e > p1)
      then andthen (bound_error s) (\<lambda>_ s. Ret (never_fatal s < 0) s)
      else Ret False s)"

text \<open>The checks of source and destination, then the overlap check; \<open>True\<close>: give up.\<close>

definition check_copy :: "u64 \<Rightarrow> u64 \<Rightarrow> u64 \<Rightarrow> u64 \<Rightarrow> bstate \<Rightarrow> bool run" where
  "check_copy dest n1 src n2 s =
     andthen (bound_check dest n1 s) (\<lambda>_ s.
     andthen (bound_check src n2 s) (\<lambda>_ s.
     check_overlap dest n1 src n2 s))"

section \<open>Blocks of memory\<close>

definition copy_bytes :: "u64 \<Rightarrow> u64 \<Rightarrow> u64 \<Rightarrow> (u64 \<Rightarrow> u8) \<Rightarrow> u64 \<Rightarrow> u8" where
  "copy_bytes dest src n h = (\<lambda>a. if a - dest < n then h (src + (a - dest)) else h a)"

definition write_heap :: "((u64 \<Rightarrow> u8) \<Rightarrow> (u64 \<Rightarrow> u8)) \<Rightarrow> bstate \<Rightarrow> bstate" where
  "write_heap f s = s\<lparr>heap := f (heap s)\<rparr>"

definition bound_memcpy :: "u64 \<Rightarrow> u64 \<Rightarrow> u64 \<Rightarrow> bstate \<Rightarrow> u64 run" where
  "bound_memcpy dest src n s =
     andthen (check_copy dest n src n (incr_count ''bound_mempcy_count'' s)) (\<lambda>stop s.
       if stop then Ret dest s else Ret dest (write_heap (copy_bytes dest src n) s))"

definition bound_memmove :: "u64 \<Rightarrow> u64 \<Rightarrow> u64 \<Rightarrow> bstate \<Rightarrow> u64 run" where
  "bound_memmove dest src n s =
     andthen (bound_check dest n (incr_count ''bound_memmove_count'' s)) (\<lambda>_ s.
     andthen (bound_check src n s) (\<lambda>_ s.
     Ret dest (write_heap (copy_bytes dest src n) s)))"

definition bound_memset :: "u64 \<Rightarrow> u8 \<Rightarrow> u64 \<Rightarrow> bstate \<Rightarrow> u64 run" where
  "bound_memset p c n s =
     andthen (bound_check p n (incr_count ''bound_memset_count'' s)) (\<lambda>_ s.
     Ret p (write_heap (set_bytes p c n) s))"

text \<open>
  \<open>memcmp_loop h u1 u2 n\<close>: the pointers where the loop stops and the difference of the
  bytes there; \<open>(ssize_t)--n == -1\<close> holds exactly when \<open>n\<close> was 0.
\<close>

function memcmp_loop :: "(u64 \<Rightarrow> u8) \<Rightarrow> u64 \<Rightarrow> u64 \<Rightarrow> u64 \<Rightarrow> u64 \<times> u64 \<times> int" where
  "memcmp_loop h u1 u2 n =
     (if n = 0 then (u1, u2, 0)
      else if h u1 \<noteq> h u2 then (u1 + 1, u2 + 1, uint (h u1) - uint (h u2))
      else memcmp_loop h (u1 + 1) (u2 + 1) (n - 1))"
  by pat_completeness auto
termination
  by (relation "measure (\<lambda>(h, u1, u2, n). unat n)") (auto simp: measure_unat)

declare memcmp_loop.simps [simp del]

definition bound_memcmp :: "u64 \<Rightarrow> u64 \<Rightarrow> u64 \<Rightarrow> bstate \<Rightarrow> int run" where
  "bound_memcmp s1 s2 n s =
     (let (u1, u2, retval) = memcmp_loop (heap s) s1 s2 n in
      andthen (bound_check s1 (u1 - s1) (incr_count ''bound_memcmp_count'' s)) (\<lambda>_ s.
      andthen (bound_check s2 (u2 - s2) s) (\<lambda>_ s. Ret retval s)))"

section \<open>Strings\<close>

text \<open>\<open>while (*p++);\<close>: the address after the first zero byte at or above \<open>p\<close>.\<close>

partial_function (option) scan :: "(u64 \<Rightarrow> u8) \<Rightarrow> u64 \<Rightarrow> u64 option" where
  "scan h p = (if h p = 0 then Some (p + 1) else scan h (p + 1))"

text \<open>\<open>while (len-- && *p++);\<close>\<close>

function scan_n :: "(u64 \<Rightarrow> u8) \<Rightarrow> u64 \<Rightarrow> u64 \<Rightarrow> u64" where
  "scan_n h p len =
     (if len = 0 then p else if h p = 0 then p + 1 else scan_n h (p + 1) (len - 1))"
  by pat_completeness auto
termination
  by (relation "measure (\<lambda>(h, p, len). unat len)") (auto simp: measure_unat)

declare scan_n.simps [simp del]

definition bound_strlen :: "u64 \<Rightarrow> bstate \<Rightarrow> u32 run option" where
  "bound_strlen str s =
     map_option (\<lambda>p.
       andthen (bound_check str (p - str) (incr_count ''bound_strlen_count'' s)) (\<lambda>_ s.
       Ret (ucast (p - str - 1)) s)) (scan (heap s) str)"

definition bound_strcpy :: "u64 \<Rightarrow> u64 \<Rightarrow> bstate \<Rightarrow> u64 run option" where
  "bound_strcpy dest src s =
     map_option (\<lambda>p. let len = p - src in
       andthen (check_copy dest len src len (incr_count ''bound_strcpy_count'' s)) (\<lambda>stop s.
       if stop then Ret dest s else Ret dest (write_heap (copy_bytes dest src len) s)))
     (scan (heap s) src)"

text \<open>\<open>strncpy\<close> copies up to the zero and fills the rest of the \<open>n\<close> bytes with zeros.\<close>

definition bound_strncpy :: "u64 \<Rightarrow> u64 \<Rightarrow> u64 \<Rightarrow> bstate \<Rightarrow> u64 run" where
  "bound_strncpy dest src n s =
     (let len = scan_n (heap s) src n - src in
      andthen (check_copy dest len src len (incr_count ''bound_strncpy_count'' s)) (\<lambda>stop s.
      if stop then Ret dest s
      else Ret dest (write_heap (\<lambda>h. copy_bytes dest src len (set_bytes dest 0 n h)) s)))"

partial_function (option) strcmp_loop :: "(u64 \<Rightarrow> u8) \<Rightarrow> u64 \<Rightarrow> u64 \<Rightarrow> (u64 \<times> u64) option" where
  "strcmp_loop h u1 u2 =
     (if h u1 \<noteq> 0 \<and> h u1 = h u2 then strcmp_loop h (u1 + 1) (u2 + 1) else Some (u1, u2))"

definition bound_strcmp :: "u64 \<Rightarrow> u64 \<Rightarrow> bstate \<Rightarrow> int run option" where
  "bound_strcmp s1 s2 s =
     map_option (\<lambda>(u1, u2).
       andthen (bound_check s1 (u1 - s1 + 1) (incr_count ''bound_strcmp_count'' s)) (\<lambda>_ s.
       andthen (bound_check s2 (u2 - s2 + 1) s) (\<lambda>_ s.
       Ret (uint (heap s u1) - uint (heap s u2)) s)))
     (strcmp_loop (heap s) s1 s2)"

function strncmp_loop :: "(u64 \<Rightarrow> u8) \<Rightarrow> u64 \<Rightarrow> u64 \<Rightarrow> u64 \<Rightarrow> u64 \<times> u64 \<times> int" where
  "strncmp_loop h u1 u2 n =
     (if n = 0 then (u1, u2, 0)
      else if h u1 \<noteq> h u2 then (u1 + 1, u2 + 1, uint (h u1) - uint (h u2))
      else if h u1 = 0 then (u1 + 1, u2 + 1, 0)
      else strncmp_loop h (u1 + 1) (u2 + 1) (n - 1))"
  by pat_completeness auto
termination
  by (relation "measure (\<lambda>(h, u1, u2, n). unat n)") (auto simp: measure_unat)

declare strncmp_loop.simps [simp del]

definition bound_strncmp :: "u64 \<Rightarrow> u64 \<Rightarrow> u64 \<Rightarrow> bstate \<Rightarrow> int run" where
  "bound_strncmp s1 s2 n s =
     (let (u1, u2, retval) = strncmp_loop (heap s) s1 s2 n in
      andthen (bound_check s1 (u1 - s1) (incr_count ''bound_strncmp_count'' s)) (\<lambda>_ s.
      andthen (bound_check s2 (u2 - s2) s) (\<lambda>_ s. Ret retval s)))"

definition bound_strcat :: "u64 \<Rightarrow> u64 \<Rightarrow> bstate \<Rightarrow> u64 run option" where
  "bound_strcat r src0 s =
     (case (scan (heap s) r, scan (heap s) src0) of
        (Some dest, Some src) \<Rightarrow>
          let n1 = (dest - r) + (src - src0) - 1; n2 = src - src0 in
          Some (andthen (check_copy r n1 src0 n2 (incr_count ''bound_strcat_count'' s)) (\<lambda>stop s.
            if stop then Ret dest s
            else Ret r (write_heap (copy_bytes (dest - 1) src0 n2) s)))
      | _ \<Rightarrow> None)"

text \<open>\<open>strncat(r, s, n)\<close> appends at most \<open>n\<close> bytes of \<open>s\<close> and then a zero byte.\<close>

definition strncat_bytes :: "u64 \<Rightarrow> u64 \<Rightarrow> u64 \<Rightarrow> (u64 \<Rightarrow> u8) \<Rightarrow> u64 \<Rightarrow> u8" where
  "strncat_bytes at src n h =
     (let e = scan_n h src n; k = e - src in
      if k \<noteq> 0 \<and> h (e - 1) = 0 then copy_bytes at src k h
      else (copy_bytes at src k h)(at + k := 0))"

definition bound_strncat :: "u64 \<Rightarrow> u64 \<Rightarrow> u64 \<Rightarrow> bstate \<Rightarrow> u64 run option" where
  "bound_strncat r src0 n s =
     map_option (\<lambda>dest.
       let src = scan_n (heap s) src0 n; n1 = (dest - r) + (src - src0) - 1; n2 = src - src0 in
       andthen (check_copy r n1 src0 n2 (incr_count ''bound_strncat_count'' s)) (\<lambda>stop s.
         if stop then Ret dest s
         else Ret r (write_heap (strncat_bytes (dest - 1) src0 n) s)))
     (scan (heap s) r)"

partial_function (option) strchr_loop :: "(u64 \<Rightarrow> u8) \<Rightarrow> u8 \<Rightarrow> u64 \<Rightarrow> u64 option" where
  "strchr_loop h ch p =
     (if h p \<noteq> 0 then (if h p = ch then Some p else strchr_loop h ch (p + 1)) else Some p)"

definition bound_strchr :: "u64 \<Rightarrow> u8 \<Rightarrow> bstate \<Rightarrow> u64 run option" where
  "bound_strchr str0 ch s =
     map_option (\<lambda>str.
       andthen (bound_check str0 (str - str0 + 1) (incr_count ''bound_strchr_count'' s)) (\<lambda>_ s.
       Ret (if heap s str = ch then str else 0) s))
     (strchr_loop (heap s) ch str0)"

function strrchr_loop :: "(u64 \<Rightarrow> u8) \<Rightarrow> u8 \<Rightarrow> u64 \<Rightarrow> u64 \<Rightarrow> u64" where
  "strrchr_loop h ch str0 str =
     (if str = str0 then str
      else if h (str - 1) = ch then str - 1
      else strrchr_loop h ch str0 (str - 1))"
  by pat_completeness auto
termination
  by (relation "measure (\<lambda>(h, ch, str0, str). unat (str - str0))")
    (auto simp: measure_unat diff_right_commute)

declare strrchr_loop.simps [simp del]

definition bound_strrchr :: "u64 \<Rightarrow> u8 \<Rightarrow> bstate \<Rightarrow> u64 run option" where
  "bound_strrchr str0 ch s =
     map_option (\<lambda>e.
       andthen (bound_check str0 (e - str0) (incr_count ''bound_strrchr_count'' s)) (\<lambda>_ s.
       let str = strrchr_loop (heap s) ch str0 e in
       andthen (bound_check str0 (str - str0) s) (\<lambda>_ s.
       Ret (if heap s str = ch then str else 0) s)))
     (scan (heap s) str0)"

definition bound_strdup :: "(u64 \<Rightarrow> u64) \<Rightarrow> u64 \<Rightarrow> bstate \<Rightarrow> u64 run option" where
  "bound_strdup alloc str s =
     map_option (\<lambda>p. let n = p - str in
       andthen (bound_check str n (incr_count ''bound_strdup_count'' s)) (\<lambda>_ s.
       let new = alloc (n + 1) in
       if new \<noteq> 0 then
         andthen (if no_checking s = 0 \<and> \<not> no_strdup s
                  then andthen (tree_insert new n s) (\<lambda>_ s. Ret () (tag_root new CPRIME_TYPE_STRDUP s))
                  else Ret () s)
           (\<lambda>_ s. Ret new (write_heap (copy_bytes new str n) s))
       else Ret new s))
     (scan (heap s) str)"

end
