(* ===== verification/BoundFacts.thy ===== *)
theory BoundFacts
  imports BoundMem
begin

text \<open>
  What the checks of the bounds checker decide, and what its operations do to the regions.
  The facts on the tree come from the interpretation \<open>rt\<close> of the region store.
\<close>

section \<open>Searching\<close>

declare set_inorder [simp del]

lemma locate_inorder [simp]: "inorder (locate p t) = inorder t"
  unfolding locate_def by (rule rt.locate_regs)

lemma locate_wf [inv_intros]: "wf_tree t \<Longrightarrow> wf_tree (locate p t)"
  unfolding locate_def by (rule rt.locate_inv)

lemma locate_root:
  assumes "wf_tree t" and "r \<in> set (inorder t)" and "covers r p"
  obtains l q where "locate p t = Node l r q"
  using rt.locate_covers [OF assms] by (cases "locate p t") (auto simp: locate_def)

lemma locate_Leaf [simp]: "locate p t = Leaf \<longleftrightarrow> t = Leaf"
  by (simp add: locate_def locate_with_def Let_def)

section \<open>Signed offsets\<close>

definition displacement :: "region \<Rightarrow> u64 \<Rightarrow> u64 \<Rightarrow> int" where
  "displacement r p offset = uint p - uint (rg_start r) + sint offset"

lemma offset_in_region:
  assumes "covers r p \<or> uint p = rg_end r" and "wf_region r"
  shows "uint (p - rg_start r) = uint p - uint (rg_start r)"
  using assms by (auto simp: uint64_minus_cases covers_def rg_end_def wf_region_def)

section \<open>States that differ by a search\<close>

definition searched :: "bstate \<Rightarrow> bstate \<Rightarrow> bool" where
  "searched s s' \<longleftrightarrow>
     s' = s\<lparr>bd_tree := bd_tree s', counts := counts s'\<rparr> \<and> inorder (bd_tree s') = inorder (bd_tree s)"

lemma searched_refl [simp]: "searched s s"
  by (simp add: searched_def)

lemma searched_trans: "searched s s' \<Longrightarrow> searched s' s'' \<Longrightarrow> searched s s''"
  by (cases s; cases s'; cases s'') (simp add: searched_def)

lemma searched_incr [simp]: "searched s (incr_count x s)"
  by (simp add: searched_def incr_count_def)

lemma searchedD:
  assumes "searched s s'"
  shows "inorder (bd_tree s') = inorder (bd_tree s)" and "heap s' = heap s"
    and "never_fatal s' = never_fatal s" and "no_checking s' = no_checking s"
    and "wf_tree (bd_tree s') = wf_tree (bd_tree s)" and "inited s' = inited s"
    and "free_reuse_list s' = free_reuse_list s" and "free_reuse_index s' = free_reuse_index s"
proof -
  obtain t c where s': "s' = s\<lparr>bd_tree := t, counts := c\<rparr>" using assms unfolding searched_def by blast
  show "inorder (bd_tree s') = inorder (bd_tree s)" using assms by (simp add: searched_def)
  then show "wf_tree (bd_tree s') = wf_tree (bd_tree s)" by (simp add: wf_tree_def)
  show "heap s' = heap s" and "never_fatal s' = never_fatal s" and "no_checking s' = no_checking s"
    and "inited s' = inited s" and "free_reuse_list s' = free_reuse_list s"
    and "free_reuse_index s' = free_reuse_index s"
    by (simp_all add: s')
qed

lemma searched_ptr_add: "searched s (snd (bound_ptr_add p offset s))"
  using locate_inorder [of p "bd_tree s"]
  by (cases "locate p (bd_tree s)")
    (auto simp: bound_ptr_add_def Let_def incr_count_def searched_def)

lemma searched_ptr_indir: "searched s (snd (bound_ptr_indir x dsize p offset s))"
  using locate_inorder [of p "bd_tree s"]
  by (cases "locate p (bd_tree s)")
    (auto simp: bound_ptr_indir_def Let_def incr_count_def searched_def)

section \<open>What a check of a pointer decides\<close>

lemma ptr_add_result:
  assumes "wf_tree (bd_tree s)" and "no_checking s = 0" and "never_fatal s \<le> 0"
    and "r \<in> set (inorder (bd_tree s))" and "covers r p"
  shows "fst (bound_ptr_add p offset s) =
    (if rg_invalid r \<or> \<not> p - rg_start r + offset \<le> rg_size r then INVALID_POINTER else p + offset)"
proof -
  obtain l q where loc: "locate p (bd_tree s) = Node l r q"
    using locate_root [OF assms(1,4,5)] .
  have "bd_tree s \<noteq> Leaf" using assms(4) by auto
  moreover have "p - rg_start r \<le> rg_size r"
    using offset_at_most wf_regionsD assms by (auto simp: wf_tree_def)
  ultimately show ?thesis
    using assms(2,3) by (simp add: bound_ptr_add_def Let_def incr_count_def loc linorder_not_less [symmetric])
qed

lemma ptr_indir_result:
  assumes "wf_tree (bd_tree s)" and "no_checking s = 0" and "never_fatal s \<le> 0"
    and "r \<in> set (inorder (bd_tree s))" and "covers r p"
  shows "fst (bound_ptr_indir x dsize p offset s) =
    (if rg_invalid r \<or> \<not> p - rg_start r + offset + dsize \<le> rg_size r
     then INVALID_POINTER else p + offset)"
proof -
  obtain l q where loc: "locate p (bd_tree s) = Node l r q"
    using locate_root [OF assms(1,4,5)] .
  have "bd_tree s \<noteq> Leaf" using assms(4) by auto
  moreover have "p - rg_start r \<le> rg_size r"
    using offset_at_most wf_regionsD assms by (auto simp: wf_tree_def)
  ultimately show ?thesis
    using assms(2,3) by (simp add: bound_ptr_indir_def Let_def incr_count_def loc linorder_not_less [symmetric])
qed

lemma displacement_le:
  assumes "wf_region r" and "covers r p" and "uint (rg_size r) < 9223372036854775808"
  shows "p - rg_start r + offset \<le> rg_size r
    \<longleftrightarrow> 0 \<le> displacement r p offset \<and> displacement r p offset \<le> uint (rg_size r)"
proof -
  have "uint (p - rg_start r) = uint p - uint (rg_start r)"
    using offset_in_region assms by blast
  moreover from this have "uint (p - rg_start r) < 9223372036854775808"
    using assms(2,3) by (simp add: covers_def rg_end_def)
  ultimately show ?thesis
    using plus_signed_le [of "p - rg_start r" "rg_size r" offset] assms(3)
    by (simp add: displacement_def)
qed

section \<open>Checked blocks\<close>

lemma bound_check_Ret:
  "bound_check p n s = Ret u s' \<Longrightarrow>
     searched s s' \<and> (n = 0 \<or> fst (bound_ptr_add p n s) \<noteq> INVALID_POINTER \<or> never_fatal s \<noteq> 0)"
  using searched_ptr_add [of s p n]
  by (auto simp: bound_check_def bound_error_def searchedD split: if_splits prod.splits)

lemma bound_check_Exit:
  "bound_check p n s = Exit c s' \<Longrightarrow>
     c = 255 \<and> searched s s' \<and> n \<noteq> 0 \<and> never_fatal s = 0 \<and> fst (bound_ptr_add p n s) = INVALID_POINTER"
  using searched_ptr_add [of s p n]
  by (auto simp: bound_check_def bound_error_def searchedD split: if_splits prod.splits)

lemma andthen_Ret:
  "andthen m k = Ret b s' \<longleftrightarrow> (\<exists>a s1. m = Ret a s1 \<and> k a s1 = Ret b s')"
  by (cases m) auto

lemma andthen_Exit:
  "andthen m k = Exit c s' \<longleftrightarrow> m = Exit c s' \<or> (\<exists>a s1. m = Ret a s1 \<and> k a s1 = Exit c s')"
  by (cases m) auto

text \<open>Two address ranges that do not wrap overlap when they share an address.\<close>

definition ranges_meet :: "u64 \<Rightarrow> u64 \<Rightarrow> u64 \<Rightarrow> u64 \<Rightarrow> bool" where
  "ranges_meet p1 n1 p2 n2 \<longleftrightarrow>
     (\<exists>a. uint p1 \<le> a \<and> a < uint p1 + uint n1 \<and> uint p2 \<le> a \<and> a < uint p2 + uint n2)"

lemma check_overlap_decides:
  assumes "no_checking s = 0"
    and "uint p1 + uint n1 < 18446744073709551616" and "uint p2 + uint n2 < 18446744073709551616"
  shows "check_overlap p1 n1 p2 n2 s =
    (if ranges_meet p1 n1 p2 n2 then
       (if never_fatal s = 0 then Exit 255 s else Ret (never_fatal s < 0) s)
     else Ret False s)"
proof -
  have e: "uint (p1 + n1) = uint p1 + uint n1" "uint (p2 + n2) = uint p2 + uint n2"
    using assms(2,3) by (simp_all add: uint64_plus_small)
  have "ranges_meet p1 n1 p2 n2 \<longleftrightarrow>
     n1 \<noteq> 0 \<and> n2 \<noteq> 0 \<and> (p1 \<le> p2 \<and> p1 + n1 > p2 \<or> p2 \<le> p1 \<and> p2 + n2 > p1)"
  proof
    assume "ranges_meet p1 n1 p2 n2"
    then show "n1 \<noteq> 0 \<and> n2 \<noteq> 0 \<and> (p1 \<le> p2 \<and> p1 + n1 > p2 \<or> p2 \<le> p1 \<and> p2 + n2 > p1)"
      unfolding word_order_int e ranges_meet_def by (auto simp: word_uint_eq_iff)
  next
    assume r: "n1 \<noteq> 0 \<and> n2 \<noteq> 0 \<and> (p1 \<le> p2 \<and> p1 + n1 > p2 \<or> p2 \<le> p1 \<and> p2 + n2 > p1)"
    have "0 < uint n1" "0 < uint n2" using r by (auto simp: word_uint_eq_iff order_less_le)
    with r show "ranges_meet p1 n1 p2 n2"
      unfolding word_order_int e ranges_meet_def
      by (intro exI [of _ "max (uint p1) (uint p2)"]) auto
  qed
  then show ?thesis using assms(1)
    by (auto simp: check_overlap_def bound_error_def Let_def)
qed

lemma check_copy_Ret:
  assumes "check_copy dest n1 src n2 s = Ret b s'"
  shows "searched s s' \<and> (n1 = 0 \<or> fst (bound_ptr_add dest n1 s) \<noteq> INVALID_POINTER \<or> never_fatal s \<noteq> 0)"
  using assms
  by (auto simp: check_copy_def andthen_Ret check_overlap_def bound_error_def Let_def searchedD
      dest!: bound_check_Ret split: if_splits intro: searched_trans)

lemma check_copy_Exit:
  assumes "check_copy dest n1 src n2 s = Exit c s'"
  shows "searched s s' \<and> c = 255"
  using assms
  by (auto simp: check_copy_def andthen_Exit check_overlap_def bound_error_def Let_def searchedD
      dest!: bound_check_Ret bound_check_Exit split: if_splits intro: searched_trans)

lemma incr_count_frame [simp]:
  "bd_tree (incr_count x s) = bd_tree s" "heap (incr_count x s) = heap s"
  "never_fatal (incr_count x s) = never_fatal s" "no_checking (incr_count x s) = no_checking s"
  "alloca_list (incr_count x s) = alloca_list s" "jmp_list (incr_count x s) = jmp_list s"
  "inited (incr_count x s) = inited s" "freed (incr_count x s) = freed s"
  "free_reuse_list (incr_count x s) = free_reuse_list s"
  "free_reuse_index (incr_count x s) = free_reuse_index s"
  "node_ok (incr_count x s) = node_ok s" "inserts (incr_count x s) = inserts s"
  "tree_free_list (incr_count x s) = tree_free_list s" "no_strdup (incr_count x s) = no_strdup s"
  by (simp_all add: incr_count_def)

lemma ptr_add_incr_count [simp]:
  "fst (bound_ptr_add p n (incr_count x s)) = fst (bound_ptr_add p n s)"
  by (cases "locate p (bd_tree s)") (auto simp: bound_ptr_add_def Let_def)

lemma memcpy_Ret:
  assumes "bound_memcpy dest src n s = Ret d s'"
  shows "\<exists>s1. searched s s1 \<and> d = dest
    \<and> (n = 0 \<or> fst (bound_ptr_add dest n s) \<noteq> INVALID_POINTER \<or> never_fatal s \<noteq> 0)
    \<and> (s' = s1 \<or> s' = write_heap (copy_bytes dest src n) s1)"
proof -
  obtain b s1 where c: "check_copy dest n src n (incr_count ''bound_mempcy_count'' s) = Ret b s1"
    and s': "d = dest \<and> (s' = s1 \<or> s' = write_heap (copy_bytes dest src n) s1)"
    using assms by (auto simp: bound_memcpy_def andthen_Ret split: if_splits)
  then show ?thesis
    using check_copy_Ret [OF c] searched_trans [OF searched_incr] by fastforce
qed

lemma memcpy_Exit: "bound_memcpy dest src n s = Exit c s' \<Longrightarrow> c = 255 \<and> heap s' = heap s"
  by (auto simp: bound_memcpy_def andthen_Exit incr_count_def split: if_splits
      dest!: check_copy_Exit searchedD(2))

section \<open>Changing the root\<close>

lemma set_root_regions:
  assumes "wf_tree t" and "root t = Some r"
    and "rg_start (f r) = rg_start r" and "rg_size (f r) = rg_size r"
  shows "wf_tree (set_root f t)" and "set (inorder (set_root f t)) = insert (f r) (set (inorder t) - {r})"
    and "root (set_root f t) = Some (f r)"
proof -
  obtain l q where t: "t = Node l r q" using assms(2) by (cases t) auto
  have wfs: "wf_regions (inorder l @ r # inorder q)" using assms(1) t by (simp add: wf_tree_def)
  have e: "rg_end (f r) = rg_end r" "wf_region (f r) = wf_region r"
    using assms(3,4) by (simp_all add: rg_end_def wf_region_def)
  show "wf_tree (set_root f t)" using wfs assms(3) by (simp add: t wf_tree_def wf_regions_mid e)
  have "r \<notin> set (inorder l) \<union> set (inorder q)"
    using wfs wf_region_bounds [of r] unfolding wf_regions_mid by (meson UnE less_le_not_le)
  then show "set (inorder (set_root f t)) = insert (f r) (set (inorder t) - {r})"
    by (simp add: t insert_Diff_if)
  show "root (set_root f t) = Some (f r)" by (simp add: t)
qed

lemma tree_delete_regions:
  assumes "wf_tree (bd_tree s)"
  shows "wf_tree (bd_tree (tree_delete a s))
    \<and> set (inorder (bd_tree (tree_delete a s))) = {r \<in> set (inorder (bd_tree s)). rg_start r \<noteq> a}"
proof -
  have "bd_tree (tree_delete a s) = fst (splay_delete a (bd_tree s) (tree_free_list s))"
    by (simp add: tree_delete_def split: prod.split)
  then show ?thesis using rt.del_regs [OF assms] by (simp)
qed

lemma tree_delete_frame [simp]:
  "never_fatal (tree_delete a s) = never_fatal s" "no_checking (tree_delete a s) = no_checking s"
  "heap (tree_delete a s) = heap s" "inited (tree_delete a s) = inited s"
  "free_reuse_list (tree_delete a s) = free_reuse_list s"
  "free_reuse_index (tree_delete a s) = free_reuse_index s"
  "alloca_list (tree_delete a s) = alloca_list s" "jmp_list (tree_delete a s) = jmp_list s"
  "freed (tree_delete a s) = freed s" "node_ok (tree_delete a s) = node_ok s"
  "counts (tree_delete a s) = counts s" "inserts (tree_delete a s) = inserts s"
  by (simp_all add: tree_delete_def split: prod.split)

lemma start_covers: "wf_region r \<Longrightarrow> covers r (rg_start r)"
  using wf_region_bounds by (simp add: covers_def)

text \<open>Freeing a live block keeps its region, marked invalid, and poisons its bytes.\<close>

lemma free_live_block:
  assumes "wf_tree (bd_tree s)" and "inited s" and "no_checking s = 0"
    and "r \<in> set (inorder (bd_tree s))" and "rg_start r = ptr" and "ptr \<noteq> 0" and "\<not> rg_invalid r"
    and "free_reuse_list s ! free_reuse_index s \<noteq> ptr"
    and "bound_free ptr s = Ret u s'"
  shows "wf_tree (bd_tree s') \<and> r\<lparr>rg_invalid := True\<rparr> \<in> set (inorder (bd_tree s'))
    \<and> heap s' = set_bytes ptr 0x5a (rg_size r) (heap s)
    \<and> never_fatal s' = never_fatal s \<and> no_checking s' = 0 \<and> inited s'"
proof -
  let ?inv = "\<lambda>n. n\<lparr>rg_invalid := True\<rparr>"
  let ?t = "set_root ?inv (splay ptr (bd_tree s))"
  have wfr: "wf_region r" using assms(1,4) by (simp add: wf_tree_def wf_regionsD)
  have rt: "root (splay ptr (bd_tree s)) = Some r"
    using rt.seek_covers [OF assms(1,4)] start_covers [OF wfr] assms(5) by simp
  have ne: "bd_tree s \<noteq> Leaf" using assms(4) by auto
  have wf: "wf_tree (splay ptr (bd_tree s))" using assms(1) by (rule inv_intros)
  note sr = set_root_regions [OF wf rt, of ?inv, simplified]
  let ?s4 = "(incr_count ''bound_free_count'' s)\<lparr>bd_tree := ?t,
      heap := set_bytes ptr 0x5a (rg_size r) (heap s)\<rparr>"
  let ?s5 = "snd (recycle ptr ?s4)"
  have s': "s' = libc_free (fst (recycle ptr ?s4)) ?s5"
    using assms(2,3,5,6,7,9) rt ne
    by (auto simp: bound_free_def Let_def incr_count_def mark_invalid_def split: prod.splits)
  have "wf_tree (bd_tree ?s5) \<and> ?inv r \<in> set (inorder (bd_tree ?s5))"
    using tree_delete_regions sr assms(5,8)
    by (auto simp: recycle_def Let_def incr_count_def)
  moreover have "heap ?s5 = set_bytes ptr 0x5a (rg_size r) (heap s)" "never_fatal ?s5 = never_fatal s"
    "no_checking ?s5 = 0" "inited ?s5"
    using assms(2,3) by (auto simp: recycle_def Let_def incr_count_def)
  ultimately show ?thesis by (simp add: s' libc_free_def)
qed

section \<open>Allocation, frames and jumps\<close>

lemma track_fresh:
  assumes "wf_tree (bd_tree s)" and "ptr \<noteq> 0" and "sz \<noteq> 0"
    and "wf_region (new_node ptr sz)" and "fresh_range ptr sz (inorder (bd_tree s))"
    and "node_ok s (inserts s) \<or> tree_free_list s \<noteq> 0"
  shows "\<exists>s'. track x ty ptr sz s = Ret () s' \<and> wf_tree (bd_tree s')
    \<and> set (inorder (bd_tree s')) =
        insert ((new_node ptr sz)\<lparr>rg_type := ty\<rparr>) (set (inorder (bd_tree s)))
    \<and> root (bd_tree s') = Some ((new_node ptr sz)\<lparr>rg_type := ty\<rparr>)
    \<and> no_checking s' = no_checking s \<and> never_fatal s' = never_fatal s \<and> heap s' = heap s"
proof -
  let ?n = "new_node ptr sz" and ?f = "\<lambda>n. n\<lparr>rg_type := ty\<rparr>"
  obtain t fl where i: "splay_insert (node_ok s (inserts s)) ptr sz (bd_tree s) (tree_free_list s) = Some (t, fl)"
    using assms(6) rt.ins_memory by (metis option.exhaust prod.exhaust)
  note f = rt.ins_fresh [OF assms(1,4,5) i]
  have st: "rg_start ?n = ptr" by (simp add: new_node_def)
  note sr = set_root_regions [of t ?n ?f]
  have "?n \<notin> set (inorder (bd_tree s))"
    using assms(4,5) wf_region_bounds [of ?n] by (fastforce simp: fresh_range_def new_node_def rg_end_def)
  then show ?thesis
    using assms(2,3) i f sr st
    by (auto simp: track_def Let_def tree_insert_def tag_root_def)
qed

text \<open>The regions a frame gives up on \<open>longjmp\<close>.\<close>

definition in_frame :: "u64 \<Rightarrow> u64 \<Rightarrow> region \<Rightarrow> bool" where
  "in_frame start_fp end_fp r \<longleftrightarrow> start_fp \<le> rg_start r \<and> rg_start r \<le> end_fp"

lemma search_frame_Some:
  "search_frame a b t = Some n \<Longrightarrow> n \<in> set (inorder t) \<and> in_frame a b n"
  by (induction a b t rule: search_frame.induct) (auto simp: in_frame_def split: if_splits)

lemma wf_starts_sorted: "wf_regions xs \<Longrightarrow> sorted_wrt (\<lambda>x y. rg_start x < rg_start y) xs"
  unfolding wf_regions_def
  by (rule sorted_wrt_mono_rel [of _ "\<lambda>x y. rg_end x \<le> uint (rg_start y)"])
    (auto simp: word_less_def dest!: wf_region_bounds)

lemma search_frame_None:
  assumes "wf_tree t"
  shows "search_frame a b t = None \<longleftrightarrow> (\<forall>r\<in>set (inorder t). \<not> in_frame a b r)"
proof -
  have "sorted_wrt (\<lambda>x y. rg_start x < rg_start y) (inorder t) \<Longrightarrow>
    search_frame a b t = None \<Longrightarrow> \<forall>r\<in>set (inorder t). \<not> in_frame a b r"
  proof (induction a b t rule: search_frame.induct)
    case (2 a b l n r)
    then show ?case
      by (auto simp: in_frame_def sorted_wrt_append not_le split: if_splits dest: order_less_trans)
  qed simp
  moreover have "sorted_wrt (\<lambda>x y. rg_start x < rg_start y) (inorder t)"
    using assms by (simp add: wf_tree_def wf_starts_sorted)
  ultimately show ?thesis using search_frame_Some by (metis option.exhaust option.distinct(1))
qed

lemma unwind_frames_ends:
  assumes "wf_tree (bd_tree s)"
  shows "\<exists>s'. unwind_frames a b s = Some s' \<and> wf_tree (bd_tree s')
    \<and> set (inorder (bd_tree s')) = {r \<in> set (inorder (bd_tree s)). \<not> in_frame a b r}
    \<and> jmp_list s' = jmp_list s \<and> heap s' = heap s \<and> freed s' = freed s"
  using assms
proof (induction "card (set (inorder (bd_tree s)))" arbitrary: s rule: less_induct)
  case less
  show ?case
  proof (cases "search_frame a b (bd_tree s)")
    case None
    then have "unwind_frames a b s = Some s" by (subst unwind_frames.simps) simp
    then show ?thesis using None less.prems search_frame_None by auto
  next
    case (Some n)
    let ?s = "s\<lparr>alloca_list := drop_alloca_at (rg_start n) (alloca_list s)\<rparr>"
    let ?d = "tree_delete (rg_start n) ?s"
    note n = search_frame_Some [OF Some]
    have d: "wf_tree (bd_tree ?d)"
      "set (inorder (bd_tree ?d)) = {r \<in> set (inorder (bd_tree s)). rg_start r \<noteq> rg_start n}"
      using tree_delete_regions [of ?s "rg_start n"] less.prems by simp_all
    have "set (inorder (bd_tree ?d)) \<subset> set (inorder (bd_tree s))" unfolding d(2) using n by blast
    then have "card (set (inorder (bd_tree ?d))) < card (set (inorder (bd_tree s)))"
      by (rule psubset_card_mono [OF finite_set])
    from less.hyps [OF this d(1)] obtain s' where s':
      "unwind_frames a b ?d = Some s'" "wf_tree (bd_tree s')"
      "set (inorder (bd_tree s')) = {r \<in> set (inorder (bd_tree ?d)). \<not> in_frame a b r}"
      "jmp_list s' = jmp_list s" "heap s' = heap s" "freed s' = freed s"
      by auto
    have "{r \<in> set (inorder (bd_tree ?d)). \<not> in_frame a b r} = {r \<in> set (inorder (bd_tree s)). \<not> in_frame a b r}"
      using n unfolding d(2) by (auto simp: in_frame_def)
    then show ?thesis using s' Some by (subst unwind_frames.simps) simp
  qed
qed

section \<open>Local variables\<close>

text \<open>A table whose entries are free, positive in size, and apart from one another.\<close>

fun fresh_table :: "u64 \<Rightarrow> (u64 \<times> u64) list \<Rightarrow> region list \<Rightarrow> bool" where
  "fresh_table fp [] xs \<longleftrightarrow> True"
| "fresh_table fp ((addr, sz) # p) xs \<longleftrightarrow>
     addr = 0 \<or> wf_region (new_node (addr + fp) sz) \<and> fresh_range (addr + fp) sz xs
       \<and> fresh_table fp p (new_node (addr + fp) sz # xs)"

lemma fresh_range_set: "set xs = set ys \<Longrightarrow> fresh_range a n xs = fresh_range a n ys"
  by (simp add: fresh_range_def)

lemma fresh_table_set: "set xs = set ys \<Longrightarrow> fresh_table fp p xs = fresh_table fp p ys"
proof (induction fp p xs arbitrary: ys rule: fresh_table.induct)
  case (2 fp addr sz p xs)
  let ?n = "new_node (addr + fp) sz"
  have "fresh_table fp p (?n # xs) = fresh_table fp p (?n # ys)" if "addr \<noteq> 0"
    using that 2(2) by (intro 2(1)) simp_all
  then show ?case using fresh_range_set [OF 2(2)] by (cases "addr = 0") simp_all
qed simp

fun table_regions :: "u64 \<Rightarrow> (u64 \<times> u64) list \<Rightarrow> region list" where
  "table_regions fp [] = []"
| "table_regions fp ((addr, sz) # p) =
     (if addr = 0 then [] else new_node (addr + fp) sz # table_regions fp p)"

lemma tree_insert_fresh:
  assumes "wf_tree (bd_tree s)" and "wf_region (new_node a sz)" and "fresh_range a sz (inorder (bd_tree s))"
    and "tree_insert a sz s = Ret u s'"
  shows "wf_tree (bd_tree s') \<and> set (inorder (bd_tree s')) = insert (new_node a sz) (set (inorder (bd_tree s)))
    \<and> no_checking s' = no_checking s \<and> alloca_list s' = alloca_list s \<and> jmp_list s' = jmp_list s"
proof -
  obtain t fl where i: "splay_insert (node_ok s (inserts s)) a sz (bd_tree s) (tree_free_list s) = Some (t, fl)"
    using assms(4) unfolding tree_insert_def by (auto split: option.split_asm)
  have "s' = s\<lparr>bd_tree := t, tree_free_list := fl, inserts := Suc (inserts s)\<rparr>"
    using assms(4) by (simp add: tree_insert_def i)
  then show ?thesis using rt.ins_fresh [OF assms(1-3) i] by simp
qed

lemma local_new_regions:
  assumes "wf_tree (bd_tree s)" and "fresh_table fp p (inorder (bd_tree s))"
    and "local_new_loop fp p s = Ret u s'"
  shows "wf_tree (bd_tree s')
    \<and> set (inorder (bd_tree s')) = set (table_regions fp p) \<union> set (inorder (bd_tree s))
    \<and> no_checking s' = no_checking s \<and> alloca_list s' = alloca_list s \<and> jmp_list s' = jmp_list s"
  using assms
proof (induction fp p s arbitrary: s' rule: local_new_loop.induct)
  case (2 fp addr sz p s)
  show ?case
  proof (cases "addr = 0")
    case False
    let ?s = "incr_count ''bound_local_new_count'' s"
    obtain v s1 where s1: "tree_insert (addr + fp) sz ?s = Ret v s1" "local_new_loop fp p s1 = Ret u s'"
      using 2(4) False by (auto simp: andthen_Ret)
    have f: "wf_region (new_node (addr + fp) sz)" "fresh_range (addr + fp) sz (inorder (bd_tree ?s))"
      "fresh_table fp p (new_node (addr + fp) sz # inorder (bd_tree s))"
      using 2(3) False by simp_all
    have w: "wf_tree (bd_tree ?s)" using 2(2) by simp
    note i = tree_insert_fresh [OF w f(1,2) s1(1)]
    have "fresh_table fp p (inorder (bd_tree s1))"
      using f(3) i by (subst fresh_table_set [of _ "new_node (addr + fp) sz # inorder (bd_tree s)"]) auto
    then show ?thesis using 2(1) [of s1 s'] i s1(2) False by auto
  qed (use 2 in auto)
qed auto


lemma local_delete_regions:
  assumes "wf_tree (bd_tree s)"
  shows "wf_tree (bd_tree (local_delete_loop fp p s))
    \<and> set (inorder (bd_tree (local_delete_loop fp p s))) =
       {r \<in> set (inorder (bd_tree s)). rg_start r \<notin> rg_start ` set (table_regions fp p)}
    \<and> alloca_list (local_delete_loop fp p s) = alloca_list s
    \<and> jmp_list (local_delete_loop fp p s) = jmp_list s"
  using assms
proof (induction fp p s rule: local_delete_loop.induct)
  case (2 fp addr sz p s)
  show ?case
  proof (cases "addr = 0")
    case False
    let ?s = "tree_delete (addr + fp) (incr_count ''bound_local_delete_count'' s)"
    have w: "wf_tree (bd_tree ?s)"
      and r: "set (inorder (bd_tree ?s)) = {r \<in> set (inorder (bd_tree s)). rg_start r \<noteq> addr + fp}"
      using tree_delete_regions [of "incr_count ''bound_local_delete_count'' s" "addr + fp"] 2(2)
      by simp_all
    show ?thesis using 2(1) [OF False w] False
      by (auto simp: r new_node_def)
  qed (use 2 in simp)
qed simp

lemma drop_allocas_regions:
  assumes "wf_tree (bd_tree s)" and "drop_allocas fp al s = (kept, s')"
  shows "kept = filter (\<lambda>e. al_fp e \<noteq> fp) al \<and> wf_tree (bd_tree s')
    \<and> set (inorder (bd_tree s')) = {r \<in> set (inorder (bd_tree s)).
         rg_start r \<notin> al_p ` {e \<in> set al. al_fp e = fp}}
    \<and> jmp_list s' = jmp_list s"
  using assms
proof (induction fp al s arbitrary: kept s' rule: drop_allocas.induct)
  case (2 fp cur rest s)
  show ?case
  proof (cases "al_fp cur = fp")
    case True
    have w: "wf_tree (bd_tree (tree_delete (al_p cur) s))"
      and r: "set (inorder (bd_tree (tree_delete (al_p cur) s))) =
        {r \<in> set (inorder (bd_tree s)). rg_start r \<noteq> al_p cur}"
      using tree_delete_regions [OF 2(3), of "al_p cur"] by simp_all
    show ?thesis using 2(1) [OF True w] 2(4) True by (auto simp: r)
  next
    case False
    show ?thesis using 2(2) [OF False 2(3)] 2(4) False by (auto split: prod.splits)
  qed
qed auto

lemma drop_jmps_filter: "drop_jmps fp jl = filter (\<lambda>j. jm_fp j \<noteq> fp) jl"
  by (induction jl) auto

lemma table_apart:
  assumes "fresh_table fp p xs" and "r \<in> set xs"
  shows "rg_start r \<notin> rg_start ` set (table_regions fp p) \<or> \<not> wf_region r"
  using assms
proof (induction fp p xs rule: fresh_table.induct)
  case (2 fp addr sz p xs)
  show ?case
  proof (cases "addr = 0")
    case False
    have "rg_start r \<noteq> addr + fp" if "wf_region r"
      using 2(2,3) False that wf_region_bounds [of "new_node (addr + fp) sz"] wf_region_bounds [OF that]
      by (fastforce simp: fresh_range_def new_node_def rg_end_def)
    then show ?thesis using 2 False by (auto simp: new_node_def)
  qed simp
qed simp

end
