(* ===== verification/BoundSpec.thy ===== *)
theory BoundSpec
  imports BoundFacts
begin

text \<open>
  What the bounds checker of \<^verbatim>\<open>src/src/runtime/generic/bcheck.c\<close> promises: its search,
  its decisions on pointers, copies and strings, the life of a block, and the frames; last,
  the places where a check gives way.
\<close>

section \<open>A state for the witnesses\<close>

definition one_block :: "u64 \<Rightarrow> bstate" where
  "one_block n = (initial_state (\<lambda>_. True) (\<lambda>_. 0))\<lparr>bd_tree := Node Leaf (new_node 4096 n) Leaf, inited := True\<rparr>"

lemmas one_block_simps = one_block_def initial_state_def wf_tree_def wf_regions_def wf_region_def
  new_node_def rg_end_def covers_def fresh_range_def CPRIME_TYPE_NONE_def

section \<open>The region tree\<close>

text \<open>C1: searching the splay tree for an address only rotates the tree and brings the region
  that holds the address to its root.\<close>

theorem splay_finds:
  assumes "wf_tree t"
  shows "inorder (splay a t) = inorder t \<and> wf_tree (splay a t)
    \<and> (\<forall>r\<in>set (inorder t). covers r a \<longrightarrow> root (splay a t) = Some r)"
  using assms by (auto intro: rt.seek_covers rt.seek_inv)

theorem splay_finds_witness:
  "\<exists>t. root (splay 4100 t) = Some (new_node 4096 16) \<and> t = Node (Node Leaf (new_node 4096 16) Leaf) (new_node 8192 8) Leaf"
  using splay_finds [of "Node (Node Leaf (new_node 4096 16) Leaf) (new_node 8192 8) Leaf" 4100]
  by (simp add: one_block_simps)

text \<open>Inserting a region that overlaps no other adds exactly that region and makes it the
  root; inserting at an address some region holds changes nothing but the root.\<close>

theorem splay_insert_spec:
  assumes "wf_tree t" and "splay_insert mem a sz t fl = Some (t', fl')"
  shows "(wf_region (new_node a sz) \<and> fresh_range a sz (inorder t) \<longrightarrow>
       wf_tree t' \<and> set (inorder t') = insert (new_node a sz) (set (inorder t))
       \<and> root t' = Some (new_node a sz))
    \<and> ((\<exists>r\<in>set (inorder t). covers r a) \<longrightarrow> t' = splay a t \<and> fl' = fl)"
  using rt.ins_fresh [OF assms(1) _ _ assms(2)] rt.ins_covered [OF assms(1)] assms(2) by auto

theorem splay_insert_spec_witness:
  "\<exists>t. root (fst (the (splay_insert True 8192 8 (Node Leaf (new_node 4096 16) Leaf) 0))) = Some t"
  using splay_insert_spec [of "Node Leaf (new_node 4096 16) Leaf" True 8192 8 0]
  by (cases "splay_insert True 8192 8 (Node Leaf (new_node 4096 16) Leaf) 0")
    (auto simp: one_block_simps dest: rt.ins_memory)

text \<open>Deleting an address removes the region that starts there and no other.\<close>

theorem splay_delete_spec:
  assumes "wf_tree t"
  shows "wf_tree (fst (splay_delete a t fl))
    \<and> set (inorder (fst (splay_delete a t fl))) = {r \<in> set (inorder t). rg_start r \<noteq> a}"
  using rt.del_regs [OF assms] .

theorem splay_delete_spec_witness:
  "set (inorder (fst (splay_delete 4096 (Node Leaf (new_node 4096 16) Leaf) 0))) = {}"
  using splay_delete_spec [of "Node Leaf (new_node 4096 16) Leaf" 4096 0]
  by (auto simp: one_block_simps)

section \<open>Checks of pointers\<close>

text \<open>C2: \<open>__bound_ptr_add\<close> on a pointer into a live region answers the sum when the sum stays
  between the start of the region and one past its last byte, and the invalid pointer in
  every other case.\<close>

theorem ptr_add_decides:
  assumes "wf_tree (bd_tree s)" and "no_checking s = 0" and "never_fatal s = 0"
    and "r \<in> set (inorder (bd_tree s))" and "covers r p" and "\<not> rg_invalid r"
    and "uint (rg_size r) < 2 ^ 63"
  shows "fst (bound_ptr_add p offset s) =
    (if 0 \<le> displacement r p offset \<and> displacement r p offset \<le> uint (rg_size r)
     then p + offset else INVALID_POINTER)"
proof -
  have wfr: "wf_region r" using assms(1,4) by (simp add: wf_tree_def wf_regionsD)
  show ?thesis
    using ptr_add_result [OF assms(1,2) _ assms(4,5)] displacement_le [OF wfr assms(5)] assms(3,6,7)
    by simp
qed

theorem ptr_add_decides_witness:
  "fst (bound_ptr_add 4100 12 (one_block 16)) = 4112 \<and> fst (bound_ptr_add 4100 13 (one_block 16)) = INVALID_POINTER"
  using ptr_add_decides [of "one_block 16" "new_node 4096 16" 4100 12]
    ptr_add_decides [of "one_block 16" "new_node 4096 16" 4100 13]
  by (simp add: one_block_simps displacement_def)

text \<open>\<open>__bound_ptr_indirN\<close> on a pointer into a live region accepts an access of \<open>dsize\<close>
  bytes exactly when it ends inside the region and starts no more than \<open>dsize\<close> bytes
  before it: the sum the code compares wraps around at the start.\<close>

theorem ptr_indir_decides:
  assumes "wf_tree (bd_tree s)" and "no_checking s = 0" and "never_fatal s = 0"
    and "r \<in> set (inorder (bd_tree s))" and "covers r p" and "\<not> rg_invalid r"
    and "uint (rg_size r) < 2 ^ 62" and "dsize < 2 ^ 62" and "- (2 ^ 62) \<le> sint offset" and "sint offset < 2 ^ 62"
  shows "fst (bound_ptr_indir x dsize p offset s) =
    (if - uint dsize \<le> displacement r p offset
        \<and> displacement r p offset + uint dsize \<le> uint (rg_size r)
     then p + offset else INVALID_POINTER)"
proof -
  have wfr: "wf_region r" using assms(1,4) by (simp add: wf_tree_def wf_regionsD)
  have d: "uint dsize < 2 ^ 62" using assms(8) by (simp add: word_less_def)
  have "signed_take_bit 63 (sint offset + uint dsize) = sint offset + uint dsize"
  proof (rule signed_take_bit_int_eq_self)
    have e: "0 \<le> uint dsize" "(2 :: int) ^ 63 = 2 * 2 ^ 62" by simp_all
    show "- (2 ^ 63) \<le> sint offset + uint dsize" using e d assms(9,10) by linarith
    show "sint offset + uint dsize < 2 ^ 63" using e d assms(9,10) by linarith
  qed
  then have b: "sint (offset + dsize) = sint offset + uint dsize"
    using d sint64_small [of dsize] by (simp add: sint_word_ariths)
  have "p - rg_start r + (offset + dsize) \<le> rg_size r \<longleftrightarrow>
      - uint dsize \<le> displacement r p offset
      \<and> displacement r p offset + uint dsize \<le> uint (rg_size r)"
    using displacement_le [OF wfr assms(5), of "offset + dsize"] assms(7) b
    unfolding displacement_def by (simp; linarith)
  then show ?thesis
    using ptr_indir_result [OF assms(1,2) _ assms(4,5), of x dsize offset] assms(3,6)
    by (simp add: add.assoc)
qed




theorem ptr_indir_decides_witness:
  "fst (bound_ptr_indir4 4100 8 (one_block 16)) = 4108 \<and> fst (bound_ptr_indir4 4100 9 (one_block 16)) = INVALID_POINTER
    \<and> fst (bound_ptr_indir4 4100 (- 8) (one_block 16)) = 4092"
  using ptr_indir_decides [of "one_block 16" "new_node 4096 16" 4100 4 8]
    ptr_indir_decides [of "one_block 16" "new_node 4096 16" 4100 4 9]
    ptr_indir_decides [of "one_block 16" "new_node 4096 16" 4100 4 "- 8"]
  by (simp add: one_block_simps displacement_def bound_ptr_indir4_def)


text \<open>C4: a copy between two ranges inside live regions that do not overlap is never
  refused: it returns the destination and copies exactly the bytes asked for.\<close>

theorem memcpy_no_false_alarm:
  assumes "wf_tree (bd_tree s)" and "no_checking s = 0" and "never_fatal s = 0"
    and "r \<in> set (inorder (bd_tree s))" and "covers r dest" and "\<not> rg_invalid r"
    and "q \<in> set (inorder (bd_tree s))" and "covers q src" and "\<not> rg_invalid q"
    and "uint dest + uint n \<le> rg_end r" and "uint src + uint n \<le> rg_end q"
    and "rg_end r < 2 ^ 63" and "rg_end q < 2 ^ 63"
    and "\<not> ranges_meet dest n src n"
  shows "\<exists>s'. bound_memcpy dest src n s = Ret dest s' \<and> heap s' = copy_bytes dest src n (heap s)
    \<and> inorder (bd_tree s') = inorder (bd_tree s)"
proof -
  have ok: "\<exists>s2. bound_check p n s1 = Ret () s2 \<and> searched s s2"
    if "searched s s1" "c \<in> set (inorder (bd_tree s))" "covers c p" "\<not> rg_invalid c"
       "uint p + uint n \<le> rg_end c" "rg_end c < 2 ^ 63" for s1 c p
  proof -
    have wfc: "wf_region c" using assms(1) that(2) by (simp add: wf_tree_def wf_regionsD)
    have "uint p + uint n < 2 ^ 63" "uint (rg_start c) + uint (rg_size c) < 2 ^ 63"
      using that(5,6) by (auto simp: rg_end_def)
    moreover have "0 \<le> uint p" "0 \<le> uint n" "0 \<le> uint (rg_start c)" by simp_all
    ultimately have b: "uint (rg_size c) < 2 ^ 63" "uint n < 2 ^ 63" "uint p + uint n < 2 ^ 63"
      by linarith+
    then have e: "uint (p + n) < 2 ^ 63" by (simp add: uint64_plus_small)
    have "p + n \<noteq> INVALID_POINTER" using e by (auto simp: INVALID_POINTER_def)
    moreover have "fst (bound_ptr_add p n s1) = p + n"
      using ptr_add_result [of s1 c p n] displacement_le [OF wfc that(3), of n] searchedD [OF that(1)]
        assms(1-3) that b sint64_small [of n]
      by (simp add: displacement_def covers_def rg_end_def)
    ultimately show ?thesis
      using searched_ptr_add [of s1 p n] that(1)
      by (cases "bound_ptr_add p n s1") (auto simp: bound_check_def intro: searched_trans)
  qed
  obtain s1 where s1: "bound_check dest n (incr_count ''bound_mempcy_count'' s) = Ret () s1" "searched s s1"
    using ok [OF searched_incr assms(4-6,10,12)] by blast
  obtain s2 where s2: "bound_check src n s1 = Ret () s2" "searched s s2"
    using ok [OF s1(2) assms(7-9,11,13)] by blast
  have "check_overlap dest n src n s2 = Ret False s2"
    using check_overlap_decides [of s2 dest n src n] searchedD [OF s2(2)] assms by simp
  then have "bound_memcpy dest src n s = Ret dest (write_heap (copy_bytes dest src n) s2)"
    by (simp add: bound_memcpy_def check_copy_def s1 s2)
  then show ?thesis using searchedD [OF s2(2)] by (simp add: write_heap_def)
qed

theorem memcpy_no_false_alarm_witness:
  "\<exists>s'. bound_memcpy 4096 4104 8 (one_block 16) = Ret 4096 s'"
  using memcpy_no_false_alarm [of "one_block 16" "new_node 4096 16" 4096 "new_node 4096 16" 4104 8]
  by (auto simp: one_block_simps ranges_meet_def)

section \<open>Allocation\<close>

text \<open>C5: \<open>__bound_malloc\<close> of a size other than 0 answers the block of the C library and
  records it as a live region of exactly the size asked for, beside the regions already
  there.\<close>

theorem malloc_tracks_block:
  assumes "wf_tree (bd_tree s)" and "inited s" and "no_checking s = 0" and "sz \<noteq> 0"
    and "alloc (sz + 1) \<noteq> 0" and "wf_region (new_node (alloc (sz + 1)) sz)"
    and "fresh_range (alloc (sz + 1)) sz (inorder (bd_tree s))"
    and "node_ok s (inserts s) \<or> tree_free_list s \<noteq> 0"
  shows "\<exists>s'. bound_malloc alloc sz s = Ret (alloc (sz + 1)) s' \<and> wf_tree (bd_tree s')
    \<and> set (inorder (bd_tree s')) =
       insert \<lparr>rg_start = alloc (sz + 1), rg_size = sz, rg_type = CPRIME_TYPE_MALLOC, rg_invalid = False\<rparr>
         (set (inorder (bd_tree s)))"
proof -
  have e: "(new_node a sz)\<lparr>rg_type := CPRIME_TYPE_MALLOC\<rparr> =
    \<lparr>rg_start = a, rg_size = sz, rg_type = CPRIME_TYPE_MALLOC, rg_invalid = False\<rparr>" for a
    by (simp add: new_node_def)
  show ?thesis
    using track_fresh [OF assms(1,5,4,6,7,8), of "''bound_malloc_count''" CPRIME_TYPE_MALLOC] assms(2,3)
    by (auto simp: bound_malloc_def Let_def e)
qed

theorem malloc_tracks_block_witness:
  "\<exists>s'. bound_malloc (\<lambda>n. 8192) 8 (one_block 16) = Ret 8192 s' \<and> wf_tree (bd_tree s')"
  using malloc_tracks_block [of "one_block 16" 8 "\<lambda>n. 8192"] by (auto simp: one_block_simps)

text \<open>C6: a block that was freed stays known to the checker: every arithmetic on a pointer
  into it and every access through one answers the invalid pointer, and freeing it again
  ends the process.\<close>

theorem freed_block_is_dead:
  assumes "wf_tree (bd_tree s)" and "inited s" and "no_checking s = 0" and "never_fatal s = 0"
    and "r \<in> set (inorder (bd_tree s))" and "rg_start r = ptr" and "ptr \<noteq> 0" and "\<not> rg_invalid r"
    and "free_reuse_list s ! free_reuse_index s \<noteq> ptr"
    and "bound_free ptr s = Ret u s'" and "covers r p"
  shows "fst (bound_ptr_add p offset s') = INVALID_POINTER
    \<and> fst (bound_ptr_indir x dsize p offset s') = INVALID_POINTER
    \<and> (\<exists>s''. bound_free ptr s' = Exit 255 s'')"
proof -
  let ?r = "r\<lparr>rg_invalid := True\<rparr>"
  note f = free_live_block [OF assms(1-3,5-10)]
  have wfr: "wf_region ?r" using f by (auto simp: wf_tree_def dest: wf_regionsD)
  have c: "covers ?r p" using assms(11) by (simp add: covers_def rg_end_def)
  have "root (splay ptr (bd_tree s')) = Some ?r"
    using f rt.seek_covers start_covers [OF wfr] assms(6) by fastforce
  moreover have "bd_tree s' \<noteq> Leaf" using f by auto
  ultimately show ?thesis
    using ptr_add_result [of s' ?r p offset] ptr_indir_result [of s' ?r p x dsize offset] f c assms(4,6,7)
    by (auto simp: bound_free_def Let_def bound_error_def)
qed

theorem freed_block_is_dead_witness:
  "\<exists>s'. fst (bound_ptr_add 4100 0 s') = INVALID_POINTER \<and> bound_free 4096 (one_block 16) = Ret () s'"
proof -
  have "\<exists>s'. bound_free 4096 (one_block 16) = Ret () s'"
    by (simp add: one_block_def initial_state_def new_node_def bound_free_def incr_count_def Let_def
        splay_def splay_loop.simps compare_def assemble_def recycle_def mark_invalid_def libc_free_def)
  then obtain s' where "bound_free 4096 (one_block 16) = Ret () s'" by blast
  moreover from this have "fst (bound_ptr_add 4100 0 s') = INVALID_POINTER"
    using freed_block_is_dead [of "one_block 16" "new_node 4096 16" 4096 "()" s' 4100 0]
    by (simp add: one_block_simps)
  ultimately show ?thesis by blast
qed

section \<open>Frames\<close>

text \<open>C7: the regions a function enters for its local variables are exactly those it removes
  on return: after \<open>__bound_local_new\<close> and \<open>__bound_local_delete\<close> with the same table
  the checker knows the regions it knew before, when the table is apart from them and the
  frame owns no \<open>alloca\<close> block.\<close>

theorem local_frame_roundtrip:
  assumes "wf_tree (bd_tree s)" and "no_checking s = 0"
    and "fresh_table fp p (inorder (bd_tree s))" and "\<forall>e\<in>set (alloca_list s). al_fp e \<noteq> fp"
    and "bound_local_new fp p s = Ret u s'"
  shows "set (inorder (bd_tree s')) = set (table_regions fp p) \<union> set (inorder (bd_tree s))
    \<and> set (inorder (bd_tree (bound_local_delete fp p s'))) = set (inorder (bd_tree s))
    \<and> wf_tree (bd_tree (bound_local_delete fp p s'))"
proof -
  have "local_new_loop fp p s = Ret u s'" using assms(2,5) by (simp add: bound_local_new_def)
  note n = local_new_regions [OF assms(1,3) this]
  let ?d = "local_delete_loop fp p s'"
  note d = local_delete_regions [of s' fp p]
  obtain kept s2 where k: "drop_allocas fp (alloca_list ?d) ?d = (kept, s2)" by fastforce
  have e: "{e \<in> set (alloca_list ?d). al_fp e = fp} = {}" using assms(4) n d by auto
  have "wf_tree (bd_tree s2) \<and> set (inorder (bd_tree s2)) = set (inorder (bd_tree ?d))"
    using drop_allocas_regions [OF _ k] n d unfolding e by simp
  moreover have "bound_local_delete fp p s' = s2\<lparr>alloca_list := kept, jmp_list := drop_jmps fp (jmp_list s2)\<rparr>"
    using k n assms(2) by (simp add: bound_local_delete_def Let_def)
  moreover have "set (inorder (bd_tree ?d)) = set (inorder (bd_tree s))"
    using n d table_apart [OF assms(3)] assms(1) by (auto simp: wf_tree_def dest: wf_regionsD)
  ultimately show ?thesis using n by simp
qed

theorem local_frame_roundtrip_witness:
  "\<exists>s'. bound_local_new 65536 [(- 16, 8), (- 32, 8), (0, 0)] (one_block 16) = Ret () s'
    \<and> set (inorder (bd_tree (bound_local_delete 65536 [(- 16, 8), (- 32, 8), (0, 0)] s'))) = {new_node 4096 16}"
proof -
  have "\<exists>s'. bound_local_new 65536 [(- 16, 8), (- 32, 8), (0, 0)] (one_block 16) = Ret () s'"
    by (simp add: one_block_def initial_state_def new_node_def bound_local_new_def tree_insert_def
        splay_insert_def incr_count_def Let_def splay_def splay_loop.simps compare_def assemble_def)
  then obtain s' where "bound_local_new 65536 [(- 16, 8), (- 32, 8), (0, 0)] (one_block 16) = Ret () s'"
    by blast
  then show ?thesis
    using local_frame_roundtrip [of "one_block 16" 65536 "[(- 16, 8), (- 32, 8), (0, 0)]" "()" s']
    by (simp add: one_block_simps)
qed

text \<open>C8: \<open>__bound_long_jump\<close> to a recorded \<open>setjmp\<close> returns, and what it forgets is exactly the
  regions that start between the frame pointer of the jump and that of the \<open>setjmp\<close>.\<close>

theorem long_jump_unwinds:
  assumes "wf_tree (bd_tree s)" and "no_checking s = 0"
    and "List.find (\<lambda>jl. jm_env jl = env \<and> jm_tid jl = tid) (jmp_list s) = Some jl"
  shows "\<exists>s'. bound_long_jump env tid start_fp s = Some s' \<and> wf_tree (bd_tree s')
    \<and> set (inorder (bd_tree s')) =
       {r \<in> set (inorder (bd_tree s)). \<not> (start_fp \<le> rg_start r \<and> rg_start r \<le> jm_end_fp jl)}
    \<and> jmp_list s' = drop_newer_jmps env tid (jmp_list s)"
proof -
  let ?s = "(incr_count ''bound_longjmp_count'' s)\<lparr>jmp_list := drop_newer_jmps env tid (jmp_list s)\<rparr>"
  have "wf_tree (bd_tree ?s)" using assms(1) by simp
  then obtain s' where s': "unwind_frames start_fp (jm_end_fp jl) ?s = Some s'" "wf_tree (bd_tree s')"
    "set (inorder (bd_tree s')) = {r \<in> set (inorder (bd_tree ?s)). \<not> in_frame start_fp (jm_end_fp jl) r}"
    "jmp_list s' = jmp_list ?s"
    using unwind_frames_ends by blast
  moreover have "bound_long_jump env tid start_fp s = unwind_frames start_fp (jm_end_fp jl) ?s"
    unfolding bound_long_jump_def Let_def using assms(2,3) by simp
  ultimately show ?thesis by (simp add: in_frame_def)
qed

theorem long_jump_unwinds_witness:
  "\<exists>s'. bound_long_jump 7 1 4000 ((one_block 16)\<lparr>jmp_list := [\<lparr>jm_env = 7, jm_fp = 5000, jm_end_fp = 5000, jm_tid = 1\<rparr>]\<rparr>) = Some s'
    \<and> set (inorder (bd_tree s')) = {}"
proof -
  let ?jl = "\<lparr>jm_env = 7, jm_fp = 5000, jm_end_fp = 5000, jm_tid = 1\<rparr>"
  let ?s = "(one_block 16)\<lparr>jmp_list := [?jl]\<rparr>"
  have "wf_tree (bd_tree ?s)" "no_checking ?s = 0"
    "List.find (\<lambda>jl. jm_env jl = 7 \<and> jm_tid jl = 1) (jmp_list ?s) = Some ?jl"
    by (simp_all add: one_block_simps)
  from long_jump_unwinds [OF this, of 4000] obtain s' where
    "bound_long_jump 7 1 4000 ?s = Some s'"
    "set (inorder (bd_tree s')) =
       {r \<in> set (inorder (bd_tree ?s)). \<not> (4000 \<le> rg_start r \<and> rg_start r \<le> jm_end_fp ?jl)}"
    by blast
  moreover have "set (inorder (bd_tree ?s)) = {new_node 4096 16}" by (simp add: one_block_def)
  ultimately have "set (inorder (bd_tree s')) = {}" by (simp add: new_node_def)
  with \<open>bound_long_jump 7 1 4000 ?s = Some s'\<close> show ?thesis by blast
qed

section \<open>Strings\<close>

lemma scan_finds:
  assumes "\<forall>i<k. h (p + of_nat i) \<noteq> 0" and "h (p + of_nat k) = 0"
  shows "scan h p = Some (p + of_nat k + 1)"
  using assms
proof (induction k arbitrary: p)
  case 0
  then show ?case by (subst scan.simps) simp
next
  case (Suc k)
  have "h p \<noteq> 0" using Suc.prems(1) [rule_format, of 0] by simp
  moreover have "h (p + 1 + of_nat i) \<noteq> 0" if "i < k" for i
    using Suc.prems(1) [rule_format, of "Suc i"] that by (simp add: add.assoc)
  then have "scan h (p + 1) = Some (p + 1 + of_nat k + 1)"
    using Suc.prems(2) by (intro Suc.IH) (simp_all add: add.assoc)
  ultimately show ?case by (subst scan.simps) (simp add: ac_simps)
qed

text \<open>\<open>__bound_strlen\<close> of a pointer into a live region whose first zero byte is \<open>k\<close> bytes
  on returns \<open>k\<close> when that byte is in the region, and ends the process when the string runs
  out of the region.\<close>

theorem strlen_decides:
  assumes "wf_tree (bd_tree s)" and "no_checking s = 0" and "never_fatal s = 0"
    and "r \<in> set (inorder (bd_tree s))" and "covers r str" and "\<not> rg_invalid r"
    and "\<forall>i<k. heap s (str + of_nat i) \<noteq> 0" and "heap s (str + of_nat k) = 0"
    and "rg_end r < 2 ^ 62" and "int k < 2 ^ 32"
  shows "\<exists>s'. inorder (bd_tree s') = inorder (bd_tree s) \<and> bound_strlen str s =
    Some (if uint str + int k < rg_end r then Ret (of_nat k) s' else Exit 255 s')"
proof -
  let ?s = "incr_count ''bound_strlen_count'' s" and ?n = "of_nat k + 1 :: u64"
  obtain q s1 where ps: "bound_ptr_add str ?n ?s = (q, s1)" by fastforce
  have se: "searched s s1"
    using searched_ptr_add [of ?s str ?n] searched_trans [OF searched_incr] by (simp add: ps)
  note sd = searchedD [OF se]
  have wfr: "wf_region r" using assms(1,4) by (simp add: wf_tree_def wf_regionsD)
  have l: "0 \<le> uint (rg_start r)" "uint (rg_start r) \<le> uint str" "uint str < rg_end r"
    using assms(5) by (simp_all add: covers_def)
  have e: "rg_end r < 4611686018427387904" using assms(9) by simp
  have k: "uint (of_nat k :: u64) = int k" using assms(10) by (simp add: unsigned_of_nat take_bit_eq_mod)
  have n: "uint ?n = int k + 1" using assms(10) by (simp add: uint64_plus_small k)
  have n0: "?n \<noteq> 0" using n by (metis add.commute add_0 of_nat_0_le_iff uint_0_eq zle_add1_eq_le less_irrefl)
  have sn: "sint ?n = int k + 1" using sint64_small [of ?n] n assms(10) by simp
  have "uint (rg_size r) < 9223372036854775808" using l e unfolding rg_end_def by linarith
  then have dec: "str - rg_start r + ?n \<le> rg_size r \<longleftrightarrow> uint str + int k < rg_end r"
    using displacement_le [OF wfr assms(5), of ?n] l unfolding displacement_def sn rg_end_def by linarith
  have "uint (str + ?n) = uint str + int k + 1"
    using l e assms(10) n by (subst uint64_plus_small) simp_all
  moreover have "uint INVALID_POINTER = 18446744073709551614" by (simp add: INVALID_POINTER_def)
  moreover have "int k < 4294967296" using assms(10) by simp
  ultimately have "uint (str + ?n) \<noteq> uint INVALID_POINTER" using l e by linarith
  then have "str + ?n \<noteq> INVALID_POINTER" by metis
  moreover have "q = (if uint str + int k < rg_end r then str + ?n else INVALID_POINTER)"
    using ptr_add_result [of ?s r str ?n] assms(1-6) dec by (simp add: ps)
  moreover have "bound_strlen str s = Some (andthen (bound_check str ?n ?s) (\<lambda>_ s. Ret (ucast (of_nat k :: u64)) s))"
    using scan_finds [OF assms(7,8)] by (simp add: bound_strlen_def add.assoc)
  moreover have "ucast (of_nat k :: u64) = (of_nat k :: u32)"
    by (rule bit_word_eqI) (simp add: bit_simps)
  ultimately show ?thesis using n0 sd assms(3)
    by (auto simp: bound_check_def ps bound_error_def intro!: exI [of _ s1])
qed

theorem strlen_decides_witness:
  "\<exists>s'. bound_strlen 4098 (one_block 16) = Some (Ret 0 s')"
  using strlen_decides [of "one_block 16" "new_node 4096 16" 4098 0]
  by (simp add: one_block_simps) blast

section \<open>Where the checks give way\<close>

text \<open>\<open>BOUND_PTR_INDIR\<close>: an access that starts up to its own size before the block passes.\<close>

lemma indir_before_block_accepted:
  "fst (bound_ptr_indir8 4096 (- 8) (one_block 16)) = 4088"
  using ptr_indir_result [of "one_block 16" "new_node 4096 16" 4096 "''bound_ptr_indir8_count''" 8 "- 8"]
  by (simp add: one_block_simps bound_ptr_indir8_def)

text \<open>\<open>splay_delete\<close> misses a region of size 0, which the search never compares equal to.\<close>

lemma empty_region_not_deleted:
  "fst (splay_delete 100 (Node Leaf (new_node 100 0) (Node Leaf (new_node 200 8) Leaf)) 0) =
     Node (Node Leaf (new_node 100 0) Leaf) (new_node 200 8) Leaf"
  by (simp add: splay_delete_def splay_def splay_loop.simps compare_def compare_destroy_def assemble_def new_node_def)

text \<open>\<open>__bound_calloc\<close> multiplies without an overflow check: the block recorded is smaller
  than the array asked for.\<close>

lemma calloc_wraps:
  "bound_calloc alloc (2 ^ 61 + 1) 8 s = bound_calloc alloc 1 8 s"
proof -
  have "(8 :: u64) * (2 ^ 61 + 1) = 8 * 1" by (simp add: word_uint_eq_iff)
  then show ?thesis unfolding bound_calloc_def by metis
qed

text \<open>\<open>__bound_malloc\<close> of the largest size asks the C library for no byte at all.\<close>

lemma malloc_largest:
  "inited s \<Longrightarrow> no_checking s = 0 \<Longrightarrow> alloc 0 = 4096 \<Longrightarrow>
     bound_malloc alloc (- 1) s = andthen (track ''bound_malloc_count'' CPRIME_TYPE_MALLOC 4096 (- 1) s) (\<lambda>_. Ret 4096)"
  by (simp add: bound_malloc_def)

end
