(* ===== verification/OverflowQuery.thy ===== *)
theory OverflowQuery
  imports Prelude
begin

text \<open>
  The overflow query of the compiler's \<open>__builtin_*_overflow\<close> functions
  (\<^verbatim>\<open>src/src/include/runtime/cprime_overflow_query.h\<close>), used by the front end for
  constants and by the runtime for the rest.  Bit 0 and bit 1 of \<open>flags\<close> say whether the
  operands are signed, bit 2 whether the destination is unsigned; \<open>operation\<close> is 0 for
  addition, 1 for subtraction, 2 for multiplication.
\<close>

section \<open>The query\<close>

text \<open>The two operands as the code splits them: a magnitude and a sign.\<close>

definition negated :: "u64 \<Rightarrow> bool \<Rightarrow> bool" where
  "negated x sg \<longleftrightarrow> sg \<and> drop_bit 63 x \<noteq> 0"

definition combine :: "u64 \<Rightarrow> bool \<Rightarrow> u64 \<Rightarrow> bool \<Rightarrow> nat \<Rightarrow> (u64 \<times> bool) option" where
  "combine lhs left_negative rhs right_negative operation =
     (if operation = 2 then
        (if rhs \<noteq> 0 \<and> lhs > (NOT 0) div rhs then None
         else Some (lhs * rhs, left_negative \<noteq> right_negative))
      else
        let right_negative = (if operation = 1 \<and> rhs \<noteq> 0 then \<not> right_negative else right_negative) in
        if left_negative = right_negative then
          (if lhs + rhs < lhs then None else Some (lhs + rhs, left_negative))
        else if lhs \<ge> rhs then Some (lhs - rhs, left_negative)
        else Some (rhs - lhs, right_negative))"

definition cpc_overflow_query :: "u64 \<Rightarrow> u64 \<Rightarrow> u32 \<Rightarrow> nat \<Rightarrow> nat \<Rightarrow> int" where
  "cpc_overflow_query lhs rhs flags width operation =
     (let left_negative = negated lhs (flags AND 1 \<noteq> 0);
          right_negative = negated rhs (flags AND 2 \<noteq> 0);
          lhs = (if left_negative then 0 - lhs else lhs);
          rhs = (if right_negative then 0 - rhs else rhs)
      in case combine lhs left_negative rhs right_negative operation of
           None \<Rightarrow> 1
         | Some (magnitude, negative) \<Rightarrow>
             if flags AND 4 \<noteq> 0 then
               (if negative \<and> magnitude \<noteq> 0 then 1
                else let limit = (if width = 64 then NOT 0 else push_bit width 1 - 1)
                     in of_bool (magnitude > limit))
             else
               let limit = push_bit (width - 1) 1; limit = (if negative then limit else limit - 1)
               in of_bool (magnitude > limit))"

section \<open>Specification\<close>

definition operand :: "u64 \<Rightarrow> bool \<Rightarrow> int" where
  "operand x sg = (if sg then sint x else uint x)"

definition exact :: "nat \<Rightarrow> int \<Rightarrow> int \<Rightarrow> int" where
  "exact operation a b = (if operation = 2 then a * b else if operation = 1 then a - b else a + b)"

definition in_width :: "bool \<Rightarrow> nat \<Rightarrow> int \<Rightarrow> bool" where
  "in_width unsign width v \<longleftrightarrow>
     (if unsign then 0 \<le> v \<and> v < 2 ^ width else - (2 ^ (width - 1)) \<le> v \<and> v < 2 ^ (width - 1))"

definition sval :: "bool \<Rightarrow> u64 \<Rightarrow> int" where
  "sval negative m = (if negative then - uint m else uint m)"

lemma negated_sval:
  "sval (negated x sg) (if negated x sg then 0 - x else x) = operand x sg"
proof -
  have "uint (drop_bit 63 x) = uint x div 9223372036854775808"
    by (simp add: drop_bit_eq_div uint_div)
  moreover have "drop_bit 63 x \<noteq> 0 \<longleftrightarrow> uint (drop_bit 63 x) \<noteq> 0" by (simp add: word_uint_eq_iff)
  moreover have "0 \<le> uint x" by simp
  ultimately have "drop_bit 63 x \<noteq> 0 \<longleftrightarrow> 9223372036854775808 \<le> uint x"
    by (auto simp only: zdiv_eq_0_iff)
  moreover have "uint (- x) = (if x = 0 then 0 else 18446744073709551616 - uint x)"
    using uint64_minus_cases [of 0 x] by (simp add: word_uint_eq_iff)
  ultimately show ?thesis
    by (auto simp: sval_def negated_def operand_def sint64_cases)
qed


lemma combine_None:
  assumes "combine L ln R rn op = None"
  shows "\<bar>exact op (sval ln L) (sval rn R)\<bar> \<ge> 18446744073709551616"
proof (cases "op = 2")
  case True
  then have r: "R \<noteq> 0" "L > (NOT 0) div R" using assms by (auto simp: combine_def split: if_splits)
  have "uint (NOT 0 div R) = 18446744073709551615 div uint R"
    by (simp add: uint_div unsigned_minus_1_eq_mask mask_eq_exp_minus_1)
  then have "18446744073709551615 div uint R < uint L" using r(2) by (simp add: word_less_def)
  moreover have R: "0 < uint R" using r(1) by (simp add: word_uint_eq_iff order_less_le)
  ultimately have "18446744073709551615 < uint L * uint R"
    by (simp add: int_div_less_iff)
  then have "\<bar>uint L * uint R\<bar> \<ge> 18446744073709551616" by simp
  with True show ?thesis by (simp add: exact_def sval_def abs_mult)
next
  case False
  let ?rn = "if op = 1 \<and> R \<noteq> 0 then \<not> rn else rn"
  have r: "ln = ?rn" "L + R < L" using assms False by (auto simp: combine_def Let_def split: if_splits)
  have "\<not> uint L + uint R < 18446744073709551616"
    using r(2) uint64_plus_small [of L R] by (auto simp: word_less_def)
  with r False show ?thesis
    by (auto simp: exact_def sval_def split: if_splits)
qed

lemma combine_Some:
  assumes "combine L ln R rn op = Some (m, n)"
  shows "exact op (sval ln L) (sval rn R) = sval n m"
proof (cases "op = 2")
  case True
  then have r: "R = 0 \<or> \<not> L > (NOT 0) div R" "m = L * R" "n = (ln \<noteq> rn)"
    using assms by (auto simp: combine_def split: if_splits)
  have "uint L * uint R < 18446744073709551616"
  proof (cases "R = 0")
    case False
    have "uint (NOT 0 div R) = 18446744073709551615 div uint R"
      by (simp add: uint_div unsigned_minus_1_eq_mask mask_eq_exp_minus_1)
    then have "\<not> 18446744073709551615 div uint R < uint L" using r(1) False by (simp add: word_less_def)
    moreover have R: "0 < uint R" using False by (simp add: word_uint_eq_iff order_less_le)
    ultimately have "\<not> 18446744073709551615 < uint L * uint R"
      by (simp add: int_div_less_iff)
    then show ?thesis by simp
  qed simp
  then have "uint m = uint L * uint R" using r(2) by (simp add: uint_word_ariths)
  with True r(3) show ?thesis by (simp add: exact_def sval_def)
next
  case False
  let ?rn = "if op = 1 \<and> R \<noteq> 0 then \<not> rn else rn"
  have e: "exact op (sval ln L) (sval rn R) = sval ln L + sval ?rn R"
    using False by (auto simp: exact_def sval_def)
  consider "ln = ?rn" "\<not> L + R < L" "m = L + R" "n = ln"
    | "ln \<noteq> ?rn" "L \<ge> R" "m = L - R" "n = ln" | "ln \<noteq> ?rn" "\<not> L \<ge> R" "m = R - L" "n = ?rn"
    using assms False by (auto simp: combine_def Let_def split: if_splits)
  then show ?thesis
  proof cases
    case 1
    have "uint L + uint R < 18446744073709551616"
    proof (rule ccontr)
      assume "\<not> uint L + uint R < 18446744073709551616"
      moreover have "uint R < 18446744073709551616" "uint L < 18446744073709551616" by (rule uint64_less)+
      ultimately have "(uint L + uint R - 18446744073709551616) mod 18446744073709551616
          = uint L + uint R - 18446744073709551616"
        by (intro mod_pos_pos_trivial) linarith+
      then have "uint (L + R) = uint L + uint R - 18446744073709551616"
        unfolding uint64_plus minus_mod_self2 .
      moreover have "\<not> uint (L + R) < uint L" using 1(2) by (simp only: word_less_def not_False_eq_True)
      ultimately show False using uint64_less [of R] by linarith
    qed
    then show ?thesis unfolding e using 1 by (auto simp: sval_def uint64_plus_small)
  next
    case 2
    then show ?thesis unfolding e by (auto simp: sval_def uint64_minus_cases word_le_def split: if_splits)
  next
    case 3
    then show ?thesis unfolding e by (auto simp: sval_def uint64_minus_cases word_le_def split: if_splits)
  qed
qed


lemma unsigned_limit:
  "1 \<le> width \<Longrightarrow> width \<le> 64 \<Longrightarrow>
     uint (if width = 64 then NOT 0 else push_bit width 1 - 1 :: u64) = 2 ^ width - 1"
  using uint_all_ones [of width] by (auto simp: unsigned_minus_1_eq_mask mask_eq_exp_minus_1)

text \<open>C9: the query answers 1 exactly when the mathematical result of the addition, subtraction or
  multiplication is not in the range of the destination type, for every width from 1 to 64.\<close>

theorem overflow_query_exact:
  assumes "1 \<le> width" and "width \<le> 64"
  shows "cpc_overflow_query x y flags width op =
    (if in_width (flags AND 4 \<noteq> 0) width
          (exact op (operand x (flags AND 1 \<noteq> 0)) (operand y (flags AND 2 \<noteq> 0)))
     then 0 else 1)"
proof -
  let ?ln = "negated x (flags AND 1 \<noteq> 0)" and ?rn = "negated y (flags AND 2 \<noteq> 0)"
  let ?L = "if ?ln then 0 - x else x" and ?R = "if ?rn then 0 - y else y"
  let ?v = "exact op (operand x (flags AND 1 \<noteq> 0)) (operand y (flags AND 2 \<noteq> 0))"
  have w: "(2 :: int) ^ width \<le> 2 ^ 64" "(2 :: int) ^ (width - 1) \<le> 2 ^ 63" "(1 :: int) \<le> 2 ^ (width - 1)"
    by (rule power_increasing; use assms in simp)+ simp
  have ev: "?v = exact op (sval ?ln ?L) (sval ?rn ?R)" by (simp only: negated_sval)
  have k: "width - 1 < 64" using assms by simp
  show ?thesis
  proof (cases "combine ?L ?ln ?R ?rn op")
    case None
    have "\<bar>?v\<bar> \<ge> 18446744073709551616" unfolding ev by (rule combine_None [OF None])
    then have "\<not> in_width (flags AND 4 \<noteq> 0) width ?v" using w by (auto simp: in_width_def)
    then show ?thesis using None by (simp add: cpc_overflow_query_def Let_def)
  next
    case (Some mn)
    obtain m n where mn: "mn = (m, n)" by fastforce
    have v: "?v = sval n m" unfolding ev by (rule combine_Some [OF Some [unfolded mn]])
    have m0: "m \<noteq> 0 \<longleftrightarrow> 0 < uint m" by (simp add: word_uint_eq_iff order_less_le)
    have c: "cpc_overflow_query x y flags width op =
      (if flags AND 4 \<noteq> 0 then
         (if n \<and> m \<noteq> 0 then 1 else of_bool (2 ^ width - 1 < uint m))
       else of_bool ((if n then 2 ^ (width - 1) else 2 ^ (width - 1) - 1) < uint m))"
      using Some mn unsigned_limit [OF assms] uint_shifted_1 [OF k] uint_all_ones [OF k]
      unfolding cpc_overflow_query_def Let_def by (simp only: option.case prod.case word_less_def) simp
    define p where "p = (2 :: int) ^ (width - 1)"
    define q where "q = (2 :: int) ^ width"
    obtain k where k: "uint m = int k" using nonneg_int_cases [OF uint_ge_0 [of m]] by metis
    show ?thesis using w(3)
      unfolding c v in_width_def sval_def m0 k p_def [symmetric] q_def [symmetric] by (cases n) auto
  qed
qed

theorem overflow_query_exact_witness:
  "cpc_overflow_query 0x7fffffff 1 3 32 0 = 1 \<and> cpc_overflow_query 0x7fffffff 1 3 64 0 = 0
    \<and> cpc_overflow_query 3 5 7 32 1 = 1"
  using overflow_query_exact [of 32 "0x7fffffff" 1 3 0] overflow_query_exact [of 64 "0x7fffffff" 1 3 0]
    overflow_query_exact [of 32 3 5 7 1]
  by (simp add: in_width_def exact_def operand_def)

end
