(* ===== verification/BitQuery.thy ===== *)
theory BitQuery
  imports Prelude
begin

text \<open>
  Counting bits: the query the front end folds constants with and the runtime answers calls
  with (\<^verbatim>\<open>src/src/include/runtime/cprime_bit_query.h\<close>), and the branch-free
  \<open>__builtin_ffs\<close>, \<open>__builtin_ctz\<close>, \<open>__builtin_clz\<close> and \<open>__builtin_clrsb\<close>
  of \<^verbatim>\<open>src/src/runtime/generic/builtin.c\<close>, which look a de Bruijn product up in a
  table.  The loops of the query are \<open>partial_function\<close>s: that they end is proved.
\<close>

section \<open>The query\<close>

datatype bit_op = CPC_BIT_CLZ | CPC_BIT_CTZ | CPC_BIT_CLRSB | CPC_BIT_FFS | CPC_BIT_PARITY | CPC_BIT_POPCOUNT

text \<open>\<open>while (!(value & (1ULL << (width - 1)))) { ++count; value <<= 1; }\<close>\<close>

partial_function (option) shift_up :: "nat \<Rightarrow> u64 \<Rightarrow> int \<Rightarrow> int option" where
  "shift_up width v count =
     (if v AND push_bit (width - 1) 1 \<noteq> 0 then Some count
      else shift_up width (push_bit 1 v) (count + 1))"

text \<open>\<open>while (!(value & 1)) { ++count; value >>= 1; }\<close>\<close>

partial_function (option) shift_down :: "u64 \<Rightarrow> int \<Rightarrow> int option" where
  "shift_down v count =
     (if v AND 1 \<noteq> 0 then Some count else shift_down (drop_bit 1 v) (count + 1))"

text \<open>\<open>while (value) { value &= value - 1; ++count; }\<close>\<close>

function clear_ones :: "u64 \<Rightarrow> int \<Rightarrow> int" where
  "clear_ones v count = (if v = 0 then count else clear_ones (v AND (v - 1)) (count + 1))"
  by pat_completeness auto
termination
proof (relation "measure (\<lambda>(v, count). unat v)")
  fix v :: u64 and count :: int
  assume v: "v \<noteq> 0"
  have "unat (v AND (v - 1)) \<le> unat (v - 1)" by (rule word_and_le1 [unfolded word_le_nat_alt])
  also have "\<dots> < unat v" using v by (rule measure_unat)
  finally show "((v AND (v - 1), count + 1), (v, count)) \<in> measure (\<lambda>(v, count). unat v)" by simp
qed simp

declare clear_ones.simps [simp del]

definition cpc_bit_query :: "u64 \<Rightarrow> nat \<Rightarrow> bit_op \<Rightarrow> int \<Rightarrow> int option" where
  "cpc_bit_query v0 width operation zero =
     (let msk = (if width = 64 then NOT 0 else push_bit width 1 - 1); v = v0 AND msk in
      case operation of
        CPC_BIT_CLRSB \<Rightarrow>
          let v = (if v AND push_bit (width - 1) 1 \<noteq> 0 then v XOR msk else v) in
          if v = 0 then Some (int width - 1) else map_option (\<lambda>c. c - 1) (shift_up width v 0)
      | CPC_BIT_CLZ \<Rightarrow> if v = 0 then Some zero else shift_up width v 0
      | CPC_BIT_CTZ \<Rightarrow> if v = 0 then Some zero else shift_down v 0
      | CPC_BIT_FFS \<Rightarrow> if v = 0 then Some 0 else map_option (\<lambda>c. c + 1) (shift_down v 0)
      | CPC_BIT_PARITY \<Rightarrow> Some (clear_ones v 0 mod 2)
      | CPC_BIT_POPCOUNT \<Rightarrow> Some (clear_ones v 0))"

section \<open>The loops\<close>

lemma shift_up_finds:
  assumes "1 \<le> width" and "width \<le> 64" and "c < width" and "bit v (width - 1 - c)"
    and "\<forall>i<width. width - 1 - c < i \<longrightarrow> \<not> bit v i"
  shows "shift_up width v n = Some (n + int c)"
  using assms(3-5)
proof (induction c arbitrary: v n)
  case 0
  then have "v AND push_bit (width - 1) 1 \<noteq> 0" by (simp add: bit_iff_and_push_bit_not_eq_0)
  then show ?case by (subst shift_up.simps) simp
next
  case (Suc c)
  have "\<not> bit v (width - 1)" using Suc.prems by auto
  then have z: "v AND push_bit (width - 1) 1 = 0" by (simp add: bit_iff_and_push_bit_not_eq_0)
  have "shift_up width (push_bit 1 v) (n + 1) = Some (n + 1 + int c)"
  proof (rule Suc.IH)
    show "c < width" using Suc.prems by simp
    show "bit (push_bit 1 v) (width - 1 - c)"
      using Suc.prems assms(2) unfolding bit_push_bit_iff by (auto simp: Suc_diff_Suc numeral_2_eq_2)
    show "\<forall>i<width. width - 1 - c < i \<longrightarrow> \<not> bit (push_bit 1 v) i"
      using Suc.prems unfolding bit_push_bit_iff by auto
  qed
  with z show ?case by (subst shift_up.simps) simp
qed

lemma shift_down_finds:
  assumes "bit v c" and "\<forall>i<c. \<not> bit v i"
  shows "shift_down v n = Some (n + int c)"
  using assms
proof (induction c arbitrary: v n)
  case 0
  then have "v AND 1 \<noteq> 0" by (simp add: bit_0 odd_iff_mod_2_eq_one and_one_eq)
  then show ?case by (subst shift_down.simps) simp
next
  case (Suc c)
  have "\<not> bit v 0" using Suc.prems by blast
  then have z: "v AND 1 = 0" by (simp add: bit_0 even_iff_mod_2_eq_zero and_one_eq)
  have "shift_down (drop_bit 1 v) (n + 1) = Some (n + 1 + int c)"
    using Suc.prems by (intro Suc.IH) (auto simp: bit_drop_bit_eq)
  with z show ?case by (subst shift_down.simps) simp
qed

lemma finite_bits: "finite {i. bit (v :: 'a::len word) i}"
  using finite_subset [OF bits_bounded] by simp

lemma no_bits: "{i. bit (v :: u64) i} = {} \<longleftrightarrow> v = 0"
proof
  assume "{i. bit v i} = {}"
  then have "\<And>i. \<not> bit v i" by blast
  then show "v = 0" by (intro bit_word_eqI) simp
qed auto

lemma clear_ones_counts: "clear_ones v n = n + int (card {i. bit v i})"
proof (induction v n rule: clear_ones.induct)
  case (1 v n)
  show ?case
  proof (cases "v = 0")
    case True
    then have "{i. bit v i} = {}" by auto
    with True show ?thesis by (subst clear_ones.simps) (simp add: bot_fun_def)
  next
    case False
    obtain k where b: "bit v k" "\<forall>i. bit (v AND (v - 1)) i \<longleftrightarrow> bit v i \<and> i \<noteq> k"
      by (rule lowest_bit [OF False], rule that)
    have k: "{i. bit (v AND (v - 1)) i} = {i. bit v i} - {k}" using b(2) by blast
    have "Suc (card ({i. bit v i} - {k})) = card {i. bit v i}"
      using b(1) by (intro card_Suc_Diff1 finite_bits) simp
    then show ?thesis using 1 [OF False] False k by (subst clear_ones.simps) simp
  qed
qed

section \<open>The queries\<close>

definition ones :: "nat \<Rightarrow> u64 \<Rightarrow> nat set" where
  "ones width v = {i. i < width \<and> bit v i}"

definition off_sign :: "nat \<Rightarrow> u64 \<Rightarrow> nat set" where
  "off_sign width v = {i. i < width - 1 \<and> bit v i \<noteq> bit v (width - 1)}"

lemma bit_field_mask:
  assumes "width \<le> 64"
  shows "bit (if width = 64 then NOT 0 else push_bit width 1 - 1 :: u64) i \<longleftrightarrow> i < width"
proof (cases "width = 64")
  case False
  have "push_bit width 1 - 1 = (mask width :: u64)" by (simp add: mask_eq_exp_minus_1)
  then show ?thesis using assms False by (auto simp: bit_mask_iff possible_bit_def)
qed (auto simp: bit_not_iff possible_bit_def)

lemma shift_up_Max:
  assumes "1 \<le> width" and "width \<le> 64" and "{i. bit v i} = B" and "B \<noteq> {}" and "B \<subseteq> {..<width}"
  shows "shift_up width v 0 = Some (int width - 1 - int (Max B))"
proof -
  have f: "finite B" using assms(5) finite_subset by blast
  have m: "Max B \<in> B" "\<And>i. i \<in> B \<Longrightarrow> i \<le> Max B" using f assms(4) by auto
  have "Max B < width" using m(1) assms(5) by blast
  then have e: "width - 1 - (width - 1 - Max B) = Max B" "int (width - 1 - Max B) = int width - 1 - int (Max B)"
    using assms(1) by auto
  have "\<not> bit v i" if "Max B < i" for i
    using m(2) [of i] that assms(3) by auto
  then show ?thesis
    using shift_up_finds [OF assms(1,2), of "width - 1 - Max B" v 0] m(1) assms(1,3) unfolding e by auto
qed

lemma shift_down_Min:
  assumes "{i. bit v i} = B" and "B \<noteq> {}"
  shows "shift_down v 0 = Some (int (Min B))"
proof -
  have f: "finite B" using finite_bits [of v] assms(1) by simp
  have "Min B \<in> B" "\<And>i. i \<in> B \<Longrightarrow> Min B \<le> i" using f assms(2) by auto
  then have "bit v (Min B)" "\<forall>i<Min B. \<not> bit v i" using assms(1) by (auto simp: not_less [symmetric])
  from shift_down_finds [OF this, of 0] show ?thesis by simp
qed

text \<open>C10: for every width from 1 to 64 the loops of the query end, with the number of leading
  zeros, trailing zeros, redundant sign bits, the position of the first one, the number of
  ones or its parity of the value's low \<open>width\<close> bits.\<close>

theorem bit_query_correct:
  assumes "1 \<le> width" and "width \<le> 64"
  shows "cpc_bit_query v width operation zero = Some (case operation of
      CPC_BIT_CLZ \<Rightarrow> if ones width v = {} then zero else int width - 1 - int (Max (ones width v))
    | CPC_BIT_CTZ \<Rightarrow> if ones width v = {} then zero else int (Min (ones width v))
    | CPC_BIT_FFS \<Rightarrow> if ones width v = {} then 0 else int (Min (ones width v)) + 1
    | CPC_BIT_CLRSB \<Rightarrow>
        if off_sign width v = {} then int width - 1 else int width - 2 - int (Max (off_sign width v))
    | CPC_BIT_POPCOUNT \<Rightarrow> int (card (ones width v))
    | CPC_BIT_PARITY \<Rightarrow> int (card (ones width v)) mod 2)"
proof -
  define msk :: u64 where "msk = (if width = 64 then NOT 0 else push_bit width 1 - 1)"
  let ?v = "v AND msk"
  have bm: "bit msk i \<longleftrightarrow> i < width" for i unfolding msk_def by (rule bit_field_mask [OF assms(2)])
  have B: "{i. bit ?v i} = ones width v" by (auto simp: ones_def bit_and_iff bm)
  have z: "?v = 0 \<longleftrightarrow> ones width v = {}" unfolding B [symmetric] no_bits ..
  let ?w = "if ?v AND push_bit (width - 1) 1 \<noteq> 0 then ?v XOR msk else ?v"
  have s: "?v AND push_bit (width - 1) 1 \<noteq> 0 \<longleftrightarrow> bit v (width - 1)"
    using assms unfolding bit_iff_and_push_bit_not_eq_0 [symmetric] bit_and_iff bm by auto
  have W: "{i. bit ?w i} = off_sign width v"
  proof -
    have "bit ?w i \<longleftrightarrow> i \<in> off_sign width v" for i
      unfolding s using assms
      by (cases "i = width - 1") (auto simp: off_sign_def bit_xor_iff bit_and_iff bm)
    then show ?thesis by blast
  qed
  have wz: "?w = 0 \<longleftrightarrow> off_sign width v = {}" unfolding W [symmetric] no_bits ..
  have sub: "ones width v \<subseteq> {..<width}" "off_sign width v \<subseteq> {..<width}"
    by (auto simp: ones_def off_sign_def)
  note up = shift_up_Max [OF assms B _ sub(1)] shift_up_Max [OF assms W _ sub(2)]
  note q = cpc_bit_query_def [of v width, folded msk_def, unfolded Let_def]
  have r: "\<And>P x (y :: int option) e. (P \<longleftrightarrow> e = {}) \<Longrightarrow> (e \<noteq> {} \<Longrightarrow> y = Some x) \<Longrightarrow>
      (if P then Some u else y) = Some (if e = {} then u else x)" for u and e :: "nat set"
    by auto
  show ?thesis
  proof (cases operation)
    case CPC_BIT_CLZ
    show ?thesis unfolding q CPC_BIT_CLZ bit_op.case by (rule r [OF z up(1)])
  next
    case CPC_BIT_CTZ
    show ?thesis unfolding q CPC_BIT_CTZ bit_op.case by (rule r [OF z shift_down_Min [OF B]])
  next
    case CPC_BIT_CLRSB
    show ?thesis unfolding q CPC_BIT_CLRSB bit_op.case 
      by (rule r [OF wz], subst up(2)) simp_all
  next
    case CPC_BIT_FFS
    show ?thesis unfolding q CPC_BIT_FFS bit_op.case
      by (rule r [OF z]) (simp add: shift_down_Min [OF B])
  qed (simp_all add: q clear_ones_counts B)
qed

theorem bit_query_correct_witness:
  "cpc_bit_query 0x1f0 8 CPC_BIT_POPCOUNT 0 = Some (int (card (ones 8 0x1f0)))
    \<and> cpc_bit_query 0 8 CPC_BIT_CLZ 8 = Some 8"
  using bit_query_correct [of 8 "0x1f0" CPC_BIT_POPCOUNT 0] bit_query_correct [of 8 0 CPC_BIT_CLZ 8]
  by (simp add: ones_def)

section \<open>Tables of de Bruijn products\<close>

definition table_1_32 :: "u8 list" where
  "table_1_32 =
     [0, 1, 28, 2, 29, 14, 24, 3, 30, 22, 20, 15, 25, 17, 4, 8,
      31, 27, 13, 23, 21, 19, 16, 7, 26, 12, 18, 6, 11, 5, 10, 9]"

definition table_2_32 :: "u8 list" where
  "table_2_32 =
     [31, 22, 30, 21, 18, 10, 29, 2, 20, 17, 15, 13, 9, 6, 28, 1,
      23, 19, 11, 3, 16, 14, 7, 24, 12, 4, 8, 25, 5, 26, 27, 0]"

definition table_1_64 :: "u8 list" where
  "table_1_64 =
     [0, 1, 2, 53, 3, 7, 54, 27, 4, 38, 41, 8, 34, 55, 48, 28,
      62, 5, 39, 46, 44, 42, 22, 9, 24, 35, 59, 56, 49, 18, 29, 11,
      63, 52, 6, 26, 37, 40, 33, 47, 61, 45, 43, 21, 23, 58, 17, 10,
      51, 25, 36, 32, 60, 20, 57, 16, 50, 31, 19, 15, 30, 14, 13, 12]"

definition table_2_64 :: "u8 list" where
  "table_2_64 =
     [63, 16, 62, 7, 15, 36, 61, 3, 6, 14, 22, 26, 35, 47, 60, 2,
      9, 5, 28, 11, 13, 21, 42, 19, 25, 31, 34, 40, 46, 52, 59, 1,
      17, 8, 37, 4, 23, 27, 48, 10, 29, 12, 43, 20, 32, 41, 53, 18,
      38, 24, 49, 30, 44, 33, 54, 39, 50, 45, 55, 51, 56, 57, 58, 0]"

definition builtin_ctz :: "u32 \<Rightarrow> int" where
  "builtin_ctz x = uint (table_1_32 ! unat (drop_bit 27 ((x AND - x) * 0x077cb531)))"

definition builtin_ctzll :: "u64 \<Rightarrow> int" where
  "builtin_ctzll x = uint (table_1_64 ! unat (drop_bit 58 ((x AND - x) * 0x022fdd63cc95386d)))"

definition builtin_ffs :: "u32 \<Rightarrow> int" where
  "builtin_ffs x =
     uint (table_1_32 ! unat (drop_bit 27 ((x AND - x) * 0x077cb531))) + of_bool (x \<noteq> 0)"

definition builtin_ffsll :: "u64 \<Rightarrow> int" where
  "builtin_ffsll x =
     uint (table_1_64 ! unat (drop_bit 58 ((x AND - x) * 0x022fdd63cc95386d))) + of_bool (x \<noteq> 0)"

lemma table_1_32_ctz:
  "k < 32 \<Longrightarrow> uint (table_1_32 ! unat (drop_bit 27 (push_bit k (1 :: u32) * 0x077cb531))) = int k"
proof -
  have "list_all (\<lambda>k. uint (table_1_32 ! unat (drop_bit 27 (push_bit k (1 :: u32) * 0x077cb531))) = int k) [0..<32]"
    by (simp add: table_1_32_def upt_rec)
  then show "uint (table_1_32 ! unat (drop_bit 27 (push_bit k (1 :: u32) * 0x077cb531))) = int k" if "k < 32" using that by (simp add: list_all_iff)
qed

lemma table_1_64_ctz:
  "k < 64 \<Longrightarrow> uint (table_1_64 ! unat (drop_bit 58 (push_bit k (1 :: u64) * 0x022fdd63cc95386d))) = int k"
proof -
  have "list_all (\<lambda>k. uint (table_1_64 ! unat (drop_bit 58 (push_bit k (1 :: u64) * 0x022fdd63cc95386d))) = int k) [0..<64]"
    by (simp add: table_1_64_def upt_rec)
  then show "uint (table_1_64 ! unat (drop_bit 58 (push_bit k (1 :: u64) * 0x022fdd63cc95386d))) = int k" if "k < 64" using that by (simp add: list_all_iff)
qed

lemma table_2_32_clz:
  "k < 32 \<Longrightarrow> uint (table_2_32 ! unat (drop_bit 27 (mask (Suc k) * (0x07c4acdd :: u32)))) = 31 - int k"
proof -
  have "list_all (\<lambda>k. uint (table_2_32 ! unat (drop_bit 27 (mask (Suc k) * (0x07c4acdd :: u32)))) = 31 - int k) [0..<32]"
    by (simp add: table_2_32_def upt_rec mask_eq_exp_minus_1)
  then show "uint (table_2_32 ! unat (drop_bit 27 (mask (Suc k) * (0x07c4acdd :: u32)))) = 31 - int k" if "k < 32" using that by (simp add: list_all_iff)
qed

lemma table_2_64_clz:
  "k < 64 \<Longrightarrow> uint (table_2_64 ! unat (drop_bit 58 (mask (Suc k) * (0x03f79d71b4cb0a89 :: u64)))) = 63 - int k"
proof -
  have "list_all (\<lambda>k. uint (table_2_64 ! unat (drop_bit 58 (mask (Suc k) * (0x03f79d71b4cb0a89 :: u64)))) = 63 - int k) [0..<64]"
    by (simp add: table_2_64_def upt_rec mask_eq_exp_minus_1)
  then show "uint (table_2_64 ! unat (drop_bit 58 (mask (Suc k) * (0x03f79d71b4cb0a89 :: u64)))) = 63 - int k" if "k < 64" using that by (simp add: list_all_iff)
qed

definition builtin_clz :: "u32 \<Rightarrow> int" where
  "builtin_clz x =
     (let x = x OR drop_bit 1 x; x = x OR drop_bit 2 x; x = x OR drop_bit 4 x;
          x = x OR drop_bit 8 x; x = x OR drop_bit 16 x
      in uint (table_2_32 ! unat (drop_bit 27 (x * 0x07c4acdd))))"

definition builtin_clzll :: "u64 \<Rightarrow> int" where
  "builtin_clzll x =
     (let x = x OR drop_bit 1 x; x = x OR drop_bit 2 x; x = x OR drop_bit 4 x;
          x = x OR drop_bit 8 x; x = x OR drop_bit 16 x; x = x OR drop_bit 32 x
      in uint (table_2_64 ! unat (drop_bit 58 (x * 0x03f79d71b4cb0a89))))"

definition builtin_clrsb :: "u32 \<Rightarrow> int" where
  "builtin_clrsb x = (let x = (if sint x < 0 then NOT x else x) in builtin_clz (push_bit 1 x))"

definition builtin_clrsbll :: "u64 \<Rightarrow> int" where
  "builtin_clrsbll x = (let x = (if sint x < 0 then NOT x else x) in builtin_clzll (push_bit 1 x))"

text \<open>\<open>smeared n x y\<close>: a bit of \<open>y\<close> is set when one of \<open>x\<close> is, at most \<open>n - 1\<close> places up.\<close>

definition smeared :: "nat \<Rightarrow> 'a::len word \<Rightarrow> 'a word \<Rightarrow> bool" where
  "smeared n x y \<longleftrightarrow> (\<forall>i. bit y i \<longleftrightarrow> (\<exists>d<n. bit x (i + d)))"

lemma smear_1: "smeared 1 x x"
  by (simp add: smeared_def)

lemma smear_double:
  assumes "smeared n x y" and "m = n + n"
  shows "smeared m x (y OR drop_bit n y)"
  unfolding smeared_def assms(2)
proof
  fix i
  have "bit (y OR drop_bit n y) i \<longleftrightarrow> (\<exists>d<n. bit x (i + d)) \<or> (\<exists>d<n. bit x (i + n + d))"
    using assms(1) by (auto simp: smeared_def bit_or_iff bit_drop_bit_eq ac_simps)
  also have "\<dots> \<longleftrightarrow> (\<exists>d<n + n. bit x (i + d))"
  proof
    assume "\<exists>d<n + n. bit x (i + d)"
    then obtain d where d: "d < n + n" "bit x (i + d)" by blast
    then show "(\<exists>d<n. bit x (i + d)) \<or> (\<exists>d<n. bit x (i + n + d))"
    proof (cases "d < n")
      case False
      with d have "d - n < n" "bit x (i + n + (d - n))" by simp_all
      then show ?thesis by blast
    qed (use d in blast)
  next
    assume "(\<exists>d<n. bit x (i + d)) \<or> (\<exists>d<n. bit x (i + n + d))"
    then show "\<exists>d<n + n. bit x (i + d)"
      by (elim disjE exE conjE) (auto intro: trans_less_add1 exI [of _ "n + _"] simp: add.assoc)
  qed
  finally show "bit (y OR drop_bit n y) i \<longleftrightarrow> (\<exists>d<n + n. bit x (i + d))" .
qed

lemma smeared_mask:
  assumes "smeared LENGTH('a) x y" and "bit (x :: 'a::len word) k" and "\<forall>i>k. \<not> bit x i"
  shows "y = mask (Suc k)"
proof (rule bit_word_eqI)
  fix i assume i: "i < LENGTH('a)"
  have k: "k < LENGTH('a)" using assms(2) bit_imp_le_length by blast
  have "bit y i \<longleftrightarrow> (\<exists>d<LENGTH('a). bit x (i + d))" using assms(1) by (simp add: smeared_def)
  also have "\<dots> \<longleftrightarrow> i \<le> k"
  proof
    assume "\<exists>d<LENGTH('a). bit x (i + d)"
    then show "i \<le> k" using assms(3) by (metis le_add1 le_trans linorder_not_less)
  next
    assume "i \<le> k"
    then show "\<exists>d<LENGTH('a). bit x (i + d)" using assms(2) k by (intro exI [of _ "k - i"]) auto
  qed
  finally show "bit y i \<longleftrightarrow> bit (mask (Suc k) :: 'a word) i"
    using i by (auto simp: bit_mask_iff possible_bit_def)
qed

lemma ctz32:
  assumes "x \<noteq> 0"
  shows "builtin_ctz x = int (Min {i. bit x i}) \<and> builtin_ffs x = builtin_ctz x + 1"
proof -
  obtain k where k: "bit x k" "\<forall>i<k. \<not> bit x i" using lowest_bit [OF assms] by blast
  have "k < 32" using bit_imp_le_length [OF k(1)] by simp
  moreover have "Min {i. bit x i} = k"
    using k finite_subset [OF bits_bounded [of x]] by (intro Min_eqI) (auto simp: not_less [symmetric])
  ultimately show ?thesis
    using table_1_32_ctz assms unfolding builtin_ctz_def builtin_ffs_def isolate_lowest [OF k] by auto
qed

lemma clz32:
  assumes "x \<noteq> 0"
  shows "builtin_clz x = 31 - int (Max {i. bit x i})"
proof -
  let ?k = "Max {i. bit x i}"
  note k = highest_bit [OF assms]
  have "?k < 32" using bit_imp_le_length [OF k(1)] by simp
  have sm: "smeared LENGTH(32) x y" if "smeared 32 x y" for y using that by simp
  have "smeared 32 x
     (let x = x OR drop_bit 1 x; x = x OR drop_bit 2 x; x = x OR drop_bit 4 x;
          x = x OR drop_bit 8 x in x OR drop_bit 16 x)"
    unfolding Let_def
    by (rule smear_double [of 16], rule smear_double [of 8], rule smear_double [of 4],
        rule smear_double [of 2], rule smear_double [of 1], rule smear_1) simp_all
  from smeared_mask [OF sm [OF this] k] show ?thesis
    using table_2_32_clz \<open>?k < 32\<close> by (simp add: builtin_clz_def Let_def)
qed


lemma ctz64:
  assumes "x \<noteq> 0"
  shows "builtin_ctzll x = int (Min {i. bit x i}) \<and> builtin_ffsll x = builtin_ctzll x + 1"
proof -
  obtain k where k: "bit x k" "\<forall>i<k. \<not> bit x i" using lowest_bit [OF assms] by blast
  have "k < 64" using bit_imp_le_length [OF k(1)] by simp
  moreover have "Min {i. bit x i} = k"
    using k finite_subset [OF bits_bounded [of x]] by (intro Min_eqI) (auto simp: not_less [symmetric])
  ultimately show ?thesis
    using table_1_64_ctz assms unfolding builtin_ctzll_def builtin_ffsll_def isolate_lowest [OF k] by auto
qed

lemma clz64:
  assumes "x \<noteq> 0"
  shows "builtin_clzll x = 63 - int (Max {i. bit x i})"
proof -
  let ?k = "Max {i. bit x i}"
  note k = highest_bit [OF assms]
  have "?k < 64" using bit_imp_le_length [OF k(1)] by simp
  have sm: "smeared LENGTH(64) x y" if "smeared 64 x y" for y using that by simp
  have "smeared 64 x
     (let x = x OR drop_bit 1 x; x = x OR drop_bit 2 x; x = x OR drop_bit 4 x;
          x = x OR drop_bit 8 x; x = x OR drop_bit 16 x in x OR drop_bit 32 x)"
    unfolding Let_def
    by (rule smear_double [of 32], rule smear_double [of 16], rule smear_double [of 8],
        rule smear_double [of 4], rule smear_double [of 2], rule smear_double [of 1], rule smear_1) simp_all
  from smeared_mask [OF sm [OF this] k] show ?thesis
    using table_2_64_clz \<open>?k < 64\<close> by (simp add: builtin_clzll_def Let_def)
qed

text \<open>\<open>__builtin_ctz\<close> of a value other than 0 is the position of its lowest one, and
  \<open>__builtin_ffs\<close> one more, in 32 and in 64 bits.\<close>

theorem builtin_ctz_lowest:
  assumes "x \<noteq> 0" and "y \<noteq> 0"
  shows "builtin_ctz x = int (Min {i. bit x i}) \<and> builtin_ffs x = int (Min {i. bit x i}) + 1
    \<and> builtin_ctzll y = int (Min {i. bit y i}) \<and> builtin_ffsll y = int (Min {i. bit y i}) + 1"
  using ctz32 [OF assms(1)] ctz64 [OF assms(2)] by simp

theorem builtin_ctz_lowest_witness:
  "builtin_ffs 0x50 = builtin_ctz 0x50 + 1 \<and> builtin_ffsll 0x50 = builtin_ctzll 0x50 + 1"
  using builtin_ctz_lowest [of "0x50" "0x50"] by simp

text \<open>\<open>__builtin_clz\<close> of a value other than 0 is the number of zeros above its highest
  one, in 32 and in 64 bits.\<close>

theorem builtin_clz_highest:
  assumes "x \<noteq> 0" and "y \<noteq> 0"
  shows "builtin_clz x = 31 - int (Max {i. bit x i}) \<and> builtin_clzll y = 63 - int (Max {i. bit y i})"
  using clz32 [OF assms(1)] clz64 [OF assms(2)] by simp

theorem builtin_clz_highest_witness:
  "builtin_clz 0x50 = 31 - int (Max {i. bit (0x50 :: u32) i})
    \<and> builtin_clzll 0x50 = 63 - int (Max {i. bit (0x50 :: u64) i})"
  using builtin_clz_highest [of "0x50" "0x50"] by simp

end
