(* ===== verification/DoubleConv.thy ===== *)
theory DoubleConv
  imports Prelude Complex_Main
begin

text \<open>
  The conversion of a \<open>double\<close> to a 64-bit integer
  (\<^verbatim>\<open>src/src/runtime/generic/libcprime1.c\<close>), on the 64 bits the code takes apart, and
  the real number those bits stand for.
\<close>

section \<open>The conversion\<close>

text \<open>A double is its 64 bits.\<close>

definition EXPD :: "u64 \<Rightarrow> int" where
  "EXPD fp = uint (drop_bit 20 (ucast (drop_bit 32 fp) :: u32) AND 0x7FF)"

definition SIGND :: "u64 \<Rightarrow> bool" where
  "SIGND fp \<longleftrightarrow> (ucast (drop_bit 32 fp) :: u32) AND 0x80000000 \<noteq> 0"

definition MANTD_LL :: "u64 \<Rightarrow> u64" where
  "MANTD_LL fp = (fp AND (push_bit 52 1 - 1)) OR push_bit 52 1"

definition fixunsdfdi :: "u64 \<Rightarrow> u64" where
  "fixunsdfdi a =
     (if a = 0 then 0
      else
        let exp = EXPD a - 1022 - 53; l = MANTD_LL a in
        if exp \<ge> 12 then push_bit 63 1
        else if exp < - 52 then 0
        else
          let l = (if exp \<ge> 0 then push_bit (nat exp) l else drop_bit (nat (- exp)) l)
          in if SIGND a then - l else l)"

text \<open>\<open>a1 >= 0\<close> on doubles: false for a NaN, true for both zeros.\<close>

definition double_nonneg :: "u64 \<Rightarrow> bool" where
  "double_nonneg a \<longleftrightarrow>
     \<not> (EXPD a = 2047 \<and> a AND (push_bit 52 1 - 1) \<noteq> 0) \<and> (\<not> SIGND a \<or> a = push_bit 63 1)"

definition fixdfdi :: "u64 \<Rightarrow> u64" where
  "fixdfdi a =
     (if double_nonneg a then fixunsdfdi a else - fixunsdfdi (a XOR push_bit 63 1))"

section \<open>The value of a double\<close>

definition fraction :: "u64 \<Rightarrow> int" where
  "fraction a = uint a mod 2 ^ 52"

definition exponent :: "u64 \<Rightarrow> nat" where
  "exponent a = nat (uint a div 2 ^ 52 mod 2 ^ 11)"

definition magnitude :: "u64 \<Rightarrow> real" where
  "magnitude a =
     (if exponent a = 0 then of_int (fraction a) / 2 ^ 1074
      else of_int (2 ^ 52 + fraction a) * 2 ^ exponent a / 2 ^ 1075)"

lemma EXPD_exponent: "EXPD a = int (exponent a)"
proof -
  have "EXPD a = take_bit 11 (drop_bit 52 (uint a))"
  proof (rule bit_eqI)
    fix n
    have m: "(0x7FF :: u32) = mask 11" by (simp add: mask_eq_exp_minus_1)
    show "bit (EXPD a) n \<longleftrightarrow> bit (take_bit 11 (drop_bit 52 (uint a))) n"
      unfolding EXPD_def m
      by (auto simp: bit_unsigned_iff bit_and_iff bit_drop_bit_eq bit_take_bit_iff bit_mask_iff possible_bit_def ac_simps
          dest: bit_imp_le_length)
  qed
  then show ?thesis by (simp add: exponent_def take_bit_eq_mod drop_bit_eq_div)
qed

lemma SIGND_bit: "SIGND a \<longleftrightarrow> bit a 63"
proof -
  have "(0x80000000 :: u32) = push_bit 31 1" by simp
  then show ?thesis unfolding SIGND_def
    by (simp only: bit_iff_and_push_bit_not_eq_0 [symmetric]) (simp add: bit_unsigned_iff bit_drop_bit_eq possible_bit_def)
qed

lemma MANTD_value: "uint (MANTD_LL a) = 2 ^ 52 + fraction a"
proof -
  have "uint (MANTD_LL a) = (take_bit 52 (uint a)) OR push_bit 52 1"
  proof (rule bit_eqI)
    fix n
    have m: "push_bit 52 1 - 1 = (mask 52 :: u64)" by (simp add: mask_eq_exp_minus_1)
    show "bit (uint (MANTD_LL a)) n \<longleftrightarrow> bit (take_bit 52 (uint a) OR push_bit 52 1) n"
      unfolding MANTD_LL_def m bit_unsigned_iff bit_or_iff bit_and_iff bit_push_bit_iff bit_take_bit_iff bit_mask_iff
      by (auto simp: bit_1_iff possible_bit_def bit_unsigned_iff dest: bit_imp_le_length)
  qed
  also have "\<dots> = take_bit 52 (uint a) + push_bit 52 1"
    by (rule disjunctive_add [symmetric]; unfold bit_take_bit_iff bit_push_bit_iff) auto
  finally show ?thesis by (simp add: fraction_def take_bit_eq_mod)
qed


lemma scale_down: "e \<le> k \<Longrightarrow> x * 2 ^ e / 2 ^ k = x / 2 ^ (k - e)" for x :: real
  by (simp add: power_diff)

lemma scale_up: "k \<le> e \<Longrightarrow> x * 2 ^ e / 2 ^ k = x * 2 ^ (e - k)" for x :: real
  by (simp add: power_diff)

lemma floor_div_2: "\<lfloor>of_int x / 2 ^ k :: real\<rfloor> = x div 2 ^ k"
  using floor_divide_of_int_eq [of x "2 ^ k", where 'a = real] by simp

lemma fraction_bounds: "0 \<le> fraction a" "fraction a < 2 ^ 52"
  by (simp_all add: fraction_def)

lemma magnitude_ge_0: "0 \<le> magnitude a"
  using fraction_bounds [of a] by (simp add: magnitude_def)

lemma magnitude_small:
  assumes "exponent a < 1023"
  shows "magnitude a < 1"
proof (cases "exponent a = 0")
  case True
  have "of_int (fraction a) < (of_int (2 ^ 52) :: real)"
    unfolding of_int_less_iff by (rule fraction_bounds)
  then have "of_int (fraction a) < (2 :: real) ^ 52" by simp
  also have "\<dots> \<le> 2 ^ 1074" by (rule power_increasing) simp_all
  finally show ?thesis using True by (simp add: magnitude_def)
next
  case False
  let ?M = "of_int (2 ^ 52 + fraction a) :: real" and ?k = "1075 - exponent a"
  have "?M < of_int (2 ^ 53)"
    unfolding of_int_less_iff using fraction_bounds [of a] by simp
  then have "?M < 2 ^ 53" by simp
  also have "(2 :: real) ^ 53 \<le> 2 ^ ?k" using assms by (intro power_increasing) simp_all
  finally have "?M / 2 ^ ?k < 1" by (simp add: divide_less_eq)
  then show ?thesis using False assms scale_down [of "exponent a" 1075 ?M] by (simp add: magnitude_def)
qed

lemma magnitude_down:
  assumes "1023 \<le> exponent a" and "exponent a < 1075"
  shows "\<lfloor>magnitude a\<rfloor> = (2 ^ 52 + fraction a) div 2 ^ (1075 - exponent a)"
proof -
  have "magnitude a = of_int (2 ^ 52 + fraction a) / 2 ^ (1075 - exponent a)"
    unfolding magnitude_def using assms scale_down [of "exponent a" 1075 "of_int (2 ^ 52 + fraction a)"]
    by (simp only: if_False) simp
  then show ?thesis by (simp only: floor_div_2)
qed

lemma magnitude_up:
  assumes "1075 \<le> exponent a"
  shows "\<lfloor>magnitude a\<rfloor> = (2 ^ 52 + fraction a) * 2 ^ (exponent a - 1075)"
proof -
  have "magnitude a = of_int ((2 ^ 52 + fraction a) * 2 ^ (exponent a - 1075))"
    unfolding magnitude_def using assms scale_up [of 1075 "exponent a" "of_int (2 ^ 52 + fraction a)"]
    by (simp only: if_False) simp
  then show ?thesis by (simp only: floor_of_int)
qed

lemma fixunsdfdi_floor:
  assumes "\<not> bit a 63" and "exponent a < 1087"
  shows "uint (fixunsdfdi a) = \<lfloor>magnitude a\<rfloor>"
proof (cases "exponent a < 1023")
  case True
  then have "\<lfloor>magnitude a\<rfloor> = 0" using magnitude_small magnitude_ge_0 by (simp add: floor_eq_iff)
  then show ?thesis using True by (simp add: fixunsdfdi_def EXPD_exponent)
next
  case big: False
  have a0: "a \<noteq> 0" using big by (auto simp: exponent_def)
  have M: "2 ^ 52 + fraction a < 2 ^ 53" "0 \<le> 2 ^ 52 + fraction a" using fraction_bounds [of a] by simp_all
  show ?thesis
  proof (cases "exponent a < 1075")
    case True
    then have "fixunsdfdi a = drop_bit (1075 - exponent a) (MANTD_LL a)"
      using big a0 assms(1) by (simp add: fixunsdfdi_def EXPD_exponent SIGND_bit Let_def nat_diff_distrib' of_nat_diff)
    moreover have "uint (drop_bit k w) = uint w div 2 ^ k" for k and w :: u64
      by (rule trans [OF unsigned_drop_bit_eq]) (simp add: drop_bit_eq_div take_bit_int_eq_self uint64_less)
    ultimately show ?thesis using magnitude_down [OF _ True] big by (simp only: MANTD_value not_less)
  next
    case False
    then have "fixunsdfdi a = push_bit (exponent a - 1075) (MANTD_LL a)"
      using assms a0 by (simp add: fixunsdfdi_def EXPD_exponent SIGND_bit Let_def nat_diff_distrib)
    moreover have "(2 ^ 52 + fraction a) * 2 ^ (exponent a - 1075) < 2 ^ 53 * 2 ^ 11"
      using M assms(2) by (intro mult_less_le_imp_less power_increasing) simp_all
    moreover have "uint (push_bit k w) = (uint w * 2 ^ k) mod 2 ^ 64" for k and w :: u64
      by (rule trans [OF unsigned_push_bit_eq]) (simp add: push_bit_eq_mult take_bit_eq_mod)
    ultimately show ?thesis using magnitude_up [of a] False M
      by (simp add: MANTD_value mod_pos_pos_trivial)
  qed
qed


lemma flip_sign:
  assumes "bit a 63"
  shows "\<not> bit (a XOR push_bit 63 1) 63" and "exponent (a XOR push_bit 63 1) = exponent a"
    and "fraction (a XOR push_bit 63 1) = fraction a"
proof -
  show "\<not> bit (a XOR push_bit 63 1) 63" using assms unfolding bit_xor_iff bit_push_bit_iff by (simp add: bit_1_iff possible_bit_def)
  have b: "bit (a XOR push_bit 63 1) i \<longleftrightarrow> bit a i" if "i < 63" for i
    using that unfolding bit_xor_iff bit_push_bit_iff by simp
  have "take_bit 63 (uint (a XOR push_bit 63 1)) = take_bit 63 (uint a)"
    by (rule bit_eqI) (auto simp only: bit_take_bit_iff bit_unsigned_iff b)
  then have m: "uint (a XOR push_bit 63 1) mod 2 ^ 63 = uint a mod 2 ^ 63"
    by (simp only: take_bit_eq_mod)
  have f: "x div 2 ^ 52 mod 2 ^ 11 = x mod 2 ^ 63 div 2 ^ 52" for x :: int
    using take_bit_drop_bit [of 11 52 x] by (simp add: take_bit_eq_mod drop_bit_eq_div)
  show "exponent (a XOR push_bit 63 1) = exponent a" unfolding exponent_def f m ..
  have g: "x mod 2 ^ 52 = x mod 2 ^ 63 mod 2 ^ 52" for x :: int
    by (simp add: mod_mod_cancel)
  show "fraction (a XOR push_bit 63 1) = fraction a" unfolding fraction_def g [of "uint (a XOR push_bit 63 1)"] m g [of "uint a", symmetric] ..
qed

lemma magnitude_bound:
  assumes "exponent a < 1086"
  shows "\<lfloor>magnitude a\<rfloor> < 9223372036854775808"
proof -
  have M: "2 ^ 52 + fraction a < 2 ^ 53" "0 \<le> 2 ^ 52 + fraction a" using fraction_bounds [of a] by simp_all
  consider "exponent a < 1023" | "1023 \<le> exponent a" "exponent a < 1075" | "1075 \<le> exponent a" by linarith
  then show ?thesis
  proof cases
    case 1
    then have "\<lfloor>magnitude a\<rfloor> = 0" using magnitude_small magnitude_ge_0 by (simp add: floor_eq_iff)
    then show ?thesis by simp
  next
    case 2
    have "(2 ^ 52 + fraction a) div 2 ^ (1075 - exponent a) \<le> 2 ^ 52 + fraction a"
      using zdiv_mono2 [of "2 ^ 52 + fraction a" 1 "2 ^ (1075 - exponent a)"] M(2) by simp
    then show ?thesis using magnitude_down [OF 2] M by simp
  next
    case 3
    have "(2 ^ 52 + fraction a) * 2 ^ (exponent a - 1075) < 2 ^ 53 * 2 ^ 10"
      using M assms by (intro mult_less_le_imp_less power_increasing) simp_all
    then show ?thesis using magnitude_up [OF 3] by simp
  qed
qed

lemma sint_uminus_small:
  assumes "uint (x :: u64) < 9223372036854775808"
  shows "sint (- x) = - uint x"
proof -
  have "- 9223372036854775808 \<le> - uint x" "- uint x < 9223372036854775808"
    using assms uint_ge_0 [of x] by linarith+
  then have "signed_take_bit 63 (- uint x) = - uint x" by (intro signed_take_bit_int_eq_self) simp_all
  then show ?thesis using sint64_small [OF assms] by (simp add: sint_word_ariths)
qed

text \<open>C11: \<open>__fixdfdi\<close> truncates towards zero every double whose magnitude is below \<open>2^63\<close>.\<close>

theorem fixdfdi_truncates:
  assumes "exponent a < 1086"
  shows "sint (fixdfdi a) = (if bit a 63 then - \<lfloor>magnitude a\<rfloor> else \<lfloor>magnitude a\<rfloor>)"
proof -
  have sm: "sint (fixunsdfdi b) = \<lfloor>magnitude a\<rfloor>" "sint (- fixunsdfdi b) = - \<lfloor>magnitude a\<rfloor>"
    if "\<not> bit b 63" "exponent b = exponent a" "fraction b = fraction a" for b
  proof -
    have u: "uint (fixunsdfdi b) = \<lfloor>magnitude a\<rfloor>"
      using fixunsdfdi_floor [OF that(1)] that(2,3) assms by (simp add: magnitude_def)
    then have "uint (fixunsdfdi b) < 9223372036854775808" using magnitude_bound [OF assms] by simp
    then show "sint (fixunsdfdi b) = \<lfloor>magnitude a\<rfloor>" "sint (- fixunsdfdi b) = - \<lfloor>magnitude a\<rfloor>"
      using u by (simp_all add: sint64_small sint_uminus_small)
  qed
  have nan: "EXPD a \<noteq> 2047" using assms by (simp add: EXPD_exponent)
  show ?thesis
  proof (cases "bit a 63")
    case False
    then show ?thesis using sm(1) [of a] nan by (simp add: fixdfdi_def double_nonneg_def SIGND_bit)
  next
    case True
    show ?thesis
    proof (cases "a = push_bit 63 1")
      case True
      have "exponent a = 0" "fraction a = 0" unfolding True by (simp_all add: exponent_def fraction_def)
      then have "fixdfdi a = 0" "\<lfloor>magnitude a\<rfloor> = 0"
        using True by (simp_all add: fixdfdi_def double_nonneg_def fixunsdfdi_def EXPD_exponent magnitude_def)
      then show ?thesis by simp
    next
      case False
      then have "fixdfdi a = - fixunsdfdi (a XOR push_bit 63 1)"
        using True unfolding fixdfdi_def double_nonneg_def SIGND_bit by simp
      then show ?thesis using sm(2) [OF flip_sign [OF True]] True by simp
    qed
  qed
qed

theorem fixdfdi_truncates_witness:
  "sint (fixdfdi 0xC004000000000000) = - \<lfloor>magnitude 0xC004000000000000\<rfloor>"
  using fixdfdi_truncates [of "0xC004000000000000"] by (simp add: exponent_def)

end
