(* ===== verification/EhTypes.thy ===== *)
theory EhTypes
  imports Prelude
begin

text \<open>
  Matching a thrown object against the handlers of a function: the type descriptors of
  \<^verbatim>\<open>src/src/include/runtime/cprime_exception.h\<close> and \<open>cpc_eh_same_type\<close>,
  \<open>cpc_eh_qualification\<close>, \<open>cpc_eh_class_adjustment\<close>, \<open>cpc_eh_match\<close> and
  \<open>cpc_eh_select\<close> of \<^verbatim>\<open>src/src/runtime/windows/exception.c\<close>.  A descriptor is a tree
  that knows its address, so that the code's comparison of pointers is kept; a null pointer to
  a descriptor is \<open>None\<close>.  Reading through a null descriptor is the outcome \<open>None\<close> of a
  matching function.
\<close>

section \<open>Type descriptors\<close>

definition CPC_EH_CONST :: u32 where "CPC_EH_CONST = 1"
definition CPC_EH_VOLATILE :: u32 where "CPC_EH_VOLATILE = 2"
definition CPC_EH_SCALAR :: u32 where "CPC_EH_SCALAR = 0"
definition CPC_EH_CLASS :: u32 where "CPC_EH_CLASS = 1"
definition CPC_EH_POINTER :: u32 where "CPC_EH_POINTER = 2"
definition CPC_EH_NULLPTR :: u32 where "CPC_EH_NULLPTR = 3"
definition CPC_EH_VOID :: u32 where "CPC_EH_VOID = 4"
definition CPC_EH_FUNCTION :: u32 where "CPC_EH_FUNCTION = 5"

lemmas eh_kinds = CPC_EH_SCALAR_def CPC_EH_CLASS_def CPC_EH_POINTER_def CPC_EH_NULLPTR_def
  CPC_EH_VOID_def CPC_EH_FUNCTION_def

datatype eh_type =
  EhType (ty_addr: u64) (ty_name: string) (ty_pointee: "eh_type option")
    (ty_bases: "(eh_type \<times> u64) list") (ty_size: u32) (ty_kind: u32) (ty_qualifiers: u32)

section \<open>Comparing types\<close>

fun same_type :: "eh_type option \<Rightarrow> eh_type option \<Rightarrow> bool option" where
  "same_type None None = Some True"
| "same_type None (Some r) = Some False"
| "same_type (Some l) None = Some False"
| "same_type (Some (EhType la ln lp lb ls lk lq)) (Some (EhType ra rn rp rb rs rk rq)) =
     (if la = ra then Some True
      else if lk \<noteq> rk then Some False
      else if lk = CPC_EH_POINTER then
        (case (lp, rp) of
           (Some l, Some r) \<Rightarrow>
             if ty_qualifiers l = ty_qualifiers r then same_type lp rp else Some False
         | _ \<Rightarrow> None)
      else Some (ln = rn))"

text \<open>\<open>all_const\<close>, \<open>depth\<close>: const at every pointer level passed, and how many were.\<close>

fun qualification :: "eh_type option \<Rightarrow> eh_type option \<Rightarrow> bool \<Rightarrow> nat \<Rightarrow> bool option" where
  "qualification None r all_const depth = Some False"
| "qualification (Some l) None all_const depth = Some False"
| "qualification (Some (EhType la ln lp lb ls lk lq)) (Some (EhType ra rn rp rb rs rk rq)) all_const depth =
     (if lk \<noteq> rk then Some False
      else if lq AND NOT rq \<noteq> 0 then Some False
      else if rq AND NOT lq \<noteq> 0 \<and> depth > 1 \<and> \<not> all_const then Some False
      else if lk = CPC_EH_POINTER then
        qualification lp rp (all_const \<and> rq AND CPC_EH_CONST \<noteq> 0) (depth + 1)
      else same_type (Some (EhType la ln lp lb ls lk lq)) (Some (EhType ra rn rp rb rs rk rq)))"

text \<open>The inner option: the adjustment, or \<open>None\<close> for the answer 0.\<close>

fun find_base :: "(eh_type \<times> u64) list \<Rightarrow> eh_type \<Rightarrow> u64 option option" where
  "find_base [] target = Some None"
| "find_base ((b, offset) # bs) target =
     (case same_type (Some b) (Some target) of
        None \<Rightarrow> None
      | Some True \<Rightarrow> Some (Some offset)
      | Some False \<Rightarrow> find_base bs target)"

definition class_adjustment :: "eh_type \<Rightarrow> eh_type \<Rightarrow> u64 option option" where
  "class_adjustment source target =
     (case same_type (Some source) (Some target) of
        None \<Rightarrow> None
      | Some True \<Rightarrow> Some (Some 0)
      | Some False \<Rightarrow>
          if ty_kind source \<noteq> CPC_EH_CLASS \<or> ty_kind target \<noteq> CPC_EH_CLASS then Some None
          else find_base (ty_bases source) target)"

section \<open>Matching a handler\<close>

text \<open>
  Where the handler finds its object: an address, or the slot for pointer values its
  frame provides (\<open>*adjusted = pointer_value\<close>).  A match also says what goes into the slot;
  \<open>None\<close> there leaves it as it was.
\<close>

datatype place = At u64 | PointerSlot

record eh_match =
  adjusted :: place
  pointer_value :: "u64 option"

text \<open>\<open>load\<close> reads the pointer stored at the thrown object.\<close>

definition match_pointer :: "u64 \<Rightarrow> eh_type \<Rightarrow> eh_type \<Rightarrow> eh_match option option" where
  "match_pointer pointer source target =
     (case (ty_pointee source, ty_pointee target) of
        (Some sp, Some tp) \<Rightarrow>
          if ty_qualifiers sp AND NOT (ty_qualifiers tp) \<noteq> 0 then Some None
          else
            let result = (\<lambda>adjustment. Some (Some
                  \<lparr>adjusted = PointerSlot,
                   pointer_value = Some (if pointer \<noteq> 0 then pointer + adjustment else 0)\<rparr>))
            in (case qualification (Some sp) (Some tp) True 1 of
                  None \<Rightarrow> None
                | Some True \<Rightarrow> result 0
                | Some False \<Rightarrow>
                    if ty_kind tp = CPC_EH_VOID \<and> ty_kind sp \<noteq> CPC_EH_FUNCTION then result 0
                    else (case class_adjustment sp tp of
                            None \<Rightarrow> None
                          | Some None \<Rightarrow> Some None
                          | Some (Some adjustment) \<Rightarrow> result adjustment))
      | _ \<Rightarrow> Some None)"

definition eh_matches ::
  "(u64 \<Rightarrow> u64) \<Rightarrow> eh_type \<Rightarrow> u64 \<Rightarrow> eh_type option \<Rightarrow> eh_match option option" where
  "eh_matches load source object target =
     (case target of
        None \<Rightarrow> Some (Some \<lparr>adjusted = At object, pointer_value = None\<rparr>)
      | Some tgt \<Rightarrow>
          (case same_type (Some source) (Some tgt) of
             None \<Rightarrow> None
           | Some True \<Rightarrow> Some (Some \<lparr>adjusted = At object, pointer_value = None\<rparr>)
           | Some False \<Rightarrow>
               (case class_adjustment source tgt of
                  None \<Rightarrow> None
                | Some (Some adjustment) \<Rightarrow>
                    Some (Some \<lparr>adjusted = At (object + adjustment), pointer_value = None\<rparr>)
                | Some None \<Rightarrow>
                    if ty_kind tgt \<noteq> CPC_EH_POINTER then Some None
                    else if ty_kind source = CPC_EH_NULLPTR then
                      Some (Some \<lparr>adjusted = PointerSlot, pointer_value = Some 0\<rparr>)
                    else if ty_kind source \<noteq> CPC_EH_POINTER then Some None
                    else match_pointer (load object) source tgt)))"

section \<open>Selecting a handler\<close>

text \<open>\<open>ca_type\<close> is the descriptor \<open>type_rva\<close> points to, \<open>None\<close> for \<open>catch (...)\<close>.\<close>

record eh_catch =
  ca_begin :: u32
  ca_end :: u32
  ca_landing :: u32
  ca_type :: "eh_type option"
  ca_stop :: int
  ca_context :: u64

fun select_from ::
  "(eh_type option \<Rightarrow> eh_match option option) \<Rightarrow> u32 \<Rightarrow> (eh_catch \<times> eh_match) option \<Rightarrow> eh_catch list
     \<Rightarrow> (eh_catch \<times> eh_match) option option" where
  "select_from matches pc selected [] = Some selected"
| "select_from matches pc selected (c # cs) =
     (if pc < ca_begin c \<or> pc \<ge> ca_end c then select_from matches pc selected cs
      else if (case selected of None \<Rightarrow> False
               | Some (s, m) \<Rightarrow> ca_begin c \<le> ca_begin s \<and> ca_end c \<ge> ca_end s)
      then select_from matches pc selected cs
      else (case matches (ca_type c) of
              None \<Rightarrow> None
            | Some None \<Rightarrow> select_from matches pc selected cs
            | Some (Some m) \<Rightarrow> select_from matches pc (Some (c, m)) cs))"

definition eh_select ::
  "(u64 \<Rightarrow> u64) \<Rightarrow> eh_catch list \<Rightarrow> u32 \<Rightarrow> eh_type \<Rightarrow> u64 \<Rightarrow> (eh_catch \<times> eh_match) option option" where
  "eh_select load catches pc source object =
     select_from (eh_matches load source object) pc None catches"

end
