(* ===== verification/EhRuntime.thy ===== *)
theory EhRuntime
  imports EhTypes
begin

text \<open>
  The exception objects of \<^verbatim>\<open>src/src/runtime/windows/exception.c\<close>, their reference
  counts, and the stack of catch contexts of a thread.  The thread's record
  (\<open>CpcEhThread\<close>) and the memory the code reaches are one state.  Code outside the file is an
  argument: \<open>run f x\<close> calls the destructor or cleanup \<open>f\<close> on \<open>x\<close>, \<open>block\<close> is the pointer
  \<open>malloc\<close> answers, and \<open>sp\<close> the address of the local variable a function stores as the
  cleanup boundary.  Reading a freed exception is the outcome \<open>Crash\<close>.
\<close>

section \<open>State\<close>

definition CPC_EH_MAGIC :: u32 where "CPC_EH_MAGIC = 0x45435043"

record eh_exception =
  ex_magic :: u32
  ex_references :: u32
  ex_type :: eh_type
  ex_destructor :: u64
  ex_object :: u64

record catch_context =
  cx_previous :: u64
  cx_exception :: u64
  cx_adjusted :: place
  cx_pointer :: u64

text \<open>
  \<open>words\<close>: the pointers in memory the code reads and writes; \<open>flags\<close>: the frame's ints
  that say whether a cleanup is active; \<open>destroyed\<close>: the exceptions released for good, last one
  first.
\<close>

record eh_state =
  exceptions :: "u64 \<Rightarrow> eh_exception option"
  contexts :: "u64 \<Rightarrow> catch_context"
  caught :: u64
  uncaught :: u32
  terminating :: bool
  boundary :: u64
  words :: "u64 \<Rightarrow> u64"
  flags :: "u64 \<Rightarrow> u32"
  destroyed :: "u64 list"

datatype 'a eh_run = Done 'a eh_state | Raised u64 eh_state | Terminated eh_state | Crash

fun eh_then :: "'a eh_run \<Rightarrow> ('a \<Rightarrow> eh_state \<Rightarrow> 'b eh_run) \<Rightarrow> 'b eh_run" where
  "eh_then (Done a s) k = k a s"
| "eh_then (Raised h s) k = Raised h s"
| "eh_then (Terminated s) k = Terminated s"
| "eh_then Crash k = Crash"

section \<open>Termination\<close>

definition eh_terminate :: "u64 \<Rightarrow> eh_state \<Rightarrow> 'a eh_run" where
  "eh_terminate sp s =
     Terminated (if terminating s then s else s\<lparr>terminating := True, boundary := sp\<rparr>)"

text \<open>\<open>cx\<close>: the address of the local context that exposes the exception.\<close>

definition eh_terminate_exception :: "u64 \<Rightarrow> u64 \<Rightarrow> u64 \<Rightarrow> eh_state \<Rightarrow> 'a eh_run" where
  "eh_terminate_exception sp cx h s =
     (case exceptions s h of
        None \<Rightarrow> Crash
      | Some e \<Rightarrow>
          eh_terminate sp
            (s\<lparr>contexts := (contexts s)(cx := \<lparr>cx_previous = caught s, cx_exception = h,
                 cx_adjusted = At (ex_object e), cx_pointer = 0\<rparr>),
               caught := cx\<rparr>))"

section \<open>Reference counts\<close>

definition eh_retain :: "u64 \<Rightarrow> u64 \<Rightarrow> eh_state \<Rightarrow> unit eh_run" where
  "eh_retain sp h s =
     (if h = 0 then Done () s
      else case exceptions s h of
        None \<Rightarrow> Crash
      | Some e \<Rightarrow>
          if ex_magic e \<noteq> CPC_EH_MAGIC then eh_terminate sp s
          else Done () (s\<lparr>exceptions := (exceptions s)(h \<mapsto> e\<lparr>ex_references := ex_references e + 1\<rparr>)\<rparr>))"

definition eh_release ::
  "(u64 \<Rightarrow> u64 \<Rightarrow> eh_state \<Rightarrow> unit eh_run) \<Rightarrow> u64 \<Rightarrow> u64 \<Rightarrow> eh_state \<Rightarrow> unit eh_run" where
  "eh_release run sp h s =
     (if h = 0 then Done () s
      else case exceptions s h of
        None \<Rightarrow> Crash
      | Some e \<Rightarrow>
          if ex_magic e \<noteq> CPC_EH_MAGIC then eh_terminate sp s
          else
            let e' = e\<lparr>ex_references := ex_references e - 1\<rparr>;
                s1 = s\<lparr>exceptions := (exceptions s)(h \<mapsto> e')\<rparr>
            in if ex_references e' \<noteq> 0 then Done () s1
               else
                 let previous = boundary s1; s2 = s1\<lparr>boundary := sp\<rparr> in
                 eh_then (if ex_destructor e' \<noteq> 0 then run (ex_destructor e') (ex_object e') s2 else Done () s2)
                   (\<lambda>_ s3. Done () (s3\<lparr>boundary := previous,
                      exceptions := (exceptions s3)(h := None), destroyed := h # destroyed s3\<rparr>)))"

section \<open>Allocation\<close>

definition exception_size :: u64 where "exception_size = 32"

text \<open>\<open>None\<close>: the request is malformed or memory runs out, and the program terminates.\<close>

definition eh_layout :: "u64 \<Rightarrow> u32 \<Rightarrow> u32 \<Rightarrow> (u64 \<times> u64) option" where
  "eh_layout block size0 alignment0 =
     (let prefix = exception_size + 8; al = (if alignment0 < 8 then 8 else alignment0); size = ucast size0
      in if al AND (al - 1) \<noteq> 0 \<or> size > - 1 - prefix - ucast al then None
         else Some (prefix + ucast al - 1 + size,
                    (block + prefix + ucast al - 1) AND NOT (ucast al - 1)))"

definition eh_allocate ::
  "u64 \<Rightarrow> (u64 \<Rightarrow> u64) \<Rightarrow> eh_type option \<Rightarrow> u32 \<Rightarrow> u64 \<Rightarrow> eh_state \<Rightarrow> u64 eh_run" where
  "eh_allocate sp alloc ty alignment destructor s =
     (case ty of
        None \<Rightarrow> eh_terminate sp s
      | Some t \<Rightarrow>
          (case eh_layout 0 (ty_size t) alignment of
             None \<Rightarrow> eh_terminate sp s
           | Some (bytes, _) \<Rightarrow>
               let block = alloc bytes in
               if block = 0 then eh_terminate sp s
               else (case eh_layout block (ty_size t) alignment of
                  None \<Rightarrow> eh_terminate sp s \<comment> \<open>the test does not depend on the block: not reached\<close>
                | Some (_, storage) \<Rightarrow>
                    Done storage (s\<lparr>
                      exceptions := (exceptions s)(block \<mapsto>
                        \<lparr>ex_magic = CPC_EH_MAGIC, ex_references = 1, ex_type = t,
                         ex_destructor = destructor, ex_object = storage\<rparr>),
                      words := (words s)(storage - 8 := block)\<rparr>))))"

definition eh_discard :: "u64 \<Rightarrow> eh_state \<Rightarrow> unit eh_run" where
  "eh_discard object s =
     (if object \<noteq> 0 then
        let h = words s (object - 8) in
        if exceptions s h = None then Crash
        else Done () (s\<lparr>exceptions := (exceptions s)(h := None)\<rparr>)
      else Done () s)"

section \<open>Throwing\<close>

text \<open>
  The functions on the stack, innermost first, as the system's unwinder shows them: those
  with the runtime's frame handler, at their frame address, with their table
  (\<open>None\<close>: not a table of this version), program counter relative to the image minus one,
  and whether they are \<open>noexcept\<close>.
\<close>

record stack_frame =
  fr_frame :: u64
  fr_catches :: "eh_catch list option"
  fr_pc :: u32
  fr_noexcept :: bool

text \<open>\<open>Done True\<close>: some function on the stack handles the exception.\<close>

fun eh_has_handler :: "u64 \<Rightarrow> u64 \<Rightarrow> u64 \<Rightarrow> stack_frame list \<Rightarrow> eh_state \<Rightarrow> bool eh_run" where
  "eh_has_handler sp cx h [] s = Done False s"
| "eh_has_handler sp cx h (f # fs) s =
     (case fr_catches f of
        None \<Rightarrow> eh_terminate sp s
      | Some catches \<Rightarrow>
          if boundary s \<noteq> 0 \<and> fr_frame f \<ge> boundary s then eh_terminate_exception sp cx h s
          else (case exceptions s h of
             None \<Rightarrow> Crash
           | Some e \<Rightarrow>
               (case eh_select (words s) catches (fr_pc f) (ex_type e) (ex_object e) of
                  None \<Rightarrow> Crash
                | Some (Some _) \<Rightarrow> Done True s
                | Some None \<Rightarrow>
                    if fr_noexcept f then eh_terminate_exception sp cx h s
                    else eh_has_handler sp cx h fs s)))"

text \<open>\<open>Raised\<close>: \<open>RaiseException\<close> hands the exception to the system's dispatch.\<close>

definition eh_raise :: "u64 \<Rightarrow> u64 \<Rightarrow> stack_frame list \<Rightarrow> u64 \<Rightarrow> eh_state \<Rightarrow> 'a eh_run" where
  "eh_raise sp cx frames h s =
     eh_then (eh_has_handler sp cx h frames (s\<lparr>uncaught := uncaught s + 1\<rparr>))
       (\<lambda>found s1. if found then Raised h s1 else eh_terminate_exception sp cx h s1)"

definition eh_throw :: "u64 \<Rightarrow> u64 \<Rightarrow> stack_frame list \<Rightarrow> u64 \<Rightarrow> eh_state \<Rightarrow> unit eh_run" where
  "eh_throw sp cx frames object s =
     (let h = (if object \<noteq> 0 then words s (object - 8) else 0) in
      if h = 0 then eh_terminate sp s
      else case exceptions s h of
        None \<Rightarrow> Crash
      | Some e \<Rightarrow>
          if ex_magic e \<noteq> CPC_EH_MAGIC then eh_terminate sp s else eh_raise sp cx frames h s)"

definition eh_rethrow :: "u64 \<Rightarrow> u64 \<Rightarrow> stack_frame list \<Rightarrow> eh_state \<Rightarrow> unit eh_run" where
  "eh_rethrow sp cx frames s =
     (if caught s = 0 then eh_terminate sp s
      else
        let h = cx_exception (contexts s (caught s)) in
        case exceptions s h of
          None \<Rightarrow> Crash
        | Some e \<Rightarrow>
            eh_raise sp cx frames h
              (s\<lparr>exceptions := (exceptions s)(h \<mapsto> e\<lparr>ex_references := ex_references e + 1\<rparr>)\<rparr>))"

definition eh_current_exception :: "u64 \<Rightarrow> eh_state \<Rightarrow> u64 eh_run" where
  "eh_current_exception sp s =
     (let h = (if caught s \<noteq> 0 then cx_exception (contexts s (caught s)) else 0)
      in eh_then (eh_retain sp h s) (\<lambda>_. Done h))"

definition eh_rethrow_exception :: "u64 \<Rightarrow> u64 \<Rightarrow> stack_frame list \<Rightarrow> u64 \<Rightarrow> eh_state \<Rightarrow> unit eh_run" where
  "eh_rethrow_exception sp cx frames h s =
     (if h = 0 then eh_terminate sp s
      else eh_then (eh_retain sp h s) (\<lambda>_. eh_raise sp cx frames h))"

section \<open>Catching\<close>

definition eh_begin_catch :: "u64 \<Rightarrow> u64 \<Rightarrow> eh_state \<Rightarrow> place eh_run" where
  "eh_begin_catch sp context s =
     (if context = 0 \<or> cx_exception (contexts s context) = 0 \<or> uncaught s = 0 then eh_terminate sp s
      else Done (cx_adjusted (contexts s context))
             (s\<lparr>contexts := (contexts s)(context := (contexts s context)\<lparr>cx_previous := caught s\<rparr>),
                caught := context, uncaught := uncaught s - 1\<rparr>))"

definition eh_end_catch ::
  "(u64 \<Rightarrow> u64 \<Rightarrow> eh_state \<Rightarrow> unit eh_run) \<Rightarrow> u64 \<Rightarrow> u64 \<Rightarrow> eh_state \<Rightarrow> unit eh_run" where
  "eh_end_catch run sp context s =
     (if context = 0 \<or> caught s \<noteq> context then eh_terminate sp s
      else
        let c = contexts s context in
        eh_release run sp (cx_exception c)
          (s\<lparr>caught := cx_previous c, contexts := (contexts s)(context := c\<lparr>cx_exception := 0\<rparr>)\<rparr>))"

definition eh_uncaught_exceptions :: "eh_state \<Rightarrow> u32" where
  "eh_uncaught_exceptions s = uncaught s"

definition eh_begin_catch_copy :: "u64 \<Rightarrow> eh_state \<Rightarrow> u64 \<times> eh_state" where
  "eh_begin_catch_copy frame s = (boundary s, s\<lparr>boundary := frame\<rparr>)"

definition eh_end_catch_copy :: "u64 \<Rightarrow> eh_state \<Rightarrow> eh_state" where
  "eh_end_catch_copy previous s = s\<lparr>boundary := previous\<rparr>"

section \<open>Arrays and sized deallocation\<close>

text \<open>\<open>cpc_eh_destroy_array\<close>: the elements' destructors run from the last one down.\<close>

fun eh_destroy_array ::
  "(u64 \<Rightarrow> u64 \<Rightarrow> eh_state \<Rightarrow> unit eh_run) \<Rightarrow> u64 \<Rightarrow> nat \<Rightarrow> u64 \<Rightarrow> u64 \<Rightarrow> eh_state \<Rightarrow> unit eh_run" where
  "eh_destroy_array run data 0 element_size destructor s = Done () s"
| "eh_destroy_array run data (Suc n) element_size destructor s =
     eh_then (run destructor (data + of_nat n * element_size) s)
       (\<lambda>_. eh_destroy_array run data n element_size destructor)"

end
