(* ===== verification/EhFrame.thy ===== *)
theory EhFrame
  imports EhRuntime
begin

text \<open>
  \<open>__cpc_eh_frame_handler\<close> of \<^verbatim>\<open>src/src/runtime/windows/exception.c\<close>: what the system
  calls for every function on the stack, once to look for a handler and once, when the stack is
  unwound, to run the cleanups of the function.
\<close>

section \<open>Function tables\<close>

record eh_range =
  rn_begin :: u32
  rn_end :: u32
  rn_cleanup :: int

definition CPC_EH_CLEANUP_INDIRECT :: u32 where "CPC_EH_CLEANUP_INDIRECT = 1"
definition CPC_EH_CLEANUP_END_CATCH :: u32 where "CPC_EH_CLEANUP_END_CATCH = 2"
definition CPC_EH_FUNCTION_NOEXCEPT :: u32 where "CPC_EH_FUNCTION_NOEXCEPT = 1"

record eh_cleanup =
  cl_parent :: int
  cl_action :: u64
  cl_object :: u64
  cl_flags :: u32
  cl_active :: u64

record eh_function =
  fn_magic :: u32
  fn_version :: u32
  fn_flags :: u32
  fn_states :: "eh_range list"
  fn_cleanups :: "eh_cleanup list"
  fn_catches :: "eh_catch list"

definition valid_function :: "eh_function option \<Rightarrow> bool" where
  "valid_function f =
     (case f of None \<Rightarrow> False | Some f \<Rightarrow> fn_magic f = CPC_EH_MAGIC \<and> fn_version f = 2)"

section \<open>Unwinding\<close>

text \<open>The state the program counter is in gives the innermost cleanup, \<open>-1\<close> for none.\<close>

fun innermost_cleanup :: "u32 \<Rightarrow> eh_range list \<Rightarrow> int" where
  "innermost_cleanup pc [] = -1"
| "innermost_cleanup pc (r # rs) =
     (if pc \<ge> rn_begin r \<and> pc < rn_end r then rn_cleanup r else innermost_cleanup pc rs)"

text \<open>The catch whose landing pad is the target of the unwind says where to stop.\<close>

fun stop_cleanup :: "u32 \<Rightarrow> eh_catch list \<Rightarrow> int" where
  "stop_cleanup landing [] = -1"
| "stop_cleanup landing (c # cs) = (if ca_landing c = landing then ca_stop c else stop_cleanup landing cs)"

text \<open>One cleanup: skipped when its flag in the frame is 0, which running it makes it.\<close>

definition run_cleanup ::
  "(u64 \<Rightarrow> u64 \<Rightarrow> eh_state \<Rightarrow> unit eh_run) \<Rightarrow> u64 \<Rightarrow> u64 \<Rightarrow> eh_cleanup \<Rightarrow> eh_state \<Rightarrow> unit eh_run" where
  "run_cleanup run sp frame a s =
     (if cl_active a \<noteq> 0 \<and> flags s (frame + cl_active a) = 0 then Done () s
      else
        let s1 = (if cl_active a \<noteq> 0 then s\<lparr>flags := (flags s)(frame + cl_active a := 0)\<rparr> else s);
            object = frame + cl_object a;
            object = (if cl_flags a AND CPC_EH_CLEANUP_INDIRECT \<noteq> 0 then words s1 object else object);
            previous = boundary s1;
            s2 = s1\<lparr>boundary := sp\<rparr>
        in eh_then
             (if cl_flags a AND CPC_EH_CLEANUP_END_CATCH \<noteq> 0 then eh_end_catch run sp object s2
              else run (cl_action a) object s2)
             (\<lambda>_ s3. Done () (s3\<lparr>boundary := previous\<rparr>)))"

text \<open>The loop over the parents; a table whose parents form a cycle keeps it running.\<close>

partial_function (option) unwind_loop ::
  "(u64 \<Rightarrow> u64 \<Rightarrow> eh_state \<Rightarrow> unit eh_run) \<Rightarrow> u64 \<Rightarrow> u64 \<Rightarrow> eh_cleanup list \<Rightarrow> int \<Rightarrow> int
     \<Rightarrow> eh_state \<Rightarrow> unit eh_run option" where
  "unwind_loop run sp frame cleanups cleanup stop s =
     (if cleanup \<noteq> stop \<and> cleanup \<ge> 0 then
        (if nat cleanup \<ge> length cleanups then Some (eh_terminate sp s)
         else
           let a = cleanups ! nat cleanup in
           (case run_cleanup run sp frame a s of
              Done u s1 \<Rightarrow> unwind_loop run sp frame cleanups (cl_parent a) stop s1
            | r \<Rightarrow> Some r))
      else if cleanup \<noteq> stop then Some (eh_terminate sp s)
      else Some (Done () s))"

section \<open>The handler\<close>

text \<open>
  \<open>record_ok\<close>: the record is one of this runtime's (\<open>cpc_eh_exception_record\<close>), \<open>h\<close> its exception;
  \<open>target\<close>: the landing pad when this function is the target of the unwind, relative to the
  image.  The result of the first pass is the landing pad the stack is unwound to.
\<close>

definition eh_exception_record :: "bool \<Rightarrow> u64 \<Rightarrow> eh_state \<Rightarrow> u64 option" where
  "eh_exception_record record_ok h s =
     (if \<not> record_ok \<or> h = 0 then None
      else case exceptions s h of None \<Rightarrow> None | Some e \<Rightarrow> if ex_magic e = CPC_EH_MAGIC then Some h else None)"

datatype disposition = ContinueSearch | UnwindTo u32

definition handler_unwind ::
  "(u64 \<Rightarrow> u64 \<Rightarrow> eh_state \<Rightarrow> unit eh_run) \<Rightarrow> u64 \<Rightarrow> u64 \<Rightarrow> u32 \<Rightarrow> u32 option \<Rightarrow> eh_function \<Rightarrow> eh_state
     \<Rightarrow> disposition eh_run option" where
  "handler_unwind run sp frame pc target f s =
     (let cleanup = innermost_cleanup pc (fn_states f);
          stop = (case target of None \<Rightarrow> -1 | Some landing \<Rightarrow> stop_cleanup landing (fn_catches f))
      in map_option (\<lambda>r. eh_then r (\<lambda>_. Done ContinueSearch))
           (unwind_loop run sp frame (fn_cleanups f) cleanup stop s))"

definition handler_search ::
  "u64 \<Rightarrow> u64 \<Rightarrow> u64 \<Rightarrow> u32 \<Rightarrow> u64 \<Rightarrow> eh_function \<Rightarrow> eh_state \<Rightarrow> disposition eh_run" where
  "handler_search sp cx frame pc h f s =
     (if boundary s \<noteq> 0 \<and> frame \<ge> boundary s then eh_terminate_exception sp cx h s
      else case exceptions s h of
        None \<Rightarrow> Crash
      | Some e \<Rightarrow>
          (case eh_select (words s) (fn_catches f) pc (ex_type e) (ex_object e) of
             None \<Rightarrow> Crash
           | Some (Some (c, m)) \<Rightarrow>
               let context = frame + ca_context c in
               Done (UnwindTo (ca_landing c))
                 (s\<lparr>contexts := (contexts s)(context := (contexts s context)\<lparr>
                      cx_exception := h, cx_adjusted := adjusted m,
                      cx_pointer := (case pointer_value m of None \<Rightarrow> 0 | Some v \<Rightarrow> v)\<rparr>)\<rparr>)
           | Some None \<Rightarrow>
               if fn_flags f AND CPC_EH_FUNCTION_NOEXCEPT \<noteq> 0 then eh_terminate_exception sp cx h s
               else Done ContinueSearch s))"

definition eh_frame_handler ::
  "(u64 \<Rightarrow> u64 \<Rightarrow> eh_state \<Rightarrow> unit eh_run) \<Rightarrow> u64 \<Rightarrow> u64 \<Rightarrow> bool \<Rightarrow> bool \<Rightarrow> u64 \<Rightarrow> u64 \<Rightarrow> u32 \<Rightarrow> u32 option
     \<Rightarrow> eh_function option \<Rightarrow> eh_state \<Rightarrow> disposition eh_run option" where
  "eh_frame_handler run sp cx record_ok unwinding h frame pc target f s =
     (case eh_exception_record record_ok h s of
        None \<Rightarrow> Some (Done ContinueSearch s)
      | Some h \<Rightarrow>
          if \<not> valid_function f then Some (Done ContinueSearch s)
          else case f of
            None \<Rightarrow> Some (Done ContinueSearch s)
          | Some f \<Rightarrow>
              if unwinding then handler_unwind run sp frame pc target f s
              else Some (handler_search sp cx frame pc h f s))"

end
