(* ===== verification/EhTypeFacts.thy ===== *)
theory EhTypeFacts
  imports EhTypes
begin

text \<open>
  What matching and selection of handlers decide: comparing types is equality of their
  spines, qualification conversion is the rule of the language level by level, and the
  handler selected is the first of the innermost ones that match.
\<close>

section \<open>Comparing types\<close>

text \<open>
  \<open>wf_type\<close>: a pointer type has a pointee.  \<open>agree\<close>: descriptors at one address are one
  descriptor.  The \<open>spine\<close> of a type: the qualifiers below its top level, then the kind and
  the name of what the last pointer points to.
\<close>

fun wf_type :: "eh_type \<Rightarrow> bool" where
  "wf_type (EhType a n p bs s k q) \<longleftrightarrow>
     (k = CPC_EH_POINTER \<longrightarrow> p \<noteq> None) \<and> (\<forall>t\<in>set_option p. wf_type t) \<and> (\<forall>b\<in>set bs. wf_type (fst b))"

fun parts :: "eh_type \<Rightarrow> eh_type list" where
  "parts (EhType a n p bs s k q) =
     EhType a n p bs s k q # (case p of None \<Rightarrow> [] | Some t \<Rightarrow> parts t)"

fun spine :: "eh_type \<Rightarrow> u32 list \<times> u32 \<times> string" where
  "spine (EhType a n p bs s k q) =
     (if k = CPC_EH_POINTER then
        (case p of
           None \<Rightarrow> ([], k, n)
         | Some t \<Rightarrow> (ty_qualifiers t # fst (spine t), snd (spine t)))
      else ([], k, n))"

definition agree :: "eh_type \<Rightarrow> eh_type \<Rightarrow> bool" where
  "agree l r \<longleftrightarrow> (\<forall>x\<in>set (parts l). \<forall>y\<in>set (parts r). ty_addr x = ty_addr y \<longrightarrow> x = y)"

lemma agree_pointee:
  "agree l r \<Longrightarrow> ty_pointee l = Some lp \<Longrightarrow> ty_pointee r = Some rp \<Longrightarrow> agree lp rp"
  by (cases l; cases r) (auto simp: agree_def)

lemma spine_pointer: "ty_kind t = CPC_EH_POINTER \<Longrightarrow> wf_type t \<Longrightarrow> \<exists>p. ty_pointee t = Some p \<and> wf_type p \<and>
   spine t = (ty_qualifiers p # fst (spine p), snd (spine p))"
  by (cases t) auto

lemma spine_leaf: "ty_kind t \<noteq> CPC_EH_POINTER \<Longrightarrow> spine t = ([], ty_kind t, ty_name t)"
  by (cases t) auto

lemma spine_leaf_kind: "wf_type t \<Longrightarrow> fst (snd (spine t)) \<noteq> CPC_EH_POINTER"
  by (induction t rule: spine.induct) (auto split: option.splits)

lemma same_type_spine:
  "wf_type l \<Longrightarrow> wf_type r \<Longrightarrow> agree l r \<Longrightarrow> same_type (Some l) (Some r) = Some (spine l = spine r)"
proof (induction l arbitrary: r rule: measure_induct_rule [of size])
  case (less l)
  obtain la ln lp lb ls lk lq where l: "l = EhType la ln lp lb ls lk lq" by (cases l)
  obtain ra rn rp rb rs rk rq where r: "r = EhType ra rn rp rb rs rk rq" by (cases r)
  show ?case
  proof (cases "la = ra")
    case True
    then have "l = r" using less.prems(3) by (auto simp: agree_def l r)
    then show ?thesis by (simp add: l r)
  next
    case addr: False
    consider "lk \<noteq> rk" | "lk = rk" "lk = CPC_EH_POINTER" | "lk = rk" "lk \<noteq> CPC_EH_POINTER" by blast
    then show ?thesis
    proof cases
      case 1
      have "spine l \<noteq> spine r"
        using 1 spine_leaf_kind less.prems(1,2) by (auto simp: l r split: option.splits)
      then show ?thesis using 1 addr by (simp add: l r)
    next
      case 2
      obtain lt rt where t: "lp = Some lt" "rp = Some rt" "wf_type lt" "wf_type rt"
        using less.prems(1,2) 2 by (auto simp: l r)
      have "agree lt rt" using agree_pointee [OF less.prems(3)] t by (simp add: l r)
      then have "same_type (Some lt) (Some rt) = Some (spine lt = spine rt)"
        using t by (intro less.IH) (simp_all add: l)
      then show ?thesis using 2 addr t by (auto simp: l r prod_eq_iff)
    next
      case 3
      then show ?thesis using addr by (simp add: l r)
    qed
  qed
qed


section \<open>Qualification conversions\<close>

definition quals_at :: "eh_type \<Rightarrow> u32 list" where
  "quals_at t = ty_qualifiers t # fst (spine t)"

text \<open>
  The rule of the language for two pointer chains with the same leaf: no level loses a
  qualifier, and below a level that gains one every level up to the first is const.
  \<open>seen\<close>: the levels already passed were const; \<open>k\<close>: how many levels were passed.
\<close>

fun converts :: "bool \<Rightarrow> nat \<Rightarrow> u32 list \<Rightarrow> u32 list \<Rightarrow> bool" where
  "converts seen k [] [] \<longleftrightarrow> True"
| "converts seen k (s # ss) (t # ts) \<longleftrightarrow>
     s AND NOT t = 0 \<and> (t AND NOT s \<noteq> 0 \<longrightarrow> k = 0 \<or> seen) \<and>
     converts (seen \<and> t AND CPC_EH_CONST \<noteq> 0) (Suc k) ss ts"
| "converts seen k _ _ \<longleftrightarrow> False"

lemma converts_length: "converts seen k ss ts \<Longrightarrow> length ss = length ts"
  by (induction seen k ss ts rule: converts.induct) auto

lemma converts_levels:
  "converts seen k ss ts \<longleftrightarrow> length ss = length ts \<and>
     (\<forall>i<length ss. ss ! i AND NOT (ts ! i) = 0 \<and>
       (ts ! i AND NOT (ss ! i) \<noteq> 0 \<and> 0 < k + i \<longrightarrow> seen \<and> (\<forall>j<i. ts ! j AND CPC_EH_CONST \<noteq> 0)))"
proof (induction seen k ss ts rule: converts.induct)
  case (2 seen k s ss t ts)
  let ?P = "\<lambda>i. ss ! i AND NOT (ts ! i) = 0 \<and> (ts ! i AND NOT (ss ! i) \<noteq> 0 \<longrightarrow>
    (seen \<and> t AND CPC_EH_CONST \<noteq> 0) \<and> (\<forall>j<i. ts ! j AND CPC_EH_CONST \<noteq> 0))"
  have a: "(\<forall>i<length (s # ss). (s # ss) ! i AND NOT ((t # ts) ! i) = 0 \<and>
       ((t # ts) ! i AND NOT ((s # ss) ! i) \<noteq> 0 \<and> 0 < k + i \<longrightarrow>
          seen \<and> (\<forall>j<i. (t # ts) ! j AND CPC_EH_CONST \<noteq> 0))) \<longleftrightarrow>
     s AND NOT t = 0 \<and> (t AND NOT s \<noteq> 0 \<and> 0 < k \<longrightarrow> seen) \<and> (\<forall>i<length ss. ?P i)"
    by (simp add: All_less_Suc2)
  show ?case unfolding a using 2 by auto
qed auto

lemma qualification_converts:
  "wf_type l \<Longrightarrow> wf_type r \<Longrightarrow> agree l r \<Longrightarrow>
     qualification (Some l) (Some r) seen (Suc k) =
       Some (snd (spine l) = snd (spine r) \<and> converts seen k (quals_at l) (quals_at r))"
proof (induction l arbitrary: r seen k rule: measure_induct_rule [of size])
  case (less l)
  obtain la ln lp lb ls lk lq where l: "l = EhType la ln lp lb ls lk lq" by (cases l)
  obtain ra rn rp rb rs rk rq where r: "r = EhType ra rn rp rb rs rk rq" by (cases r)
  consider "lk \<noteq> rk" | "lk = rk" "lk = CPC_EH_POINTER" | "lk = rk" "lk \<noteq> CPC_EH_POINTER" by blast
  then show ?case
  proof cases
    case 1
    have "\<not> (snd (spine l) = snd (spine r) \<and> converts seen k (quals_at l) (quals_at r))"
      using 1 less.prems(1,2) spine_leaf_kind
      by (auto simp: l r quals_at_def dest!: converts_length split: option.splits if_splits)
    then show ?thesis using 1 by (simp add: l r)
  next
    case 2
    obtain lt rt where t: "lp = Some lt" "rp = Some rt" "wf_type lt" "wf_type rt"
      using less.prems(1,2) 2 by (auto simp: l r)
    have "agree lt rt" using agree_pointee [OF less.prems(3)] t by (simp add: l r)
    then have "qualification (Some lt) (Some rt) (seen \<and> rq AND CPC_EH_CONST \<noteq> 0) (Suc (Suc k)) =
        Some (snd (spine lt) = snd (spine rt) \<and>
          converts (seen \<and> rq AND CPC_EH_CONST \<noteq> 0) (Suc k) (quals_at lt) (quals_at rt))"
      using t by (intro less.IH) (simp_all add: l)
    then show ?thesis using 2 t by (auto simp: l r quals_at_def)
  next
    case 3
    have "same_type (Some l) (Some r) = Some (spine l = spine r)" by (rule same_type_spine [OF less.prems])
    then show ?thesis using 3 by (auto simp: l r quals_at_def)
  qed
qed

section \<open>Selection\<close>

definition protects :: "eh_catch \<Rightarrow> u32 \<Rightarrow> bool" where
  "protects c pc \<longleftrightarrow> ca_begin c \<le> pc \<and> pc < ca_end c"

definition encloses :: "eh_catch \<Rightarrow> eh_catch \<Rightarrow> bool" where
  "encloses c d \<longleftrightarrow> ca_begin c \<le> ca_begin d \<and> ca_end d \<le> ca_end c"

definition nested :: "u32 \<Rightarrow> eh_catch list \<Rightarrow> bool" where
  "nested pc cs \<longleftrightarrow> (\<forall>c\<in>set cs. \<forall>d\<in>set cs. protects c pc \<longrightarrow> protects d pc \<longrightarrow> encloses c d \<or> encloses d c)"

text \<open>The first of the innermost handlers that cover \<open>pc\<close> and match.\<close>

definition innermost_first ::
  "(eh_type option \<Rightarrow> eh_match option option) \<Rightarrow> u32 \<Rightarrow> eh_catch list \<Rightarrow> eh_catch \<Rightarrow> eh_match \<Rightarrow> bool" where
  "innermost_first matches pc cs c m \<longleftrightarrow>
     (\<exists>i<length cs. cs ! i = c \<and> protects c pc \<and> matches (ca_type c) = Some (Some m) \<and>
       (\<forall>j<length cs. protects (cs ! j) pc \<and> matches (ca_type (cs ! j)) \<noteq> Some None \<longrightarrow>
          encloses (cs ! j) c \<and> (j < i \<longrightarrow> \<not> encloses c (cs ! j))))"

lemma encloses_trans: "encloses a b \<Longrightarrow> encloses b c \<Longrightarrow> encloses a c"
  by (auto simp: encloses_def)

lemma innermost_extend:
  assumes "innermost_first matches pc cs c m" and "matches (ca_type d) = Some None \<or> \<not> protects d pc \<or> encloses d c"
  shows "innermost_first matches pc (cs @ [d]) c m"
proof -
  obtain i where i: "i < length cs" "cs ! i = c" "protects c pc" "matches (ca_type c) = Some (Some m)"
    "\<And>j. j < length cs \<Longrightarrow> protects (cs ! j) pc \<and> matches (ca_type (cs ! j)) \<noteq> Some None \<Longrightarrow>
          encloses (cs ! j) c \<and> (j < i \<longrightarrow> \<not> encloses c (cs ! j))"
    using assms(1) unfolding innermost_first_def by blast
  show ?thesis unfolding innermost_first_def
    using i assms(2) by (intro exI [of _ i]) (auto simp: nth_append less_Suc_eq)
qed

lemma innermost_replace:
  assumes "innermost_first matches pc cs c m" and "nested pc (cs @ [d])" and "protects d pc"
    and "\<not> encloses d c" and "matches (ca_type d) = Some (Some m')"
  shows "innermost_first matches pc (cs @ [d]) d m'"
proof -
  obtain i where i: "i < length cs" "cs ! i = c" "protects c pc"
    "\<And>j. j < length cs \<Longrightarrow> protects (cs ! j) pc \<and> matches (ca_type (cs ! j)) \<noteq> Some None \<Longrightarrow>
          encloses (cs ! j) c"
    using assms(1) unfolding innermost_first_def by blast
  have "c \<in> set cs" using i(1,2) by auto
  then have e: "encloses c d" using assms(2-4) i(3) by (auto simp: nested_def)
  have "encloses (cs ! j) d \<and> \<not> encloses d (cs ! j)"
    if "j < length cs" "protects (cs ! j) pc \<and> matches (ca_type (cs ! j)) \<noteq> Some None" for j
    using i(4) [OF that] e assms(4) encloses_trans by blast
  then show ?thesis unfolding innermost_first_def
    using assms(3,5) by (intro exI [of _ "length cs"]) (auto simp: nth_append less_Suc_eq encloses_def)
qed


definition selects ::
  "(eh_type option \<Rightarrow> eh_match option option) \<Rightarrow> u32 \<Rightarrow> eh_catch list \<Rightarrow> (eh_catch \<times> eh_match) option \<Rightarrow> bool" where
  "selects matches pc cs res \<longleftrightarrow>
     (case res of
        None \<Rightarrow> \<forall>c\<in>set cs. protects c pc \<longrightarrow> matches (ca_type c) = Some None
      | Some (c, m) \<Rightarrow> innermost_first matches pc cs c m)"

lemma nested_prefix: "nested pc (xs @ ys) \<Longrightarrow> nested pc xs"
  by (auto simp: nested_def)

lemma innermost_first_alone:
  assumes "selects matches pc cs None" and "protects d pc" and "matches (ca_type d) = Some (Some m)"
  shows "innermost_first matches pc (cs @ [d]) d m"
  using assms unfolding innermost_first_def selects_def
  by (intro exI [of _ "length cs"]) (auto simp: nth_append less_Suc_eq encloses_def)

lemma select_from_selects:
  assumes "\<forall>c\<in>set cs. protects c pc \<longrightarrow> matches (ca_type c) \<noteq> None" and "nested pc (seen @ cs)"
    and "selects matches pc seen selected"
  shows "\<exists>res. select_from matches pc selected cs = Some res \<and> selects matches pc (seen @ cs) res"
  using assms
proof (induction matches pc selected cs arbitrary: seen rule: select_from.induct)
  case (2 matches pc selected c cs)
  have n: "nested pc ((seen @ [c]) @ cs)" using 2(6) by simp
  have tot: "\<forall>c\<in>set cs. protects c pc \<longrightarrow> matches (ca_type c) \<noteq> None" using 2(5) by simp
  show ?case
  proof (cases "protects c pc")
    case False
    then have o: "pc < ca_begin c \<or> pc \<ge> ca_end c" by (auto simp: protects_def)
    have "selects matches pc (seen @ [c]) selected"
      using 2(7) False innermost_extend by (auto simp: selects_def split: option.splits)
    from 2(1) [OF o tot n this] show ?thesis using o by auto
  next
    case pr: True
    then have o: "\<not> (pc < ca_begin c \<or> pc \<ge> ca_end c)" by (auto simp: protects_def)
    let ?skip = "case selected of None \<Rightarrow> False
               | Some (s, m) \<Rightarrow> ca_begin c \<le> ca_begin s \<and> ca_end c \<ge> ca_end s"
    show ?thesis
    proof (cases ?skip)
      case True
      then have "selects matches pc (seen @ [c]) selected"
        using 2(7) innermost_extend by (auto simp: selects_def encloses_def split: option.splits)
      from 2(2) [OF o True tot n this] show ?thesis using o True by auto
    next
      case False
      from 2(5) pr obtain mo where mo: "matches (ca_type c) = Some mo" by auto
      show ?thesis
      proof (cases mo)
        case None
        have "selects matches pc (seen @ [c]) selected"
          using 2(7) mo None innermost_extend by (auto simp: selects_def split: option.splits)
        from 2(3) [OF o False _ _ tot n this] show ?thesis using o False mo None by auto
      next
        case (Some m)
        have "innermost_first matches pc (seen @ [c]) c m"
        proof (cases selected)
          case None
          then show ?thesis using innermost_first_alone 2(7) pr mo Some by simp
        next
          case (Some sel)
          obtain s ms where sel: "sel = (s, ms)" by fastforce
          show ?thesis
            using innermost_replace [of matches pc seen s ms c m] 2(7) nested_prefix [OF n] pr False mo
              \<open>mo = Some m\<close> \<open>selected = Some sel\<close>
            by (auto simp: selects_def encloses_def sel)
        qed
        then have "selects matches pc (seen @ [c]) (Some (c, m))" by (simp add: selects_def)
        from 2(4) [OF o False _ _ tot n this] show ?thesis using o False mo Some by auto
      qed
    qed
  qed
qed simp

lemma same_type_total: "wf_type l \<Longrightarrow> wf_type r \<Longrightarrow> \<exists>b. same_type (Some l) (Some r) = Some b"
proof (induction l arbitrary: r rule: measure_induct_rule [of size])
  case (less l)
  then show ?case by (cases l; cases r) (auto split: option.splits)
qed

lemma qualification_total:
  "wf_type l \<Longrightarrow> wf_type r \<Longrightarrow> \<exists>b. qualification (Some l) (Some r) seen d = Some b"
proof (induction l arbitrary: r seen d rule: measure_induct_rule [of size])
  case (less l)
  have "\<exists>b. same_type (Some l) (Some r) = Some b" by (rule same_type_total [OF less.prems])
  then show ?case using less by (cases l; cases r) (auto simp del: same_type.simps)
qed

lemma find_base_total:
  "\<forall>b\<in>set bs. wf_type (fst b) \<Longrightarrow> wf_type target \<Longrightarrow> find_base bs target \<noteq> None"
  using same_type_total by (induction bs target rule: find_base.induct) (fastforce split: option.splits bool.splits)+

lemma class_adjustment_total:
  "wf_type source \<Longrightarrow> wf_type target \<Longrightarrow> class_adjustment source target \<noteq> None"
  using same_type_total [of source target] find_base_total [of "ty_bases source" target]
  by (cases source) (auto simp: class_adjustment_def split: option.splits bool.splits)

lemma eh_matches_total:
  assumes "wf_type source" and "\<forall>t\<in>set_option target. wf_type t"
  shows "eh_matches load source object target \<noteq> None"
proof (cases target)
  case (Some t)
  have w: "wf_type t" using assms(2) Some by simp
  have p: "\<And>x u. wf_type x \<Longrightarrow> ty_pointee x = Some u \<Longrightarrow> wf_type u"
    by (metis eh_type.exhaust eh_type.sel(3) option.set_intros wf_type.simps)
  have m: "match_pointer v source t \<noteq> None" for v
  proof (cases "\<exists>sp tp. ty_pointee source = Some sp \<and> ty_pointee t = Some tp")
    case True
    then obtain sp tp where st: "ty_pointee source = Some sp" "ty_pointee t = Some tp" by blast
    then have wt: "wf_type sp" "wf_type tp" using p assms(1) w by blast+
    obtain b where "qualification (Some sp) (Some tp) True 1 = Some b"
      using qualification_total [OF wt] by blast
    moreover obtain ad where "class_adjustment sp tp = Some ad"
      using class_adjustment_total [OF wt] by blast
    ultimately show ?thesis by (cases b; cases ad) (simp_all add: match_pointer_def Let_def st)
  qed (auto simp: match_pointer_def split: option.splits)
  obtain b where "same_type (Some source) (Some t) = Some b" using same_type_total [OF assms(1) w] by blast
  moreover obtain ad where "class_adjustment source t = Some ad"
    using class_adjustment_total [OF assms(1) w] by blast
  ultimately show ?thesis using Some m by (cases b; cases ad) (simp_all add: eh_matches_def)
qed (simp add: eh_matches_def)

end
