(* ===== verification/EhFacts.thy ===== *)
theory EhFacts
  imports EhFrame EhTypeFacts "HOL-Library.Multiset"
begin

text \<open>
  The protocol of the exception runtime: programs that own references to exceptions, the steps
  they take through the runtime's functions, and the balance every step keeps; the path of
  cleanups an unwinding pass runs; the layout of an exception block.
\<close>

section \<open>Counting references\<close>

text \<open>\<open>own h\<close> references to each exception: a live one has as many as its count says.\<close>

definition counted :: "eh_state \<Rightarrow> (u64 \<Rightarrow> nat) \<Rightarrow> bool" where
  "counted s own \<longleftrightarrow> exceptions s 0 = None \<and>
     (\<forall>h. exceptions s h = None \<longrightarrow> own h = 0) \<and>
     (\<forall>h e. exceptions s h = Some e \<longrightarrow>
        ex_magic e = CPC_EH_MAGIC \<and> 0 < own h \<and> uint (ex_references e) = int (own h))"

lemma counted_None: "counted s own \<Longrightarrow> exceptions s h = None \<longleftrightarrow> own h = 0"
  by (cases "exceptions s h") (simp, metis counted_def, metis counted_def not_gr_zero option.distinct(1))

lemma countedD:
  assumes "counted s own" and "0 < own h"
  obtains e where "exceptions s h = Some e" "ex_magic e = CPC_EH_MAGIC"
    "uint (ex_references e) = int (own h)" "h \<noteq> 0"
proof (cases "exceptions s h")
  case None
  then show ?thesis using assms by (simp add: counted_def)
next
  case (Some e)
  then show ?thesis using assms by (intro that [of e]) (auto simp: counted_def)
qed

lemma counted_add:
  assumes "counted s own" and "exceptions s h = Some e" and "own h + 1 < 4294967296"
  shows "counted (s\<lparr>exceptions := (exceptions s)(h \<mapsto> e\<lparr>ex_references := ex_references e + 1\<rparr>)\<rparr>) (own(h := own h + 1))"
proof -
  have e: "ex_magic e = CPC_EH_MAGIC" "uint (ex_references e) = int (own h)" "exceptions s 0 = None"
    using assms(1,2) by (auto simp: counted_def)
  moreover have "uint (ex_references e + 1) = int (own h) + 1" using e(2) assms(3) uint32_Suc by simp
  ultimately show ?thesis using assms(1,2) by (auto simp: counted_def)
qed

text \<open>Destructors that leave exception handling alone.\<close>

definition quiet :: "(u64 \<Rightarrow> u64 \<Rightarrow> eh_state \<Rightarrow> unit eh_run) \<Rightarrow> bool" where
  "quiet run \<longleftrightarrow> (\<forall>f x s. \<exists>b w. run f x s = Done () (s\<lparr>boundary := b, words := w\<rparr>))"

lemma release_counted:
  assumes "counted s own" and "0 < own h" and "quiet run"
  shows "\<exists>s'. eh_release run sp h s = Done () s' \<and> counted s' (own(h := own h - 1))
    \<and> contexts s' = contexts s \<and> caught s' = caught s \<and> uncaught s' = uncaught s
    \<and> destroyed s' = (if own h = 1 then h # destroyed s else destroyed s)"
proof -
  obtain e where e: "exceptions s h = Some e" "ex_magic e = CPC_EH_MAGIC"
    "uint (ex_references e) = int (own h)" "h \<noteq> 0"
    by (rule countedD [OF assms(1,2)])
  have p: "uint (ex_references e - 1) = int (own h) - 1" using uint32_pred [of "ex_references e"] e(3) assms(2) by simp
  have z: "ex_references e - 1 = 0 \<longleftrightarrow> own h = 1"
    using p by (auto simp: word_uint_eq_iff)
  show ?thesis
  proof (cases "own h = 1")
    case False
    have "counted (s\<lparr>exceptions := (exceptions s)(h \<mapsto> e\<lparr>ex_references := ex_references e - 1\<rparr>)\<rparr>) (own(h := own h - 1))"
    proof -
      have "0 < own h - 1" "int (own h - 1) = int (own h) - 1" using assms(2) False by simp_all
      then show ?thesis using assms(1) e p by (auto simp: counted_def)
    qed
    then show ?thesis using e z False by (simp add: eh_release_def Let_def)
  next
    case True
    let ?e = "e\<lparr>ex_references := 0\<rparr>"
    let ?s = "s\<lparr>exceptions := (exceptions s)(h \<mapsto> ?e), boundary := sp\<rparr>"
    obtain b w where r: "(if ex_destructor e \<noteq> 0 then run (ex_destructor e) (ex_object e) ?s else Done () ?s)
        = Done () (?s\<lparr>boundary := b, words := w\<rparr>)"
    proof (cases "ex_destructor e = 0")
      case True
      then show ?thesis by (intro that [where b = sp and w = "words s"]) simp
    next
      case False
      obtain b w where "run (ex_destructor e) (ex_object e) ?s = Done () (?s\<lparr>boundary := b, words := w\<rparr>)"
        using assms(3) [unfolded quiet_def, rule_format, of "ex_destructor e" "ex_object e" ?s] by (elim exE)
      then show ?thesis using False by (intro that [where b = b and w = w]) simp
    qed
    let ?s' = "?s\<lparr>boundary := boundary s, words := w, exceptions := (exceptions s)(h := None), destroyed := h # destroyed s\<rparr>"
    have "eh_release run sp h s = eh_then (if ex_destructor e \<noteq> 0 then run (ex_destructor e) (ex_object e) ?s else Done () ?s)
       (\<lambda>_ s3. Done () (s3\<lparr>boundary := boundary s,
          exceptions := (exceptions s3)(h := None), destroyed := h # destroyed s3\<rparr>))"
      using e z True by (simp add: eh_release_def Let_def)
    then have "eh_release run sp h s = Done () ?s'" unfolding r by simp
    moreover have "counted ?s' (own(h := own h - 1))"
      using assms(1) True by (auto simp: counted_def)
    ultimately show ?thesis using True by auto
  qed
qed


lemma retain_counted:
  assumes "counted s own" and "0 < own h" and "own h + 1 < 4294967296"
  shows "\<exists>s'. eh_retain sp h s = Done () s' \<and> counted s' (own(h := own h + 1)) \<and> contexts s' = contexts s
    \<and> caught s' = caught s \<and> uncaught s' = uncaught s \<and> words s' = words s"
proof -
  obtain e where e: "exceptions s h = Some e" "ex_magic e = CPC_EH_MAGIC"
    "uint (ex_references e) = int (own h)" "h \<noteq> 0"
    by (rule countedD [OF assms(1,2)])
  then show ?thesis using counted_add [OF assms(1) e(1) assms(3)] by (simp add: eh_retain_def)
qed

lemma terminate_not_Done [simp]: "eh_terminate sp s \<noteq> Done a s'" "eh_terminate sp s \<noteq> Raised h s'"
  by (simp_all add: eh_terminate_def)

lemma terminate_exception_not_Done [simp]:
  "eh_terminate_exception sp cx h s \<noteq> Done a s'" "eh_terminate_exception sp cx h s \<noteq> Raised k s'"
  by (simp_all add: eh_terminate_exception_def split: option.split)

lemma has_handler_Done:
  "eh_has_handler sp cx h fs s = Done b s' \<Longrightarrow> s' = s"
  "eh_has_handler sp cx h fs s \<noteq> Raised k s'"
  by (induction sp cx h fs s rule: eh_has_handler.induct) (auto split: option.splits if_splits)

lemma raise_Raised:
  "eh_raise sp cx fs h s = Raised k s' \<Longrightarrow> k = h \<and> s' = s\<lparr>uncaught := uncaught s + 1\<rparr>"
  using has_handler_Done
  by (cases "eh_has_handler sp cx h fs (s\<lparr>uncaught := uncaught s + 1\<rparr>)")
    (auto simp: eh_raise_def split: if_splits)

section \<open>Programs and what they own\<close>

text \<open>
  A program that uses the runtime: the exceptions it has allocated and not thrown yet, those in
  flight, the handles it holds (\<open>exception_ptr\<close>), and the addresses of the catch contexts it is
  in, innermost first.  Each is one reference.
\<close>

record eh_program =
  pg_state :: eh_state
  pg_pending :: "u64 multiset"
  pg_flight :: "u64 multiset"
  pg_handles :: "u64 multiset"
  pg_stack :: "u64 list"

definition held :: "eh_state \<Rightarrow> u64 list \<Rightarrow> u64 \<Rightarrow> nat" where
  "held s stack h = length (filter (\<lambda>cx. cx_exception (contexts s cx) = h) stack)"

definition owners :: "eh_program \<Rightarrow> u64 \<Rightarrow> nat" where
  "owners p h = count (pg_pending p) h + count (pg_flight p) h + count (pg_handles p) h
     + held (pg_state p) (pg_stack p) h"

fun linked :: "(u64 \<Rightarrow> catch_context) \<Rightarrow> u64 \<Rightarrow> u64 list \<Rightarrow> bool" where
  "linked cs c [] \<longleftrightarrow> c = 0"
| "linked cs c (x # xs) \<longleftrightarrow> c = x \<and> x \<noteq> 0 \<and> x \<notin> set xs \<and> linked cs (cx_previous (cs x)) xs"

definition balanced :: "eh_program \<Rightarrow> bool" where
  "balanced p \<longleftrightarrow> counted (pg_state p) (owners p)
     \<and> uint (uncaught (pg_state p)) = int (size (pg_flight p))
     \<and> linked (contexts (pg_state p)) (caught (pg_state p)) (pg_stack p)"

lemma linked_cong:
  "\<forall>x\<in>set xs. cs' x = cs x \<Longrightarrow> linked cs' c xs = linked cs c xs"
  by (induction xs arbitrary: c) simp_all

lemma held_cong:
  "\<forall>x\<in>set stack. cx_exception (contexts s' x) = cx_exception (contexts s x) \<Longrightarrow>
     held s' stack h = held s stack h"
  by (induction stack) (simp_all add: held_def)

text \<open>One step of a program, for destructors \<open>run\<close>.\<close>

inductive eh_step :: "(u64 \<Rightarrow> u64 \<Rightarrow> eh_state \<Rightarrow> unit eh_run) \<Rightarrow> eh_program \<Rightarrow> eh_program \<Rightarrow> bool"
  for run where
  allocate: "\<lbrakk>eh_allocate sp (\<lambda>_. block) (Some t) al d (pg_state p) = Done object s';
      block \<noteq> 0; exceptions (pg_state p) block = None\<rbrakk> \<Longrightarrow>
    eh_step run p (p\<lparr>pg_state := s', pg_pending := add_mset block (pg_pending p)\<rparr>)"
| discard: "\<lbrakk>h \<in># pg_pending p; owners p h = 1; words (pg_state p) (object - 8) = h; object \<noteq> 0;
      eh_discard object (pg_state p) = Done () s'\<rbrakk> \<Longrightarrow>
    eh_step run p (p\<lparr>pg_state := s', pg_pending := pg_pending p - {#h#}\<rparr>)"
| throw: "\<lbrakk>h \<in># pg_pending p; words (pg_state p) (object - 8) = h; size (pg_flight p) + 1 < 4294967296;
      eh_throw sp cx frames object (pg_state p) = Raised k s'\<rbrakk> \<Longrightarrow>
    eh_step run p (p\<lparr>pg_state := s', pg_pending := pg_pending p - {#h#}, pg_flight := add_mset k (pg_flight p)\<rparr>)"
| catch: "\<lbrakk>h \<in># pg_flight p; cx \<notin> set (pg_stack p);
      handler_search sp tcx frame pc h f (pg_state p) = Done (UnwindTo landing) s1;
      s1 = (pg_state p)\<lparr>contexts := (contexts (pg_state p))(cx := ctx)\<rparr>; cx_exception ctx = h;
      eh_begin_catch sp cx s1 = Done a s'\<rbrakk> \<Longrightarrow>
    eh_step run p (p\<lparr>pg_state := s', pg_flight := pg_flight p - {#h#}, pg_stack := cx # pg_stack p\<rparr>)"
| end_catch: "\<lbrakk>pg_stack p = cx # rest; eh_end_catch run sp cx (pg_state p) = Done () s'\<rbrakk> \<Longrightarrow>
    eh_step run p (p\<lparr>pg_state := s', pg_stack := rest\<rparr>)"
| rethrow: "\<lbrakk>eh_rethrow sp cx frames (pg_state p) = Raised h s'; owners p h + 1 < 4294967296;
      size (pg_flight p) + 1 < 4294967296\<rbrakk> \<Longrightarrow>
    eh_step run p (p\<lparr>pg_state := s', pg_flight := add_mset h (pg_flight p)\<rparr>)"
| current: "\<lbrakk>eh_current_exception sp (pg_state p) = Done h s'; h \<noteq> 0; owners p h + 1 < 4294967296\<rbrakk> \<Longrightarrow>
    eh_step run p (p\<lparr>pg_state := s', pg_handles := add_mset h (pg_handles p)\<rparr>)"
| copy_handle: "\<lbrakk>h \<in># pg_handles p; eh_retain sp h (pg_state p) = Done () s'; owners p h + 1 < 4294967296\<rbrakk> \<Longrightarrow>
    eh_step run p (p\<lparr>pg_state := s', pg_handles := add_mset h (pg_handles p)\<rparr>)"
| drop_handle: "\<lbrakk>h \<in># pg_handles p; eh_release run sp h (pg_state p) = Done () s'\<rbrakk> \<Longrightarrow>
    eh_step run p (p\<lparr>pg_state := s', pg_handles := pg_handles p - {#h#}\<rparr>)"
| rethrow_handle: "\<lbrakk>h \<in># pg_handles p; eh_rethrow_exception sp cx frames h (pg_state p) = Raised k s';
      owners p h + 1 < 4294967296; size (pg_flight p) + 1 < 4294967296\<rbrakk> \<Longrightarrow>
    eh_step run p (p\<lparr>pg_state := s', pg_flight := add_mset k (pg_flight p)\<rparr>)"

inductive_cases eh_stepE: "eh_step run p p'"


section \<open>The counts stay right\<close>

lemma counted_cong: "exceptions s' = exceptions s \<Longrightarrow> counted s' own = counted s own"
  by (simp add: counted_def)

lemma owners_pos:
  "h \<in># pg_pending p \<or> h \<in># pg_flight p \<or> h \<in># pg_handles p \<Longrightarrow> 0 < owners p h"
  by (auto simp: owners_def)

lemma held_Cons: "held s (x # xs) h = (if cx_exception (contexts s x) = h then 1 else 0) + held s xs h"
  by (simp add: held_def)

lemma flight_Suc:
  "uint u = int (size F) \<Longrightarrow> size F + 1 < 4294967296 \<Longrightarrow> uint (u + 1 :: u32) = int (size (add_mset h F))"
  using uint32_Suc [of u] by simp

lemma flight_pred:
  "uint u = int (size F) \<Longrightarrow> h \<in># F \<Longrightarrow> uint (u - 1 :: u32) = int (size (F - {#h#}))"
  using uint32_pred [of u] size_Diff_singleton [of h F] by (cases "size F") auto

text \<open>Throwing again an exception that somebody owns.\<close>

lemma raise_balanced:
  assumes "balanced p" and "counted s1 ((owners p)(h := owners p h + 1))"
    and "contexts s1 = contexts (pg_state p)" and "caught s1 = caught (pg_state p)"
    and "uncaught s1 = uncaught (pg_state p)" and "size (pg_flight p) + 1 < 4294967296"
    and "eh_raise sp cx fs h s1 = Raised k s'"
  shows "balanced (p\<lparr>pg_state := s', pg_flight := add_mset k (pg_flight p)\<rparr>)"
proof -
  have s': "k = h" "s' = s1\<lparr>uncaught := uncaught s1 + 1\<rparr>" using raise_Raised [OF assms(7)] by simp_all
  have "owners (p\<lparr>pg_state := s', pg_flight := add_mset k (pg_flight p)\<rparr>) = (owners p)(h := owners p h + 1)"
    using assms(3) by (auto simp: owners_def held_def s')
  then show ?thesis
    using assms flight_Suc [of "uncaught (pg_state p)" "pg_flight p"] counted_cong [of s' s1]
    by (simp add: balanced_def s')
qed

lemma handle_balanced:
  assumes "balanced p" and "0 < owners p h" and "owners p h + 1 < 4294967296"
    and "eh_retain sp h (pg_state p) = Done () s'"
  shows "balanced (p\<lparr>pg_state := s', pg_handles := add_mset h (pg_handles p)\<rparr>)"
proof -
  have c: "counted (pg_state p) (owners p)" using assms(1) by (simp add: balanced_def)
  have s': "counted s' ((owners p)(h := owners p h + 1))" "contexts s' = contexts (pg_state p)"
    "caught s' = caught (pg_state p)" "uncaught s' = uncaught (pg_state p)"
    using retain_counted [OF c assms(2,3), of sp] assms(4) by auto
  have "owners (p\<lparr>pg_state := s', pg_handles := add_mset h (pg_handles p)\<rparr>) = (owners p)(h := owners p h + 1)"
    using s'(2) by (auto simp: owners_def held_def)
  then show ?thesis using assms(1) s' by (simp add: balanced_def)
qed

lemma allocate_Done:
  assumes "eh_allocate sp (\<lambda>_. block) (Some t) al d s = Done object s'"
  shows "\<exists>w e. s' = s\<lparr>exceptions := (exceptions s)(block \<mapsto> e), words := w\<rparr>
    \<and> ex_magic e = CPC_EH_MAGIC \<and> ex_references e = 1"
proof -
  let ?e = "\<lparr>ex_magic = CPC_EH_MAGIC, ex_references = 1, ex_type = t, ex_destructor = d, ex_object = object\<rparr>"
  have "s' = s\<lparr>exceptions := (exceptions s)(block \<mapsto> ?e), words := (words s)(object - 8 := block)\<rparr>"
    using assms by (auto simp: eh_allocate_def Let_def split: option.splits if_splits prod.splits)
  then show ?thesis by (intro exI [of _ "(words s)(object - 8 := block)"] exI [of _ ?e]) simp
qed

lemma allocate_balanced:
  assumes "balanced p" and "eh_allocate sp (\<lambda>_. block) (Some t) al d (pg_state p) = Done object s'"
    and "block \<noteq> 0" and "exceptions (pg_state p) block = None"
  shows "balanced (p\<lparr>pg_state := s', pg_pending := add_mset block (pg_pending p)\<rparr>)"
proof -
  obtain w e where s': "s' = (pg_state p)\<lparr>exceptions := (exceptions (pg_state p))(block \<mapsto> e), words := w\<rparr>"
    "ex_magic e = CPC_EH_MAGIC" "ex_references e = 1"
    using allocate_Done [OF assms(2)] by blast
  have c: "counted (pg_state p) (owners p)" using assms(1) by (simp add: balanced_def)
  then have z: "owners p block = 0" using assms(4) by (simp add: counted_def)
  have "owners (p\<lparr>pg_state := s', pg_pending := add_mset block (pg_pending p)\<rparr>) = (owners p)(block := 1)"
    using z by (auto simp: owners_def held_def s'(1))
  moreover have "counted s' ((owners p)(block := 1))"
    using c assms(3) s'(2,3) by (auto simp: counted_def s'(1))
  ultimately show ?thesis using assms(1) by (simp add: balanced_def s'(1))
qed

lemma discard_balanced:
  assumes "balanced p" and "h \<in># pg_pending p" and "owners p h = 1"
    and "words (pg_state p) (object - 8) = h" and "object \<noteq> 0"
    and "eh_discard object (pg_state p) = Done () s'"
  shows "balanced (p\<lparr>pg_state := s', pg_pending := pg_pending p - {#h#}\<rparr>)"
proof -
  have s': "s' = (pg_state p)\<lparr>exceptions := (exceptions (pg_state p))(h := None)\<rparr>"
    using assms(4-6) by (simp add: eh_discard_def Let_def split: if_splits)
  have c: "counted (pg_state p) (owners p)" using assms(1) by (simp add: balanced_def)
  have "0 < count (pg_pending p) h" using assms(2) by simp
  then have "count (pg_pending p) h = 1" using assms(3) unfolding owners_def by linarith
  then have "owners (p\<lparr>pg_state := s', pg_pending := pg_pending p - {#h#}\<rparr>) = (owners p)(h := 0)"
    using assms(3) by (auto simp: owners_def held_def s')
  moreover have "counted s' ((owners p)(h := 0))" using c by (auto simp: counted_def s')
  ultimately show ?thesis using assms(1) by (simp add: balanced_def s')
qed

lemma throw_balanced:
  assumes "balanced p" and "h \<in># pg_pending p" and "words (pg_state p) (object - 8) = h"
    and "size (pg_flight p) + 1 < 4294967296" and "eh_throw sp cx fs object (pg_state p) = Raised k s'"
  shows "balanced (p\<lparr>pg_state := s', pg_pending := pg_pending p - {#h#}, pg_flight := add_mset k (pg_flight p)\<rparr>)"
proof -
  have "(eh_raise sp cx fs h (pg_state p) :: unit eh_run) = Raised k s'"
    using assms(3,5) by (auto simp: eh_throw_def Let_def split: if_splits option.splits)
  then have s': "k = h" "s' = (pg_state p)\<lparr>uncaught := uncaught (pg_state p) + 1\<rparr>"
    using raise_Raised by blast+
  have "owners (p\<lparr>pg_state := s', pg_pending := pg_pending p - {#h#}, pg_flight := add_mset k (pg_flight p)\<rparr>) = owners p"
    using assms(2) by (auto simp: owners_def held_def s' fun_eq_iff)
  then show ?thesis
    using assms(1,4) flight_Suc [of "uncaught (pg_state p)" "pg_flight p"] counted_cong [of s' "pg_state p"]
    by (simp add: balanced_def s')
qed

lemma catch_balanced:
  assumes "balanced p" and "h \<in># pg_flight p" and "cx \<notin> set (pg_stack p)"
    and "s1 = (pg_state p)\<lparr>contexts := (contexts (pg_state p))(cx := ctx)\<rparr>" and "cx_exception ctx = h"
    and "eh_begin_catch sp cx s1 = Done a s'"
  shows "balanced (p\<lparr>pg_state := s', pg_flight := pg_flight p - {#h#}, pg_stack := cx # pg_stack p\<rparr>)"
proof -
  have s': "cx \<noteq> 0" "s' = (pg_state p)\<lparr>contexts := (contexts (pg_state p))(cx := ctx\<lparr>cx_previous := caught (pg_state p)\<rparr>),
      caught := cx, uncaught := uncaught (pg_state p) - 1\<rparr>"
    using assms(4,6) by (auto simp: eh_begin_catch_def split: if_splits)
  let ?p = "p\<lparr>pg_state := s', pg_flight := pg_flight p - {#h#}, pg_stack := cx # pg_stack p\<rparr>"
  have "held s' (pg_stack p) g = held (pg_state p) (pg_stack p) g" for g
    using assms(3) by (intro held_cong) (auto simp: s')
  then have "owners ?p = owners p"
    using assms(2,5) by (auto simp: owners_def held_Cons s' fun_eq_iff)
  moreover have "linked (contexts s') (caught s') (cx # pg_stack p)"
    using assms(1,3) s'(1) linked_cong [of "pg_stack p" "contexts s'" "contexts (pg_state p)"]
    by (auto simp: balanced_def s'(2))
  ultimately show ?thesis
    using assms(1) flight_pred [of "uncaught (pg_state p)", OF _ assms(2)] counted_cong [of s' "pg_state p"]
    by (simp add: balanced_def s'(2))
qed

lemma end_catch_balanced:
  assumes "balanced p" and "pg_stack p = cx # rest" and "quiet run"
    and "eh_end_catch run sp cx (pg_state p) = Done () s'"
  shows "balanced (p\<lparr>pg_state := s', pg_stack := rest\<rparr>)"
proof -
  let ?s = "pg_state p" and ?h = "cx_exception (contexts (pg_state p) cx)"
  let ?s1 = "?s\<lparr>caught := cx_previous (contexts ?s cx), contexts := (contexts ?s)(cx := (contexts ?s cx)\<lparr>cx_exception := 0\<rparr>)\<rparr>"
  have l: "cx \<noteq> 0" "caught ?s = cx" "cx \<notin> set rest" "linked (contexts ?s) (cx_previous (contexts ?s cx)) rest"
    using assms(1,2) by (auto simp: balanced_def)
  have c: "counted ?s1 (owners p)" using assms(1) counted_cong [of ?s1 ?s] by (simp add: balanced_def)
  have pos: "0 < owners p ?h" using assms(2) by (simp add: owners_def held_Cons)
  have "eh_release run sp ?h ?s1 = Done () s'"
    using assms(4) l(1,2) by (simp add: eh_end_catch_def Let_def)
  then have s': "counted s' ((owners p)(?h := owners p ?h - 1))" "contexts s' = contexts ?s1"
    "caught s' = caught ?s1" "uncaught s' = uncaught ?s"
    using release_counted [OF c pos assms(3), of sp] by auto
  have "held s' rest g = held ?s rest g" for g
    using l(3) by (intro held_cong) (auto simp: s'(2))
  then have "owners (p\<lparr>pg_state := s', pg_stack := rest\<rparr>) = (owners p)(?h := owners p ?h - 1)"
    using assms(2) by (auto simp: owners_def held_Cons fun_eq_iff)
  moreover have "linked (contexts s') (caught s') rest"
    using l(3,4) linked_cong [of rest "contexts s'" "contexts ?s"] by (auto simp: s'(2,3))
  ultimately show ?thesis using assms(1) s' by (simp add: balanced_def)
qed


lemma current_Done:
  assumes "eh_current_exception sp s = Done h s'" and "h \<noteq> 0"
  shows "caught s \<noteq> 0 \<and> h = cx_exception (contexts s (caught s)) \<and> eh_retain sp h s = Done () s'"
proof (cases "caught s = 0")
  case True
  then show ?thesis using assms by (simp add: eh_current_exception_def eh_retain_def)
next
  case False
  then show ?thesis using assms
    by (cases "eh_retain sp (cx_exception (contexts s (caught s))) s") (simp_all add: eh_current_exception_def)
qed

lemma eh_step_balanced:
  assumes "balanced p" and "quiet run" and "eh_step run p p'"
  shows "balanced p'"
  using assms(3)
proof cases
  case (allocate sp block t al d object s')
  then show ?thesis using allocate_balanced [OF assms(1)] by simp
next
  case (discard h object s')
  then show ?thesis using discard_balanced [OF assms(1)] by simp
next
  case (throw h object sp cx frames k s')
  then show ?thesis using throw_balanced [OF assms(1)] by simp
next
  case (catch h cx sp tcx frame pc f landing s1 ctx a s')
  then show ?thesis using catch_balanced [OF assms(1)] by simp
next
  case (end_catch cx rest sp s')
  then show ?thesis using end_catch_balanced [OF assms(1) _ assms(2)] by simp
next
  case (rethrow sp cx frames h s')
  let ?s = "pg_state p" and ?g = "cx_exception (contexts (pg_state p) (caught (pg_state p)))"
  have c: "counted ?s (owners p)" using assms(1) by (simp add: balanced_def)
  have n: "caught ?s \<noteq> 0" using rethrow(2) by (auto simp: eh_rethrow_def)
  then obtain e where e: "exceptions ?s ?g = Some e"
    "(eh_raise sp cx frames ?g (?s\<lparr>exceptions := (exceptions ?s)(?g \<mapsto> e\<lparr>ex_references := ex_references e + 1\<rparr>)\<rparr>) :: unit eh_run) = Raised h s'"
    using rethrow(2) by (auto simp: eh_rethrow_def Let_def split: option.splits)
  have "h = ?g" using raise_Raised [OF e(2)] by simp
  then show ?thesis
    using raise_balanced [OF assms(1) counted_add [OF c e(1)] _ _ _ rethrow(4) e(2)] rethrow(1,3) by simp
next
  case (current sp h s')
  let ?s = "pg_state p"
  note d = current_Done [OF current(2,3)]
  have l: "linked (contexts ?s) (caught ?s) (pg_stack p)" using assms(1) by (simp add: balanced_def)
  then obtain rest where "pg_stack p = caught ?s # rest" using d by (cases "pg_stack p") auto
  then have "0 < owners p h" using d by (simp add: owners_def held_Cons)
  from handle_balanced [OF assms(1) this current(4)] show ?thesis using d current(1) by blast
next
  case (copy_handle h sp s')
  then show ?thesis using handle_balanced [OF assms(1)] owners_pos by blast
next
  case (drop_handle h sp s')
  have c: "counted (pg_state p) (owners p)" using assms(1) by (simp add: balanced_def)
  have pos: "0 < owners p h" using drop_handle(2) owners_pos by blast
  have s': "counted s' ((owners p)(h := owners p h - 1))" "contexts s' = contexts (pg_state p)"
    "caught s' = caught (pg_state p)" "uncaught s' = uncaught (pg_state p)"
    using release_counted [OF c pos assms(2), of sp] drop_handle(3) by auto
  obtain n where "count (pg_handles p) h = Suc n"
    using drop_handle(2) count_greater_zero_iff [of "pg_handles p" h] gr0_conv_Suc by blast
  then have "owners (p\<lparr>pg_state := s', pg_handles := pg_handles p - {#h#}\<rparr>) = (owners p)(h := owners p h - 1)"
    using s'(2) by (auto simp: owners_def held_def fun_eq_iff)
  then show ?thesis using assms(1) s' drop_handle(1) by (simp add: balanced_def)
next
  case (rethrow_handle h sp cx frames k s')
  have c: "counted (pg_state p) (owners p)" using assms(1) by (simp add: balanced_def)
  have pos: "0 < owners p h" using rethrow_handle(2) owners_pos by blast
  obtain s1 where s1: "eh_retain sp h (pg_state p) = Done () s1" "counted s1 ((owners p)(h := owners p h + 1))"
    "contexts s1 = contexts (pg_state p)" "caught s1 = caught (pg_state p)" "uncaught s1 = uncaught (pg_state p)"
    using retain_counted [OF c pos rethrow_handle(4), of sp] by blast
  have "(eh_raise sp cx frames h s1 :: unit eh_run) = Raised k s'"
    using rethrow_handle(3) s1(1) by (auto simp: eh_rethrow_exception_def split: if_splits)
  then show ?thesis using raise_balanced [OF assms(1) s1(2-5) rethrow_handle(5)] rethrow_handle(1) by blast
qed


text \<open>Where a thread starts: no exception, no catch.\<close>

definition eh_start :: "(u64 \<Rightarrow> catch_context) \<Rightarrow> (u64 \<Rightarrow> u64) \<Rightarrow> (u64 \<Rightarrow> u32) \<Rightarrow> eh_program" where
  "eh_start cs ws fs =
     \<lparr>pg_state = \<lparr>exceptions = (\<lambda>_. None), contexts = cs, caught = 0, uncaught = 0, terminating = False,
        boundary = 0, words = ws, flags = fs, destroyed = []\<rparr>,
      pg_pending = {#}, pg_flight = {#}, pg_handles = {#}, pg_stack = []\<rparr>"

lemma start_balanced: "balanced (eh_start cs ws fs)"
  by (simp add: balanced_def eh_start_def counted_def owners_def held_def)

section \<open>Unwinding\<close>

text \<open>The cleanups from \<open>i\<close> up to \<open>stop\<close>, and running them one after the other.\<close>

inductive cleanup_path :: "eh_cleanup list \<Rightarrow> int \<Rightarrow> int \<Rightarrow> eh_cleanup list \<Rightarrow> bool" for cs stop where
  here: "cleanup_path cs stop stop []"
| up: "i \<noteq> stop \<Longrightarrow> 0 \<le> i \<Longrightarrow> nat i < length cs \<Longrightarrow> cleanup_path cs stop (cl_parent (cs ! nat i)) path \<Longrightarrow>
    cleanup_path cs stop i (cs ! nat i # path)"

fun run_all ::
  "(u64 \<Rightarrow> u64 \<Rightarrow> eh_state \<Rightarrow> unit eh_run) \<Rightarrow> u64 \<Rightarrow> u64 \<Rightarrow> eh_cleanup list \<Rightarrow> eh_state \<Rightarrow> unit eh_run" where
  "run_all run sp frame [] s = Done () s"
| "run_all run sp frame (a # as) s =
     eh_then (run_cleanup run sp frame a s) (\<lambda>_. run_all run sp frame as)"

lemma unwind_path:
  "cleanup_path cs stop i path \<Longrightarrow> unwind_loop run sp frame cs i stop s = Some (run_all run sp frame path s)"
proof (induction arbitrary: s rule: cleanup_path.induct)
  case here
  show ?case by (subst unwind_loop.simps) simp
next
  case (up i path)
  then show ?case
    by (subst unwind_loop.simps) (simp add: Let_def split: eh_run.split)
qed

definition parents_first :: "eh_cleanup list \<Rightarrow> bool" where
  "parents_first cs \<longleftrightarrow> (\<forall>i<length cs. -1 \<le> cl_parent (cs ! i) \<and> cl_parent (cs ! i) < int i)"

lemma path_exists:
  assumes "parents_first cs"
  shows "-1 \<le> i \<Longrightarrow> i < int (length cs) \<Longrightarrow> \<exists>path. cleanup_path cs (-1) i path"
proof (induction "nat (i + 1)" arbitrary: i rule: less_induct)
  case less
  show ?case
  proof (cases "i = -1")
    case True
    then show ?thesis using cleanup_path.here by blast
  next
    case False
    then have i: "0 \<le> i" "nat i < length cs" using less.prems by simp_all
    have b: "-1 \<le> cl_parent (cs ! nat i)" "cl_parent (cs ! nat i) < i"
      using assms i by (auto simp: parents_first_def)
    have "\<exists>path. cleanup_path cs (-1) (cl_parent (cs ! nat i)) path"
      using b i less.prems by (intro less.hyps) simp_all
    then show ?thesis using cleanup_path.up [OF False i] by blast
  qed
qed

lemma eh_then_Done: "eh_then m k = Done b s' \<longleftrightarrow> (\<exists>a s1. m = Done a s1 \<and> k a s1 = Done b s')"
  by (cases m) auto

lemma quiet_flags:
  assumes "quiet run" and "run f x s = Done u s'"
  shows "flags s' = flags s"
proof -
  obtain b w where "run f x s = Done () (s\<lparr>boundary := b, words := w\<rparr>)"
    using assms(1) [unfolded quiet_def, rule_format, of f x s] by (elim exE)
  then show ?thesis using assms(2) by auto
qed

lemma release_flags:
  assumes "quiet run" and "eh_release run sp h s = Done u s'"
  shows "flags s' = flags s"
  using assms(2) quiet_flags [OF assms(1)]
  by (auto simp: eh_release_def Let_def eh_then_Done split: if_splits option.splits)

lemma cleanup_flags:
  assumes "quiet run" and "run_cleanup run sp frame a s = Done u s'"
  shows "flags s' = (if cl_active a \<noteq> 0 then (flags s)(frame + cl_active a := 0) else flags s)"
proof (cases "cl_active a \<noteq> 0 \<and> flags s (frame + cl_active a) = 0")
  case True
  then show ?thesis using assms(2) by (auto simp: run_cleanup_def fun_upd_idem)
next
  case False
  then show ?thesis
    using assms(2) quiet_flags [OF assms(1)] release_flags [OF assms(1)]
    by (auto simp: run_cleanup_def Let_def eh_then_Done eh_end_catch_def split: if_splits)
qed

lemma run_all_flags:
  assumes "quiet run"
  shows "run_all run sp frame path s = Done u s' \<Longrightarrow>
    (\<forall>a\<in>set path. cl_active a \<noteq> 0 \<longrightarrow> flags s' (frame + cl_active a) = 0)
    \<and> (\<forall>x. flags s x = 0 \<longrightarrow> flags s' x = 0)"
proof (induction path arbitrary: s)
  case (Cons a path)
  obtain v s1 where "run_cleanup run sp frame a s = Done v s1" "run_all run sp frame path s1 = Done u s'"
    using Cons.prems by (auto simp: eh_then_Done)
  then show ?case using Cons.IH [of s1] cleanup_flags [OF assms] by fastforce
qed simp

section \<open>The layout of an exception\<close>

lemma layout_alignment:
  assumes "al AND (al - 1) = 0" and "8 \<le> (al :: u32)"
  obtains k where "uint al = 2 ^ k" "uint (ucast al :: u64) = 2 ^ k" "(ucast al :: u64) - 1 = mask k" "3 \<le> k" "k < 32"
proof -
  have "al \<noteq> 0" using assms(2) by auto
  then obtain k where k: "al = push_bit k 1" "k < LENGTH(32)" by (rule power_of_two [OF _ assms(1)])
  have k32: "k < 32" using k(2) by simp
  have u: "uint al = 2 ^ k" unfolding k(1) unsigned_push_bit_eq using k32 by (simp add: take_bit_of_exp)
  have uc: "uint (ucast al :: u64) = 2 ^ k" using u k32 by (simp add: unsigned_ucast_eq take_bit_of_exp)
  have "(ucast al :: u64) = push_bit k 1"
    using uc uint_shifted_1 [of k] k32 by (simp add: word_uint_eq_iff)
  then have m: "(ucast al :: u64) - 1 = mask k" by (simp add: mask_eq_exp_minus_1)
  have "(8 :: int) \<le> 2 ^ k" using assms(2) u by (simp add: word_le_def)
  then have "3 \<le> k" using power_less_imp_less_exp [of 2 3 k] power_strict_increasing [of k 3 "2 :: int"]
    by (cases "3 \<le> k") simp_all
  then show ?thesis using that u uc m k32 by blast
qed

end
