(* ===== verification/EhSpec.thy ===== *)
theory EhSpec imports EhFacts
begin

text \<open>
The properties of the exception runtime (\<open>runtime/windows/exception.c\<close>): how types are compared
and converted, which handler is selected, that every exception is destroyed when its last owner
goes, and that unwinding runs the cleanups on its way once. The witnesses run on a small thread
whose destructors and cleanups return at once.
\<close>

section \<open>A thread for the witnesses\<close>

definition no_contexts :: "u64 \<Rightarrow> catch_context" where
  "no_contexts = (\<lambda>_. \<lparr>cx_previous = 0, cx_exception = 0, cx_adjusted = At 0, cx_pointer = 0\<rparr>)"

definition calm :: "u64 \<Rightarrow> u64 \<Rightarrow> eh_state \<Rightarrow> unit eh_run" where
  "calm f x s = Done () s"

lemma quiet_calm: "quiet calm"
  unfolding quiet_def calm_def
  by (intro allI, rule_tac x = "boundary s" in exI, rule_tac x = "words s" in exI) simp

definition int_type :: eh_type where
  "int_type = EhType 16 ''int'' None [] 4 CPC_EH_SCALAR 0"

definition after_allocate :: eh_program where
  "after_allocate =
     (let p = eh_start no_contexts (\<lambda>_. 0) (\<lambda>_. 1) in
      p\<lparr>pg_state := (pg_state p)\<lparr>
           exceptions := [4096 \<mapsto> \<lparr>ex_magic = CPC_EH_MAGIC, ex_references = 1, ex_type = int_type,
             ex_destructor = 0, ex_object = 4136\<rparr>],
           words := (\<lambda>_. 0)(4128 := 4096)\<rparr>,
        pg_pending := {#4096#}\<rparr>)"

definition in_catch :: eh_program where
  "in_catch =
     (let s = pg_state after_allocate in
      after_allocate\<lparr>pg_pending := {#}, pg_stack := [64],
        pg_state := s\<lparr>caught := 64,
          contexts := no_contexts(64 := \<lparr>cx_previous = 0, cx_exception = 4096, cx_adjusted = At 4136, cx_pointer = 0\<rparr>)\<rparr>\<rparr>)"

lemma allocate_layout: "eh_layout 0 4 8 = Some (51, 40)" "eh_layout 4096 4 8 = Some (51, 4136)"
  by (simp_all add: eh_layout_def exception_size_def)

lemma allocates:
  "eh_step calm (eh_start no_contexts (\<lambda>_. 0) (\<lambda>_. 1)) after_allocate"
proof -
  let ?p = "eh_start no_contexts (\<lambda>_. 0) (\<lambda>_. 1)"
  have "eh_allocate 0 (\<lambda>_. 4096) (Some int_type) 8 0 (pg_state ?p) = Done 4136 (pg_state after_allocate)"
    by (simp add: eh_allocate_def int_type_def allocate_layout after_allocate_def eh_start_def Let_def)
  from eh_step.allocate [OF this] show ?thesis by (simp add: after_allocate_def Let_def eh_start_def)
qed

section \<open>Types and handlers\<close>

text \<open>Two type descriptors compare equal exactly when they agree in the qualifiers of every level below
  the top and in the kind and name of what the last pointer points to.\<close>

theorem same_type_decides:
  assumes "wf_type l" and "wf_type r" and "agree l r"
  shows "same_type (Some l) (Some r) = Some (spine l = spine r)"
  by (rule same_type_spine [OF assms])

theorem same_type_decides_witness:
  "same_type (Some (EhType 8 ''int*'' (Some (EhType 16 ''int'' None [] 4 0 0)) [] 8 2 0))
     (Some (EhType 24 ''int const*'' (Some (EhType 32 ''int'' None [] 4 0 1)) [] 8 2 0)) = Some False"
  using same_type_decides [of "EhType 8 ''int*'' (Some (EhType 16 ''int'' None [] 4 0 0)) [] 8 2 0"
      "EhType 24 ''int const*'' (Some (EhType 32 ''int'' None [] 4 0 1)) [] 8 2 0"]
  by (simp add: agree_def eh_kinds)

text \<open>C16: a pointer converts by qualification exactly as the language allows: the types below agree, no
  level loses a qualifier, and where a level below the first gains one every level above it
  is const in the target.\<close>

theorem qualification_rule:
  assumes "wf_type l" and "wf_type r" and "agree l r"
  shows "qualification (Some l) (Some r) True 1 = Some (snd (spine l) = snd (spine r)
    \<and> length (quals_at l) = length (quals_at r)
    \<and> (\<forall>i<length (quals_at l). quals_at l ! i AND NOT (quals_at r ! i) = 0
        \<and> (quals_at r ! i AND NOT (quals_at l ! i) \<noteq> 0 \<and> 0 < i \<longrightarrow>
             (\<forall>j<i. quals_at r ! j AND CPC_EH_CONST \<noteq> 0))))"
  using qualification_converts [OF assms, of True 0] by (simp add: converts_levels)

theorem qualification_rule_witness:
  "qualification (Some (EhType 8 ''int*'' (Some (EhType 16 ''int'' None [] 4 0 0)) [] 8 2 0))
     (Some (EhType 24 ''int const*'' (Some (EhType 32 ''int'' None [] 4 0 1)) [] 8 2 0)) True 1 = Some False"
  using qualification_rule [of "EhType 8 ''int*'' (Some (EhType 16 ''int'' None [] 4 0 0)) [] 8 2 0"
      "EhType 24 ''int const*'' (Some (EhType 32 ''int'' None [] 4 0 1)) [] 8 2 0"]
  by (simp add: agree_def eh_kinds quals_at_def CPC_EH_CONST_def All_less_Suc2)

text \<open>C15: the handler selected for a program counter is the first, in source order, of the innermost
  handlers that cover it and match the thrown object, and none is selected only when none does.\<close>

theorem select_innermost:
  assumes "wf_type source" and "\<forall>c\<in>set catches. \<forall>t\<in>set_option (ca_type c). wf_type t"
    and "nested pc catches"
  shows "\<exists>res. eh_select load catches pc source object = Some res
    \<and> selects (eh_matches load source object) pc catches res"
  using select_from_selects [of catches pc "eh_matches load source object" "[]" None] assms
    eh_matches_total [OF assms(1)]
  by (auto simp: eh_select_def selects_def)

theorem select_innermost_witness:
  "\<exists>res. eh_select (\<lambda>_. 0)
     [\<lparr>ca_begin = 0, ca_end = 10, ca_landing = 90, ca_type = None, ca_stop = -1, ca_context = 0\<rparr>,
      \<lparr>ca_begin = 2, ca_end = 5, ca_landing = 95, ca_type = Some (EhType 8 ''int'' None [] 4 0 0), ca_stop = -1, ca_context = 0\<rparr>]
     3 (EhType 16 ''int'' None [] 4 0 0) 4096 = Some res"
  using select_innermost [of "EhType 16 ''int'' None [] 4 0 0"
     "[\<lparr>ca_begin = 0, ca_end = 10, ca_landing = 90, ca_type = None, ca_stop = -1, ca_context = 0\<rparr>,
      \<lparr>ca_begin = 2, ca_end = 5, ca_landing = 95, ca_type = Some (EhType 8 ''int'' None [] 4 0 0), ca_stop = -1, ca_context = 0\<rparr>]"
     3 "\<lambda>_. 0" 4096]
  by (simp add: eh_kinds nested_def protects_def encloses_def) blast

section \<open>Ownership\<close>

text \<open>C12: however a thread allocates, throws, catches, rethrows and holds handles, the count of every
  exception is the number of its owners, and an exception exists exactly while it has one.\<close>

theorem exceptions_live_while_owned:
  assumes "quiet run" and "(eh_step run)\<^sup>*\<^sup>* (eh_start cs ws fs) p"
  shows "(exceptions (pg_state p) h \<noteq> None \<longleftrightarrow> 0 < owners p h)
    \<and> (\<forall>e. exceptions (pg_state p) h = Some e \<longrightarrow> uint (ex_references e) = int (owners p h))
    \<and> uint (uncaught (pg_state p)) = int (size (pg_flight p))"
proof -
  have "balanced p" using assms(2)
    by (induction rule: rtranclp_induct) (auto intro: start_balanced eh_step_balanced [OF _ assms(1)])
  then show ?thesis by (cases "exceptions (pg_state p) h") (auto simp: balanced_def counted_def)
qed

theorem exceptions_live_while_owned_witness:
  "exceptions (pg_state after_allocate) 4096 \<noteq> None \<and> 0 < owners after_allocate 4096"
proof -
  have "exceptions (pg_state after_allocate) 4096 \<noteq> None" by (simp add: after_allocate_def Let_def)
  moreover have "(eh_step calm)\<^sup>*\<^sup>* (eh_start no_contexts (\<lambda>_. 0) (\<lambda>_. 1)) after_allocate"
    using allocates by (rule r_into_rtranclp)
  ultimately show ?thesis using exceptions_live_while_owned [OF quiet_calm] by blast
qed

text \<open>C13: in a balanced thread \<open>__cpc_eh_end_catch\<close> of the innermost catch never terminates the program;
  it restores the enclosing catch and destroys the exception exactly when this was its last owner.\<close>

theorem end_catch_releases:
  assumes "balanced p" and "quiet run" and "pg_stack p = cx # rest"
    and "h = cx_exception (contexts (pg_state p) cx)"
  shows "\<exists>s'. eh_end_catch run sp cx (pg_state p) = Done () s'
    \<and> caught s' = (case rest of [] \<Rightarrow> 0 | c # _ \<Rightarrow> c)
    \<and> (exceptions s' h = None \<longleftrightarrow> owners p h = 1)
    \<and> destroyed s' = (if owners p h = 1 then h # destroyed (pg_state p) else destroyed (pg_state p))"
proof -
  let ?s = "pg_state p"
  let ?s1 = "?s\<lparr>caught := cx_previous (contexts ?s cx), contexts := (contexts ?s)(cx := (contexts ?s cx)\<lparr>cx_exception := 0\<rparr>)\<rparr>"
  have l: "cx \<noteq> 0" "caught ?s = cx" "linked (contexts ?s) (cx_previous (contexts ?s cx)) rest"
    using assms(1,3) by (auto simp: balanced_def)
  have c: "counted ?s1 (owners p)" using assms(1) counted_cong [of ?s1 ?s] by (simp add: balanced_def)
  have pos: "0 < owners p h" using assms(3,4) by (simp add: owners_def held_Cons)
  obtain s' where s': "eh_release run sp h ?s1 = Done () s'" "counted s' ((owners p)(h := owners p h - 1))"
    "caught s' = caught ?s1" "destroyed s' = (if owners p h = 1 then h # destroyed ?s1 else destroyed ?s1)"
    using release_counted [OF c pos assms(2), of sp] by blast
  have "exceptions s' h = None \<longleftrightarrow> owners p h - 1 = 0"
    using counted_None [OF s'(2), of h] by simp
  moreover have "cx_previous (contexts ?s cx) = (case rest of [] \<Rightarrow> 0 | c # _ \<Rightarrow> c)"
    using l(3) by (cases rest) simp_all
  ultimately show ?thesis using s' l(1,2) assms(4) pos
    by (intro exI [of _ s']) (auto simp: eh_end_catch_def Let_def)
qed

theorem end_catch_releases_witness:
  "\<exists>s'. eh_end_catch calm 0 64 (pg_state in_catch) = Done () s' \<and> exceptions s' 4096 = None"
proof -
  have o: "owners in_catch = (\<lambda>h. if h = 4096 then 1 else 0)"
    by (auto simp: owners_def held_def in_catch_def after_allocate_def eh_start_def Let_def)
  have "balanced in_catch"
    unfolding balanced_def o
    by (auto simp: counted_def in_catch_def after_allocate_def eh_start_def Let_def)
  moreover have "pg_stack in_catch = [64]" by (simp add: in_catch_def Let_def)
  moreover have "4096 = cx_exception (contexts (pg_state in_catch) 64)" by (simp add: in_catch_def Let_def)
  moreover have "owners in_catch 4096 = 1" by (simp add: o)
  ultimately show ?thesis using end_catch_releases [OF _ quiet_calm, of in_catch 64 "[]" 4096 0] by metis
qed

section \<open>Unwinding and layout\<close>



text \<open>The storage of a thrown object lies inside the block \<open>__cpc_eh_allocate\<close> asks for, has the
  alignment asked for (at least that of a pointer), and leaves room in front of it for the
  exception's header and the pointer back to it.\<close>

theorem layout_fits:
  assumes "eh_layout block sz alignment = Some (bytes, storage)"
    and "uint block + uint bytes < 2 ^ 64"
  shows "uint block + 32 \<le> uint storage - 8 \<and> uint storage + uint sz \<le> uint block + uint bytes
    \<and> max 8 (uint alignment) dvd uint storage"
proof -
  let ?al = "if alignment < 8 then 8 else alignment"
  let ?p = "uint (ucast ?al :: u64)"
  have l: "?al AND (?al - 1) = 0" "\<not> ucast sz > - 1 - (exception_size + 8) - (ucast ?al :: u64)"
    "bytes = exception_size + 8 + ucast ?al - 1 + ucast sz"
    "storage = (block + (exception_size + 8) + ucast ?al - 1) AND NOT (ucast ?al - 1)"
    using assms(1) by (simp_all add: eh_layout_def Let_def split: if_splits)
  obtain k where k: "uint ?al = 2 ^ k" "?p = 2 ^ k" "(ucast ?al :: u64) - 1 = mask k" "3 \<le> k" "k < 32"
    by (rule layout_alignment [OF l(1)]) auto
  define a :: u64 where "a = ucast ?al"
  define n :: u64 where "n = ucast sz"
  define A where "A = (2 :: int) ^ k"
  have a: "uint a = A" "a - 1 = mask k" using k(2,3) by (simp_all add: a_def A_def)
  have A: "8 \<le> A" "A < 4294967296"
    using k(4,5) power_increasing [of 3 k "2 :: int"] power_strict_increasing [of k 32 "2 :: int"]
    by (simp_all add: A_def)
  have nb: "0 \<le> uint n" "uint n < 4294967296" and ns: "uint n = uint sz"
    using uint32_less [of sz] by (simp_all add: n_def unsigned_ucast_eq take_bit_int_eq_self uint64_less)
  have h: "uint (exception_size + 8) = 40" by (simp add: exception_size_def)
  have a1: "uint (a - 1) = A - 1" using a(1) A by (simp add: uint64_minus_cases)
  then have "uint (exception_size + 8 + (a - 1)) = 39 + A" using h A by (subst uint64_plus_small) simp_all
  then have "uint (exception_size + 8 + (a - 1) + n) = 39 + A + uint n"
    using A nb by (subst uint64_plus_small) simp_all
  moreover have "bytes = exception_size + 8 + (a - 1) + n"
    unfolding l(3) a_def [symmetric] n_def [symmetric] by (simp add: algebra_simps)
  ultimately have bytes: "uint bytes = 39 + A + uint n" by simp
  have bb: "0 \<le> uint block" "uint block + 39 + A + uint n < 18446744073709551616"
    using assms(2) bytes by simp_all
  have bc: "uint block + 39 + A < 18446744073709551616" using bb nb by linarith
  have "uint (block + (exception_size + 8)) = uint block + 40"
    using h bc A by (subst uint64_plus_small) simp_all
  then have "uint (block + (exception_size + 8) + (a - 1)) = uint block + 39 + A"
    using a1 bc A by (subst uint64_plus_small) simp_all
  then have X: "uint (block + (exception_size + 8) + a - 1) = uint block + 39 + A"
    by (simp add: algebra_simps)
  let ?X = "uint block + 39 + A"
  have st: "uint storage = ?X - ?X mod A"
    unfolding l(4) a_def [symmetric] using X by (simp add: a(2) round_down A_def)
  have md: "0 \<le> ?X mod A" "?X mod A < A" using A by simp_all
  have "A dvd uint storage" unfolding st by (rule dvd_minus_mod)
  moreover have "max 8 (uint alignment) = A"
    using k(1) by (auto simp: A_def max_def word_less_def split: if_splits)
  moreover have "uint block + 32 \<le> uint storage - 8" using st md by linarith
  moreover have "uint storage + uint sz \<le> uint block + uint bytes" using st md bytes ns by linarith
  ultimately show ?thesis by simp
qed

theorem layout_fits_witness:
  "\<exists>storage. eh_layout 4096 4 8 = Some (51, storage) \<and> 8 dvd uint storage"
  using layout_fits [of 4096 4 8 51 "(4096 + 47) AND NOT 7"] by (simp add: allocate_layout)

end
