(* ===== verification/ElfSection.thy ===== *)
theory ElfSection imports Prelude
begin

text \<open>
  The sections of an output file: \<open>section_realloc\<close>, \<open>section_add\<close> and \<open>section_ptr_add\<close> of
  \<^verbatim>\<open>src/src/compiler/middleend/cprimeelf.c\<close>.  \<open>unsigned long\<close> has 32 bits on the target, so
  \<open>data_offset\<close> and \<open>data_allocated\<close> are 32-bit words while the sizes asked for have 64 bits.
  Growing is a loop that need not end: \<open>None\<close>.  The allocator of the host answers memory or stops
  the compiler, so it is not modelled.
\<close>

section \<open>Growing a section\<close>

text \<open>\<open>sec_data\<close> is the allocated memory: its length is \<open>data_allocated\<close>, the first
  \<open>data_offset\<close> bytes are in use.\<close>

record elf_section =
  sec_data :: "u8 list"
  data_offset :: u32
  sh_nobits :: bool
  sh_addralign :: int

definition data_allocated :: "elf_section \<Rightarrow> u32" where
  "data_allocated sec = of_nat (length (sec_data sec))"

partial_function (option) double_until :: "u32 \<Rightarrow> u32 \<Rightarrow> u32 option" where
  "double_until cap new_size =
     (if cap < new_size then double_until (cap * 2) new_size else Some cap)"

definition section_realloc :: "elf_section \<Rightarrow> u32 \<Rightarrow> elf_section option" where
  "section_realloc sec new_size =
     (case double_until (if data_allocated sec = 0 then 1 else data_allocated sec) new_size of
        None \<Rightarrow> None
      | Some grown \<Rightarrow>
          Some (sec\<lparr>sec_data := sec_data sec @ replicate (unat (grown - data_allocated sec)) 0\<rparr>))"

definition section_add :: "elf_section \<Rightarrow> u64 \<Rightarrow> int \<Rightarrow> (u64 \<times> elf_section) option" where
  "section_add sec sz align =
     (let offset = ucast ((data_offset sec + of_int align - 1) AND - of_int align);
          offset1 = offset + sz
      in case (if \<not> sh_nobits sec \<and> offset1 > ucast (data_allocated sec)
               then section_realloc sec (ucast offset1) else Some sec) of
           None \<Rightarrow> None
         | Some sec1 \<Rightarrow>
             let sec2 = sec1\<lparr>data_offset := ucast offset1\<rparr>
             in Some (offset, if align > sh_addralign sec2 then sec2\<lparr>sh_addralign := align\<rparr> else sec2))"

definition section_ptr_add :: "elf_section \<Rightarrow> u64 \<Rightarrow> (u64 \<times> elf_section) option" where
  "section_ptr_add sec sz = section_add sec sz 1"

section \<open>Facts\<close>

lemma double_until_ends:
  assumes "unat c = 2 ^ k" and "k \<le> 31" and "unat n \<le> 2 ^ 31"
  shows "\<exists>m j. double_until c n = Some m \<and> unat m = 2 ^ j \<and> j \<le> 31 \<and> n \<le> m \<and> c \<le> m"
  using assms
proof (induction "31 - k" arbitrary: k c)
  case 0
  then have "k = 31" by simp
  then have "n \<le> c" using 0 by (simp add: word_le_nat_alt)
  then show ?case using 0 \<open>k = 31\<close>
    by (subst double_until.simps) (auto simp: not_less intro: exI [of _ "31 :: nat"])
next
  case (Suc d)
  show ?case
  proof (cases "c < n")
    case False
    then show ?thesis using Suc.prems by (subst double_until.simps) (auto simp: not_less)
  next
    case True
    have k: "k < 31" using Suc by simp
    then have "(2::nat) ^ k * 2 < 2 ^ 32"
      using power_strict_increasing [of "k + 1" 32 "2 :: nat"] by simp
    then have u: "unat (c * 2) = 2 ^ (k + 1)"
      using Suc.prems by (simp add: unat_word_ariths)
    then obtain m j where "double_until (c * 2) n = Some m" "unat m = 2 ^ j" "j \<le> 31" "n \<le> m" "c * 2 \<le> m"
    proof -
      have "d = 31 - (k + 1)" "k + 1 \<le> 31" using Suc.hyps(2) k by simp_all
      then show ?thesis using Suc.hyps(1) [OF _ u _ Suc.prems(3)] that by blast
    qed
    moreover have "c \<le> c * 2" using u Suc.prems by (simp add: word_le_nat_alt)
    ultimately show ?thesis using True by (subst double_until.simps) fastforce
  qed
qed

lemma double_until_bounded:
  assumes "double_until c n = Some m" and "c = 0 \<or> (\<exists>k. unat c = 2 ^ k)"
  shows "unat n \<le> 2 ^ 31"
proof -
  have "(c = 0 \<or> (\<exists>k. unat c = 2 ^ k)) \<longrightarrow> unat n \<le> 2 ^ 31"
  proof (rule double_until.raw_induct [OF _ assms(1)])
    fix f :: "u32 \<Rightarrow> u32 \<Rightarrow> u32 option" and c n m :: u32
    assume IH: "\<And>c n m. f c n = Some m \<Longrightarrow> (c = 0 \<or> (\<exists>k. unat c = 2 ^ k)) \<longrightarrow> unat n \<le> 2 ^ 31"
      and e: "(if c < n then f (c * 2) n else Some c) = Some m"
    show "(c = 0 \<or> (\<exists>k. unat c = 2 ^ k)) \<longrightarrow> unat n \<le> 2 ^ 31"
    proof
      assume c: "c = 0 \<or> (\<exists>k. unat c = 2 ^ k)"
      have le: "2 ^ k < (2::nat) ^ 32 \<Longrightarrow> k \<le> 31" for k
        by (subst (asm) power_strict_increasing_iff) simp_all
      show "unat n \<le> 2 ^ 31"
      proof (cases "c < n")
        case False
        have "unat c \<le> 2 ^ 31"
        proof (cases "c = 0")
          case False
          then obtain k where k: "unat c = 2 ^ k" using c by blast
          then have "k \<le> 31" using unat32_less [of c] by (intro le) simp
          then show ?thesis using k power_increasing [of k 31 "2::nat"] by simp
        qed simp
        then show ?thesis using False by (simp add: not_less word_le_nat_alt)
      next
        case True
        have "c * 2 = 0 \<or> (\<exists>k. unat (c * 2) = 2 ^ k)"
        proof (cases "c = 0")
          case False
          then obtain k where k: "unat c = 2 ^ k" using c by blast
          show ?thesis
          proof (cases "k = 31")
            case True
            then have "unat (c * 2) = 0" using k by (simp add: unat_word_ariths)
            then show ?thesis by (simp add: unat_eq_0)
          next
            case False
            have "k \<le> 31" using k unat32_less [of c] by (intro le) simp
            then have "(2::nat) ^ k * 2 < 2 ^ 32" using False power_strict_increasing [of "k + 1" 32 "2 :: nat"] by simp
            then have "unat (c * 2) = 2 ^ (k + 1)" using k by (simp add: unat_word_ariths)
            then show ?thesis by blast
          qed
        qed simp
        then show ?thesis using IH [of "c * 2" n m] e True by simp
      qed
    qed
  qed
  then show ?thesis using assms(2) by blast
qed

section \<open>Well-formed sections\<close>

text \<open>The memory of a section has a size that \<open>section_realloc\<close> gave it, and contains what is in use.\<close>

definition valid_section :: "elf_section \<Rightarrow> bool" where
  "valid_section sec \<longleftrightarrow> \<not> sh_nobits sec \<and> unat (data_offset sec) \<le> length (sec_data sec)
     \<and> (sec_data sec = [] \<or> (\<exists>k\<le>31. length (sec_data sec) = 2 ^ k))"

lemma data_allocated_unat:
  assumes "valid_section sec" shows "unat (data_allocated sec) = length (sec_data sec)"
proof -
  have "length (sec_data sec) < 2 ^ 32"
    using assms power_strict_increasing [of _ 32 "2 :: nat"]
    by (auto simp: valid_section_def le_less_trans)
  then show ?thesis by (simp add: data_allocated_def unat_of_nat)
qed

lemma section_realloc_grows:
  assumes "valid_section sec" and "unat n \<le> 2 ^ 31"
  obtains sec' j where "section_realloc sec n = Some sec'"
    "length (sec_data sec') = 2 ^ j" "j \<le> 31" "unat n \<le> length (sec_data sec')"
    "take (length (sec_data sec)) (sec_data sec') = sec_data sec"
    "data_offset sec' = data_offset sec" "sh_nobits sec' = sh_nobits sec" "length (sec_data sec) \<le> length (sec_data sec')"
proof -
  let ?c = "if data_allocated sec = 0 then 1 else data_allocated sec"
  obtain k where k: "unat ?c = 2 ^ k" "k \<le> 31"
  proof (cases "sec_data sec = []")
    case True then show ?thesis using that [of 0] by (simp add: data_allocated_def)
  next
    case False
    then obtain k where k: "k \<le> 31" "length (sec_data sec) = 2 ^ k" using assms(1) by (auto simp: valid_section_def)
    then have "data_allocated sec \<noteq> 0" using data_allocated_unat [OF assms(1)] by force
    then show ?thesis using k that data_allocated_unat [OF assms(1)] by simp
  qed
  obtain m j where m: "double_until ?c n = Some m" "unat m = 2 ^ j" "j \<le> 31" "n \<le> m" "?c \<le> m"
    using double_until_ends [OF k assms(2)] by blast
  have le: "data_allocated sec \<le> m" using m(5) by (auto split: if_splits)
  then have s: "unat (m - data_allocated sec) = 2 ^ j - length (sec_data sec)"
    "length (sec_data sec) \<le> 2 ^ j"
    using m(2) data_allocated_unat [OF assms(1)] by (simp_all add: unat_sub word_le_nat_alt)
  show ?thesis
    by (rule that [of "sec\<lparr>sec_data := sec_data sec @ replicate (unat (m - data_allocated sec)) 0\<rparr>" j])
      (use m s in \<open>auto simp: section_realloc_def word_le_nat_alt\<close>)
qed

lemma aligned_offset:
  assumes "uint d + 2 ^ a \<le> 2 ^ 32" and "a < 31"
  defines "off \<equiv> (d + of_int (2 ^ a) - 1) AND - of_int (2 ^ a) :: u32"
  shows "2 ^ a dvd uint off" "uint d \<le> uint off" "uint off < uint d + 2 ^ a"
proof -
  have m: "- of_int (2 ^ a) = NOT (mask a :: u32)" by (simp add: mask_eq_exp_minus_1 minus_eq_not_minus_1)
  have lt: "(2::int) ^ a < 2 ^ 32" using power_strict_increasing [of a 32 "2::int"] assms(2) by simp
  have "uint (of_int (2 ^ a) - 1 :: u32) = 2 ^ a - 1"
  proof -
    have "uint (of_int (2 ^ a) :: u32) = 2 ^ a" using lt by (simp add: uint_word_of_int del: of_int_power)
    then show ?thesis using lt by (simp add: uint_word_ariths del: of_int_power)
  qed
  then have x: "uint (d + of_int (2 ^ a) - 1) = uint d + 2 ^ a - 1"
    using assms(1) by (simp add: add_diff_eq [symmetric] uint_add_lem [THEN iffD1])
  have o: "uint off = uint d + 2 ^ a - 1 - (uint d + 2 ^ a - 1) mod 2 ^ a"
    unfolding off_def m round_down x by simp
  show "2 ^ a dvd uint off" unfolding o by (rule dvd_minus_mod)
  have "0 \<le> (uint d + 2 ^ a - 1) mod 2 ^ a" "(uint d + 2 ^ a - 1) mod 2 ^ a < 2 ^ a" by simp_all
  then show "uint d \<le> uint off" "uint off < uint d + 2 ^ a" unfolding o by linarith+
qed

lemma section_add_reserves:
  assumes "valid_section sec" and "a < 31" and "uint (data_offset sec) + 2 ^ a + uint sz \<le> 2 ^ 31"
  shows "\<exists>off sec'. section_add sec sz (2 ^ a) = Some (off, sec') \<and> 2 ^ a dvd uint off
    \<and> uint (data_offset sec) \<le> uint off \<and> uint off < uint (data_offset sec) + 2 ^ a
    \<and> uint (data_offset sec') = uint off + uint sz
    \<and> take (length (sec_data sec)) (sec_data sec') = sec_data sec \<and> valid_section sec'"
proof -
  define off32 where "off32 = (data_offset sec + of_int (2 ^ a) - 1) AND - of_int (2 ^ a)"
  define off :: u64 where "off = ucast off32"
  have z: "0 \<le> uint sz" by simp
  have "uint (data_offset sec) + 2 ^ a \<le> 2 ^ 32"
  proof -
    have "(2 :: int) ^ 31 \<le> 2 ^ 32" by simp
    then show ?thesis using z assms(3) by linarith
  qed
  then have o: "2 ^ a dvd uint off32" "uint (data_offset sec) \<le> uint off32" "uint off32 < uint (data_offset sec) + 2 ^ a"
    unfolding off32_def by (rule aligned_offset [OF _ assms(2)])+
  have u: "uint off = uint off32" unfolding off_def by (rule uint_ucast_u32)
  have b: "uint off + uint sz \<le> 2 ^ 31" using o u assms(3) by linarith
  have s: "uint (off + sz) = uint off + uint sz" using b by (subst uint64_plus_small) simp_all
  have c: "uint (ucast (off + sz) :: u32) = uint off + uint sz"
    using b s by (simp add: unsigned_ucast_eq take_bit_int_eq_self)
  have n: "unat (ucast (off + sz) :: u32) \<le> 2 ^ 31" using b c by (simp add: unat_eq_nat_uint)
  have ac: "uint (ucast (data_allocated sec) :: u64) = int (length (sec_data sec))"
  proof -
    have "uint (data_allocated sec) = int (length (sec_data sec))"
      using data_allocated_unat [OF assms(1)] uint_nat [of "data_allocated sec"] by metis
    then show ?thesis unfolding uint_ucast_u32 .
  qed
  have "\<exists>sec1. (if \<not> sh_nobits sec \<and> off + sz > ucast (data_allocated sec)
               then section_realloc sec (ucast (off + sz)) else Some sec) = Some sec1
      \<and> take (length (sec_data sec)) (sec_data sec1) = sec_data sec
      \<and> valid_section (sec1\<lparr>data_offset := ucast (off + sz)\<rparr>)"
  proof (cases "off + sz > ucast (data_allocated sec)")
    case True
    obtain sec' j where "section_realloc sec (ucast (off + sz)) = Some sec'"
      "length (sec_data sec') = 2 ^ j" "j \<le> 31" "unat (ucast (off + sz) :: u32) \<le> length (sec_data sec')"
      "take (length (sec_data sec)) (sec_data sec') = sec_data sec" "sh_nobits sec' = sh_nobits sec"
      using section_realloc_grows [OF assms(1) n] by metis
    then show ?thesis using True assms(1) by (auto simp: valid_section_def)
  next
    case False
    then have "uint (ucast (off + sz) :: u32) \<le> int (length (sec_data sec))"
      using ac s c unfolding word_less_def not_less by linarith
    then have "unat (ucast (off + sz) :: u32) \<le> length (sec_data sec)"
      unfolding unat_eq_nat_uint by (rule nat_le_iff [THEN iffD2])
    then show ?thesis using False assms(1) by (auto simp: valid_section_def)
  qed
  then obtain sec1 where r: "(if \<not> sh_nobits sec \<and> off + sz > ucast (data_allocated sec)
               then section_realloc sec (ucast (off + sz)) else Some sec) = Some sec1"
    "take (length (sec_data sec)) (sec_data sec1) = sec_data sec"
    "valid_section (sec1\<lparr>data_offset := ucast (off + sz)\<rparr>)" by blast
  let ?sec2 = "sec1\<lparr>data_offset := ucast (off + sz)\<rparr>"
  have "section_add sec sz (2 ^ a) = Some (off, if 2 ^ a > sh_addralign ?sec2 then ?sec2\<lparr>sh_addralign := 2 ^ a\<rparr> else ?sec2)"
    unfolding section_add_def Let_def off32_def [symmetric] off_def [symmetric] r(1) option.case
    by (rule refl)
  moreover define sec' where "sec' = (if 2 ^ a > sh_addralign ?sec2 then ?sec2\<lparr>sh_addralign := 2 ^ a\<rparr> else ?sec2)"
  moreover have "valid_section sec'" "uint (data_offset sec') = uint off + uint sz"
    "take (length (sec_data sec)) (sec_data sec') = sec_data sec"
    using r(2,3) c unfolding sec'_def by (simp_all add: valid_section_def)
  ultimately show ?thesis using o [folded u] by (intro exI [of _ off] exI [of _ sec'] conjI) simp_all
qed

end
