(* ===== verification/ElfSymbols.thy ===== *)
theory ElfSymbols imports Prelude
begin

text \<open>
  The symbol table of the linker: \<open>put_elf_str\<close>, \<open>elf_hash\<close>, \<open>rebuild_hash\<close>, \<open>put_elf_sym\<close>,
  \<open>find_elf_sym\<close> and \<open>set_elf_sym\<close> of \<^verbatim>\<open>src/src/compiler/middleend/cprimeelf.c\<close> as built for
  Windows, for the tables other than \<open>dynsymtab_section\<close> (whose failed lookups ask the import
  definitions).  The locale \<open>symbol_index\<close> is what adding a definition relies on; it is interpreted on
  the hash table of the code.  Names are lists of bytes other than 0; indices and string offsets are
  natural numbers (the code keeps them in an \<open>int\<close>).
\<close>

section \<open>Symbols\<close>

text \<open>The names of the sections' fields follow \<open>Obj64_Sym\<close>; \<open>st_name\<close> is an offset into the
  string table.\<close>

record elf_sym =
  st_name :: nat
  st_info :: u8
  st_other :: u8
  st_shndx :: u16
  st_value :: u64
  st_size :: u64

definition ST_BIND :: "u32 \<Rightarrow> u32" where "ST_BIND val = drop_bit 4 (ucast (ucast val :: u8))"
definition ST_TYPE :: "u32 \<Rightarrow> u32" where "ST_TYPE val = val AND 0xf"
definition ST_INFO :: "u32 \<Rightarrow> u32 \<Rightarrow> u32" where "ST_INFO b ty = push_bit 4 b + (ty AND 0xf)"
definition ST_VISIBILITY :: "u32 \<Rightarrow> u32" where "ST_VISIBILITY other = other AND 3"

definition STB_LOCAL :: u32 where "STB_LOCAL = 0"
definition STB_GLOBAL :: u32 where "STB_GLOBAL = 1"
definition STB_WEAK :: u32 where "STB_WEAK = 2"
definition STV_DEFAULT :: u32 where "STV_DEFAULT = 0"
definition STV_INTERNAL :: u32 where "STV_INTERNAL = 1"
definition STV_HIDDEN :: u32 where "STV_HIDDEN = 2"
definition SHN_UNDEF :: u32 where "SHN_UNDEF = 0"
definition SHN_LORESERVE :: u32 where "SHN_LORESERVE = 0xff00"
definition SHN_COMMON :: u32 where "SHN_COMMON = 0xfff2"
definition ST_ASM_SET :: u8 where "ST_ASM_SET = 4"

abbreviation bind_of :: "elf_sym \<Rightarrow> u32" where "bind_of e \<equiv> ST_BIND (ucast (st_info e))"

section \<open>The symbol table\<close>

text \<open>The symbol section with its string table \<open>s->link\<close> and its hash section \<open>s->hash\<close>, an array of
  ints: the number of buckets, the number of symbols, the buckets, then a chain entry per
  symbol. Each list is the part of its section in use.\<close>

record symtab =
  syms :: "elf_sym list"
  strtab :: "u8 list"
  hash_words :: "nat list option"
  nb_hashed_syms :: nat

definition c_string :: "u8 list \<Rightarrow> nat \<Rightarrow> u8 list" where
  "c_string bytes offset = takeWhile (\<lambda>c. c \<noteq> 0) (drop offset bytes)"

definition put_elf_str :: "u8 list \<Rightarrow> u8 list \<Rightarrow> nat \<times> u8 list" where
  "put_elf_str bytes name = (length bytes, bytes @ name @ [0])"

definition null_sym :: elf_sym where
  "null_sym = \<lparr>st_name = 0, st_info = 0, st_other = 0, st_shndx = 0, st_value = 0, st_size = 0\<rparr>"

definition init_symtab :: symtab where
  "init_symtab = \<lparr>syms = [null_sym], strtab = snd (put_elf_str [] []),
     hash_words = Some [1, 1, 0, 0], nb_hashed_syms = 0\<rparr>"

definition elf_hash :: "u8 list \<Rightarrow> u32" where
  "elf_hash name = (let h = fold (\<lambda>c h. (h XOR ucast c) * 16777619) name 2166136261 in h XOR drop_bit 16 h)"

text \<open>\<open>*ptr = hash[h]; hash[h] = sym_index\<close>, where \<open>ptr\<close> is the chain entry of \<open>sym_index\<close>.\<close>

definition link_sym :: "nat \<Rightarrow> nat \<Rightarrow> nat \<Rightarrow> nat list \<Rightarrow> nat list" where
  "link_sym nbuckets h sym_index words =
     (words[2 + nbuckets + sym_index := words ! (2 + h)])[2 + h := sym_index]"

fun rebuild_loop :: "elf_sym list \<Rightarrow> u8 list \<Rightarrow> nat \<Rightarrow> nat \<Rightarrow> nat list \<Rightarrow> nat list" where
  "rebuild_loop [] bytes nb_buckets sym_index words = words"
| "rebuild_loop (sy # rest) bytes nb_buckets sym_index words =
     rebuild_loop rest bytes nb_buckets (sym_index + 1)
       (if bind_of sy \<noteq> STB_LOCAL
        then link_sym nb_buckets (unat (elf_hash (c_string bytes (st_name sy))) mod nb_buckets) sym_index words
        else words[2 + nb_buckets + sym_index := 0])"

definition rebuild_hash :: "symtab \<Rightarrow> nat \<Rightarrow> symtab" where
  "rebuild_hash t nb_buckets0 =
     (case hash_words t of
        None \<Rightarrow> t
      | Some words0 \<Rightarrow>
          let nb_syms = length (syms t);
              nb_buckets = (if nb_buckets0 = 0 then hd words0 else nb_buckets0);
              words = [nb_buckets, nb_syms] @ replicate nb_buckets 0 @ replicate nb_syms 0
          in t\<lparr>hash_words := Some (rebuild_loop (tl (syms t)) (strtab t) nb_buckets 1 words)\<rparr>)"

definition put_elf_sym ::
  "symtab \<Rightarrow> u64 \<Rightarrow> u32 \<Rightarrow> u32 \<Rightarrow> u32 \<Rightarrow> u32 \<Rightarrow> u8 list \<Rightarrow> nat \<times> symtab" where
  "put_elf_sym t val sz info other shndx name =
     (let (name_offset, bytes) = (if name \<noteq> [] then put_elf_str (strtab t) name else (0, strtab t));
          sy = \<lparr>st_name = name_offset, st_info = ucast info, st_other = ucast other,
                 st_shndx = ucast shndx, st_value = val, st_size = ucast sz\<rparr>;
          sym_index = length (syms t);
          t1 = t\<lparr>syms := syms t @ [sy], strtab := bytes\<rparr>
      in (sym_index,
          case hash_words t1 of
            None \<Rightarrow> t1
          | Some base0 \<Rightarrow>
              let base = base0 @ [0]; nbuckets = hd base in
              if ST_BIND info \<noteq> STB_LOCAL then
                let h = unat (elf_hash (c_string bytes name_offset)) mod nbuckets;
                    base1 = link_sym nbuckets h sym_index base;
                    base2 = base1[1 := base1 ! 1 + 1];
                    t2 = t1\<lparr>hash_words := Some base2, nb_hashed_syms := nb_hashed_syms t + 1\<rparr>
                in if nb_hashed_syms t2 > 2 * nbuckets then rebuild_hash t2 (2 * nbuckets) else t2
              else t1\<lparr>hash_words := Some (base[1 := base ! 1 + 1])\<rparr>))"

text \<open>\<open>*ptr\<close> is the word \<open>section_ptr_add\<close> appends: the entry \<open>2 + nbuckets + sym_index\<close>.\<close>

partial_function (option) find_loop ::
  "elf_sym list \<Rightarrow> u8 list \<Rightarrow> nat \<Rightarrow> nat list \<Rightarrow> u8 list \<Rightarrow> nat \<Rightarrow> nat option" where
  "find_loop ss bytes nbuckets words name sym_index =
     (if sym_index = 0 then Some 0
      else if name = c_string bytes (st_name (ss ! sym_index)) then Some sym_index
      else find_loop ss bytes nbuckets words name (words ! (2 + nbuckets + sym_index)))"

definition find_elf_sym :: "symtab \<Rightarrow> u8 list \<Rightarrow> nat option" where
  "find_elf_sym t name =
     (case hash_words t of
        None \<Rightarrow> Some 0
      | Some words \<Rightarrow>
          let nbuckets = hd words; h = unat (elf_hash name) mod nbuckets
          in find_loop (syms t) (strtab t) nbuckets words name (words ! (2 + h)))"

section \<open>The chains\<close>

fun chain :: "nat \<Rightarrow> nat list \<Rightarrow> nat \<Rightarrow> nat list \<Rightarrow> bool" where
  "chain nb words i [] \<longleftrightarrow> i = 0"
| "chain nb words i (x # xs) \<longleftrightarrow> i = x \<and> x \<noteq> 0 \<and> chain nb words (words ! (2 + nb + x)) xs"

definition in_bucket :: "elf_sym list \<Rightarrow> u8 list \<Rightarrow> nat \<Rightarrow> nat \<Rightarrow> nat \<Rightarrow> bool" where
  "in_bucket ss bytes nb h i \<longleftrightarrow> bind_of (ss ! i) \<noteq> STB_LOCAL
     \<and> unat (elf_hash (c_string bytes (st_name (ss ! i)))) mod nb = h"

definition bucket :: "elf_sym list \<Rightarrow> u8 list \<Rightarrow> nat \<Rightarrow> nat \<Rightarrow> nat \<Rightarrow> nat list" where
  "bucket ss bytes nb n h = rev (filter (in_bucket ss bytes nb h) [1..<n])"

definition hashed :: "elf_sym list \<Rightarrow> u8 list \<Rightarrow> nat \<Rightarrow> nat \<Rightarrow> nat list \<Rightarrow> bool" where
  "hashed ss bytes nb n words \<longleftrightarrow> 0 < nb \<and> 2 + nb + n \<le> length words \<and> 0 < n
     \<and> (\<forall>h<nb. chain nb words (words ! (2 + h)) (bucket ss bytes nb n h))"

lemma chain_cong:
  assumes "\<forall>x\<in>set xs. words' ! (2 + nb + x) = words ! (2 + nb + x)"
  shows "chain nb words' i xs = chain nb words i xs"
  using assms by (induction xs arbitrary: i) auto

lemma bucket_Suc:
  "0 < n \<Longrightarrow> bucket ss bytes nb (Suc n) h = (if in_bucket ss bytes nb h n then n # bucket ss bytes nb n h else bucket ss bytes nb n h)"
  by (simp add: bucket_def)

lemma set_bucket: "x \<in> set (bucket ss bytes nb n h) \<longleftrightarrow> 0 < x \<and> x < n \<and> in_bucket ss bytes nb h x"
  by (auto simp: bucket_def)

lemma bucket_cong:
  assumes "\<forall>i<n. st_name (ss' ! i) = st_name (ss ! i) \<and> (bind_of (ss' ! i) = STB_LOCAL) = (bind_of (ss ! i) = STB_LOCAL)" and "\<forall>i<n. 0 < i \<longrightarrow> c_string bytes' (st_name (ss ! i)) = c_string bytes (st_name (ss ! i))"
  shows "bucket ss' bytes' nb n h = bucket ss bytes nb n h"
  unfolding bucket_def by (intro arg_cong [of _ _ rev] filter_cong refl) (use assms in \<open>auto simp: in_bucket_def\<close>)

lemma hashed_cong:
  assumes "\<forall>i<n. st_name (ss' ! i) = st_name (ss ! i) \<and> (bind_of (ss' ! i) = STB_LOCAL) = (bind_of (ss ! i) = STB_LOCAL)" and "\<forall>i<n. 0 < i \<longrightarrow> c_string bytes' (st_name (ss ! i)) = c_string bytes (st_name (ss ! i))"
    and "length words' \<ge> 2 + nb + n" and "\<forall>i. 2 \<le> i \<and> i < 2 + nb + n \<longrightarrow> words' ! i = words ! i"
    and "hashed ss bytes nb n words"
  shows "hashed ss' bytes' nb n words'"
proof -
  have "chain nb words' (words' ! (2 + h)) (bucket ss' bytes' nb n h)" if "h < nb" for h
  proof -
    have "chain nb words (words ! (2 + h)) (bucket ss bytes nb n h)" using assms(5) that by (simp add: hashed_def)
    moreover have "words' ! (2 + h) = words ! (2 + h)" using assms(4) that by simp
    ultimately show ?thesis
      using assms(4) bucket_cong [OF assms(1,2), of nb h]
      by (subst chain_cong [of _ _ _ words]) (auto simp: set_bucket)
  qed
  then show ?thesis using assms(3,5) by (simp add: hashed_def)
qed

lemma hashed_step:
  assumes "hashed ss bytes nb n words" and "2 + nb + n < length words"
  shows "hashed ss bytes nb (Suc n)
    (if bind_of (ss ! n) \<noteq> STB_LOCAL
     then link_sym nb (unat (elf_hash (c_string bytes (st_name (ss ! n)))) mod nb) n words
     else words[2 + nb + n := 0])"
proof (cases "bind_of (ss ! n) \<noteq> STB_LOCAL")
  case False
  have n: "0 < n" "0 < nb" using assms(1) by (auto simp: hashed_def)
  have "chain nb (words[2 + nb + n := 0]) (words ! (2 + h)) (bucket ss bytes nb (Suc n) h)" if "h < nb" for h
    using assms(1) that False n
    by (subst chain_cong [of _ _ _ words]) (auto simp: bucket_Suc in_bucket_def set_bucket hashed_def)
  then show ?thesis using assms n False by (auto simp: hashed_def)
next
  case True
  have n: "0 < n" "0 < nb" using assms(1) by (auto simp: hashed_def)
  let ?h = "unat (elf_hash (c_string bytes (st_name (ss ! n)))) mod nb"
  let ?w = "link_sym nb ?h n words"
  have hl: "?h < nb" using n by simp
  have len: "length ?w = length words" by (simp add: link_sym_def)
  have old: "?w ! (2 + nb + x) = words ! (2 + nb + x)" if "x < n" for x
    using that hl by (simp add: link_sym_def)
  have "chain nb ?w (?w ! (2 + h)) (bucket ss bytes nb (Suc n) h)" if "h < nb" for h
  proof -
    have c: "chain nb ?w (words ! (2 + h)) (bucket ss bytes nb n h)"
      using assms(1) that old by (subst chain_cong [of _ _ _ words]) (auto simp: set_bucket hashed_def)
    have b: "in_bucket ss bytes nb h n \<longleftrightarrow> h = ?h" using True by (auto simp: in_bucket_def)
    show ?thesis
    proof (cases "h = ?h")
      case True
      have "?w ! (2 + h) = n" "?w ! (2 + nb + n) = words ! (2 + h)"
        using True hl assms(2) by (simp_all add: link_sym_def)
      then show ?thesis using c b True n by (simp add: bucket_Suc)
    next
      case False
      have "?w ! (2 + h) = words ! (2 + h)" using False that by (simp add: link_sym_def)
      then show ?thesis using c b False n by (simp add: bucket_Suc)
    qed
  qed
  then show ?thesis using True assms n len by (auto simp: hashed_def)
qed

lemma rebuild_loop_hashed:
  assumes "hashed ss bytes nb n words" and "rest = drop n ss" and "n \<le> length ss" and "length words = 2 + nb + length ss"
  shows "hashed ss bytes nb (length ss) (rebuild_loop rest bytes nb n words)
    \<and> length (rebuild_loop rest bytes nb n words) = length words
    \<and> (\<forall>i<2. rebuild_loop rest bytes nb n words ! i = words ! i)"
  using assms
proof (induction rest bytes nb n words rule: rebuild_loop.induct)
  case (1 bytes nb n words)
  then show ?case by simp
next
  case (2 sy rest bytes nb n words)
  have n: "n < length ss" using 2(3,4) by (cases "n < length ss") auto
  then have s: "sy = ss ! n" "rest = drop (n + 1) ss"
    using 2(3) by (simp_all add: Cons_nth_drop_Suc [symmetric])
  let ?w = "if bind_of sy \<noteq> STB_LOCAL
     then link_sym nb (unat (elf_hash (c_string bytes (st_name sy))) mod nb) n words
     else words[2 + nb + n := 0]"
  have "2 + nb + n < length words" using 2(5) n by simp
  from hashed_step [OF 2(2) this] have "hashed ss bytes nb (n + 1) ?w" unfolding s(1) Suc_eq_plus1 .
  moreover have "length ?w = length words" by (simp add: link_sym_def)
  moreover have "\<forall>i<2. ?w ! i = words ! i" by (simp add: link_sym_def)
  ultimately show ?case using 2(1) [OF _ s(2)] 2(5) n by simp
qed

lemma hashed_empty:
  "0 < nb \<Longrightarrow> hashed ss bytes nb 1 ([nb, m] @ replicate nb 0 @ replicate (length ss) 0)" if "ss \<noteq> []"
  using that by (auto simp: hashed_def bucket_def nth_append Suc_le_eq)

section \<open>Well-formed tables\<close>

definition valid_symtab :: "symtab \<Rightarrow> bool" where
  "valid_symtab t \<longleftrightarrow> syms t \<noteq> [] \<and> strtab t \<noteq> [] \<and> last (strtab t) = 0
     \<and> (\<forall>e\<in>set (syms t). st_name e < length (strtab t))
     \<and> (\<exists>words nb. hash_words t = Some words \<and> words ! 0 = nb \<and> words ! 1 = length (syms t)
          \<and> length words = 2 + nb + length (syms t)
          \<and> hashed (syms t) (strtab t) nb (length (syms t)) words)"

text \<open>What a table means: its symbols with their names.\<close>

definition view :: "symtab \<Rightarrow> (u8 list \<times> elf_sym) list" where
  "view t = map (\<lambda>e. (c_string (strtab t) (st_name e), e)) (syms t)"

definition names_symbol :: "u8 list \<Rightarrow> u8 list \<times> elf_sym \<Rightarrow> bool" where
  "names_symbol name entry \<longleftrightarrow> fst entry = name \<and> bind_of (snd entry) \<noteq> STB_LOCAL"

text \<open>The reference lookup: the last symbol that is not local and has the name; 0 if there is none.\<close>

definition last_symbol :: "u8 list \<Rightarrow> (u8 list \<times> elf_sym) list \<Rightarrow> nat" where
  "last_symbol name es =
     (case find (\<lambda>i. names_symbol name (es ! i)) (rev [1..<length es]) of None \<Rightarrow> 0 | Some i \<Rightarrow> i)"

lemma c_string_append:
  assumes "offset < length bytes" and "last bytes = 0"
  shows "c_string (bytes @ rest) offset = c_string bytes offset"
proof -
  have "drop offset bytes \<noteq> []" "last (drop offset bytes) = 0" using assms by simp_all
  then have "0 \<in> set (drop offset bytes)" by (metis last_in_set)
  then show ?thesis using assms by (auto simp: c_string_def takeWhile_append)
qed

lemma c_string_put: "0 \<notin> set name \<Longrightarrow> c_string (bytes @ name @ [0]) (length bytes) = name"
  by (auto simp: c_string_def takeWhile_append)

lemma init_valid: "valid_symtab init_symtab"
  by (auto simp: valid_symtab_def init_symtab_def put_elf_str_def null_sym_def hashed_def bucket_def)

lemma rebuild_valid:
  assumes "valid_symtab t \<or> (\<exists>words. hash_words t = Some words)"
    and "syms t \<noteq> []" "0 < nb"
  shows "\<exists>words. hash_words (rebuild_hash t nb) = Some words \<and> words ! 0 = nb \<and> words ! 1 = length (syms t)
     \<and> length words = 2 + nb + length (syms t) \<and> hashed (syms t) (strtab t) nb (length (syms t)) words"
proof -
  obtain w where w: "hash_words t = Some w" using assms(1) by (auto simp: valid_symtab_def)
  let ?w0 = "[nb, length (syms t)] @ replicate nb 0 @ replicate (length (syms t)) 0"
  have "hashed (syms t) (strtab t) nb 1 ?w0" by (rule hashed_empty [OF assms(2,3)])
  moreover have "tl (syms t) = drop 1 (syms t)" by (simp add: drop_Suc)
  moreover have "1 \<le> length (syms t)" using assms(2) by (simp add: Suc_le_eq)
  ultimately have "hashed (syms t) (strtab t) nb (length (syms t)) (rebuild_loop (tl (syms t)) (strtab t) nb 1 ?w0)
      \<and> length (rebuild_loop (tl (syms t)) (strtab t) nb 1 ?w0) = length ?w0
      \<and> (\<forall>i<2. rebuild_loop (tl (syms t)) (strtab t) nb 1 ?w0 ! i = ?w0 ! i)"
    by (rule rebuild_loop_hashed) simp
  then show ?thesis using w assms(3) by (auto simp: rebuild_hash_def Let_def)
qed

lemma ST_BIND_ucast: "ST_BIND (ucast (ucast info :: u8)) = ST_BIND info"
  unfolding ST_BIND_def by (rule bit_word_eqI) (auto simp: bit_drop_bit_eq bit_unsigned_iff)

lemma put_elf_sym_spec:
  assumes "valid_symtab t" and "0 \<notin> set name"
  shows "fst (put_elf_sym t val sz info other shndx name) = length (syms t)"
    and "valid_symtab (snd (put_elf_sym t val sz info other shndx name))"
    and "\<exists>e. st_info e = ucast info \<and> st_other e = ucast other \<and> st_shndx e = ucast shndx
      \<and> st_value e = val \<and> st_size e = ucast sz
      \<and> view (snd (put_elf_sym t val sz info other shndx name)) =
          view t @ [(if name = [] then c_string (strtab t) 0 else name, e)]"
proof -
  obtain words nb where t: "syms t \<noteq> []" "strtab t \<noteq> []" "last (strtab t) = 0"
      "\<forall>e\<in>set (syms t). st_name e < length (strtab t)"
      "hash_words t = Some words" "words ! 0 = nb" "words ! 1 = length (syms t)"
      "length words = 2 + nb + length (syms t)" "hashed (syms t) (strtab t) nb (length (syms t)) words"
    using assms(1) by (auto simp: valid_symtab_def)
  define n where "n = length (syms t)"
  define off where "off = (if name = [] then 0 else length (strtab t))"
  define bytes where "bytes = (if name = [] then strtab t else strtab t @ name @ [0])"
  define e where "e = \<lparr>st_name = off, st_info = ucast info, st_other = ucast other,
                 st_shndx = ucast shndx, st_value = val, st_size = ucast sz\<rparr>"
  define ss where "ss = syms t @ [e]"
  define h where "h = unat (elf_hash (c_string bytes off)) mod nb"
  have nb: "0 < nb" using t(9) by (simp add: hashed_def)
  have hd: "hd (words @ [0]) = nb" using t(6,8) by (cases words) simp_all
  have str: "bytes \<noteq> []" "last bytes = 0" "off < length bytes"
    "\<forall>x\<in>set (syms t). st_name x < length bytes"
    using t by (auto simp: bytes_def off_def)
  have old: "\<forall>x\<in>set (syms t). c_string bytes (st_name x) = c_string (strtab t) (st_name x)"
    using t(3,4) c_string_append by (auto simp: bytes_def)
  have new: "c_string bytes off = (if name = [] then c_string (strtab t) 0 else name)"
    using assms(2) by (simp add: bytes_def off_def c_string_put)
  have len: "length (words @ [0]) = 2 + nb + (n + 1)" using t(8) by (simp add: n_def)
  have "hashed ss bytes nb n (words @ [0])"
  proof (rule hashed_cong [OF _ _ _ _ t(9) [folded n_def]])
    show "\<forall>i<n. st_name (ss ! i) = st_name (syms t ! i) \<and> (bind_of (ss ! i) = STB_LOCAL) = (bind_of (syms t ! i) = STB_LOCAL)" by (simp add: ss_def n_def nth_append)
    show "\<forall>i<n. 0 < i \<longrightarrow> c_string bytes (st_name (syms t ! i)) = c_string (strtab t) (st_name (syms t ! i))"
      using old by (simp add: n_def)
    show "2 + nb + n \<le> length (words @ [0])" using len by simp
    show "\<forall>i. 2 \<le> i \<and> i < 2 + nb + n \<longrightarrow> (words @ [0]) ! i = words ! i"
      using t(8) by (simp add: nth_append n_def)
  qed
  moreover have "2 + nb + n < length (words @ [0])" using len by simp
  moreover have ssn: "ss ! n = e" by (simp add: ss_def n_def)
  ultimately have st: "hashed ss bytes nb (Suc n)
    (if bind_of e \<noteq> STB_LOCAL then link_sym nb h n (words @ [0]) else (words @ [0])[2 + nb + n := 0])"
    using hashed_step by (metis (no_types, lifting) e_def elf_sym.select_convs(1) h_def)
  have zero: "(words @ [0])[2 + nb + n := 0] = words @ [0]"
    using t(8) by (simp add: n_def list_update_append)
  have bnd: "bind_of e = ST_BIND info" by (simp add: e_def ST_BIND_ucast)
  let ?t1 = "t\<lparr>syms := ss, strtab := bytes\<rparr>"
  let ?w = "if ST_BIND info \<noteq> STB_LOCAL then link_sym nb h n (words @ [0]) else words @ [0]"
  let ?w1 = "?w[1 := ?w ! 1 + 1]"
  have w1: "hashed ss bytes nb (length ss) ?w1" "?w1 ! 0 = nb" "?w1 ! 1 = length ss" "length ?w1 = 2 + nb + length ss"
  proof -
    have l: "length ?w = 2 + nb + length ss" using len by (simp add: link_sym_def ss_def n_def)
    then show "length ?w1 = 2 + nb + length ss" by simp
    have "?w ! 0 = nb" "?w ! 1 = length (syms t)" using t(6,7,8) nb by (simp_all add: link_sym_def nth_append)
    then show "?w1 ! 0 = nb" "?w1 ! 1 = length ss" using l by (simp_all add: ss_def)
    have "hashed ss bytes nb (length ss) ?w" using st zero bnd by (simp add: ss_def n_def split: if_splits)
    then show "hashed ss bytes nb (length ss) ?w1"
      by (rule hashed_cong [rotated 4]) (use l in simp_all)
  qed
  define r where "r = (if ST_BIND info \<noteq> STB_LOCAL
      then (let t2 = ?t1\<lparr>hash_words := Some ?w1, nb_hashed_syms := nb_hashed_syms t + 1\<rparr>
            in if nb_hashed_syms t2 > 2 * nb then rebuild_hash t2 (2 * nb) else t2)
      else ?t1\<lparr>hash_words := Some ?w1\<rparr>)"
  have p: "put_elf_sym t val sz info other shndx name = (n, r)"
    using t(5) hd
    by (auto simp: put_elf_sym_def put_elf_str_def r_def Let_def ss_def e_def off_def bytes_def n_def h_def)
  have rs: "syms r = ss" "strtab r = bytes" by (auto simp: r_def Let_def rebuild_hash_def)
  show "fst (put_elf_sym t val sz info other shndx name) = length (syms t)" by (simp add: p n_def)
  have vw: "view r = view t @ [(if name = [] then c_string (strtab t) 0 else name, e)]"
    using old new by (simp add: view_def rs ss_def e_def)
  show "\<exists>e. st_info e = ucast info \<and> st_other e = ucast other \<and> st_shndx e = ucast shndx
      \<and> st_value e = val \<and> st_size e = ucast sz
      \<and> view (snd (put_elf_sym t val sz info other shndx name)) =
          view t @ [(if name = [] then c_string (strtab t) 0 else name, e)]"
    using vw by (intro exI [of _ e]) (simp add: p e_def)
  have "\<exists>words nb. hash_words r = Some words \<and> words ! 0 = nb \<and> words ! 1 = length ss
          \<and> length words = 2 + nb + length ss \<and> hashed ss bytes nb (length ss) words"
  proof (cases "ST_BIND info \<noteq> STB_LOCAL \<and> nb_hashed_syms t + 1 > 2 * nb")
    case True
    then have "r = rebuild_hash (?t1\<lparr>hash_words := Some ?w1, nb_hashed_syms := nb_hashed_syms t + 1\<rparr>) (2 * nb)"
      by (simp add: r_def Let_def)
    then show ?thesis
      using rebuild_valid [of "?t1\<lparr>hash_words := Some ?w1, nb_hashed_syms := nb_hashed_syms t + 1\<rparr>" "2 * nb"] nb
      by (auto simp: ss_def)
  next
    case False
    then have "hash_words r = Some ?w1" by (auto simp: r_def Let_def)
    then show ?thesis using w1 by blast
  qed
  then show "valid_symtab (snd (put_elf_sym t val sz info other shndx name))"
    using str unfolding valid_symtab_def by (simp add: p rs ss_def e_def)
qed

lemma find_loop_chain:
  "chain nb words i xs \<Longrightarrow> find_loop ss bytes nb words name i =
     Some (case find (\<lambda>x. name = c_string bytes (st_name (ss ! x))) xs of None \<Rightarrow> 0 | Some x \<Rightarrow> x)"
  by (induction xs arbitrary: i) (subst find_loop.simps, simp)+

lemma find_elf_sym_last:
  assumes "valid_symtab t"
  shows "find_elf_sym t name = Some (last_symbol name (view t))"
proof -
  obtain words nb where t: "syms t \<noteq> []" "hash_words t = Some words" "words ! 0 = nb"
      "length words = 2 + nb + length (syms t)" "hashed (syms t) (strtab t) nb (length (syms t)) words"
    using assms by (auto simp: valid_symtab_def)
  have nb: "0 < nb" using t(5) by (simp add: hashed_def)
  have hd: "hd words = nb" using t(3,4) by (cases words) simp_all
  let ?h = "unat (elf_hash name) mod nb"
  have "chain nb words (words ! (2 + ?h)) (bucket (syms t) (strtab t) nb (length (syms t)) ?h)"
    using t(5) nb by (simp add: hashed_def)
  from find_loop_chain [OF this]
  have f: "find_elf_sym t name = Some (case find (\<lambda>x. name = c_string (strtab t) (st_name (syms t ! x)))
      (bucket (syms t) (strtab t) nb (length (syms t)) ?h) of None \<Rightarrow> 0 | Some x \<Rightarrow> x)"
    using t(2) hd by (simp add: find_elf_sym_def Let_def)
  have "find (\<lambda>x. name = c_string (strtab t) (st_name (syms t ! x))) (bucket (syms t) (strtab t) nb (length (syms t)) ?h)
      = find (\<lambda>i. names_symbol name (view t ! i)) (rev [1..<length (view t)])"
    unfolding bucket_def rev_filter find_filter
    by (simp add: view_def, rule find_cong_set) (auto simp: in_bucket_def names_symbol_def)
  then show ?thesis unfolding f last_symbol_def by simp
qed

lemma last_symbol_found:
  assumes "last_symbol name es = i" and "i \<noteq> 0"
  shows "i < length es" "names_symbol name (es ! i)"
proof -
  have "find (\<lambda>i. names_symbol name (es ! i)) (rev [1..<length es]) = Some i"
    using assms by (auto simp: last_symbol_def split: option.splits)
  then show "i < length es" "names_symbol name (es ! i)" using find_member by fastforce+
qed

lemma last_symbol_zero:
  "last_symbol name es = 0 \<longleftrightarrow> (\<forall>i. 0 < i \<and> i < length es \<longrightarrow> \<not> names_symbol name (es ! i))"
proof (cases "find (\<lambda>i. names_symbol name (es ! i)) (rev [1..<length es])")
  case None
  then have "last_symbol name es = 0" by (simp add: last_symbol_def)
  then show ?thesis using None [unfolded find_None_iff] by auto
next
  case (Some i)
  then have "0 < i \<and> i < length es \<and> names_symbol name (es ! i)" using find_member [OF Some] by auto
  then show ?thesis using Some by (auto simp: last_symbol_def)
qed

section \<open>Adding a definition\<close>

definition patch_sym :: "symtab \<Rightarrow> nat \<Rightarrow> elf_sym \<Rightarrow> symtab" where
  "patch_sym t i e = t\<lparr>syms := (syms t)[i := e]\<rparr>"

datatype resolution = Keep_old | Patch | Defined_twice

text \<open>The chain of conditions for a symbol that is already defined; \<open>bss\<close> is
  \<open>bss_section->sh_num\<close>, \<open>dynsym\<close> the flag \<open>SHF_DYNSYM\<close> of the table.\<close>

definition resolve :: "u32 \<Rightarrow> bool \<Rightarrow> elf_sym \<Rightarrow> u32 \<Rightarrow> u32 \<Rightarrow> u32 \<Rightarrow> resolution" where
  "resolve bss dynsym esym sym_bind sym_vis shndx =
     (if shndx = SHN_UNDEF then Keep_old
      else if sym_bind = STB_GLOBAL \<and> bind_of esym = STB_WEAK then Patch
      else if sym_bind = STB_WEAK \<and> bind_of esym = STB_GLOBAL then Keep_old
      else if sym_bind = STB_WEAK \<and> bind_of esym = STB_WEAK then Keep_old
      else if sym_vis = STV_HIDDEN \<or> sym_vis = STV_INTERNAL then Keep_old
      else if (ucast (st_shndx esym) = SHN_COMMON \<or> ucast (st_shndx esym) = bss)
           \<and> sint shndx < sint SHN_LORESERVE \<and> shndx \<noteq> bss then Patch
      else if shndx = SHN_COMMON \<or> shndx = bss then Keep_old
      else if dynsym then Keep_old
      else if st_other esym AND ST_ASM_SET \<noteq> 0 then Patch
      else Defined_twice)"

definition new_visibility :: "u32 \<Rightarrow> u32 \<Rightarrow> u32" where
  "new_visibility esym_vis sym_vis =
     (if esym_vis = STV_DEFAULT then sym_vis
      else if sym_vis = STV_DEFAULT then esym_vis
      else if esym_vis < sym_vis then esym_vis else sym_vis)"

text \<open>The answer: the symbol's index and whether \<open>'%s' defined twice\<close> was reported.\<close>

definition set_elf_sym ::
  "u32 \<Rightarrow> bool \<Rightarrow> symtab \<Rightarrow> u64 \<Rightarrow> u32 \<Rightarrow> u32 \<Rightarrow> u32 \<Rightarrow> u32 \<Rightarrow> u8 list \<Rightarrow> (nat \<times> bool \<times> symtab) option" where
  "set_elf_sym bss dynsym t val sz info other shndx name =
     (let sym_bind = ST_BIND info; sym_type = ST_TYPE info; sym_vis = ST_VISIBILITY other;
          do_def = (let (i, t1) = put_elf_sym t val sz (ST_INFO sym_bind sym_type) other shndx name
                    in Some (i, False, t1));
          do_patch = (\<lambda>i e. Some (i, False, patch_sym t i
            (e\<lparr>st_info := ucast (ST_INFO sym_bind sym_type), st_shndx := ucast shndx,
               st_value := val, st_size := ucast sz\<rparr>)))
      in if sym_bind \<noteq> STB_LOCAL then
           (case find_elf_sym t name of
              None \<Rightarrow> None
            | Some sym_index \<Rightarrow>
                if sym_index = 0 then do_def
                else
                  let esym = syms t ! sym_index in
                  if st_value esym = val \<and> st_size esym = ucast sz \<and> ucast (st_info esym) = info
                     \<and> ucast (st_other esym) = other \<and> ucast (st_shndx esym) = shndx
                  then Some (sym_index, False, t)
                  else if ucast (st_shndx esym) \<noteq> SHN_UNDEF then
                    let new_vis = new_visibility (ST_VISIBILITY (ucast (st_other esym))) sym_vis;
                        esym1 = esym\<lparr>st_other := (st_other esym AND NOT 3) OR ucast new_vis\<rparr>
                    in (case resolve bss dynsym esym1 sym_bind sym_vis shndx of
                          Keep_old \<Rightarrow> Some (sym_index, False, patch_sym t sym_index esym1)
                        | Patch \<Rightarrow> do_patch sym_index esym1
                        | Defined_twice \<Rightarrow> Some (sym_index, True, patch_sym t sym_index esym1))
                  else do_patch sym_index (esym\<lparr>st_other := ucast other\<rparr>))
         else do_def)"

section \<open>The interface of a symbol table\<close>

text \<open>What \<open>set_elf_sym\<close> relies on: looking up a name answers the last global symbol that has it,
  adding appends a symbol, and patching a symbol leaves its name and the others alone.\<close>

locale symbol_index =
  fixes valid :: "'t \<Rightarrow> bool"
    and entries :: "'t \<Rightarrow> (u8 list \<times> elf_sym) list"
    and lookup :: "'t \<Rightarrow> u8 list \<Rightarrow> nat option"
    and add :: "'t \<Rightarrow> u64 \<Rightarrow> u32 \<Rightarrow> u32 \<Rightarrow> u32 \<Rightarrow> u32 \<Rightarrow> u8 list \<Rightarrow> nat \<times> 't"
    and patch :: "'t \<Rightarrow> nat \<Rightarrow> elf_sym \<Rightarrow> 't"
  assumes lookup_last: "valid t \<Longrightarrow> lookup t name = Some (last_symbol name (entries t))"
    and entries_ne: "valid t \<Longrightarrow> entries t \<noteq> []"
    and add_appends: "valid t \<Longrightarrow> 0 \<notin> set name \<Longrightarrow> add t val sz info other shndx name = (i, t') \<Longrightarrow>
        valid t' \<and> i = length (entries t) \<and> (\<exists>nm e. (name \<noteq> [] \<longrightarrow> nm = name) \<and> st_info e = ucast info \<and> st_other e = ucast other
          \<and> st_shndx e = ucast shndx \<and> st_value e = val \<and> st_size e = ucast sz
          \<and> entries t' = entries t @ [(nm, e)])"
    and patch_replaces: "valid t \<Longrightarrow> i < length (entries t) \<Longrightarrow> st_name e = st_name (snd (entries t ! i)) \<Longrightarrow>
        (bind_of e = STB_LOCAL) = (bind_of (snd (entries t ! i)) = STB_LOCAL) \<Longrightarrow>
        valid (patch t i e) \<and> entries (patch t i e) = (entries t)[i := (fst (entries t ! i), e)]"

definition one_global :: "(u8 list \<times> elf_sym) list \<Rightarrow> bool" where
  "one_global es \<longleftrightarrow> (\<forall>i j name. 0 < i \<and> i < length es \<and> 0 < j \<and> j < length es
     \<and> names_symbol name (es ! i) \<and> names_symbol name (es ! j) \<longrightarrow> i = j)"

lemma one_global_append:
  assumes "one_global es" and "bind_of e = STB_LOCAL \<or> last_symbol name es = 0"
  shows "one_global (es @ [(name, e)])"
  using assms unfolding one_global_def last_symbol_zero
  by (auto simp: nth_append less_Suc_eq names_symbol_def)

lemma one_global_patch:
  assumes "one_global es" and "i < length es"
    and "(bind_of e = STB_LOCAL) = (bind_of (snd (es ! i)) = STB_LOCAL)"
  shows "one_global (es[i := (fst (es ! i), e)])"
  using assms unfolding one_global_def names_symbol_def by (auto simp: nth_list_update)

context symbol_index begin

lemma lookup_none:
  "valid t \<Longrightarrow> lookup t name = Some 0 \<Longrightarrow> 0 < i \<Longrightarrow> i < length (entries t) \<Longrightarrow> \<not> names_symbol name (entries t ! i)"
  using lookup_last [of t name] last_symbol_zero [of name "entries t"] by simp

lemma lookup_some:
  assumes "valid t" and "lookup t name = Some i" and "i \<noteq> 0"
  shows "i < length (entries t)" "names_symbol name (entries t ! i)"
  using last_symbol_found [of name "entries t" i] lookup_last [OF assms(1), of name] assms(2,3) by simp_all

lemma lookup_total: "valid t \<Longrightarrow> \<exists>i. lookup t name = Some i"
  by (simp add: lookup_last)

lemma lookup_added:
  assumes "valid t" "0 \<notin> set name" "name \<noteq> []" "add t val sz info other shndx name = (i, t')" "ST_BIND info \<noteq> STB_LOCAL"
  shows "lookup t' name = Some i" and "other_name \<noteq> name \<Longrightarrow> lookup t' other_name = lookup t other_name"
proof -
  from add_appends [OF assms(1,2,4)] assms(3) obtain e where e: "valid t'" "i = length (entries t)" "st_info e = ucast info"
    "entries t' = entries t @ [(name, e)]" by blast
  have n: "names_symbol name (name, e)" using e(3) assms(5) by (simp add: names_symbol_def ST_BIND_ucast)
  obtain m where m: "length (entries t) = Suc m" using entries_ne [OF assms(1)] by (cases "entries t") auto
  have u: "rev [1..<length (entries t')] = length (entries t) # rev [1..<length (entries t)]"
    using e(4) m by simp
  show "lookup t' name = Some i"
    unfolding lookup_last [OF e(1)] last_symbol_def u using e n by simp
  assume ne: "other_name \<noteq> name"
  have "find (\<lambda>i. names_symbol other_name (entries t' ! i)) (rev [1..<length (entries t)])
      = find (\<lambda>i. names_symbol other_name (entries t ! i)) (rev [1..<length (entries t)])"
    by (rule find_cong_set) (simp add: e(4) nth_append)
  then show "lookup t' other_name = lookup t other_name"
    unfolding lookup_last [OF e(1)] lookup_last [OF assms(1)] last_symbol_def u
    using e(4) ne by (simp add: names_symbol_def)
qed

lemma add_keeps_one_global:
  assumes "valid t" "0 \<notin> set name" "add t val sz info other shndx name = (i, t')"
    "ST_BIND info = STB_LOCAL \<or> name \<noteq> [] \<and> lookup t name = Some 0" "one_global (entries t)"
  shows "one_global (entries t')"
proof -
  from add_appends [OF assms(1-3)] obtain nm e where e: "name \<noteq> [] \<longrightarrow> nm = name" "st_info e = ucast info"
    "entries t' = entries t @ [(nm, e)]" by blast
  have "bind_of e = STB_LOCAL \<or> last_symbol nm (entries t) = 0"
    using assms(4) lookup_last [OF assms(1), of name] e(1,2) by (auto simp: ST_BIND_ucast)
  then show ?thesis using one_global_append [OF assms(5)] e(3) by simp
qed

lemma patch_keeps_one_global:
  assumes "valid t" "i < length (entries t)" "st_name e = st_name (snd (entries t ! i))"
    "(bind_of e = STB_LOCAL) = (bind_of (snd (entries t ! i)) = STB_LOCAL)" "one_global (entries t)"
  shows "one_global (entries (patch t i e))"
  using patch_replaces [OF assms(1-4)] one_global_patch [OF assms(5,2,4)] by simp

end

lemma patch_sym_spec:
  assumes "valid_symtab t" and "i < length (view t)" and "st_name e = st_name (snd (view t ! i))"
    and "(bind_of e = STB_LOCAL) = (bind_of (snd (view t ! i)) = STB_LOCAL)"
  shows "valid_symtab (patch_sym t i e) \<and> view (patch_sym t i e) = (view t)[i := (fst (view t ! i), e)]"
proof
  have i: "i < length (syms t)" "snd (view t ! i) = syms t ! i" using assms(2) by (simp_all add: view_def)
  obtain words nb where t: "syms t \<noteq> []" "strtab t \<noteq> []" "last (strtab t) = 0"
      "\<forall>e\<in>set (syms t). st_name e < length (strtab t)"
      "hash_words t = Some words" "words ! 0 = nb" "words ! 1 = length (syms t)"
      "length words = 2 + nb + length (syms t)" "hashed (syms t) (strtab t) nb (length (syms t)) words"
    using assms(1) by (auto simp: valid_symtab_def)
  have "hashed ((syms t)[i := e]) (strtab t) nb (length (syms t)) words"
    by (rule hashed_cong [OF _ _ _ _ t(9)])
      (use assms(3,4) i t(8) in \<open>auto simp: nth_list_update\<close>)
  moreover have "\<forall>x\<in>set ((syms t)[i := e]). st_name x < length (strtab t)"
    using t(4) i assms(3) set_update_subset_insert [of "syms t" i e] by auto
  ultimately show "valid_symtab (patch_sym t i e)"
    using t by (simp add: valid_symtab_def patch_sym_def)
  show "view (patch_sym t i e) = (view t)[i := (fst (view t ! i), e)]"
    using i assms(3) by (simp add: view_def patch_sym_def map_update)
qed

interpretation elf: symbol_index valid_symtab view find_elf_sym put_elf_sym patch_sym
proof
  fix t name
  assume "valid_symtab t"
  then show "find_elf_sym t name = Some (last_symbol name (view t))" by (rule find_elf_sym_last)
next
  fix t assume "valid_symtab t"
  then show "view t \<noteq> []" by (simp add: valid_symtab_def view_def)
next
  fix t name val sz info other shndx i t'
  assume a: "valid_symtab t" "0 \<notin> set name" and p: "put_elf_sym t val sz info other shndx name = (i, t')"
  show "valid_symtab t' \<and> i = length (view t) \<and> (\<exists>nm e. (name \<noteq> [] \<longrightarrow> nm = name) \<and> st_info e = ucast info \<and> st_other e = ucast other
          \<and> st_shndx e = ucast shndx \<and> st_value e = val \<and> st_size e = ucast sz
          \<and> view t' = view t @ [(nm, e)])"
    using put_elf_sym_spec [OF a(1,2), where val = val and sz = sz and info = info and other = other and shndx = shndx]
      unfolding p by (cases "name = []") (auto simp: view_def)
next
  fix t i e
  assume "valid_symtab t" "i < length (view t)" "st_name e = st_name (snd (view t ! i))"
    "(bind_of e = STB_LOCAL) = (bind_of (snd (view t ! i)) = STB_LOCAL)"
  then show "valid_symtab (patch_sym t i e) \<and> view (patch_sym t i e) = (view t)[i := (fst (view t ! i), e)]"
    by (rule patch_sym_spec)
qed

section \<open>Facts about definitions\<close>

lemma ST_INFO_bind: "ST_BIND (ucast (ucast (ST_INFO (ST_BIND info) (ST_TYPE info)) :: u8)) = ST_BIND info"
  "ST_BIND (ST_INFO (ST_BIND info) (ST_TYPE info)) = ST_BIND info"
proof -
  have m: "(0xf :: u32) = mask 4" by (simp add: mask_eq_exp_minus_1)
  have d: "push_bit 4 (ST_BIND info) + (ST_TYPE info AND 0xf) = push_bit 4 (ST_BIND info) OR (ST_TYPE info AND 0xf)"
    by (rule disjunctive_add) (auto simp: ST_BIND_def ST_TYPE_def m bit_simps)
  show *: "ST_BIND (ST_INFO (ST_BIND info) (ST_TYPE info)) = ST_BIND info"
    unfolding ST_INFO_def d
    by (rule bit_word_eqI) (auto simp: ST_BIND_def ST_TYPE_def m bit_simps)
  show "ST_BIND (ucast (ucast (ST_INFO (ST_BIND info) (ST_TYPE info)) :: u8)) = ST_BIND info"
    unfolding ST_BIND_ucast by (rule *)
qed

lemmas elf_constants = STB_LOCAL_def STB_GLOBAL_def STB_WEAK_def STV_DEFAULT_def STV_INTERNAL_def
  STV_HIDDEN_def SHN_UNDEF_def SHN_LORESERVE_def SHN_COMMON_def ST_ASM_SET_def

lemma view_nth: "i < length (syms t) \<Longrightarrow> view t ! i = (c_string (strtab t) (st_name (syms t ! i)), syms t ! i)"
  "length (view t) = length (syms t)"
  by (simp_all add: view_def)

text \<open>What \<open>set_elf_sym\<close> does to a global name that the table already has.\<close>

lemma set_elf_sym_local:
  "ST_BIND info = STB_LOCAL \<Longrightarrow> set_elf_sym bss dynsym t val sz info other shndx name =
     (let (i, t1) = put_elf_sym t val sz (ST_INFO (ST_BIND info) (ST_TYPE info)) other shndx name in Some (i, False, t1))"
  by (simp add: set_elf_sym_def Let_def)

lemma set_elf_sym_new:
  "ST_BIND info \<noteq> STB_LOCAL \<Longrightarrow> find_elf_sym t name = Some 0 \<Longrightarrow> set_elf_sym bss dynsym t val sz info other shndx name =
     (let (i, t1) = put_elf_sym t val sz (ST_INFO (ST_BIND info) (ST_TYPE info)) other shndx name in Some (i, False, t1))"
  by (simp add: set_elf_sym_def Let_def)

lemma set_elf_sym_known:
  assumes "ST_BIND info \<noteq> STB_LOCAL" and "find_elf_sym t name = Some i" and "i \<noteq> 0"
  obtains (same) "set_elf_sym bss dynsym t val sz info other shndx name = Some (i, False, t)"
      "st_value (syms t ! i) = val" "st_size (syms t ! i) = ucast sz" "ucast (st_info (syms t ! i)) = info"
      "ucast (st_shndx (syms t ! i)) = shndx"
  | (changed) tw e where "set_elf_sym bss dynsym t val sz info other shndx name = Some (i, tw, patch_sym t i e)"
      "st_name e = st_name (syms t ! i)" "bind_of e = bind_of (syms t ! i) \<or> bind_of e = ST_BIND info"
proof -
  let ?e = "syms t ! i"
  show ?thesis
  proof (cases "st_value ?e = val \<and> st_size ?e = ucast sz \<and> ucast (st_info ?e) = info
      \<and> ucast (st_other ?e) = other \<and> ucast (st_shndx ?e) = shndx")
    case True
    then show ?thesis using assms same by (simp add: set_elf_sym_def Let_def)
  next
    case False
    show ?thesis
    proof (cases "ucast (st_shndx ?e) = SHN_UNDEF")
      case True
      then show ?thesis using assms \<open>\<not> (st_value ?e = val \<and> _)\<close>
        by (intro changed [of False "?e\<lparr>st_other := ucast other, st_info := ucast (ST_INFO (ST_BIND info) (ST_TYPE info)),
             st_shndx := ucast shndx, st_value := val, st_size := ucast sz\<rparr>"])
          (simp_all add: set_elf_sym_def Let_def ST_INFO_bind, blast?)
    next
      case defined: False
      define e1 where "e1 = ?e\<lparr>st_other := (st_other ?e AND NOT 3) OR
          ucast (new_visibility (ST_VISIBILITY (ucast (st_other ?e))) (ST_VISIBILITY other))\<rparr>"
      have r: "set_elf_sym bss dynsym t val sz info other shndx name =
          (case resolve bss dynsym e1 (ST_BIND info) (ST_VISIBILITY other) shndx of
                          Keep_old \<Rightarrow> Some (i, False, patch_sym t i e1)
                        | Patch \<Rightarrow> Some (i, False, patch_sym t i (e1\<lparr>st_info := ucast (ST_INFO (ST_BIND info) (ST_TYPE info)),
                            st_shndx := ucast shndx, st_value := val, st_size := ucast sz\<rparr>))
                        | Defined_twice \<Rightarrow> Some (i, True, patch_sym t i e1))"
        unfolding set_elf_sym_def Let_def e1_def assms(2) option.case using assms(1,3) False defined
        by (simp only: if_False if_True simp_thms)
      let ?p = "e1\<lparr>st_info := ucast (ST_INFO (ST_BIND info) (ST_TYPE info)),
          st_shndx := ucast shndx, st_value := val, st_size := ucast sz\<rparr>"
      have e1: "st_name e1 = st_name ?e" "bind_of e1 = bind_of ?e" by (simp_all add: e1_def)
      show ?thesis
      proof (cases "resolve bss dynsym e1 (ST_BIND info) (ST_VISIBILITY other) shndx")
        case Keep_old
        then show ?thesis using e1 by (intro changed [of False e1]) (simp_all add: r)
      next
        case Patch
        then show ?thesis using e1 by (intro changed [of False ?p]) (simp_all add: r ST_INFO_bind)
      next
        case Defined_twice
        then show ?thesis using e1 by (intro changed [of True e1]) (simp_all add: r)
      qed
    qed
  qed
qed

text \<open>Every call answers, keeps the table well-formed and adds no second global symbol of a name.\<close>

lemma set_elf_sym_valid:
  assumes "valid_symtab t" and "0 \<notin> set name" and "ST_BIND info = STB_LOCAL \<or> name \<noteq> []"
  obtains i tw t' where "set_elf_sym bss dynsym t val sz info other shndx name = Some (i, tw, t')"
    "valid_symtab t'" "one_global (view t) \<Longrightarrow> one_global (view t')"
proof -
  let ?info = "ST_INFO (ST_BIND info) (ST_TYPE info)"
  obtain j t1 where p: "put_elf_sym t val sz ?info other shndx name = (j, t1)" by fastforce
  have v: "valid_symtab t1" using elf.add_appends [OF assms(1,2) p] by blast
  obtain i where i: "find_elf_sym t name = Some i" using elf.lookup_total [OF assms(1)] by blast
  consider "ST_BIND info = STB_LOCAL" | "ST_BIND info \<noteq> STB_LOCAL" "i = 0" | "ST_BIND info \<noteq> STB_LOCAL" "i \<noteq> 0" by blast
  then show ?thesis
  proof cases
    case 1
    with ST_INFO_bind(2) [of info] have "ST_BIND ?info = STB_LOCAL" by (rule trans)
    then have "one_global (view t) \<Longrightarrow> one_global (view t1)"
      using elf.add_keeps_one_global [OF assms(1,2) p] by blast
    moreover have "set_elf_sym bss dynsym t val sz info other shndx name = Some (j, False, t1)"
      using set_elf_sym_local [OF 1] p by simp
    ultimately show ?thesis using v that by blast
  next
    case 2
    then have "one_global (view t) \<Longrightarrow> one_global (view t1)"
      using elf.add_keeps_one_global [OF assms(1,2) p] i assms(3) by simp
    moreover have "set_elf_sym bss dynsym t val sz info other shndx name = Some (j, False, t1)"
      using set_elf_sym_new [OF 2(1)] i 2(2) p by simp
    ultimately show ?thesis using v that by blast
  next
    case 3
    show ?thesis
    proof (rule set_elf_sym_known [OF 3(1) i 3(2)])
      assume "set_elf_sym bss dynsym t val sz info other shndx name = Some (i, False, t)"
      then show ?thesis using that assms(1) by blast
    next
      fix tw e
      assume r: "set_elf_sym bss dynsym t val sz info other shndx name = Some (i, tw, patch_sym t i e)"
        and e: "st_name e = st_name (syms t ! i)" "bind_of e = bind_of (syms t ! i) \<or> bind_of e = ST_BIND info"
      have il: "i < length (view t)" "names_symbol name (view t ! i)"
        using elf.lookup_some [OF assms(1) i 3(2)] by simp_all
      then have b: "bind_of (syms t ! i) \<noteq> STB_LOCAL" "snd (view t ! i) = syms t ! i"
        by (simp_all add: names_symbol_def view_nth)
      have pre: "st_name e = st_name (snd (view t ! i))" "(bind_of e = STB_LOCAL) = (bind_of (snd (view t ! i)) = STB_LOCAL)"
        using e b 3(1) by auto
      show ?thesis
        using that r elf.patch_replaces [OF assms(1) il(1) pre] elf.patch_keeps_one_global [OF assms(1) il(1) pre] by blast
    qed
  qed
qed

section \<open>Strength of a definition\<close>

definition rank :: "u32 \<Rightarrow> u32 \<Rightarrow> u32 \<Rightarrow> nat" where
  "rank bss bnd shndx =
     (if shndx = SHN_UNDEF then 0
      else if bnd = STB_WEAK then 1
      else if shndx = SHN_COMMON \<or> shndx = bss then 2
      else 3)"

abbreviation rank_of :: "u32 \<Rightarrow> elf_sym \<Rightarrow> nat" where
  "rank_of bss e \<equiv> rank bss (bind_of e) (ucast (st_shndx e))"

lemma resolve_rank:
  assumes "bnd \<in> {STB_GLOBAL, STB_WEAK}" and "bind_of e \<in> {STB_GLOBAL, STB_WEAK}"
    and "vis \<noteq> STV_HIDDEN" "vis \<noteq> STV_INTERNAL"
    and "sint shndx < sint SHN_LORESERVE \<or> shndx = SHN_COMMON"
    and "\<not> dynsym" and "st_other e AND ST_ASM_SET = 0" and "ucast (st_shndx e) \<noteq> SHN_UNDEF"
  shows "resolve bss dynsym e bnd vis shndx =
     (if rank bss bnd shndx > rank_of bss e then Patch
      else if rank bss bnd shndx = 3 then Defined_twice else Keep_old)"
proof -
  have "\<not> sint SHN_COMMON < sint SHN_LORESERVE" by (simp add: elf_constants)
  moreover have "STB_GLOBAL \<noteq> STB_WEAK" by (simp add: elf_constants)
  ultimately show ?thesis using assms unfolding resolve_def rank_def by auto
qed

end
