(* ===== verification/ElfResolve.thy ===== *)
theory ElfResolve imports ElfSymbols
begin

text \<open>
  What the linker does with a finished symbol table: \<open>sort_syms\<close> with \<open>update_relocs\<close>,
  \<open>get_sym_attr\<close>, \<open>get_sym_addr\<close>, \<open>list_elf_symbols\<close> and \<open>relocate_syms\<close> of
  \<^verbatim>\<open>src/src/compiler/middleend/cprimeelf.c\<close>.
\<close>

section \<open>Sorting the symbols\<close>

record elf_rela =
  r_offset :: u64
  r_info :: u64
  r_addend :: u64

definition R_SYM :: "u64 \<Rightarrow> u64" where "R_SYM i = drop_bit 32 i"
definition R_TYPE :: "u64 \<Rightarrow> u64" where "R_TYPE i = i AND 0xffffffff"
definition R_INFO :: "u64 \<Rightarrow> u64 \<Rightarrow> u64" where "R_INFO s ty = push_bit 32 s + ty"

text \<open>\<open>sections\<close>: the relocations of each section that is a relocation section of this table.\<close>

definition update_rel :: "nat list \<Rightarrow> nat \<Rightarrow> elf_rela \<Rightarrow> elf_rela" where
  "update_rel old_to_new_syms first_sym rel =
     (let sym_index = unat (R_SYM (r_info rel)); ty = R_TYPE (r_info rel)
      in if sym_index < first_sym then rel
         else rel\<lparr>r_info := R_INFO (of_nat (old_to_new_syms ! (sym_index - first_sym))) ty\<rparr>)"

definition update_relocs :: "elf_rela list list \<Rightarrow> nat list \<Rightarrow> nat \<Rightarrow> elf_rela list list" where
  "update_relocs sections old_to_new_syms first_sym =
     List.map (List.map (update_rel old_to_new_syms first_sym)) sections"

fun sort_pass :: "(elf_sym \<Rightarrow> bool) \<Rightarrow> elf_sym list \<Rightarrow> nat \<Rightarrow> elf_sym list \<times> nat list \<Rightarrow> elf_sym list \<times> nat list" where
  "sort_pass want [] i (q, old_to_new_syms) = (q, old_to_new_syms)"
| "sort_pass want (p # ps) i (q, old_to_new_syms) =
     sort_pass want ps (i + 1)
       (if want p then (q @ [p], old_to_new_syms[i := length q]) else (q, old_to_new_syms))"

text \<open>The answer: the sorted table, the number of local symbols (which goes into \<open>sh_info\<close>
  when \<open>sh_size\<close> is set) and the relocations.\<close>

definition sort_syms :: "symtab \<Rightarrow> elf_rela list list \<Rightarrow> symtab \<times> nat \<times> elf_rela list list" where
  "sort_syms t sections =
     (let (q1, m1) = sort_pass (\<lambda>p. bind_of p = STB_LOCAL) (syms t) 0 ([], replicate (length (syms t)) 0);
          (q2, m2) = sort_pass (\<lambda>p. bind_of p \<noteq> STB_LOCAL) (syms t) 0 (q1, m1)
      in (t\<lparr>syms := q2\<rparr>, length q1, update_relocs sections m2 0))"

lemma sort_pass_spec:
  assumes "i + length ps \<le> length m"
  shows "fst (sort_pass want ps i (q, m)) = q @ filter want ps
    \<and> length (snd (sort_pass want ps i (q, m))) = length m
    \<and> (\<forall>j<length m. j < i \<or> i + length ps \<le> j \<longrightarrow> snd (sort_pass want ps i (q, m)) ! j = m ! j)
    \<and> (\<forall>k<length ps. if want (ps ! k)
         then snd (sort_pass want ps i (q, m)) ! (i + k) < length (q @ filter want ps)
            \<and> (q @ filter want ps) ! (snd (sort_pass want ps i (q, m)) ! (i + k)) = ps ! k
         else snd (sort_pass want ps i (q, m)) ! (i + k) = m ! (i + k))"
  using assms
proof (induction ps arbitrary: i q m)
  case Nil
  then show ?case by simp
next
  case (Cons p ps)
  let ?q = "if want p then q @ [p] else q" and ?m = "if want p then m[i := length q] else m"
  have s: "sort_pass want (p # ps) i (q, m) = sort_pass want ps (i + 1) (?q, ?m)" by simp
  have l: "i + 1 + length ps \<le> length ?m" using Cons.prems by auto
  note IH = Cons.IH [OF l, of ?q]
  have f: "?q @ filter want ps = q @ filter want (p # ps)" by simp
  let ?r = "snd (sort_pass want ps (i + 1) (?q, ?m))"
  have r: "?r ! j = ?m ! j" if "j < length m" "j < i + 1 \<or> i + 1 + length ps \<le> j" for j
    using IH that by auto
  have new: "if want ((p # ps) ! k) then ?r ! (i + k) < length (q @ filter want (p # ps))
      \<and> (q @ filter want (p # ps)) ! (?r ! (i + k)) = (p # ps) ! k else ?r ! (i + k) = m ! (i + k)"
    if "k < length (p # ps)" for k
  proof (cases k)
    case 0
    then show ?thesis using r [of i] Cons.prems by (cases "want p") (simp_all add: nth_append)
  next
    case (Suc k')
    then have k: "k' < length ps" "i + k = i + 1 + k'" using that by simp_all
    then show ?thesis using IH Suc by (auto simp: nth_list_update split: if_splits)
  qed
  have old: "?r ! j = m ! j" if "j < length m" "j < i \<or> i + length (p # ps) \<le> j" for j
    using r [of j] that by auto
  have "length ?r = length m" by (rule trans [OF conjunct1 [OF conjunct2 [OF IH]]]) simp
  then show ?case unfolding s using trans [OF conjunct1 [OF IH] f] new old by blast
qed

lemma sort_syms_order:
  defines "ss t \<equiv> filter (\<lambda>p. bind_of p = STB_LOCAL) (syms t) @ filter (\<lambda>p. bind_of p \<noteq> STB_LOCAL) (syms t)"
  obtains m where "sort_syms t sections = (t\<lparr>syms := ss t\<rparr>, length (filter (\<lambda>p. bind_of p = STB_LOCAL) (syms t)), update_relocs sections m 0)"
    "\<forall>i<length (syms t). m ! i < length (ss t) \<and> ss t ! (m ! i) = syms t ! i"
proof -
  let ?L = "\<lambda>p. bind_of p = STB_LOCAL" and ?G = "\<lambda>p. bind_of p \<noteq> STB_LOCAL"
  let ?n = "length (syms t)"
  obtain q1 m1 where 1: "sort_pass ?L (syms t) 0 ([], replicate ?n 0) = (q1, m1)" by fastforce
  obtain q2 m2 where 2: "sort_pass ?G (syms t) 0 (q1, m1) = (q2, m2)" by fastforce
  note p1 = sort_pass_spec [of 0 "syms t" "replicate ?n 0" ?L "[]"]
  have f1: "q1 = filter ?L (syms t)" "length m1 = ?n"
    "\<forall>k<?n. ?L (syms t ! k) \<longrightarrow> m1 ! k < length q1 \<and> q1 ! (m1 ! k) = syms t ! k"
    using p1 unfolding 1 by auto
  have f2: "q2 = q1 @ filter ?G (syms t)"
    "\<forall>k<?n. if ?G (syms t ! k) then m2 ! k < length q2 \<and> q2 ! (m2 ! k) = syms t ! k else m2 ! k = m1 ! k"
    using sort_pass_spec [of 0 "syms t" m1 ?G q1] f1(2) unfolding 2 by auto
  have "m2 ! k < length q2 \<and> q2 ! (m2 ! k) = syms t ! k" if "k < ?n" for k
    using f1(3) f2 that by (cases "?L (syms t ! k)") (auto simp: nth_append trans_less_add1)
  moreover have "ss t = q2" by (simp add: ss_def f1(1) f2(1))
  moreover have "sort_syms t sections = (t\<lparr>syms := q2\<rparr>, length q1, update_relocs sections m2 0)"
    by (simp add: sort_syms_def 1 2)
  ultimately show ?thesis using f1(1) by (intro that [of m2]) simp_all
qed

lemma R_INFO_fields:
  assumes "uint s < 4294967296"
  shows "R_SYM (R_INFO s (R_TYPE i)) = s" "R_TYPE (R_INFO s (R_TYPE i)) = R_TYPE i"
proof -
  have m: "(0xffffffff :: u64) = mask 32" by (simp add: mask_eq_exp_minus_1)
  have s: "bit s n \<Longrightarrow> n < 32" for n
  proof -
    assume b: "bit s n"
    have "s = take_bit 32 s" unfolding word_uint_eq_iff using assms by (simp add: unsigned_take_bit_eq take_bit_int_eq_self)
    then show "n < 32" using b by (metis bit_take_bit_iff)
  qed
  have d: "push_bit 32 s + R_TYPE i = push_bit 32 s OR R_TYPE i"
    by (rule disjunctive_add) (auto simp: R_TYPE_def m bit_simps)
  show "R_SYM (R_INFO s (R_TYPE i)) = s" "R_TYPE (R_INFO s (R_TYPE i)) = R_TYPE i"
    unfolding R_INFO_def d
    by (rule bit_word_eqI, use s in \<open>force simp: R_SYM_def R_TYPE_def m bit_simps\<close>)+
qed

lemma sort_syms_relocs:
  assumes "length (syms t) < 2 ^ 32"
    and "sort_syms t sections = (t', n, sections')"
    and "sec < length sections" and "k < length (sections ! sec)"
    and "unat (R_SYM (r_info (sections ! sec ! k))) < length (syms t)"
  shows "syms t' ! unat (R_SYM (r_info (sections' ! sec ! k))) = syms t ! unat (R_SYM (r_info (sections ! sec ! k)))
    \<and> R_TYPE (r_info (sections' ! sec ! k)) = R_TYPE (r_info (sections ! sec ! k))
    \<and> r_offset (sections' ! sec ! k) = r_offset (sections ! sec ! k)
    \<and> r_addend (sections' ! sec ! k) = r_addend (sections ! sec ! k)"
proof -
  let ?L = "\<lambda>p. bind_of p = STB_LOCAL" and ?G = "\<lambda>p. bind_of p \<noteq> STB_LOCAL"
  let ?ss = "filter ?L (syms t) @ filter ?G (syms t)"
  let ?rel = "sections ! sec ! k"
  let ?i = "unat (R_SYM (r_info ?rel))"
  obtain m where m: "sort_syms t sections = (t\<lparr>syms := ?ss\<rparr>, length (filter ?L (syms t)), update_relocs sections m 0)"
    "\<forall>i<length (syms t). m ! i < length ?ss \<and> ?ss ! (m ! i) = syms t ! i"
    by (rule sort_syms_order)
  have len: "length ?ss = length (syms t)"
    using sum_length_filter_compl [of ?L "syms t"] by simp
  then have mi: "m ! ?i < 2 ^ 32" "?ss ! (m ! ?i) = syms t ! ?i" using m(2) assms(1,5) by (auto simp: order_less_trans)
  have n: "sections' ! sec ! k = ?rel\<lparr>r_info := R_INFO (of_nat (m ! ?i)) (R_TYPE (r_info ?rel))\<rparr>"
    using m(1) assms(2-4) by (simp add: update_relocs_def update_rel_def Let_def)
  have u: "unat (of_nat (m ! ?i) :: u64) = m ! ?i" using mi(1) by (simp add: unat_of_nat)
  have "uint (of_nat (m ! ?i) :: u64) < 4294967296" using mi(1) by (simp add: uint_nat u)
  note f = R_INFO_fields [OF this]
  show ?thesis unfolding n using f u mi(2) m(1) assms(2) by simp
qed

section \<open>Attributes and addresses of symbols\<close>

record sym_attr =
  got_offset :: u32
  plt_offset :: u32
  plt_sym :: int
  dyn_index :: int

definition no_attr :: sym_attr where
  "no_attr = \<lparr>got_offset = 0, plt_offset = 0, plt_sym = 0, dyn_index = 0\<rparr>"

function power_above :: "nat \<Rightarrow> nat \<Rightarrow> nat" where
  "power_above index n = (if 0 < n \<and> n \<le> index then power_above index (n * 2) else n)"
  by pat_completeness auto
termination by (relation "measure (\<lambda>(index, n). Suc index - n)") auto

declare power_above.simps [simp del]

lemma power_above_gt: "0 < n \<Longrightarrow> index < power_above index n"
  by (induction index n rule: power_above.induct) (subst power_above.simps, auto)

text \<open>The answer: the index the returned pointer designates, and the array.\<close>

definition get_sym_attr :: "sym_attr list \<Rightarrow> nat \<Rightarrow> bool \<Rightarrow> nat \<times> sym_attr list" where
  "get_sym_attr sym_attrs index alloc =
     (if index \<ge> length sym_attrs then
        if \<not> alloc then (0, sym_attrs)
        else (index, sym_attrs @ replicate (power_above index 1 - length sym_attrs) no_attr)
      else (index, sym_attrs))"

text \<open>\<open>forc\<close>: decorate the name; the buffer of 256 bytes keeps 254 of its characters.  The second
  part of the answer tells whether \<open>%s not defined\<close> was reported.\<close>

definition get_sym_addr :: "bool \<Rightarrow> symtab \<Rightarrow> u8 list \<Rightarrow> bool \<Rightarrow> bool \<Rightarrow> (u64 \<times> bool) option" where
  "get_sym_addr leading_underscore t name0 err forc =
     (let name = (if forc \<and> leading_underscore \<and> 0x40 \<notin> set name0 then 0x5f # take 254 name0 else name0)
      in case find_elf_sym t name of
           None \<Rightarrow> None
         | Some sym_index \<Rightarrow>
             let e = syms t ! sym_index
             in if sym_index = 0 \<or> ucast (st_shndx e) = SHN_UNDEF then Some (- 1, err)
                else Some (st_value e, False))"

definition list_elf_symbols :: "symtab \<Rightarrow> (u8 list \<times> u64) list" where
  "list_elf_symbols t =
     List.map (\<lambda>e. (c_string (strtab t) (st_name e), st_value e))
       (filter (\<lambda>e. st_value e \<noteq> 0 \<and> bind_of e = STB_GLOBAL \<and> ST_VISIBILITY (ucast (st_other e)) = STV_DEFAULT) (syms t))"

section \<open>Resolving the symbols\<close>

text \<open>\<open>_fp_hw\<close>.\<close>

definition fp_hw :: "u8 list" where "fp_hw = [0x5f, 0x66, 0x70, 0x5f, 0x68, 0x77]"

text \<open>The build for Windows, where \<open>do_resolve\<close> does not ask the running process. \<open>bases\<close> are the
  addresses of the sections, \<open>bytes\<close> the string table of \<open>s1->symtab\<close>; the names for which
  \<open>undefined symbol\<close> is reported are collected in order.\<close>

fun relocate_syms_loop ::
  "nat \<Rightarrow> symtab option \<Rightarrow> (nat \<Rightarrow> u64) \<Rightarrow> u8 list \<Rightarrow> elf_sym list \<Rightarrow> (elf_sym list \<times> u8 list list) option" where
  "relocate_syms_loop do_resolve dynsym bases bytes [] = Some ([], [])"
| "relocate_syms_loop do_resolve dynsym bases bytes (e # es) =
     (let name = c_string bytes (st_name e);
          keep = map_option (\<lambda>(es', undef). (e # es', undef));
          rest = relocate_syms_loop do_resolve dynsym bases bytes es;
          unresolved =
            (if name = fp_hw then keep rest
             else if bind_of e = STB_WEAK then map_option (\<lambda>(es', undef). (e\<lparr>st_value := 0\<rparr> # es', undef)) rest
             else map_option (\<lambda>(es', undef). (e # es', name # undef)) rest)
      in if ucast (st_shndx e) = SHN_UNDEF then
           if do_resolve = 2 then keep rest
           else if do_resolve \<noteq> 0 then unresolved
           else (case dynsym of
                   None \<Rightarrow> unresolved
                 | Some d \<Rightarrow>
                     (case find_elf_sym d name of
                        None \<Rightarrow> None
                      | Some i \<Rightarrow> if i \<noteq> 0 then keep rest else unresolved))
         else if (ucast (st_shndx e) :: u32) < SHN_LORESERVE then
           map_option (\<lambda>(es', undef). (e\<lparr>st_value := st_value e + bases (unat (st_shndx e))\<rparr> # es', undef)) rest
         else keep rest)"

definition relocate_syms ::
  "nat \<Rightarrow> symtab option \<Rightarrow> (nat \<Rightarrow> u64) \<Rightarrow> u8 list \<Rightarrow> symtab \<Rightarrow> (symtab \<times> u8 list list) option" where
  "relocate_syms do_resolve dynsym bases bytes t =
     map_option (\<lambda>(es, undef). (t\<lparr>syms := hd (syms t) # es\<rparr>, undef))
       (relocate_syms_loop do_resolve dynsym bases bytes (tl (syms t)))"

end
