(* ===== verification/ElfSpec.thy ===== *)
theory ElfSpec imports ElfSection ElfResolve
begin

text \<open>
  The properties of sections and symbol tables: lookups of the hash table against the list of symbols,
  which definition of a name wins, sorting, the report of undefined symbols, and the space reserved
  in a section.
\<close>

section \<open>Tables the compiler builds\<close>

text \<open>The tables reached from a new one by \<open>set_elf_sym\<close> and by adding local symbols.\<close>

inductive elf_table :: "u32 \<Rightarrow> bool \<Rightarrow> symtab \<Rightarrow> bool" for bss dynsym where
  init: "elf_table bss dynsym init_symtab"
| set: "elf_table bss dynsym t \<Longrightarrow> 0 \<notin> set name \<Longrightarrow> ST_BIND info = STB_LOCAL \<or> name \<noteq> [] \<Longrightarrow>
    set_elf_sym bss dynsym t val sz info other shndx name = Some (i, tw, t') \<Longrightarrow> elf_table bss dynsym t'"
| put: "elf_table bss dynsym t \<Longrightarrow> 0 \<notin> set name \<Longrightarrow> ST_BIND info = STB_LOCAL \<Longrightarrow>
    put_elf_sym t val sz info other shndx name = (i, t') \<Longrightarrow> elf_table bss dynsym t'"

lemma init_one_global: "one_global (view init_symtab)"
  by (simp add: one_global_def view_def init_symtab_def)

lemma elf_table_valid:
  assumes "elf_table bss dynsym t"
  shows "valid_symtab t \<and> one_global (view t)"
  using assms
proof induction
  case init
  show ?case using init_valid init_one_global by blast
next
  case (set t name info val sz other shndx i tw t')
  obtain i1 tw1 t1 where "set_elf_sym bss dynsym t val sz info other shndx name = Some (i1, tw1, t1)"
    "valid_symtab t1" "one_global (view t) \<Longrightarrow> one_global (view t1)"
    using set_elf_sym_valid [OF conjunct1 [OF set.IH] set.hyps(2,3)] by metis
  then show ?case using set by simp
next
  case (put t name info val sz other shndx i t')
  have "valid_symtab t" "one_global (view t)" using put.IH by simp_all
  then show ?case
    using elf.add_appends [OF _ put.hyps(2,4)] elf.add_keeps_one_global [OF _ put.hyps(2,4)] put.hyps(3) by blast
qed

lemma visibility_keeps_asm_set:
  "(x AND NOT 3 OR ucast (new_visibility (ST_VISIBILITY a) (ST_VISIBILITY b))) AND ST_ASM_SET = x AND ST_ASM_SET"
proof -
  have n: "ucast (v AND 3 :: u32) AND ST_ASM_SET = 0" for v
  proof -
    have "ucast (v AND 3 :: u32) = (ucast v AND 3 :: u8)" by (simp add: unsigned_and_eq)
    then show ?thesis by (simp add: ST_ASM_SET_def and.assoc)
  qed
  have "ucast (new_visibility (ST_VISIBILITY a) (ST_VISIBILITY b)) AND ST_ASM_SET = 0"
    using n by (simp add: new_visibility_def ST_VISIBILITY_def)
  moreover have "(x AND NOT 3) AND ST_ASM_SET = x AND ST_ASM_SET" by (simp add: ST_ASM_SET_def and.assoc)
  ultimately show ?thesis by (simp add: bit.conj_disj_distrib2)
qed

definition name_f :: "u8 list" where "name_f = [0x66]"

lemma f_hash: "unat (elf_hash name_f) mod 1 = 0" by simp

definition table_f :: symtab where
  "table_f = snd (put_elf_sym init_symtab 5 8 0x12 0 1 name_f)"

lemma table_f: "set_elf_sym 3 False init_symtab 5 8 0x12 0 1 name_f = Some (1, False, table_f)"
proof -
  have l: "find_elf_sym init_symtab name_f = Some 0"
    unfolding find_elf_sym_last [OF init_valid]
    by (simp add: last_symbol_def view_def init_symtab_def)
  have b: "ST_BIND 0x12 = 1" by (simp add: ST_BIND_def)
  have i: "ST_INFO 1 (ST_TYPE 0x12) = 0x12" by (simp add: ST_INFO_def ST_TYPE_def)
  have "fst (put_elf_sym init_symtab 5 8 0x12 0 1 name_f) = 1"
    using put_elf_sym_spec(1) [OF init_valid] by (simp add: name_f_def init_symtab_def)
  then show ?thesis
    using set_elf_sym_new [OF _ l, of "0x12"] b i
    by (cases "put_elf_sym init_symtab 5 8 0x12 0 1 name_f") (simp add: table_f_def elf_constants)
qed

lemma table_f_view: "view table_f = [([], null_sym), (name_f, \<lparr>st_name = 1, st_info = 0x12, st_other = 0, st_shndx = 1, st_value = 5, st_size = 8\<rparr>)]"
  by (simp add: table_f_def put_elf_sym_def Let_def init_symtab_def put_elf_str_def name_f_def view_def c_string_def
      null_sym_def ST_BIND_def elf_constants)

lemma table_f_reached: "elf_table 3 False table_f"
  by (rule elf_table.set [OF elf_table.init _ _ table_f]) (simp_all add: name_f_def)



text \<open>C18: adding a definition of a global name that the table has keeps the strongest one: undefined is
  weaker than weak, weak than common or bss, and these than other sections; the first of two of
  the same strength stays, and \<open>defined twice\<close> is reported exactly for two different strong ones.\<close>

theorem set_elf_sym_strongest:
  fixes other :: u32
  assumes "valid_symtab t" and "find_elf_sym t name = Some i" and "i \<noteq> 0"
    and "ST_BIND info \<in> {STB_GLOBAL, STB_WEAK}" and "bind_of (syms t ! i) \<in> {STB_GLOBAL, STB_WEAK}"
    and "ST_VISIBILITY other \<notin> {STV_HIDDEN, STV_INTERNAL}"
    and "shndx < SHN_LORESERVE \<or> shndx = SHN_COMMON" and "st_other (syms t ! i) AND ST_ASM_SET = 0"
  shows "\<exists>tw t'. set_elf_sym bss False t val sz info other shndx name = Some (i, tw, t')
    \<and> rank_of bss (syms t' ! i) = max (rank_of bss (syms t ! i)) (rank bss (ST_BIND info) shndx)
    \<and> (tw \<longleftrightarrow> rank_of bss (syms t ! i) = 3 \<and> rank bss (ST_BIND info) shndx = 3
         \<and> \<not> (st_value (syms t ! i) = val \<and> st_size (syms t ! i) = ucast sz \<and> ucast (st_info (syms t ! i)) = info
              \<and> ucast (st_other (syms t ! i)) = other \<and> ucast (st_shndx (syms t ! i)) = shndx))
    \<and> (if rank_of bss (syms t ! i) < rank bss (ST_BIND info) shndx
       then st_value (syms t' ! i) = val \<and> st_size (syms t' ! i) = ucast sz \<and> ucast (st_shndx (syms t' ! i)) = shndx
       else 0 < rank_of bss (syms t ! i) \<longrightarrow> st_value (syms t' ! i) = st_value (syms t ! i)
         \<and> st_size (syms t' ! i) = st_size (syms t ! i) \<and> st_shndx (syms t' ! i) = st_shndx (syms t ! i))
    \<and> (\<forall>j. j \<noteq> i \<longrightarrow> syms t' ! j = syms t ! j)"
proof -
  let ?e = "syms t ! i" and ?new = "rank bss (ST_BIND info) shndx"
  have i: "i < length (syms t)" using elf.lookup_some(1) [OF assms(1-3)] by (simp add: view_nth)
  have sh: "uint shndx < 65536"
    using assms(7) unfolding elf_constants by (auto simp: word_less_def)
  note u = ucast_u16 [OF sh]
  have r: "sint shndx < sint SHN_LORESERVE \<or> shndx = SHN_COMMON"
  proof -
    have "sint shndx = uint shndx" using sh signed_take_bit_int_eq_self [of 31 "uint shndx"] uint_ge_0 [of shndx] by (simp add: sint_uint)
    moreover have "sint SHN_LORESERVE = uint SHN_LORESERVE" by (simp add: elf_constants)
    ultimately show ?thesis using assms(7) by (simp add: word_less_def)
  qed
  have local: "ST_BIND info \<noteq> STB_LOCAL" using assms(4) by (auto simp: elf_constants)
  show ?thesis
  proof (cases "st_value ?e = val \<and> st_size ?e = ucast sz \<and> ucast (st_info ?e) = info
      \<and> ucast (st_other ?e) = other \<and> ucast (st_shndx ?e) = shndx")
    case True
    then have "set_elf_sym bss False t val sz info other shndx name = Some (i, False, t)"
      using assms(2,3) local by (simp add: set_elf_sym_def Let_def)
    moreover have "rank_of bss ?e = ?new" using True by auto
    ultimately show ?thesis using True by auto
  next
    case new: False
    show ?thesis
    proof (cases "ucast (st_shndx ?e) = SHN_UNDEF")
      case True
      let ?p = "?e\<lparr>st_other := ucast other, st_info := ucast (ST_INFO (ST_BIND info) (ST_TYPE info)),
             st_shndx := ucast shndx, st_value := val, st_size := ucast sz\<rparr>"
      have s: "set_elf_sym bss False t val sz info other shndx name = Some (i, False, patch_sym t i ?p)"
        unfolding set_elf_sym_def Let_def assms(2) option.case using local assms(3) new True
        by (simp only: if_False if_True simp_thms)
      have "rank_of bss ?e = 0" using True by (simp add: rank_def)
      moreover have "rank_of bss ?p = ?new" by (simp add: ST_INFO_bind u)
      ultimately show ?thesis using s i u by (intro exI [of _ False] exI [of _ "patch_sym t i ?p"]) (simp add: patch_sym_def)
    next
      case def: False
      define e1 where "e1 = ?e\<lparr>st_other := (st_other ?e AND NOT 3) OR
          ucast (new_visibility (ST_VISIBILITY (ucast (st_other ?e))) (ST_VISIBILITY other))\<rparr>"
      have e1: "bind_of e1 = bind_of ?e" "st_shndx e1 = st_shndx ?e" "st_value e1 = st_value ?e" "st_size e1 = st_size ?e"
        "st_other e1 AND ST_ASM_SET = 0"
        using assms(8) visibility_keeps_asm_set by (simp_all add: e1_def)
      have s: "set_elf_sym bss False t val sz info other shndx name =
          (case resolve bss False e1 (ST_BIND info) (ST_VISIBILITY other) shndx of
                          Keep_old \<Rightarrow> Some (i, False, patch_sym t i e1)
                        | Patch \<Rightarrow> Some (i, False, patch_sym t i (e1\<lparr>st_info := ucast (ST_INFO (ST_BIND info) (ST_TYPE info)),
                            st_shndx := ucast shndx, st_value := val, st_size := ucast sz\<rparr>))
                        | Defined_twice \<Rightarrow> Some (i, True, patch_sym t i e1))"
        unfolding set_elf_sym_def Let_def e1_def assms(2) option.case using local assms(3) new def
        by (simp only: if_False if_True simp_thms)
      have res: "resolve bss False e1 (ST_BIND info) (ST_VISIBILITY other) shndx =
          (if ?new > rank_of bss ?e then Patch else if ?new = 3 then Defined_twice else Keep_old)"
        using resolve_rank [of "ST_BIND info" e1 "ST_VISIBILITY other" shndx False bss] assms(4-6) r def e1 by simp
      have le: "rank_of bss ?e \<le> 3" by (simp add: rank_def)
      show ?thesis
      proof (cases "?new > rank_of bss ?e")
        case True
        let ?p = "e1\<lparr>st_info := ucast (ST_INFO (ST_BIND info) (ST_TYPE info)),
            st_shndx := ucast shndx, st_value := val, st_size := ucast sz\<rparr>"
        have "rank_of bss ?p = ?new" by (simp add: ST_INFO_bind u)
        then show ?thesis using s res True i u
          by (intro exI [of _ False] exI [of _ "patch_sym t i ?p"]) (simp add: patch_sym_def)
      next
        case False
        then show ?thesis using s res i e1 le
          by (intro exI [of _ "?new = 3"] exI [of _ "patch_sym t i e1"]) (auto simp: patch_sym_def new)
      qed
    qed
  qed
qed

theorem set_elf_sym_strongest_witness:
  "\<exists>t'. set_elf_sym 3 False table_f 9 8 0x12 0 1 name_f = Some (1, True, t') \<and> st_value (syms t' ! 1) = 5"
proof -
  have v: "valid_symtab table_f" using elf_table_valid [OF table_f_reached] by simp
  have f: "find_elf_sym table_f name_f = Some 1"
    unfolding find_elf_sym_last [OF v] table_f_view by (simp add: last_symbol_def names_symbol_def ST_BIND_def elf_constants)
  have e: "syms table_f ! 1 = \<lparr>st_name = 1, st_info = 0x12, st_other = 0, st_shndx = 1, st_value = 5, st_size = 8\<rparr>"
    using arg_cong [OF table_f_view, of "\<lambda>l. snd (l ! 1)"] by (simp add: table_f_def put_elf_sym_def Let_def init_symtab_def
      put_elf_str_def name_f_def ST_BIND_def elf_constants)
  have b: "ST_BIND 0x12 = 1" by (simp add: ST_BIND_def)
  have "\<exists>tw t'. set_elf_sym 3 False table_f 9 8 0x12 0 1 name_f = Some (1, tw, t') \<and> tw \<and> st_value (syms t' ! 1) = 5"
    using set_elf_sym_strongest [OF v f, of "0x12" 0 1 3 9 8] unfolding e
    by (simp add: b elf_constants ST_VISIBILITY_def rank_def) fastforce
  then show ?thesis by auto
qed

text \<open>C19: \<open>sort_syms\<close> puts the local symbols first, keeps the order within both groups, says how many are
  local, and renumbers the relocations so that each refers to the symbol it referred to.\<close>

theorem sort_syms_equivalent:
  assumes "length (syms t) < 2 ^ 32" and "sort_syms t sections = (t', n, sections')"
    and "\<forall>rels\<in>set sections. \<forall>rel\<in>set rels. unat (R_SYM (r_info rel)) < length (syms t)"
  shows "syms t' = filter (\<lambda>p. bind_of p = STB_LOCAL) (syms t) @ filter (\<lambda>p. bind_of p \<noteq> STB_LOCAL) (syms t)
    \<and> n = length (filter (\<lambda>p. bind_of p = STB_LOCAL) (syms t))
    \<and> List.map (List.map (\<lambda>rel. (r_offset rel, syms t' ! unat (R_SYM (r_info rel)), R_TYPE (r_info rel), r_addend rel))) sections'
      = List.map (List.map (\<lambda>rel. (r_offset rel, syms t ! unat (R_SYM (r_info rel)), R_TYPE (r_info rel), r_addend rel))) sections"
proof (intro conjI)
  obtain m where m: "sort_syms t sections = (t\<lparr>syms := filter (\<lambda>p. bind_of p = STB_LOCAL) (syms t)
      @ filter (\<lambda>p. bind_of p \<noteq> STB_LOCAL) (syms t)\<rparr>, length (filter (\<lambda>p. bind_of p = STB_LOCAL) (syms t)), update_relocs sections m 0)"
    by (rule sort_syms_order)
  show "syms t' = filter (\<lambda>p. bind_of p = STB_LOCAL) (syms t) @ filter (\<lambda>p. bind_of p \<noteq> STB_LOCAL) (syms t)"
    "n = length (filter (\<lambda>p. bind_of p = STB_LOCAL) (syms t))"
    using m assms(2) by auto
  have l: "length sections' = length sections" "\<And>i. i < length sections \<Longrightarrow> length (sections' ! i) = length (sections ! i)"
    using m assms(2) by (auto simp: update_relocs_def)
  show "List.map (List.map (\<lambda>rel. (r_offset rel, syms t' ! unat (R_SYM (r_info rel)), R_TYPE (r_info rel), r_addend rel))) sections'
      = List.map (List.map (\<lambda>rel. (r_offset rel, syms t ! unat (R_SYM (r_info rel)), R_TYPE (r_info rel), r_addend rel))) sections"
  proof (rule nth_equalityI)
    fix i assume "i < length (List.map (List.map (\<lambda>rel. (r_offset rel, syms t' ! unat (R_SYM (r_info rel)), R_TYPE (r_info rel), r_addend rel))) sections')"
    then have i: "i < length sections" using l by simp
    have "unat (R_SYM (r_info (sections ! i ! k))) < length (syms t)" if "k < length (sections ! i)" for k
      using assms(3) nth_mem [OF i] nth_mem [OF that] by blast
    then show "List.map (List.map (\<lambda>rel. (r_offset rel, syms t' ! unat (R_SYM (r_info rel)), R_TYPE (r_info rel), r_addend rel))) sections' ! i
      = List.map (List.map (\<lambda>rel. (r_offset rel, syms t ! unat (R_SYM (r_info rel)), R_TYPE (r_info rel), r_addend rel))) sections ! i"
      using i l sort_syms_relocs [OF assms(1,2) i] by (simp, intro nth_equalityI) simp_all
  qed (use l in simp)
qed

theorem sort_syms_equivalent_witness:
  "\<exists>t' n sections'. sort_syms table_f [[\<lparr>r_offset = 4, r_info = 0x100000002, r_addend = 0\<rparr>]] = (t', n, sections')
    \<and> n = 1 \<and> syms t' ! unat (R_SYM (r_info (sections' ! 0 ! 0))) = syms table_f ! 1"
proof -
  let ?s = "[[\<lparr>r_offset = 4, r_info = 0x100000002, r_addend = 0\<rparr>]]"
  have ss: "syms table_f = [null_sym, \<lparr>st_name = 1, st_info = 0x12, st_other = 0, st_shndx = 1, st_value = 5, st_size = 8\<rparr>]"
    using arg_cong [OF table_f_view, of "List.map snd"] by (simp add: view_def o_def)
  obtain t' n s' where e: "sort_syms table_f ?s = (t', n, s')" by (cases "sort_syms table_f ?s") auto
  have b: "bind_of null_sym = STB_LOCAL" "ST_BIND 0x12 \<noteq> STB_LOCAL" by (simp_all add: null_sym_def ST_BIND_def elf_constants)
  have r: "unat (R_SYM 0x100000002) = 1" by (simp add: R_SYM_def)
  have "length (syms table_f) < 2 ^ 32" "\<forall>rels\<in>set ?s. \<forall>rel\<in>set rels. unat (R_SYM (r_info rel)) < length (syms table_f)"
    by (simp_all add: ss r)
  note th = sort_syms_equivalent [OF this(1) e this(2)]
  have n: "n = length (filter (\<lambda>p. bind_of p = STB_LOCAL) (syms table_f))" using th by blast
  have "List.map (List.map (\<lambda>rel. (r_offset rel, syms t' ! unat (R_SYM (r_info rel)), R_TYPE (r_info rel), r_addend rel))) s'
      = List.map (List.map (\<lambda>rel. (r_offset rel, syms table_f ! unat (R_SYM (r_info rel)), R_TYPE (r_info rel), r_addend rel))) ?s"
    using th by blast
  then have "syms t' ! unat (R_SYM (r_info (s' ! 0 ! 0))) = syms table_f ! 1"
    by (auto simp: map_eq_Cons_conv r)
  moreover have "n = 1" by (simp add: n ss b)
  ultimately show ?thesis using e by blast
qed

definition unresolved :: "nat \<Rightarrow> symtab \<Rightarrow> u8 list \<Rightarrow> elf_sym \<Rightarrow> bool" where
  "unresolved do_resolve d bytes e \<longleftrightarrow> ucast (st_shndx e) = SHN_UNDEF \<and> bind_of e \<noteq> STB_WEAK
     \<and> c_string bytes (st_name e) \<noteq> fp_hw
     \<and> (do_resolve = 0 \<longrightarrow> last_symbol (c_string bytes (st_name e)) (view d) = 0)"

lemma relocate_syms_loop_spec:
  assumes "valid_symtab d" and "do_resolve \<noteq> 2"
  shows "\<exists>es'. relocate_syms_loop do_resolve (Some d) bases bytes es
      = Some (es', List.map (\<lambda>e. c_string bytes (st_name e)) (filter (unresolved do_resolve d bytes) es))
    \<and> list_all2 (\<lambda>e e'. st_name e' = st_name e \<and> st_info e' = st_info e \<and> st_shndx e' = st_shndx e \<and>
         (ucast (st_shndx e) \<noteq> SHN_UNDEF \<and> (ucast (st_shndx e) :: u32) < SHN_LORESERVE \<longrightarrow>
           st_value e' = st_value e + bases (unat (st_shndx e)))) es es'"
proof (induction es)
  case Nil
  then show ?case by simp
next
  case (Cons e es)
  then obtain es' where es': "relocate_syms_loop do_resolve (Some d) bases bytes es
      = Some (es', List.map (\<lambda>e. c_string bytes (st_name e)) (filter (unresolved do_resolve d bytes) es))"
    "list_all2 (\<lambda>e e'. st_name e' = st_name e \<and> st_info e' = st_info e \<and> st_shndx e' = st_shndx e \<and>
         (ucast (st_shndx e) \<noteq> SHN_UNDEF \<and> (ucast (st_shndx e) :: u32) < SHN_LORESERVE \<longrightarrow>
           st_value e' = st_value e + bases (unat (st_shndx e)))) es es'" by blast
  then show ?case using assms
    by (auto simp: Let_def find_elf_sym_last unresolved_def [of do_resolve d bytes e] split: if_splits)
qed



section \<open>Sections\<close>

text \<open>Growing a section returns exactly for the sizes up to 2 GiB; a larger size makes \<open>section_realloc\<close>
  double for ever, since \<open>unsigned long\<close> has 32 bits on Windows.\<close>

theorem section_realloc_ends_iff:
  assumes "valid_section sec"
  shows "(\<exists>sec'. section_realloc sec n = Some sec') \<longleftrightarrow> unat n \<le> 2 ^ 31"
proof
  assume "unat n \<le> 2 ^ 31"
  then show "\<exists>sec'. section_realloc sec n = Some sec'" using section_realloc_grows [OF assms] by metis
next
  let ?c = "if data_allocated sec = 0 then 1 else data_allocated sec"
  assume "\<exists>sec'. section_realloc sec n = Some sec'"
  then obtain m where m: "double_until ?c n = Some m"
    unfolding section_realloc_def by (auto split: option.splits)
  have "\<exists>k. unat ?c = 2 ^ k"
  proof (cases "sec_data sec = []")
    case True
    then show ?thesis by (auto simp: data_allocated_def intro: exI [of _ 0])
  next
    case False
    then obtain k where "length (sec_data sec) = 2 ^ k" using assms by (auto simp: valid_section_def)
    then have "unat (data_allocated sec) = 2 ^ k" "data_allocated sec \<noteq> 0"
      using data_allocated_unat [OF assms] by force+
    then show ?thesis by auto
  qed
  then show "unat n \<le> 2 ^ 31" using double_until_bounded [OF m] by blast
qed

theorem section_realloc_ends_iff_witness:
  "section_realloc \<lparr>sec_data = [], data_offset = 0, sh_nobits = False, sh_addralign = 1\<rparr> 0x80000001 = None"
  using section_realloc_ends_iff [of "\<lparr>sec_data = [], data_offset = 0, sh_nobits = False, sh_addralign = 1\<rparr>" "0x80000001"]
  by (simp add: valid_section_def)

text \<open>Space reserved in a section is aligned, starts where the last ended or less than the alignment after it,
  lies inside the memory of the section, and what the section held stays.\<close>

theorem section_add_disjoint:
  assumes "valid_section sec" and "a < 31" and "uint (data_offset sec) + 2 ^ a + uint sz \<le> 2 ^ 31"
  shows "\<exists>off sec'. section_add sec sz (2 ^ a) = Some (off, sec') \<and> 2 ^ a dvd uint off
    \<and> uint (data_offset sec) \<le> uint off \<and> uint off < uint (data_offset sec) + 2 ^ a
    \<and> uint (data_offset sec') = uint off + uint sz
    \<and> take (length (sec_data sec)) (sec_data sec') = sec_data sec \<and> valid_section sec'"
  by (rule section_add_reserves [OF assms])

theorem section_add_disjoint_witness:
  "\<exists>off sec'. section_add \<lparr>sec_data = [7], data_offset = 1, sh_nobits = False, sh_addralign = 1\<rparr> 4 8 = Some (off, sec')
    \<and> uint (data_offset sec') = uint off + 4"
proof -
  let ?s = "\<lparr>sec_data = [7], data_offset = 1, sh_nobits = False, sh_addralign = 1\<rparr>"
  have v: "valid_section ?s" unfolding valid_section_def by (auto intro: exI [of _ "0 :: nat"])
  have "uint (data_offset ?s) + 2 ^ 3 + uint (4 :: u64) \<le> 2 ^ 31" "(3 :: nat) < 31" by simp_all
  from section_add_disjoint [OF v this(2,1)] obtain off sec' where
    "section_add ?s 4 (2 ^ 3) = Some (off, sec')" "uint (data_offset sec') = uint off + uint (4 :: u64)" by blast
  then show ?thesis by (intro exI [of _ off] exI [of _ sec']) simp
qed

end
