(* ===== verification/LittleEndian.thy ===== *)
theory LittleEndian imports Prelude
begin

text \<open>
  The little-endian fields of machine code: \<open>read16le\<close> to \<open>add64le\<close> of
  \<^verbatim>\<open>src/src/include/cprime/cprime.h\<close>, as functions on the bytes of a section.  The locale
  \<open>byte_field\<close> states what reading and writing a field promise; \<open>byte_field_pair\<close> builds the field of twice
  the size from two halves, as the code does, and is interpreted for 16, 32 and 64 bits.
\<close>

section \<open>Fields\<close>

definition read16le :: "u8 list \<Rightarrow> nat \<Rightarrow> u16" where
  "read16le bs p = ucast (bs ! p) OR push_bit 8 (ucast (bs ! (p + 1)))"

definition write16le :: "u8 list \<Rightarrow> nat \<Rightarrow> u16 \<Rightarrow> u8 list" where
  "write16le bs p x = (bs[p := ucast (x AND 255)])[p + 1 := ucast (drop_bit 8 x AND 255)]"

definition read32le :: "u8 list \<Rightarrow> nat \<Rightarrow> u32" where
  "read32le bs p = ucast (read16le bs p) OR push_bit 16 (ucast (read16le bs (p + 2)))"

definition write32le :: "u8 list \<Rightarrow> nat \<Rightarrow> u32 \<Rightarrow> u8 list" where
  "write32le bs p x = write16le (write16le bs p (ucast x)) (p + 2) (ucast (drop_bit 16 x))"

definition add32le :: "u8 list \<Rightarrow> nat \<Rightarrow> u32 \<Rightarrow> u8 list" where
  "add32le bs p x = write32le bs p (read32le bs p + x)"

definition read64le :: "u8 list \<Rightarrow> nat \<Rightarrow> u64" where
  "read64le bs p = ucast (read32le bs p) OR push_bit 32 (ucast (read32le bs (p + 4)))"

definition write64le :: "u8 list \<Rightarrow> nat \<Rightarrow> u64 \<Rightarrow> u8 list" where
  "write64le bs p x = write32le (write32le bs p (ucast x)) (p + 4) (ucast (drop_bit 32 x))"

definition add64le :: "u8 list \<Rightarrow> nat \<Rightarrow> u64 \<Rightarrow> u8 list" where
  "add64le bs p x = write64le bs p (read64le bs p + x)"

section \<open>Halves of a word\<close>

lemma join_low:
  "LENGTH('b::len) = 2 * LENGTH('a::len) \<Longrightarrow>
    ucast (ucast lo OR push_bit LENGTH('a) (ucast hi) :: 'b word) = (lo :: 'a word)"
  by (rule bit_word_eqI) (simp add: bit_simps)

lemma join_high:
  assumes "LENGTH('b::len) = 2 * LENGTH('a::len)"
  shows "ucast (drop_bit LENGTH('a) (ucast (lo :: 'a word) OR push_bit LENGTH('a) (ucast hi) :: 'b word)) = (hi :: 'a word)"
proof -
  have "\<not> bit lo (LENGTH('a) + n)" for n by (metis bit_imp_le_length not_add_less1)
  then show ?thesis using assms by (intro bit_word_eqI) (simp add: bit_simps)
qed

lemma join_split:
  "LENGTH('b::len) = 2 * LENGTH('a::len) \<Longrightarrow>
    ucast (ucast x :: 'a word) OR push_bit LENGTH('a) (ucast (ucast (drop_bit LENGTH('a) x) :: 'a word)) = (x :: 'b word)"
  by (rule bit_word_eqI) (auto simp: bit_simps)

section \<open>What a field promises\<close>

locale byte_field =
  fixes width :: nat
    and rd :: "u8 list \<Rightarrow> nat \<Rightarrow> 'a::len word"
    and wr :: "u8 list \<Rightarrow> nat \<Rightarrow> 'a word \<Rightarrow> u8 list"
  assumes length_wr: "length (wr bs p x) = length bs"
    and rd_wr: "p + width \<le> length bs \<Longrightarrow> rd (wr bs p x) p = x"
    and wr_other: "i < p \<or> p + width \<le> i \<Longrightarrow> wr bs p x ! i = bs ! i"
    and rd_eq: "rd bs p = rd cs p \<longleftrightarrow> (\<forall>i<width. bs ! (p + i) = cs ! (p + i))"
begin

lemma rd_wr_apart: "p + width \<le> q \<or> q + width \<le> p \<Longrightarrow> rd (wr bs p x) q = rd bs q"
  unfolding rd_eq by (auto intro: wr_other)

lemma rd_nth:
  assumes "rd bs p = rd cs p" and "p \<le> i" and "i < p + width"
  shows "bs ! i = cs ! i"
proof -
  have "i - p < width" using assms(2,3) by simp
  then have "bs ! (p + (i - p)) = cs ! (p + (i - p))" using assms(1) rd_eq [of bs p cs] by blast
  then show ?thesis using assms(2) by simp
qed

lemma ext:
  assumes "length bs = length cs" and "rd bs p = rd cs p" and "\<And>i. i < p \<or> p + width \<le> i \<Longrightarrow> bs ! i = cs ! i"
  shows "bs = cs"
  by (rule nth_equalityI [OF assms(1)]) (metis assms(2,3) rd_nth not_le)

lemma wr_rd: "p + width \<le> length bs \<Longrightarrow> wr bs p (rd bs p) = bs"
  by (rule ext [of _ _ p]) (simp_all add: length_wr rd_wr wr_other)

lemma wr_wr: "p + width \<le> length bs \<Longrightarrow> wr (wr bs p x) p y = wr bs p y"
  by (rule ext [of _ _ p]) (simp_all add: length_wr rd_wr wr_other)

lemma wr_swap:
  assumes "p + width \<le> q \<or> q + width \<le> p" and "p + width \<le> length bs" and "q + width \<le> length bs"
  shows "wr (wr bs p x) q y = wr (wr bs q y) p x"
proof (rule ext [of _ _ p])
  show "rd (wr (wr bs p x) q y) p = rd (wr (wr bs q y) p x) p"
    using assms by (subst rd_wr_apart) (auto simp: rd_wr length_wr)
next
  fix i assume i: "i < p \<or> p + width \<le> i"
  have q: "rd (wr (wr bs p x) q y) q = rd (wr (wr bs q y) p x) q"
    using assms by (subst rd_wr_apart [of p q]) (auto simp: rd_wr length_wr)
  show "wr (wr bs p x) q y ! i = wr (wr bs q y) p x ! i"
    by (cases "q \<le> i \<and> i < q + width") (metis q rd_nth, metis i wr_other not_le)
qed (simp add: length_wr)

text \<open>An addition depends on and changes the bytes of its field only.\<close>

lemma add_local:
  assumes "rd bs p = rd cs p" and "p + width \<le> length bs" and "p + width \<le> length cs" and "p \<le> i" and "i < p + width"
  shows "wr bs p (rd bs p + x) ! i = wr cs p (rd cs p + x) ! i"
  by (rule rd_nth [OF _ assms(4,5)]) (simp add: assms rd_wr)

lemma add_add: "p + width \<le> length bs \<Longrightarrow>
    wr (wr bs p (rd bs p + x)) p (rd (wr bs p (rd bs p + x)) p + y) = wr bs p (rd bs p + (x + y))"
  by (simp add: rd_wr wr_wr add.assoc)

end

locale byte_field_pair = half: byte_field width rd wr
  for width and rd :: "u8 list \<Rightarrow> nat \<Rightarrow> 'a::len word" and wr +
  fixes rd2 :: "u8 list \<Rightarrow> nat \<Rightarrow> 'b::len word"
    and wr2 :: "u8 list \<Rightarrow> nat \<Rightarrow> 'b word \<Rightarrow> u8 list"
  assumes twice: "LENGTH('b) = 2 * LENGTH('a)"
    and rd2_def: "rd2 bs p = ucast (rd bs p) OR push_bit LENGTH('a) (ucast (rd bs (p + width)))"
    and wr2_def: "wr2 bs p x = wr (wr bs p (ucast x)) (p + width) (ucast (drop_bit LENGTH('a) x))"
begin

lemma rd2_eq: "rd2 bs p = rd2 cs p \<longleftrightarrow> rd bs p = rd cs p \<and> rd bs (p + width) = rd cs (p + width)"
  unfolding rd2_def by (metis join_low [OF twice] join_high [OF twice])

end

sublocale byte_field_pair \<subseteq> whole: byte_field "2 * width" rd2 wr2
proof
  fix bs :: "u8 list" and p and x :: "'b word"
  show "length (wr2 bs p x) = length bs" by (simp add: wr2_def half.length_wr)
next
  fix bs :: "u8 list" and p and x :: "'b word"
  assume "p + 2 * width \<le> length bs"
  then have "rd (wr2 bs p x) p = ucast x" "rd (wr2 bs p x) (p + width) = ucast (drop_bit LENGTH('a) x)"
    by (simp_all add: wr2_def half.rd_wr half.rd_wr_apart half.length_wr)
  then show "rd2 (wr2 bs p x) p = x" by (simp add: rd2_def join_split [OF twice])
next
  fix i p and bs :: "u8 list" and x :: "'b word"
  assume "i < p \<or> p + 2 * width \<le> i"
  then show "wr2 bs p x ! i = bs ! i" using half.wr_other by (auto simp: wr2_def)
next
  fix bs :: "u8 list" and p cs
  show "rd2 bs p = rd2 cs p \<longleftrightarrow> (\<forall>i<2 * width. bs ! (p + i) = cs ! (p + i))"
  proof
    assume r: "rd2 bs p = rd2 cs p"
    show "\<forall>i<2 * width. bs ! (p + i) = cs ! (p + i)"
    proof (intro allI impI)
      fix i assume i: "i < 2 * width"
      show "bs ! (p + i) = cs ! (p + i)"
      proof (cases "i < width")
        case True then show ?thesis using r unfolding rd2_eq half.rd_eq by blast
      next
        case False
        then have "bs ! (p + width + (i - width)) = cs ! (p + width + (i - width))"
          using r i unfolding rd2_eq half.rd_eq by (metis add_diff_inverse_nat mult_2 nat_add_left_cancel_less)
        then show ?thesis using False by simp
      qed
    qed
  next
    assume "\<forall>i<2 * width. bs ! (p + i) = cs ! (p + i)"
    then show "rd2 bs p = rd2 cs p" unfolding rd2_eq half.rd_eq by (auto simp: add.assoc)
  qed
qed

section \<open>The fields of the code\<close>

interpretation byte: byte_field 1 "\<lambda>bs p. bs ! p" "\<lambda>bs p x. bs[p := x]"
  by standard auto

lemma low_byte: "ucast (x AND 255 :: u16) = (ucast x :: u8)"
proof -
  have m: "(255 :: u16) = mask 8" by (simp add: mask_eq_exp_minus_1)
  show ?thesis unfolding m by (rule bit_word_eqI) (simp add: bit_simps)
qed

interpretation le16: byte_field_pair 1 "\<lambda>bs p. bs ! p" "\<lambda>bs p x. bs[p := x]" read16le write16le
  by standard (simp_all add: read16le_def write16le_def low_byte)

interpretation le32: byte_field_pair "2 * 1" read16le write16le read32le write32le
  by standard (simp_all add: read32le_def write32le_def)

interpretation le64: byte_field_pair "2 * (2 * 1)" read32le write32le read64le write64le
  by standard (simp_all add: read64le_def write64le_def)

end
