(* ===== verification/X86Reloc.thy ===== *)
theory X86Reloc imports ElfResolve LittleEndian
begin

text \<open>
  Relocations of x86-64 code: \<open>code_reloc\<close>, \<open>gotplt_entry_type\<close> and \<open>relocate\<close> of
  \<^verbatim>\<open>src/src/compiler/backend/x64/x86_64-link.c\<close> as built for Windows, and \<open>relocate_section\<close> of
  \<^verbatim>\<open>src/src/compiler/middleend/cprimeelf.c\<close>.  A pointer into the section's data is its index; an access
  outside the data is the outcome \<open>None\<close>.
\<close>

section \<open>Relocation types\<close>

definition R_X86_64_NONE :: u32 where "R_X86_64_NONE = 0"
definition R_X86_64_64 :: u32 where "R_X86_64_64 = 1"
definition R_X86_64_PC32 :: u32 where "R_X86_64_PC32 = 2"
definition R_X86_64_GOT32 :: u32 where "R_X86_64_GOT32 = 3"
definition R_X86_64_PLT32 :: u32 where "R_X86_64_PLT32 = 4"
definition R_X86_64_COPY :: u32 where "R_X86_64_COPY = 5"
definition R_X86_64_GLOB_DAT :: u32 where "R_X86_64_GLOB_DAT = 6"
definition R_X86_64_JUMP_SLOT :: u32 where "R_X86_64_JUMP_SLOT = 7"
definition R_X86_64_RELATIVE :: u32 where "R_X86_64_RELATIVE = 8"
definition R_X86_64_GOTPCREL :: u32 where "R_X86_64_GOTPCREL = 9"
definition R_X86_64_32 :: u32 where "R_X86_64_32 = 10"
definition R_X86_64_32S :: u32 where "R_X86_64_32S = 11"
definition R_X86_64_DTPOFF64 :: u32 where "R_X86_64_DTPOFF64 = 17"
definition R_X86_64_TPOFF64 :: u32 where "R_X86_64_TPOFF64 = 18"
definition R_X86_64_TLSGD :: u32 where "R_X86_64_TLSGD = 19"
definition R_X86_64_TLSLD :: u32 where "R_X86_64_TLSLD = 20"
definition R_X86_64_DTPOFF32 :: u32 where "R_X86_64_DTPOFF32 = 21"
definition R_X86_64_GOTTPOFF :: u32 where "R_X86_64_GOTTPOFF = 22"
definition R_X86_64_TPOFF32 :: u32 where "R_X86_64_TPOFF32 = 23"
definition R_X86_64_PC64 :: u32 where "R_X86_64_PC64 = 24"
definition R_X86_64_GOTOFF64 :: u32 where "R_X86_64_GOTOFF64 = 25"
definition R_X86_64_GOTPC32 :: u32 where "R_X86_64_GOTPC32 = 26"
definition R_X86_64_GOT64 :: u32 where "R_X86_64_GOT64 = 27"
definition R_X86_64_GOTPC64 :: u32 where "R_X86_64_GOTPC64 = 29"
definition R_X86_64_PLTOFF64 :: u32 where "R_X86_64_PLTOFF64 = 31"
definition R_X86_64_GOTPCRELX :: u32 where "R_X86_64_GOTPCRELX = 41"
definition R_X86_64_REX_GOTPCRELX :: u32 where "R_X86_64_REX_GOTPCRELX = 42"
definition R_X86_64_CPC_SECREL :: u32 where "R_X86_64_CPC_SECREL = 250"
definition R_X86_64_CPC_SECTION :: u32 where "R_X86_64_CPC_SECTION = 251"

lemmas reloc_types = R_X86_64_NONE_def R_X86_64_64_def R_X86_64_PC32_def R_X86_64_GOT32_def R_X86_64_PLT32_def R_X86_64_COPY_def R_X86_64_GLOB_DAT_def R_X86_64_JUMP_SLOT_def R_X86_64_RELATIVE_def R_X86_64_GOTPCREL_def R_X86_64_32_def R_X86_64_32S_def R_X86_64_DTPOFF64_def R_X86_64_TPOFF64_def R_X86_64_TLSGD_def R_X86_64_TLSLD_def R_X86_64_DTPOFF32_def R_X86_64_GOTTPOFF_def R_X86_64_TPOFF32_def R_X86_64_PC64_def R_X86_64_GOTOFF64_def R_X86_64_GOTPC32_def R_X86_64_GOT64_def R_X86_64_GOTPC64_def R_X86_64_PLTOFF64_def R_X86_64_GOTPCRELX_def R_X86_64_REX_GOTPCRELX_def R_X86_64_CPC_SECREL_def R_X86_64_CPC_SECTION_def

definition code_reloc :: "u32 \<Rightarrow> int" where
  "code_reloc reloc_type =
     (if reloc_type \<in> {R_X86_64_32, R_X86_64_CPC_SECREL, R_X86_64_CPC_SECTION, R_X86_64_32S, R_X86_64_64,
          R_X86_64_GOTPC32, R_X86_64_GOTPC64, R_X86_64_GOTPCREL, R_X86_64_GOTPCRELX, R_X86_64_REX_GOTPCRELX,
          R_X86_64_GOTTPOFF, R_X86_64_GOT32, R_X86_64_GOT64, R_X86_64_GLOB_DAT, R_X86_64_COPY,
          R_X86_64_RELATIVE, R_X86_64_GOTOFF64, R_X86_64_TLSGD, R_X86_64_TLSLD, R_X86_64_DTPOFF32,
          R_X86_64_TPOFF32, R_X86_64_DTPOFF64, R_X86_64_TPOFF64} then 0
      else if reloc_type \<in> {R_X86_64_PC32, R_X86_64_PC64, R_X86_64_PLT32, R_X86_64_PLTOFF64, R_X86_64_JUMP_SLOT} then 1
      else - 1)"

datatype gotplt_entry = NO_GOTPLT_ENTRY | BUILD_GOT_ONLY | AUTO_GOTPLT_ENTRY | ALWAYS_GOTPLT_ENTRY

text \<open>\<open>None\<close> is the answer -1.\<close>

definition gotplt_entry_type :: "u32 \<Rightarrow> gotplt_entry option" where
  "gotplt_entry_type reloc_type =
     (if reloc_type \<in> {R_X86_64_GLOB_DAT, R_X86_64_JUMP_SLOT, R_X86_64_COPY, R_X86_64_RELATIVE,
          R_X86_64_CPC_SECREL, R_X86_64_CPC_SECTION} then Some NO_GOTPLT_ENTRY
      else if reloc_type \<in> {R_X86_64_32, R_X86_64_32S, R_X86_64_64, R_X86_64_PC32, R_X86_64_PC64}
        then Some AUTO_GOTPLT_ENTRY
      else if reloc_type = R_X86_64_GOTTPOFF then Some BUILD_GOT_ONLY
      else if reloc_type \<in> {R_X86_64_GOT32, R_X86_64_GOT64, R_X86_64_GOTPC32, R_X86_64_GOTPC64, R_X86_64_GOTOFF64,
          R_X86_64_GOTPCREL, R_X86_64_GOTPCRELX, R_X86_64_TLSGD, R_X86_64_TLSLD, R_X86_64_DTPOFF32,
          R_X86_64_TPOFF32, R_X86_64_DTPOFF64, R_X86_64_TPOFF64, R_X86_64_REX_GOTPCRELX, R_X86_64_PLT32,
          R_X86_64_PLTOFF64} then Some ALWAYS_GOTPLT_ENTRY
      else None)"

section \<open>The state of the linker\<close>

record out_section =
  os_addr :: u64
  os_offset :: u32
  os_alloc :: bool
  os_info :: u32

record link_env =
  output_type :: u32
  attrs :: "sym_attr list"
  got_addr :: u64
  imagebase :: u64
  env_syms :: "elf_sym list"
  env_sections :: "out_section list"

datatype reloc_error = Out_of_range_32 | Out_of_range u32 | Unexpected_TLSGD | Unexpected_TLSLD
  | Section_symbol | Section_overflow | Secrel_overflow | Unhandled u32

text \<open>\<open>qrel\<close> is the index of the next dynamic relocation, which is written over the relocations
  already applied.\<close>

record link_state =
  code :: "u8 list"
  rels :: "elf_rela list"
  qrel :: nat
  reports :: "reloc_error list"

definition CPRIME_OUTPUT_DLL :: u32 where "CPRIME_OUTPUT_DLL = 4"

definition attr_of :: "link_env \<Rightarrow> nat \<Rightarrow> sym_attr" where
  "attr_of env sym_index = attrs env ! fst (get_sym_attr (attrs env) sym_index False)"

definition report :: "reloc_error \<Rightarrow> link_state \<Rightarrow> link_state" where
  "report e st = st\<lparr>reports := reports st @ [e]\<rparr>"

definition put_qrel :: "elf_rela \<Rightarrow> link_state \<Rightarrow> link_state" where
  "put_qrel r st = st\<lparr>rels := (rels st)[qrel st := r], qrel := qrel st + 1\<rparr>"

definition add32 :: "nat \<Rightarrow> u32 \<Rightarrow> link_state \<Rightarrow> link_state option" where
  "add32 p x st = (if p + 4 \<le> length (code st) then Some (st\<lparr>code := add32le (code st) p x\<rparr>) else None)"

definition add64 :: "nat \<Rightarrow> u64 \<Rightarrow> link_state \<Rightarrow> link_state option" where
  "add64 p x st = (if p + 8 \<le> length (code st) then Some (st\<lparr>code := add64le (code st) p x\<rparr>) else None)"

definition put64 :: "nat \<Rightarrow> u64 \<Rightarrow> link_state \<Rightarrow> link_state option" where
  "put64 p x st = (if p + 8 \<le> length (code st) then Some (st\<lparr>code := write64le (code st) p x\<rparr>) else None)"

section \<open>Thread-local and section relocations\<close>

definition bytes_at :: "u8 list \<Rightarrow> nat \<Rightarrow> nat \<Rightarrow> u8 list" where
  "bytes_at bs p n = take n (drop p bs)"

definition put_bytes :: "u8 list \<Rightarrow> nat \<Rightarrow> u8 list \<Rightarrow> u8 list" where
  "put_bytes bs p new = take p bs @ new @ drop (p + length new) bs"

definition tlsgd_expect :: "u8 list" where
  "tlsgd_expect = [0x66, 0x48, 0x8d, 0x3d, 0, 0, 0, 0, 0x66, 0x66, 0x48, 0xe8, 0, 0, 0, 0]"
definition tlsgd_replace :: "u8 list" where
  "tlsgd_replace = [0x64, 0x48, 0x8b, 0x04, 0x25, 0, 0, 0, 0, 0x48, 0x8d, 0x80, 0, 0, 0, 0]"
definition tlsld_expect :: "u8 list" where
  "tlsld_expect = [0x48, 0x8d, 0x3d, 0, 0, 0, 0, 0xe8, 0, 0, 0, 0]"
definition tlsld_replace :: "u8 list" where
  "tlsld_replace = [0x66, 0x66, 0x66, 0x64, 0x48, 0x8b, 0x04, 0x25, 0, 0, 0, 0]"

text \<open>\<open>rel[1].r_info = ...\<close>\<close>

definition drop_next :: "nat \<Rightarrow> link_state \<Rightarrow> link_state" where
  "drop_next i st = st\<lparr>rels := (rels st)[i + 1 := (rels st ! (i + 1))\<lparr>r_info := R_INFO 0 (ucast R_X86_64_NONE)\<rparr>]\<rparr>"

definition section_of :: "link_env \<Rightarrow> elf_sym \<Rightarrow> out_section" where
  "section_of env e = env_sections env ! unat (st_shndx e)"

definition relocate_tlsgd :: "link_env \<Rightarrow> nat \<Rightarrow> nat \<Rightarrow> nat \<Rightarrow> link_state \<Rightarrow> link_state option" where
  "relocate_tlsgd env i sym_index ptr st =
     (if ptr < 4 \<or> ptr + 12 > length (code st) then None
      else if bytes_at (code st) (ptr - 4) 16 = tlsgd_expect then
        let st1 = drop_next i (st\<lparr>code := put_bytes (code st) (ptr - 4) tlsgd_replace\<rparr>);
            e = env_syms env ! sym_index; sec = section_of env e
        in add32 (ptr + 8) (ucast (st_value e - os_addr sec - ucast (os_offset sec))) st1
      else Some (report Unexpected_TLSGD st))"

definition relocate_tlsld :: "nat \<Rightarrow> nat \<Rightarrow> link_state \<Rightarrow> link_state option" where
  "relocate_tlsld i ptr st =
     (if ptr < 3 \<or> ptr + 9 > length (code st) then None
      else if bytes_at (code st) (ptr - 3) 12 = tlsld_expect then
        Some (drop_next i (st\<lparr>code := put_bytes (code st) (ptr - 3) tlsld_replace\<rparr>))
      else Some (report Unexpected_TLSLD st))"

definition relocate_tpoff :: "link_env \<Rightarrow> u32 \<Rightarrow> nat \<Rightarrow> nat \<Rightarrow> u64 \<Rightarrow> link_state \<Rightarrow> link_state option" where
  "relocate_tpoff env ty sym_index ptr val st =
     (let sec = section_of env (env_syms env ! sym_index);
          x = ucast (val - os_addr sec - ucast (os_offset sec)) :: u32
      in if ty = R_X86_64_DTPOFF32 \<or> ty = R_X86_64_TPOFF32 then add32 ptr x st else add64 ptr (scast x) st)"

definition secrel_base :: "link_env \<Rightarrow> out_section \<Rightarrow> u64" where
  "secrel_base env target =
     fold (\<lambda>part base. if os_alloc part \<and> os_info part = os_info target \<and> os_addr part < base then os_addr part else base)
       (tl (env_sections env)) (os_addr target)"

definition relocate_secrel :: "link_env \<Rightarrow> u32 \<Rightarrow> nat \<Rightarrow> nat \<Rightarrow> u64 \<Rightarrow> link_state \<Rightarrow> link_state option" where
  "relocate_secrel env ty sym_index ptr val st =
     (let e = env_syms env ! sym_index in
      if st_shndx e = 0 \<or> unat (st_shndx e) \<ge> length (env_sections env) then Some (report Section_symbol st)
      else
        let target = section_of env e in
        if ty = R_X86_64_CPC_SECTION then
          if ptr + 2 > length (code st) then None
          else
            let v = scast (os_info target + ucast (read16le (code st) ptr)) :: u64 in
            if v > 0xffff then Some (report Section_overflow st)
            else Some (st\<lparr>code := write16le (code st) ptr (ucast v)\<rparr>)
        else
          if ptr + 4 > length (code st) then None
          else
            let v = val - secrel_base env target + ucast (read32le (code st) ptr) in
            if v > 0xffffffff then Some (report Secrel_overflow st)
            else Some (st\<lparr>code := write32le (code st) ptr (ucast v)\<rparr>))"

section \<open>Applying a relocation\<close>

text \<open>\<open>i\<close> is the index of \<open>rel\<close> in its section.\<close>

definition relocate_pc32 :: "link_env \<Rightarrow> u32 \<Rightarrow> nat \<Rightarrow> nat \<Rightarrow> u64 \<Rightarrow> u64 \<Rightarrow> link_state \<Rightarrow> link_state option" where
  "relocate_pc32 env ty sym_index ptr addr val st =
     (let diff = val - addr;
          st1 = (if sint diff < - 2147483648 \<or> sint diff > 2147483647
                 then (if ucast (st_shndx (env_syms env ! sym_index)) \<noteq> SHN_UNDEF then report (Out_of_range ty) st else st)
                 else st)
      in add32 ptr (ucast diff) st1)"

definition relocate :: "link_env \<Rightarrow> nat \<Rightarrow> u32 \<Rightarrow> nat \<Rightarrow> u64 \<Rightarrow> u64 \<Rightarrow> link_state \<Rightarrow> link_state option" where
  "relocate env i ty ptr addr val st =
     (let rel = rels st ! i;
          sym_index = unat (R_SYM (r_info rel));
          esym_index = dyn_index (attr_of env sym_index);
          dyn = (output_type env AND CPRIME_OUTPUT_DLL \<noteq> 0);
          dll = (output_type env = CPRIME_OUTPUT_DLL)
      in
      if ty = R_X86_64_64 then
        (if dyn then
           if esym_index \<noteq> 0 then
             Some (put_qrel \<lparr>r_offset = r_offset rel, r_info = R_INFO (of_int esym_index) (ucast R_X86_64_64),
               r_addend = r_addend rel\<rparr> st)
           else if ptr + 8 > length (code st) then None
           else add64 ptr val (put_qrel \<lparr>r_offset = r_offset rel, r_info = R_INFO 0 (ucast R_X86_64_RELATIVE),
               r_addend = read64le (code st) ptr + val\<rparr> st)
         else add64 ptr val st)
      else if ty = R_X86_64_32 \<or> ty = R_X86_64_32S then
        (if dyn \<and> ptr + 4 > length (code st) then None
         else
           let st1 = (if dyn then put_qrel \<lparr>r_offset = r_offset rel, r_info = R_INFO 0 (ucast R_X86_64_RELATIVE),
                        r_addend = scast (read32le (code st) ptr) + val\<rparr> st else st);
               st2 = (if (if ty = R_X86_64_32 then val \<noteq> ucast (ucast val :: u32) else val \<noteq> scast (ucast val :: u32))
                      then report Out_of_range_32 st1 else st1)
           in add32 ptr (ucast val) st2)
      else if ty = R_X86_64_PC32 then
        (if dll \<and> esym_index \<noteq> 0 then
           if ptr + 4 > length (code st) then None
           else Some (put_qrel \<lparr>r_offset = r_offset rel, r_info = R_INFO (of_int esym_index) (ucast R_X86_64_PC32),
               r_addend = scast (read32le (code st) ptr) + r_addend rel\<rparr> st)
         else relocate_pc32 env ty sym_index ptr addr val st)
      else if ty = R_X86_64_PLT32 then relocate_pc32 env ty sym_index ptr addr val st
      else if ty = R_X86_64_COPY then Some st
      else if ty = R_X86_64_PLTOFF64 then add64 ptr (val - got_addr env + r_addend rel) st
      else if ty = R_X86_64_PC64 then
        (if dll \<and> esym_index \<noteq> 0 then
           if ptr + 8 > length (code st) then None
           else Some (put_qrel \<lparr>r_offset = r_offset rel, r_info = R_INFO (of_int esym_index) (ucast R_X86_64_PC64),
               r_addend = read64le (code st) ptr + r_addend rel\<rparr> st)
         else add64 ptr (val - addr) st)
      else if ty = R_X86_64_GLOB_DAT \<or> ty = R_X86_64_JUMP_SLOT then put64 ptr (val - r_addend rel) st
      else if ty = R_X86_64_GOTPCREL \<or> ty = R_X86_64_GOTPCRELX \<or> ty = R_X86_64_REX_GOTPCRELX then
        add32 ptr (ucast (got_addr env - addr + ucast (got_offset (attr_of env sym_index)) - 4)) st
      else if ty = R_X86_64_GOTPC32 then add32 ptr (ucast (got_addr env - addr + r_addend rel)) st
      else if ty = R_X86_64_GOTPC64 then add64 ptr (got_addr env - addr + r_addend rel) st
      else if ty = R_X86_64_GOTTPOFF then add32 ptr (ucast (val - got_addr env)) st
      else if ty = R_X86_64_GOT32 then add32 ptr (got_offset (attr_of env sym_index)) st
      else if ty = R_X86_64_GOT64 then add64 ptr (ucast (got_offset (attr_of env sym_index))) st
      else if ty = R_X86_64_GOTOFF64 then add64 ptr (val - got_addr env) st
      else if ty = R_X86_64_TLSGD then relocate_tlsgd env i sym_index ptr st
      else if ty = R_X86_64_TLSLD then relocate_tlsld i ptr st
      else if ty \<in> {R_X86_64_DTPOFF32, R_X86_64_TPOFF32, R_X86_64_DTPOFF64, R_X86_64_TPOFF64} then
        relocate_tpoff env ty sym_index ptr val st
      else if ty = R_X86_64_NONE then Some st
      else if ty = R_X86_64_CPC_SECREL \<or> ty = R_X86_64_CPC_SECTION then relocate_secrel env ty sym_index ptr val st
      else if ty = R_X86_64_RELATIVE then add32 ptr (ucast (val - imagebase env)) st
      else Some (report (Unhandled ty) st))"

section \<open>Applying the relocations of a section\<close>

text \<open>\<open>dwlo\<close>, \<open>dwhi\<close>: the range of the debug sections. A section without memory (\<open>s->data == NULL\<close>) is the
  case \<open>has_data = False\<close>.\<close>

definition R_DATA_32DW :: u32 where "R_DATA_32DW = R_X86_64_32"

definition apply_rel ::
  "link_env \<Rightarrow> u64 \<Rightarrow> bool \<Rightarrow> bool \<Rightarrow> nat \<Rightarrow> nat \<Rightarrow> nat \<Rightarrow> link_state \<Rightarrow> link_state option" where
  "apply_rel env s_addr has_data is_dwarf dwlo dwhi i st =
     (if \<not> has_data then Some st
      else
        let rel = rels st ! i;
            ptr = unat (r_offset rel);
            e = env_syms env ! unat (R_SYM (r_info rel));
            ty = ucast (R_TYPE (r_info rel)) :: u32;
            tgt = st_value e + r_addend rel
        in if is_dwarf \<and> ty = R_DATA_32DW \<and> dwlo \<le> unat (st_shndx e) \<and> unat (st_shndx e) < dwhi
           then add32 ptr (ucast (tgt - os_addr (section_of env e))) st
           else relocate env i ty ptr (s_addr + r_offset rel) tgt st)"

fun apply_rels ::
  "link_env \<Rightarrow> u64 \<Rightarrow> bool \<Rightarrow> bool \<Rightarrow> nat \<Rightarrow> nat \<Rightarrow> nat list \<Rightarrow> link_state \<Rightarrow> link_state option" where
  "apply_rels env s_addr has_data is_dwarf dwlo dwhi [] st = Some st"
| "apply_rels env s_addr has_data is_dwarf dwlo dwhi (i # is) st =
     (case apply_rel env s_addr has_data is_dwarf dwlo dwhi i st of
        None \<Rightarrow> None
      | Some st1 \<Rightarrow> apply_rels env s_addr has_data is_dwarf dwlo dwhi is st1)"

definition relocate_section ::
  "link_env \<Rightarrow> u64 \<Rightarrow> bool \<Rightarrow> nat \<Rightarrow> nat \<Rightarrow> nat \<Rightarrow> link_state \<Rightarrow> link_state option" where
  "relocate_section env s_addr has_data sh_num dwlo dwhi st =
     apply_rels env s_addr has_data (dwlo \<le> sh_num \<and> sh_num < dwhi) dwlo dwhi [0..<length (rels st)] (st\<lparr>qrel := 0\<rparr>)"

section \<open>What a relocation changes\<close>

definition same_outside :: "nat \<Rightarrow> nat \<Rightarrow> link_state \<Rightarrow> link_state \<Rightarrow> bool" where
  "same_outside lo hi st st' \<longleftrightarrow> length (code st') = length (code st) \<and> length (rels st') = length (rels st)
     \<and> (\<forall>j. j < lo \<or> hi \<le> j \<longrightarrow> code st' ! j = code st ! j)"

lemma same_outside_refl: "code st' = code st \<Longrightarrow> length (rels st') = length (rels st) \<Longrightarrow> same_outside lo hi st st'"
  by (simp add: same_outside_def)

lemma add32_same: "add32 p x st = Some st' \<Longrightarrow> lo \<le> p \<Longrightarrow> p + 4 \<le> hi \<Longrightarrow> same_outside lo hi st st'"
  by (auto simp: add32_def same_outside_def add32le_def le32.whole.length_wr split: if_splits intro!: le32.whole.wr_other)

lemma add64_same: "add64 p x st = Some st' \<Longrightarrow> lo \<le> p \<Longrightarrow> p + 8 \<le> hi \<Longrightarrow> same_outside lo hi st st'"
  by (auto simp: add64_def same_outside_def add64le_def le64.whole.length_wr split: if_splits intro!: le64.whole.wr_other)

lemma put64_same: "put64 p x st = Some st' \<Longrightarrow> lo \<le> p \<Longrightarrow> p + 8 \<le> hi \<Longrightarrow> same_outside lo hi st st'"
  by (auto simp: put64_def same_outside_def le64.whole.length_wr split: if_splits intro!: le64.whole.wr_other)

lemma same_outside_trans: "same_outside lo hi st st1 \<Longrightarrow> same_outside lo hi st1 st2 \<Longrightarrow> same_outside lo hi st st2"
  by (simp add: same_outside_def)

lemma report_same [simp]: "code (report e st) = code st" "rels (report e st) = rels st" "qrel (report e st) = qrel st"
  by (simp_all add: report_def)

lemma put_qrel_same [simp]: "code (put_qrel r st) = code st" "length (rels (put_qrel r st)) = length (rels st)"
  "reports (put_qrel r st) = reports st"
  by (simp_all add: put_qrel_def)

lemma put_bytes_same:
  assumes "p + length new \<le> length bs"
  shows "length (put_bytes bs p new) = length bs" "j < p \<or> p + length new \<le> j \<Longrightarrow> put_bytes bs p new ! j = bs ! j"
  using assms by (auto simp: put_bytes_def nth_append)

lemma tlsgd_same:
  assumes "relocate_tlsgd env i sym_index ptr st = Some st'"
  shows "same_outside (ptr - 4) (ptr + 12) st st'"
proof (cases "bytes_at (code st) (ptr - 4) 16 = tlsgd_expect")
  case False
  then show ?thesis using assms by (auto simp: relocate_tlsgd_def split: if_splits intro: same_outside_refl)
next
  case True
  let ?st1 = "drop_next i (st\<lparr>code := put_bytes (code st) (ptr - 4) tlsgd_replace\<rparr>)"
  have b: "4 \<le> ptr" "ptr + 12 \<le> length (code st)" using assms by (auto simp: relocate_tlsgd_def split: if_splits)
  have l: "length tlsgd_replace = 16" by (simp add: tlsgd_replace_def)
  have "same_outside (ptr - 4) (ptr + 12) st ?st1"
    using put_bytes_same [of "ptr - 4" tlsgd_replace "code st"] b
    by (auto simp: same_outside_def drop_next_def l)
  moreover have "\<exists>x. add32 (ptr + 8) x ?st1 = Some st'" using assms True b by (auto simp: relocate_tlsgd_def Let_def)
  ultimately show ?thesis using add32_same [of "ptr + 8" _ ?st1 st' "ptr - 4" "ptr + 12"] same_outside_trans by force
qed

lemma tlsld_same:
  assumes "relocate_tlsld i ptr st = Some st'"
  shows "same_outside (ptr - 3) (ptr + 9) st st'"
proof (cases "bytes_at (code st) (ptr - 3) 12 = tlsld_expect")
  case False
  then show ?thesis using assms by (auto simp: relocate_tlsld_def split: if_splits intro: same_outside_refl)
next
  case True
  have b: "3 \<le> ptr" "ptr + 9 \<le> length (code st)" using assms by (auto simp: relocate_tlsld_def split: if_splits)
  have l: "length tlsld_replace = 12" by (simp add: tlsld_replace_def)
  show ?thesis
    using assms True b put_bytes_same [of "ptr - 3" tlsld_replace "code st"]
    by (auto simp: relocate_tlsld_def same_outside_def drop_next_def l)
qed

lemma tpoff_same: "relocate_tpoff env ty k ptr val st = Some st' \<Longrightarrow> same_outside ptr (ptr + 8) st st'"
  unfolding relocate_tpoff_def Let_def by (auto split: if_splits intro: add32_same add64_same)

lemma secrel_same: "relocate_secrel env ty k ptr val st = Some st' \<Longrightarrow> same_outside ptr (ptr + 8) st st'"
  unfolding relocate_secrel_def Let_def
  by (auto split: if_splits intro: same_outside_refl)
    (auto simp: same_outside_def le16.whole.length_wr le32.whole.length_wr intro!: le16.whole.wr_other le32.whole.wr_other)

lemma add32_after: "add32 p x st1 = Some st' \<Longrightarrow> code st1 = code st \<Longrightarrow> length (rels st1) = length (rels st) \<Longrightarrow>
    lo \<le> p \<Longrightarrow> p + 4 \<le> hi \<Longrightarrow> same_outside lo hi st st'"
  by (rule same_outside_trans [OF same_outside_refl add32_same])

lemma add64_after: "add64 p x st1 = Some st' \<Longrightarrow> code st1 = code st \<Longrightarrow> length (rels st1) = length (rels st) \<Longrightarrow>
    lo \<le> p \<Longrightarrow> p + 8 \<le> hi \<Longrightarrow> same_outside lo hi st st'"
  by (rule same_outside_trans [OF same_outside_refl add64_same])

lemma pc32_same: "relocate_pc32 env ty k ptr addr val st = Some st' \<Longrightarrow> same_outside ptr (ptr + 8) st st'"
  unfolding relocate_pc32_def Let_def by (erule add32_after) simp_all

lemma relocate_same:
  assumes "relocate env i ty ptr addr val st = Some st'"
  shows "if ty = R_X86_64_TLSGD then same_outside (ptr - 4) (ptr + 12) st st'
    else if ty = R_X86_64_TLSLD then same_outside (ptr - 3) (ptr + 9) st st'
    else same_outside ptr (ptr + 8) st st'"
proof -
  have d: "R_X86_64_TLSGD \<noteq> R_X86_64_TLSLD" by (simp add: reloc_types)
  consider "ty = R_X86_64_TLSGD" | "ty = R_X86_64_TLSLD" | "ty \<noteq> R_X86_64_TLSGD" "ty \<noteq> R_X86_64_TLSLD" by blast
  then show ?thesis
  proof cases
    case 1
    have "relocate env i ty ptr addr val st = relocate_tlsgd env i (unat (R_SYM (r_info (rels st ! i)))) ptr st"
      unfolding relocate_def Let_def 1 by (simp add: reloc_types)
    then show ?thesis using assms 1 tlsgd_same by simp
  next
    case 2
    have "relocate env i ty ptr addr val st = relocate_tlsld i ptr st"
      unfolding relocate_def Let_def 2 by (simp add: reloc_types)
    then show ?thesis using assms 2 tlsld_same d by simp
  next
    case 3
    have "same_outside ptr (ptr + 8) st st'"
      using assms unfolding relocate_def Let_def
      by (auto split: if_splits simp: 3 intro: add32_same add64_same put64_same tpoff_same secrel_same pc32_same same_outside_refl
          add32_after add64_after)
    then show ?thesis using 3 by simp
  qed
qed

end
