(* ===== verification/X86RelocSpec.thy ===== *)
theory X86RelocSpec imports X86Reloc
begin

text \<open>
  The properties of relocation on x86-64: fields read back what was written, a relocation changes
  nothing but its field, the processor finds the address the relocation asked for, and the
  order of relocations of different fields does not matter.
\<close>

section \<open>Fields\<close>

text \<open>A 64-bit field reads back what was written to it, and writing it changes no other byte.\<close>

theorem write64le_roundtrip:
  assumes "p + 8 \<le> length bs"
  shows "read64le (write64le bs p x) p = x \<and> length (write64le bs p x) = length bs
    \<and> (\<forall>i. i < p \<or> p + 8 \<le> i \<longrightarrow> write64le bs p x ! i = bs ! i) \<and> write64le bs p (read64le bs p) = bs"
  using assms le64.whole.rd_wr [of p bs x] le64.whole.wr_other [of _ p bs x] le64.whole.wr_rd [of p bs]
  by (simp add: le64.whole.length_wr)

theorem write64le_roundtrip_witness: "read64le (write64le [0,0,0,0,0,0,0,0,9] 0 0x123456789) 0 = 0x123456789"
  using write64le_roundtrip [of 0 "[0,0,0,0,0,0,0,0,9]" "0x123456789"] by simp

section \<open>Relocating a section\<close>

text \<open>The later relocations of the table keep their offsets.\<close>

lemma add_rels: "add32 p x st = Some st' \<Longrightarrow> rels st' = rels st \<and> qrel st' = qrel st"
  "add64 p y st = Some st' \<Longrightarrow> rels st' = rels st \<and> qrel st' = qrel st"
  "put64 p y st = Some st' \<Longrightarrow> rels st' = rels st \<and> qrel st' = qrel st"
  by (auto simp: add32_def add64_def put64_def split: if_splits)

definition later_kept :: "nat \<Rightarrow> link_state \<Rightarrow> link_state \<Rightarrow> bool" where
  "later_kept i st st' \<longleftrightarrow> qrel st' \<le> i + 1 \<and> (\<forall>k>i. r_offset (rels st' ! k) = r_offset (rels st ! k))"

lemma later_kept_same: "qrel st \<le> i \<Longrightarrow> rels st' = rels st \<Longrightarrow> qrel st' = qrel st \<Longrightarrow> later_kept i st st'"
  by (simp add: later_kept_def)

lemma later_kept_add:
  "add32 p x st = Some st' \<Longrightarrow> qrel st \<le> i \<Longrightarrow> later_kept i st st'"
  "add64 p y st = Some st' \<Longrightarrow> qrel st \<le> i \<Longrightarrow> later_kept i st st'"
  "put64 p y st = Some st' \<Longrightarrow> qrel st \<le> i \<Longrightarrow> later_kept i st st'"
  by (auto dest: add_rels intro: later_kept_same)

lemma later_kept_put: "qrel st \<le> i \<Longrightarrow> rels st1 = rels st \<Longrightarrow> qrel st1 = qrel st \<Longrightarrow> later_kept i st (put_qrel r st1)"
  by (simp add: later_kept_def put_qrel_def)

lemma later_kept_trans: "later_kept i st st1 \<Longrightarrow> rels st2 = rels st1 \<Longrightarrow> qrel st2 = qrel st1 \<Longrightarrow> later_kept i st st2"
  by (simp add: later_kept_def)

lemma drop_next_offset: "r_offset (rels (drop_next i st) ! k) = r_offset (rels st ! k)"
  by (cases "i + 1 < length (rels st) \<and> k = i + 1") (auto simp: drop_next_def nth_list_update list_update_beyond)

lemma later_kept_drop: "qrel st \<le> i \<Longrightarrow> rels st1 = rels st \<Longrightarrow> qrel st1 = qrel st \<Longrightarrow> later_kept i st (drop_next i st1)"
  by (simp add: later_kept_def drop_next_offset) (simp add: drop_next_def)

lemma tlsgd_later:
  assumes "relocate_tlsgd env i k ptr st = Some st'" and "qrel st \<le> i"
  shows "later_kept i st st'"
proof (cases "bytes_at (code st) (ptr - 4) 16 = tlsgd_expect")
  case True
  let ?st1 = "drop_next i (st\<lparr>code := put_bytes (code st) (ptr - 4) tlsgd_replace\<rparr>)"
  have "\<exists>x. add32 (ptr + 8) x ?st1 = Some st'"
    using assms True by (auto simp: relocate_tlsgd_def Let_def split: if_splits)
  then have "rels st' = rels ?st1 \<and> qrel st' = qrel ?st1" using add_rels(1) by blast
  then show ?thesis
    using later_kept_trans [OF later_kept_drop [OF assms(2), of "st\<lparr>code := put_bytes (code st) (ptr - 4) tlsgd_replace\<rparr>"]]
    by simp
qed (use assms in \<open>auto simp: relocate_tlsgd_def intro: later_kept_same split: if_splits\<close>)

lemma tlsld_later:
  "relocate_tlsld i ptr st = Some st' \<Longrightarrow> qrel st \<le> i \<Longrightarrow> later_kept i st st'"
  unfolding relocate_tlsld_def by (auto split: if_splits intro: later_kept_same later_kept_drop)

lemma tpoff_later:
  "relocate_tpoff env ty k ptr val st = Some st' \<Longrightarrow> qrel st \<le> i \<Longrightarrow> later_kept i st st'"
  unfolding relocate_tpoff_def Let_def by (auto split: if_splits intro: later_kept_add)

lemma secrel_later:
  "relocate_secrel env ty k ptr val st = Some st' \<Longrightarrow> qrel st \<le> i \<Longrightarrow> later_kept i st st'"
  unfolding relocate_secrel_def Let_def by (auto split: if_splits intro: later_kept_same)

lemma later_kept_add32_after: "add32 p x st1 = Some st' \<Longrightarrow> later_kept i st st1 \<Longrightarrow> later_kept i st st'"
  using add_rels(1) later_kept_trans by blast

lemma later_kept_add64_after: "add64 p x st1 = Some st' \<Longrightarrow> later_kept i st st1 \<Longrightarrow> later_kept i st st'"
  using add_rels(2) later_kept_trans by blast

lemma pc32_later:
  "relocate_pc32 env ty k ptr addr val st = Some st' \<Longrightarrow> qrel st \<le> i \<Longrightarrow> later_kept i st st'"
  unfolding relocate_pc32_def Let_def by (erule later_kept_add32_after) (simp add: later_kept_same)

lemma later_kept_add_put:
  "add32 p x (put_qrel r st) = Some st' \<Longrightarrow> qrel st \<le> i \<Longrightarrow> later_kept i st st'"
  "add32 p x (report e (put_qrel r st)) = Some st' \<Longrightarrow> qrel st \<le> i \<Longrightarrow> later_kept i st st'"
  "add32 p x (report e st) = Some st' \<Longrightarrow> qrel st \<le> i \<Longrightarrow> later_kept i st st'"
  "add64 p y (put_qrel r st) = Some st' \<Longrightarrow> qrel st \<le> i \<Longrightarrow> later_kept i st st'"
  by (erule later_kept_add32_after later_kept_add64_after;
    simp add: later_kept_put later_kept_same later_kept_trans [OF later_kept_put])+

lemma relocate_later:
  assumes "relocate env i ty ptr addr val st = Some st'" and "qrel st \<le> i"
  shows "later_kept i st st'"
  using assms unfolding relocate_def Let_def
  by (auto split: if_splits
      intro: later_kept_add later_kept_same later_kept_put tlsgd_later tlsld_later tpoff_later secrel_later pc32_later
        later_kept_add_put)

lemma apply_rel_later:
  assumes "apply_rel env s_addr has_data is_dwarf dwlo dwhi i st = Some st'" and "qrel st \<le> i"
  shows "later_kept i st st'"
  using assms unfolding apply_rel_def Let_def
  by (auto split: if_splits intro: later_kept_add later_kept_same relocate_later)

lemma same_outside_widen:
  "same_outside lo hi st st' \<Longrightarrow> lo' \<le> lo \<Longrightarrow> hi \<le> hi' \<Longrightarrow> same_outside lo' hi' st st'"
  by (auto simp: same_outside_def)

lemma relocate_window:
  assumes "relocate env i ty ptr addr val st = Some st'"
  shows "same_outside (ptr - 4) (ptr + 12) st st'"
  using relocate_same [OF assms] by (auto split: if_splits elim: same_outside_widen)

lemma apply_rel_same:
  assumes "apply_rel env s_addr has_data is_dwarf dwlo dwhi i st = Some st'"
  shows "same_outside (unat (r_offset (rels st ! i)) - 4) (unat (r_offset (rels st ! i)) + 12) st st'"
  using assms unfolding apply_rel_def Let_def
  by (auto split: if_splits intro: same_outside_refl add32_same relocate_window)

lemma apply_rels_same:
  assumes "apply_rels env s_addr has_data is_dwarf dwlo dwhi [k..<n] st = Some st'" and "qrel st \<le> k" and "k \<le> n"
  shows "length (code st') = length (code st) \<and> (\<forall>j. (\<forall>i. k \<le> i \<and> i < n \<longrightarrow>
      j + 4 < unat (r_offset (rels st ! i)) \<or> unat (r_offset (rels st ! i)) + 12 \<le> j) \<longrightarrow> code st' ! j = code st ! j)"
  using assms
proof (induction "n - k" arbitrary: k st)
  case 0
  then show ?case by simp
next
  case (Suc d)
  then have kn: "k < n" by simp
  then have u: "[k..<n] = k # [Suc k..<n]" by (simp add: upt_conv_Cons)
  obtain st1 where 1: "apply_rel env s_addr has_data is_dwarf dwlo dwhi k st = Some st1"
    "apply_rels env s_addr has_data is_dwarf dwlo dwhi [Suc k..<n] st1 = Some st'"
    using Suc.prems(1) unfolding u by (auto split: option.splits)
  have l: "later_kept k st st1" by (rule apply_rel_later [OF 1(1) Suc.prems(2)])
  have s: "same_outside (unat (r_offset (rels st ! k)) - 4) (unat (r_offset (rels st ! k)) + 12) st st1"
    by (rule apply_rel_same [OF 1(1)])
  have "d = n - Suc k" using Suc.hyps(2) by simp
  from Suc.hyps(1) [OF this 1(2)] l kn
  have IH: "length (code st') = length (code st1) \<and> (\<forall>j. (\<forall>i. Suc k \<le> i \<and> i < n \<longrightarrow>
      j + 4 < unat (r_offset (rels st1 ! i)) \<or> unat (r_offset (rels st1 ! i)) + 12 \<le> j) \<longrightarrow> code st' ! j = code st1 ! j)"
    by (simp add: later_kept_def)
  have "code st' ! j = code st ! j" if j: "\<forall>i. k \<le> i \<and> i < n \<longrightarrow>
      j + 4 < unat (r_offset (rels st ! i)) \<or> unat (r_offset (rels st ! i)) + 12 \<le> j" for j
  proof -
    have "code st1 ! j = code st ! j" using s j [rule_format, of k] kn by (auto simp: same_outside_def)
    moreover have "code st' ! j = code st1 ! j" using IH j l by (simp add: later_kept_def)
    ultimately show ?thesis by simp
  qed
  then show ?case using IH s by (simp add: same_outside_def)
qed

text \<open>Relocating a section changes no byte farther than 4 before or 12 after the place of one of its
  relocations, although relocations are rewritten while the table is walked.\<close>

theorem relocate_section_stays:
  assumes "relocate_section env s_addr has_data sh_num dwlo dwhi st = Some st'"
    and "\<forall>rel\<in>set (rels st). j + 4 < unat (r_offset rel) \<or> unat (r_offset rel) + 12 \<le> j"
  shows "length (code st') = length (code st) \<and> code st' ! j = code st ! j"
  using apply_rels_same [OF assms(1)[unfolded relocate_section_def]] assms(2) by simp

definition nop_env :: link_env where
  "nop_env = \<lparr>output_type = 2, attrs = [], got_addr = 0, imagebase = 0,
     env_syms = [null_sym, \<lparr>st_name = 1, st_info = 0x12, st_other = 0, st_shndx = 1, st_value = 0x1000, st_size = 8\<rparr>],
     env_sections = []\<rparr>"

definition call_state :: link_state where
  "call_state = \<lparr>code = [0xe8, 0xfc, 0xff, 0xff, 0xff, 0x90], rels = [\<lparr>r_offset = 1, r_info = 0x100000002, r_addend = 0\<rparr>],
     qrel = 0, reports = []\<rparr>"

theorem relocate_section_stays_witness:
  "\<exists>st'. relocate_section nop_env 0x2000 True 5 0 0 (call_state\<lparr>code := replicate 20 0x90\<rparr>) = Some st' \<and> code st' ! 19 = code (call_state\<lparr>code := replicate 20 0x90\<rparr>) ! 19"
proof -
  let ?st = "call_state\<lparr>code := replicate 20 0x90\<rparr>"
  obtain st' where s: "relocate_section nop_env 0x2000 True 5 0 0 ?st = Some st'"
    by (simp add: relocate_section_def call_state_def nop_env_def apply_rel_def R_SYM_def R_TYPE_def relocate_def reloc_types
      CPRIME_OUTPUT_DLL_def relocate_pc32_def add32_def null_sym_def elf_constants Let_def)
  have "\<forall>rel\<in>set (rels ?st). 19 + 4 < unat (r_offset rel) \<or> unat (r_offset rel) + 12 \<le> 19" by (simp add: call_state_def)
  from relocate_section_stays [OF s this] s show ?thesis by blast
qed

section \<open>What the processor computes\<close>

lemma ucast_sint: "ucast (x :: u64) = (word_of_int (sint x) :: u32)"
proof -
  have "take_bit 32 (signed_take_bit 63 (uint x)) = take_bit 32 (uint x)" by (rule take_bit_signed_take_bit) simp
  then show ?thesis unfolding word_uint_eq_iff unsigned_ucast_eq unsigned_of_int sint_uint by simp
qed

lemma sint32_of_int:
  assumes "- 2147483648 \<le> k" and "k < 2147483648"
  shows "sint (word_of_int k :: u32) = k"
proof -
  have "signed_take_bit 31 (take_bit 32 k) = signed_take_bit 31 k" by (simp only: signed_take_bit_take_bit) simp
  also have "\<dots> = k" using assms by (intro signed_take_bit_int_eq_self) simp_all
  finally show ?thesis unfolding sint_uint unsigned_of_int by simp
qed

lemma pc_field:
  assumes "- 2147483648 \<le> sint d + sint F" and "sint d + sint F \<le> 2147483647"
  shows "scast (F + ucast (d :: u64) :: u32) = scast F + d"
proof -
  have "F + ucast d = word_of_int (sint d + sint F)" unfolding ucast_sint by simp
  moreover have "sint (word_of_int (sint d + sint F) :: u32) = sint d + sint F"
    using sint32_of_int [of "sint d + sint F"] assms by simp
  moreover have "(scast x :: u64) = word_of_int (sint x)" for x :: u32 by simp
  ultimately have "scast (F + ucast d) = (word_of_int (sint d + sint F) :: u64)" by metis
  then show ?thesis by simp
qed

text \<open>C21: a 32-bit pc-relative relocation reports an overflow exactly when the distance does not fit and the
  symbol is defined; when the distance, and its sum with the addend in the code, fit, the processor,
  which adds the sign-extended field to the address, finds the target plus the addend.\<close>

theorem pc32_reaches:
  fixes addr target :: u64 and i :: nat
  assumes "ptr + 4 \<le> length (code st)" and "ty \<in> {R_X86_64_PC32, R_X86_64_PLT32}" and "output_type env \<noteq> CPRIME_OUTPUT_DLL"
  defines "diff \<equiv> sint (target - addr)" and "k \<equiv> unat (R_SYM (r_info (rels st ! i)))"
  shows "\<exists>st'. relocate env i ty ptr addr target st = Some st'
    \<and> reports st' = (if (diff < - 2147483648 \<or> 2147483647 < diff) \<and> ucast (st_shndx (env_syms env ! k)) \<noteq> SHN_UNDEF
        then reports st @ [Out_of_range ty] else reports st)
    \<and> (- 2147483648 \<le> diff \<and> diff \<le> 2147483647 \<and> - 2147483648 \<le> diff + sint (read32le (code st) ptr)
         \<and> diff + sint (read32le (code st) ptr) \<le> 2147483647 \<longrightarrow>
       addr + scast (read32le (code st') ptr) = target + scast (read32le (code st) ptr))"
proof -
  let ?F = "read32le (code st) ptr"
  define st' where "st' = (let st1 = (if (diff < - 2147483648 \<or> 2147483647 < diff) \<and> ucast (st_shndx (env_syms env ! k)) \<noteq> SHN_UNDEF
      then report (Out_of_range ty) st else st) in st1\<lparr>code := add32le (code st) ptr (ucast (target - addr))\<rparr>)"
  have "relocate env i ty ptr addr target st = relocate_pc32 env ty k ptr addr target st"
  proof (cases "ty = R_X86_64_PC32")
    case True
    show ?thesis unfolding relocate_def Let_def k_def True using assms(3) by (simp add: reloc_types)
  next
    case False
    then have "ty = R_X86_64_PLT32" using assms(2) by simp
    then show ?thesis unfolding relocate_def Let_def k_def by (simp add: reloc_types)
  qed
  also have "\<dots> = Some st'"
    using assms(1) unfolding relocate_pc32_def Let_def add32_def st'_def diff_def by simp
  finally have r: "relocate env i ty ptr addr target st = Some st'" .
  have "read32le (code st') ptr = ?F + ucast (target - addr)"
    using assms(1) le32.whole.rd_wr [of ptr "code st"] by (simp add: st'_def add32le_def Let_def)
  moreover have "reports st' = (if (diff < - 2147483648 \<or> 2147483647 < diff) \<and> ucast (st_shndx (env_syms env ! k)) \<noteq> SHN_UNDEF
        then reports st @ [Out_of_range ty] else reports st)"
    by (simp add: st'_def Let_def report_def)
  ultimately show ?thesis using r pc_field [of "target - addr" ?F] by (intro exI [of _ st']) (simp add: diff_def)
qed

theorem pc32_reaches_witness:
  "\<exists>st'. relocate nop_env 0 R_X86_64_PC32 1 0x2001 0x1000 call_state = Some st'
    \<and> 0x2001 + scast (read32le (code st') 1) = (0x1000 :: u64) + scast (read32le (code call_state) 1)"
proof -
  have f: "read32le (code call_state) 1 = - 4" by (simp add: call_state_def read32le_def read16le_def)
  have "1 + 4 \<le> length (code call_state)" "R_X86_64_PC32 \<in> {R_X86_64_PC32, R_X86_64_PLT32}"
    "output_type nop_env \<noteq> CPRIME_OUTPUT_DLL"
    by (simp_all add: call_state_def nop_env_def CPRIME_OUTPUT_DLL_def)
  from pc32_reaches [OF this, where target = "0x1000" and addr = "0x2001" and i = 0] show ?thesis unfolding f by auto
qed

section \<open>Order of relocations\<close>

text \<open>A function on the bytes that depends on and changes a field only.\<close>

definition acts_on :: "nat \<Rightarrow> nat \<Rightarrow> (u8 list \<Rightarrow> u8 list) \<Rightarrow> bool" where
  "acts_on p w f \<longleftrightarrow> (\<forall>c. length (f c) = length c) \<and> (\<forall>c j. j < p \<or> p + w \<le> j \<longrightarrow> f c ! j = c ! j)
     \<and> (\<forall>c d j. p + w \<le> length c \<and> length d = length c \<and> (\<forall>k. p \<le> k \<and> k < p + w \<longrightarrow> d ! k = c ! k)
          \<and> p \<le> j \<and> j < p + w \<longrightarrow> f d ! j = f c ! j)"

lemma acts_on_commute:
  assumes "acts_on p w f" and "acts_on q v g" and "p + w \<le> q \<or> q + v \<le> p" and "p + w \<le> length c" and "q + v \<le> length c"
  shows "f (g c) = g (f c)"
proof (rule nth_equalityI)
  show "length (f (g c)) = length (g (f c))" using assms(1,2) by (simp add: acts_on_def)
next
  fix j
  have f: "length (f c) = length c" "j < p \<or> p + w \<le> j \<Longrightarrow> f c' ! j = c' ! j"
    "\<And>d k. length d = length c \<Longrightarrow> \<forall>k. p \<le> k \<and> k < p + w \<longrightarrow> d ! k = c ! k \<Longrightarrow> p \<le> k \<Longrightarrow> k < p + w \<Longrightarrow> f d ! k = f c ! k"
    for c' using assms(1,4) unfolding acts_on_def by blast+
  have g: "length (g c) = length c" "\<And>c' k. k < q \<or> q + v \<le> k \<Longrightarrow> g c' ! k = c' ! k"
    "\<And>d k. length d = length c \<Longrightarrow> \<forall>k. q \<le> k \<and> k < q + v \<longrightarrow> d ! k = c ! k \<Longrightarrow> q \<le> k \<Longrightarrow> k < q + v \<Longrightarrow> g d ! k = g c ! k"
    using assms(2,5) unfolding acts_on_def by blast+
  have ff: "\<forall>k. q \<le> k \<and> k < q + v \<longrightarrow> f c ! k = c ! k" using assms(1,3) unfolding acts_on_def by force
  have gg: "\<forall>k. p \<le> k \<and> k < p + w \<longrightarrow> g c ! k = c ! k" using g(2) assms(3) by force
  consider "p \<le> j \<and> j < p + w" | "q \<le> j \<and> j < q + v" | "j < p \<or> p + w \<le> j" "j < q \<or> q + v \<le> j" by linarith
  then show "f (g c) ! j = g (f c) ! j"
  proof cases
    case 1
    then have "j < q \<or> q + v \<le> j" using assms(3) by linarith
    then show ?thesis using f(3) [OF g(1) gg] g(2) 1 by simp
  next
    case 2
    then have "j < p \<or> p + w \<le> j" using assms(3) by linarith
    then show ?thesis using f(2) g(3) [OF f(1) ff] 2 by simp
  next
    case 3
    then show ?thesis using f(2) g(2) by simp
  qed
qed

lemma add32le_acts: "acts_on p 4 (\<lambda>c. add32le c p x)"
  unfolding acts_on_def add32le_def
proof (intro conjI allI impI)
  fix c d :: "u8 list" and j
  assume a: "p + 4 \<le> length c \<and> length d = length c \<and> (\<forall>k. p \<le> k \<and> k < p + 4 \<longrightarrow> d ! k = c ! k) \<and> p \<le> j \<and> j < p + 4"
  then have "read32le d p = read32le c p" unfolding le32.whole.rd_eq by simp
  then show "write32le d p (read32le d p + x) ! j = write32le c p (read32le c p + x) ! j"
    using a le32.whole.add_local [of d p c j x] by simp
qed (use le32.whole.length_wr le32.whole.wr_other in auto)

lemma add64le_acts: "acts_on p 8 (\<lambda>c. add64le c p x)"
  unfolding acts_on_def add64le_def
proof (intro conjI allI impI)
  fix c d :: "u8 list" and j
  assume a: "p + 8 \<le> length c \<and> length d = length c \<and> (\<forall>k. p \<le> k \<and> k < p + 8 \<longrightarrow> d ! k = c ! k) \<and> p \<le> j \<and> j < p + 8"
  then have "read64le d p = read64le c p" unfolding le64.whole.rd_eq by simp
  then show "write64le d p (read64le d p + x) ! j = write64le c p (read64le c p + x) ! j"
    using a le64.whole.add_local [of d p c j x] by simp
qed (use le64.whole.length_wr le64.whole.wr_other in auto)

definition field_width :: "u32 \<Rightarrow> nat" where
  "field_width ty = (if ty = R_X86_64_64 \<or> ty = R_X86_64_PC64 then 8 else 4)"

lemma plain_effect:
  assumes "output_type env AND CPRIME_OUTPUT_DLL = 0"
    and "ty \<in> {R_X86_64_64, R_X86_64_32, R_X86_64_32S, R_X86_64_PC32, R_X86_64_PLT32, R_X86_64_PC64}"
  obtains f es where "acts_on ptr (field_width ty) f"
    "\<And>st. rels st = rs \<Longrightarrow> relocate env i ty ptr addr v st =
       (if ptr + field_width ty \<le> length (code st) then Some (st\<lparr>code := f (code st), reports := reports st @ es\<rparr>) else None)"
proof -
  have dll: "output_type env \<noteq> CPRIME_OUTPUT_DLL" using assms(1) by (auto simp: CPRIME_OUTPUT_DLL_def)
  consider "ty = R_X86_64_64" | "ty = R_X86_64_PC64" | "ty = R_X86_64_32 \<or> ty = R_X86_64_32S" | "ty = R_X86_64_PC32 \<or> ty = R_X86_64_PLT32"
    using assms(2) by blast
  then show ?thesis
  proof cases
    case 1
    have "relocate env i ty ptr addr v st = add64 ptr v st" for st
      unfolding relocate_def Let_def 1 using assms(1) by simp
    then show ?thesis using add64le_acts [of ptr v] 1 by (intro that [of _ "[]"]) (auto simp: field_width_def add64_def)
  next
    case 2
    have "relocate env i ty ptr addr v st = add64 ptr (v - addr) st" for st
      unfolding relocate_def Let_def 2 using dll by (simp add: reloc_types)
    then show ?thesis using add64le_acts [of ptr "v - addr"] 2 by (intro that [of _ "[]"]) (auto simp: field_width_def add64_def)
  next
    case 3
    let ?es = "if (if ty = R_X86_64_32 then v \<noteq> ucast (ucast v :: u32) else v \<noteq> scast (ucast v :: u32)) then [Out_of_range_32] else []"
    have "relocate env i ty ptr addr v st =
       (if ptr + 4 \<le> length (code st) then Some (st\<lparr>code := add32le (code st) ptr (ucast v), reports := reports st @ ?es\<rparr>) else None)" for st
      using 3 assms(1) unfolding relocate_def Let_def
      by (elim disjE) (simp_all add: reloc_types add32_def report_def)
    moreover have "field_width ty = 4" using 3 by (auto simp: field_width_def reloc_types)
    ultimately show ?thesis using add32le_acts [of ptr "ucast v"] by (intro that [of _ ?es]) simp_all
  next
    case 4
    let ?k = "unat (R_SYM (r_info (rs ! i)))"
    let ?es = "if (sint (v - addr) < - 2147483648 \<or> sint (v - addr) > 2147483647)
      \<and> ucast (st_shndx (env_syms env ! ?k)) \<noteq> SHN_UNDEF then [Out_of_range ty] else []"
    have e: "relocate env i ty ptr addr v st = relocate_pc32 env ty (unat (R_SYM (r_info (rels st ! i)))) ptr addr v st" for st
      using 4 dll unfolding relocate_def Let_def by (elim disjE) (simp_all add: reloc_types)
    have "rels st = rs \<Longrightarrow> relocate env i ty ptr addr v st =
       (if ptr + 4 \<le> length (code st) then Some (st\<lparr>code := add32le (code st) ptr (ucast (v - addr)), reports := reports st @ ?es\<rparr>) else None)" for st
      unfolding e relocate_pc32_def Let_def add32_def report_def by simp
    moreover have "field_width ty = 4" using 4 by (auto simp: field_width_def reloc_types)
    ultimately show ?thesis using add32le_acts [of ptr "ucast (v - addr)"] by (intro that [of _ ?es]) simp_all
  qed
qed

text \<open>C22: two absolute or pc-relative relocations of fields that do not overlap can be applied in either order:
  both orders succeed or fail together, write the same code and report the same overflows.\<close>

theorem relocations_commute:
  assumes "output_type env AND CPRIME_OUTPUT_DLL = 0"
    and "ty1 \<in> {R_X86_64_64, R_X86_64_32, R_X86_64_32S, R_X86_64_PC32, R_X86_64_PLT32, R_X86_64_PC64}"
    and "ty2 \<in> {R_X86_64_64, R_X86_64_32, R_X86_64_32S, R_X86_64_PC32, R_X86_64_PLT32, R_X86_64_PC64}"
    and "ptr1 + field_width ty1 \<le> ptr2 \<or> ptr2 + field_width ty2 \<le> ptr1"
    and "relocate env i1 ty1 ptr1 addr1 v1 st = Some st1" and "relocate env i2 ty2 ptr2 addr2 v2 st1 = Some st12"
  shows "\<exists>st2 st21. relocate env i2 ty2 ptr2 addr2 v2 st = Some st2 \<and> relocate env i1 ty1 ptr1 addr1 v1 st2 = Some st21
    \<and> code st21 = code st12 \<and> set (reports st21) = set (reports st12)"
proof -
  obtain f es where f: "acts_on ptr1 (field_width ty1) f" "\<And>s. rels s = rels st \<Longrightarrow> relocate env i1 ty1 ptr1 addr1 v1 s =
       (if ptr1 + field_width ty1 \<le> length (code s) then Some (s\<lparr>code := f (code s), reports := reports s @ es\<rparr>) else None)"
    using plain_effect [OF assms(1,2)] by metis
  obtain g fs where g: "acts_on ptr2 (field_width ty2) g" "\<And>s. rels s = rels st \<Longrightarrow> relocate env i2 ty2 ptr2 addr2 v2 s =
       (if ptr2 + field_width ty2 \<le> length (code s) then Some (s\<lparr>code := g (code s), reports := reports s @ fs\<rparr>) else None)"
    using plain_effect [OF assms(1,3)] by metis
  have 1: "ptr1 + field_width ty1 \<le> length (code st)" "st1 = st\<lparr>code := f (code st), reports := reports st @ es\<rparr>"
    using assms(5) f(2) [of st] by (auto split: if_splits)
  have lf: "length (f (code st)) = length (code st)" and lg: "length (g (code st)) = length (code st)"
    using f(1) g(1) by (simp_all add: acts_on_def)
  have 2: "ptr2 + field_width ty2 \<le> length (code st)" "st12 = st1\<lparr>code := g (code st1), reports := reports st1 @ fs\<rparr>"
    using assms(6) g(2) [of st1] 1(2) lf by (auto split: if_splits)
  let ?st2 = "st\<lparr>code := g (code st), reports := reports st @ fs\<rparr>"
  have "f (g (code st)) = g (f (code st))" by (rule acts_on_commute [OF f(1) g(1) assms(4) 1(1) 2(1)])
  then show ?thesis using f(2) [of ?st2] g(2) [of st] 1 2 lg
    by (intro exI [of _ ?st2] exI [of _ "?st2\<lparr>code := f (g (code st)), reports := reports ?st2 @ es\<rparr>"]) auto
qed

theorem relocations_commute_witness:
  "\<exists>st2 st21. relocate nop_env 0 R_X86_64_64 4 0 7 (call_state\<lparr>code := replicate 12 1\<rparr>) = Some st2
    \<and> relocate nop_env 0 R_X86_64_32 0 0 9 st2 = Some st21"
proof -
  let ?st = "call_state\<lparr>code := replicate 12 1\<rparr>"
  have o: "output_type nop_env AND CPRIME_OUTPUT_DLL = 0" by (simp add: nop_env_def CPRIME_OUTPUT_DLL_def)
  have "\<exists>st1. relocate nop_env 0 R_X86_64_32 0 0 9 ?st = Some st1 \<and> length (code st1) = 12"
    by (simp add: relocate_def o reloc_types add32_def add32le_def le32.whole.length_wr Let_def)
  then obtain st1 where 1: "relocate nop_env 0 R_X86_64_32 0 0 9 ?st = Some st1" "length (code st1) = 12" by blast
  then have "\<exists>st12. relocate nop_env 0 R_X86_64_64 4 0 7 st1 = Some st12"
    by (simp add: relocate_def o add64_def Let_def)
  then obtain st12 where 2: "relocate nop_env 0 R_X86_64_64 4 0 7 st1 = Some st12" by blast
  show ?thesis using relocations_commute [OF o _ _ _ 1(1) 2] by (auto simp: field_width_def reloc_types)
qed

end
