(* ===== verification/ConstFold.thy ===== *)
theory ConstFold
  imports ElfSymbols "HOL-Library.Signed_Division"
begin

text \<open>
  Constant folding: \<open>value64\<close>, \<open>gen_opic_sdiv\<close>, \<open>gen_opic_lt\<close> and \<open>gen_opic\<close> of
  \<^verbatim>\<open>src/src/compiler/frontend/cprimegen.c\<close> on the value stack, as built for x86-64.  What
  \<open>gen_opic\<close> leaves to the code generator (materialising flags, discarding a value, emitting an operation)
  are its parameters.
\<close>

section \<open>Types, registers and operators\<close>

definition VT_VALMASK :: u32 where "VT_VALMASK = 0x003f"
definition VT_CONST :: u32 where "VT_CONST = 0x0030"
definition VT_LOCAL :: u32 where "VT_LOCAL = 0x0032"
definition VT_LVAL :: u32 where "VT_LVAL = 0x0100"
definition VT_SYM :: u32 where "VT_SYM = 0x0200"
definition VT_NONCONST :: u32 where "VT_NONCONST = 0x1000"
definition VT_BTYPE :: u32 where "VT_BTYPE = 0x000f"
definition VT_LLONG :: u32 where "VT_LLONG = 4"
definition VT_PTR :: u32 where "VT_PTR = 5"
definition VT_UNSIGNED :: u32 where "VT_UNSIGNED = 0x0010"

definition TOK_LAND :: u32 where "TOK_LAND = 0x90"
definition TOK_LOR :: u32 where "TOK_LOR = 0x91"
definition TOK_ULT :: u32 where "TOK_ULT = 0x92"
definition TOK_UGE :: u32 where "TOK_UGE = 0x93"
definition TOK_EQ :: u32 where "TOK_EQ = 0x94"
definition TOK_NE :: u32 where "TOK_NE = 0x95"
definition TOK_ULE :: u32 where "TOK_ULE = 0x96"
definition TOK_UGT :: u32 where "TOK_UGT = 0x97"
definition TOK_LT :: u32 where "TOK_LT = 0x9c"
definition TOK_GE :: u32 where "TOK_GE = 0x9d"
definition TOK_LE :: u32 where "TOK_LE = 0x9e"
definition TOK_GT :: u32 where "TOK_GT = 0x9f"
definition TOK_UDIV :: u32 where "TOK_UDIV = 0x83"
definition TOK_UMOD :: u32 where "TOK_UMOD = 0x84"
definition TOK_PDIV :: u32 where "TOK_PDIV = 0x85"
definition TOK_SHL :: u32 where "TOK_SHL = 0x3c"
definition TOK_SAR :: u32 where "TOK_SAR = 0x3e"
definition TOK_SHR :: u32 where "TOK_SHR = 0x8b"

text \<open>The operators that are characters.\<close>

definition ADD :: u32 where "ADD = 0x2b"
definition SUB :: u32 where "SUB = 0x2d"
definition AMP :: u32 where "AMP = 0x26"
definition CARET :: u32 where "CARET = 0x5e"
definition BAR :: u32 where "BAR = 0x7c"
definition STAR :: u32 where "STAR = 0x2a"
definition SLASH :: u32 where "SLASH = 0x2f"
definition PERCENT :: u32 where "PERCENT = 0x25"

lemmas op_codes = TOK_LAND_def TOK_LOR_def TOK_ULT_def TOK_UGE_def TOK_EQ_def TOK_NE_def TOK_ULE_def TOK_UGT_def
  TOK_LT_def TOK_GE_def TOK_LE_def TOK_GT_def TOK_UDIV_def TOK_UMOD_def TOK_PDIV_def TOK_SHL_def TOK_SAR_def
  TOK_SHR_def ADD_def SUB_def AMP_def CARET_def BAR_def STAR_def SLASH_def PERCENT_def

section \<open>Folding two constants\<close>

definition value64 :: "u64 \<Rightarrow> u32 \<Rightarrow> u64" where
  "value64 l1 t =
     (if t AND VT_BTYPE = VT_LLONG \<or> t AND VT_BTYPE = VT_PTR then l1
      else if t AND VT_UNSIGNED \<noteq> 0 then ucast (ucast l1 :: u32)
      else ucast (ucast l1 :: u32) OR - (l1 AND 0x80000000))"

definition gen_opic_sdiv :: "u64 \<Rightarrow> u64 \<Rightarrow> u64" where
  "gen_opic_sdiv a b =
     (let x = (if drop_bit 63 a \<noteq> 0 then - a else a) div (if drop_bit 63 b \<noteq> 0 then - b else b)
      in if drop_bit 63 (a XOR b) \<noteq> 0 then - x else x)"

definition gen_opic_lt :: "u64 \<Rightarrow> u64 \<Rightarrow> bool" where
  "gen_opic_lt a b \<longleftrightarrow> a XOR push_bit 63 1 < b XOR push_bit 63 1"

definition is_division :: "u32 \<Rightarrow> bool" where
  "is_division op \<longleftrightarrow> op \<in> {TOK_PDIV, SLASH, PERCENT, TOK_UDIV, TOK_UMOD}"

text \<open>\<open>None\<close>: the operation is left to the code generator (\<open>general_case\<close>).\<close>

definition fold_constants :: "u32 \<Rightarrow> u64 \<Rightarrow> u64 \<Rightarrow> u64 \<Rightarrow> u64 option" where
  "fold_constants op shm l1 l2 =
     (if op = ADD then Some (l1 + l2)
      else if op = SUB then Some (l1 - l2)
      else if op = AMP then Some (l1 AND l2)
      else if op = CARET then Some (l1 XOR l2)
      else if op = BAR then Some (l1 OR l2)
      else if op = STAR then Some (l1 * l2)
      else if is_division op then
        (if l2 = 0 then None
         else if op = PERCENT then Some (l1 - l2 * gen_opic_sdiv l1 l2)
         else if op = TOK_UDIV then Some (l1 div l2)
         else if op = TOK_UMOD then Some (l1 mod l2)
         else Some (gen_opic_sdiv l1 l2))
      else if op = TOK_SHL then Some (push_bit (unat (l2 AND shm)) l1)
      else if op = TOK_SHR then Some (drop_bit (unat (l2 AND shm)) l1)
      else if op = TOK_SAR then
        Some (if drop_bit 63 l1 \<noteq> 0 then NOT (drop_bit (unat (l2 AND shm)) (NOT l1)) else drop_bit (unat (l2 AND shm)) l1)
      else if op = TOK_ULT then Some (of_bool (l1 < l2))
      else if op = TOK_UGE then Some (of_bool (l1 \<ge> l2))
      else if op = TOK_EQ then Some (of_bool (l1 = l2))
      else if op = TOK_NE then Some (of_bool (l1 \<noteq> l2))
      else if op = TOK_ULE then Some (of_bool (l1 \<le> l2))
      else if op = TOK_UGT then Some (of_bool (l1 > l2))
      else if op = TOK_LT then Some (of_bool (gen_opic_lt l1 l2))
      else if op = TOK_GE then Some (of_bool (\<not> gen_opic_lt l1 l2))
      else if op = TOK_LE then Some (of_bool (\<not> gen_opic_lt l2 l1))
      else if op = TOK_GT then Some (of_bool (gen_opic_lt l2 l1))
      else if op = TOK_LAND then Some (of_bool (l1 \<noteq> 0 \<and> l2 \<noteq> 0))
      else if op = TOK_LOR then Some (of_bool (l1 \<noteq> 0 \<or> l2 \<noteq> 0))
      else None)"

section \<open>Simplifying with one constant\<close>

text \<open>What is done with the two values on the stack, the constant on top where there is one: drop the top
  (\<open>0 << x\<close>), keep the constant only, keep the other operand only, go on with another operator and
  constant, replace both by an address with an offset, or leave the operation to the code
  generator.\<close>

datatype simplification = Drop_top | Keep_constant | Keep_operand | Use_op u32 u64 | Use_offset u64 | General_case

text \<open>\<open>n = -1; while (l2) { l2 >>= 1; n++; }\<close>\<close>

function shift_loop :: "u64 \<Rightarrow> int \<Rightarrow> int" where
  "shift_loop l2 n = (if l2 \<noteq> 0 then shift_loop (drop_bit 1 l2) (n + 1) else n)"
  by pat_completeness auto
termination
proof (relation "measure (\<lambda>(l2, n). unat l2)")
  fix l2 :: u64 and n :: int
  assume "l2 \<noteq> 0"
  then have "0 < unat l2" by (simp add: unat_gt_0)
  moreover have "unat (drop_bit 1 l2) = unat l2 div 2"
    using unsigned_less [of l2, where ?'a = nat] unfolding unsigned_drop_bit_eq
    by (simp add: drop_bit_eq_div take_bit_nat_eq_self)
  ultimately show "((drop_bit 1 l2, n + 1), (l2, n)) \<in> measure (\<lambda>(l2, n). unat l2)"
    unfolding in_measure prod.case by linarith
qed simp

declare shift_loop.simps [simp del]

definition commutes :: "u32 \<Rightarrow> bool" where
  "commutes op \<longleftrightarrow> op \<in> {ADD, AMP, CARET, BAR, STAR, TOK_EQ, TOK_NE}"

text \<open>\<open>x & 0\<close>, \<open>x * 0\<close>, \<open>x | -1\<close> and \<open>x % 1\<close> are constants; \<open>x * 1\<close>, \<open>x - 0\<close>, \<open>x & -1\<close> and the like are \<open>x\<close>.\<close>

definition absorbs :: "u32 \<Rightarrow> u32 \<Rightarrow> u64 \<Rightarrow> bool" where
  "absorbs op t2 l2 \<longleftrightarrow> l2 = 0 \<and> op \<in> {AMP, STAR} \<or> op = BAR \<and> (l2 = - 1 \<or> l2 = 0xFFFFFFFF \<and> t2 \<noteq> VT_LLONG)
     \<or> l2 = 1 \<and> op \<in> {PERCENT, TOK_UMOD}"

definition neutral :: "u32 \<Rightarrow> u32 \<Rightarrow> u64 \<Rightarrow> bool" where
  "neutral op t2 l2 \<longleftrightarrow> op \<in> {STAR, SLASH, TOK_UDIV, TOK_PDIV} \<and> l2 = 1
     \<or> op \<in> {ADD, SUB, BAR, CARET, TOK_SHL, TOK_SHR, TOK_SAR} \<and> l2 = 0
     \<or> op = AMP \<and> (l2 = - 1 \<or> l2 = 0xFFFFFFFF \<and> t2 \<noteq> VT_LLONG)"

text \<open>\<open>k1\<close>, \<open>k2\<close>: the values of the operands that are constants; \<open>base\<close>: the offset of the operand below the
  top when it is a symbol or a local.\<close>

definition simplify_offset :: "u32 \<Rightarrow> u64 \<Rightarrow> u64 option \<Rightarrow> simplification" where
  "simplify_offset op l2 base =
     (if op \<in> {ADD, SUB} then
        (case base of
           None \<Rightarrow> General_case
         | Some offset \<Rightarrow>
             let l2' = (if op = SUB then - l2 else l2) + offset
             in if scast (ucast l2' :: u32) \<noteq> l2' then General_case else Use_offset l2')
      else General_case)"

definition simplify :: "u32 \<Rightarrow> u32 \<Rightarrow> u64 option \<Rightarrow> u64 option \<Rightarrow> u64 option \<Rightarrow> simplification" where
  "simplify op t2 k1 k2 base =
     (if (\<exists>l1. k1 = Some l1 \<and> (l1 = 0 \<and> op \<in> {TOK_SHL, TOK_SHR, TOK_SAR} \<or> l1 = - 1 \<and> op = TOK_SAR)) then Drop_top
      else case k2 of
        None \<Rightarrow> General_case
      | Some l2 \<Rightarrow>
          if absorbs op t2 l2 then Keep_constant
          else if neutral op t2 l2 then Keep_operand
          else if op \<in> {STAR, TOK_PDIV, TOK_UDIV, TOK_UMOD} then
            if l2 > 0 \<and> l2 AND (l2 - 1) = 0 then
              if op = TOK_UMOD then Use_op AMP (l2 - 1)
              else Use_op (if op = STAR then TOK_SHL else if op = TOK_PDIV then TOK_SAR else TOK_SHR)
                     (of_int (shift_loop l2 (- 1)))
            else General_case
          else simplify_offset op l2 base)"

section \<open>The value stack\<close>

text \<open>The parts of \<open>SValue\<close> that \<open>gen_opic\<close> uses; \<open>sv_sym = 0\<close> is the null pointer.\<close>

record svalue =
  sv_t :: u32
  sv_r :: u32
  sv_c :: u64
  sv_sym :: nat

definition is_constant :: "svalue \<Rightarrow> bool" where
  "is_constant v \<longleftrightarrow> sv_r v AND (VT_VALMASK OR VT_LVAL OR VT_SYM) = VT_CONST"

definition gen_opic_same_relocation_base :: "(nat \<Rightarrow> bool) \<Rightarrow> (nat \<Rightarrow> elf_sym option) \<Rightarrow> nat \<Rightarrow> nat \<Rightarrow> bool" where
  "gen_opic_same_relocation_base string_literal elfsym s1 s2 =
     (if s1 = 0 \<or> s2 = 0 then False
      else if s1 = s2 then True
      else if \<not> string_literal s1 \<or> \<not> string_literal s2 then False
      else (case (elfsym s1, elfsym s2) of
              (Some e1, Some e2) \<Rightarrow> st_size e1 \<noteq> 0 \<and> st_size e1 = st_size e2
                \<and> st_shndx e1 = st_shndx e2 \<and> st_value e1 = st_value e2
            | _ \<Rightarrow> False))"

definition is_address :: "svalue \<Rightarrow> bool" where
  "is_address v \<longleftrightarrow> sv_r v AND (VT_VALMASK OR VT_LVAL OR VT_SYM OR VT_NONCONST) = VT_CONST OR VT_SYM"

text \<open>The outcome: \<open>cprime_error\<close> ends the compilation, otherwise a stack (top first) and what has been
  generated.\<close>

datatype 'm opic = Division_by_zero | Values "svalue list" 'm

text \<open>\<open>check\<close> is \<open>vcheck_cmp\<close>, \<open>discard\<close> the code \<open>vpop\<close> emits for the value it drops, \<open>emit\<close> is \<open>gen_opl\<close>
  or \<open>gen_opi\<close>; \<open>error_wanted\<close> is \<open>CONST_WANTED && !NOEVAL_WANTED\<close>.\<close>

record 'm backend =
  check :: "svalue list \<Rightarrow> 'm \<Rightarrow> svalue list \<times> 'm"
  discard :: "svalue \<Rightarrow> 'm \<Rightarrow> 'm"
  emit :: "bool \<Rightarrow> u32 \<Rightarrow> svalue list \<Rightarrow> 'm \<Rightarrow> svalue list \<times> 'm"

fun vswap :: "'m backend \<Rightarrow> svalue list \<Rightarrow> 'm \<Rightarrow> svalue list \<times> 'm" where
  "vswap b vs m = (case check b vs m of (v # w # rest, m1) \<Rightarrow> (w # v # rest, m1) | r \<Rightarrow> r)"

fun mark_nonconst :: "svalue list \<Rightarrow> svalue list" where
  "mark_nonconst [] = []"
| "mark_nonconst (v # vs) = (if sv_r v = VT_CONST then v\<lparr>sv_r := sv_r v OR VT_NONCONST\<rparr> else v) # vs"

text \<open>The branch for operands that are not both constant, and \<open>general_case\<close>.\<close>

definition opic_rest ::
  "'m backend \<Rightarrow> bool \<Rightarrow> u32 \<Rightarrow> u32 \<Rightarrow> u64 option \<Rightarrow> u64 option \<Rightarrow> svalue list \<Rightarrow> 'm \<Rightarrow> 'm opic" where
  "opic_rest b wide op t2 k1 k2 vs m =
     (let (vs1, m1) = (if k1 \<noteq> None \<and> commutes op then vswap b vs m else (vs, m));
          k2' = (if k1 \<noteq> None \<and> commutes op then k1 else k2);
          top = hd vs1; below = vs1 ! 1; rest = drop 2 vs1;
          r = sv_r below AND (VT_VALMASK OR VT_LVAL OR VT_SYM);
          base = (if r = VT_CONST OR VT_SYM \<or> r = VT_LOCAL then Some (sv_c below) else None);
          (vs2, m2) =
            (case simplify op t2 k1 k2' base of
               Drop_top \<Rightarrow> (below # rest, discard b top m1)
             | Keep_constant \<Rightarrow>
                 map_prod tl id (vswap b ((if k2' = Some 1 then top\<lparr>sv_c := 0\<rparr> else top) # below # rest) m1)
             | Keep_operand \<Rightarrow> (below # rest, m1)
             | Use_op op' n \<Rightarrow> emit b wide op' (top\<lparr>sv_c := n\<rparr> # below # rest) m1
             | Use_offset n \<Rightarrow> (below\<lparr>sv_c := n\<rparr> # rest, m1)
             | General_case \<Rightarrow> emit b wide op vs1 m1)
      in Values (mark_nonconst vs2) m2)"

definition gen_opic ::
  "(nat \<Rightarrow> bool) \<Rightarrow> (nat \<Rightarrow> elf_sym option) \<Rightarrow> 'm backend \<Rightarrow> bool \<Rightarrow> u32 \<Rightarrow> svalue list \<Rightarrow> 'm \<Rightarrow> 'm opic" where
  "gen_opic string_literal elfsym b error_wanted op vs m =
     (case vs of
        v2 # v1 # rest \<Rightarrow>
          let t1 = sv_t v1 AND VT_BTYPE; t2 = sv_t v2 AND VT_BTYPE;
              k1 = (if is_constant v1 then Some (value64 (sv_c v1) (sv_t v1)) else None);
              k2 = (if is_constant v2 then Some (value64 (sv_c v2) (sv_t v2)) else None);
              shm = (if t1 = VT_LLONG then 63 else 31);
              wide = (t1 = VT_LLONG \<or> t2 = VT_LLONG \<or> t1 = VT_PTR \<or> t2 = VT_PTR);
              general = (let (vs1, m1) = emit b wide op vs m in Values (mark_nonconst vs1) m1)
          in if op \<in> {SUB, TOK_EQ, TOK_NE} \<and> is_address v1 \<and> is_address v2
                \<and> gen_opic_same_relocation_base string_literal elfsym (sv_sym v1) (sv_sym v2) then
               Values (v1\<lparr>sv_c := (if op = TOK_EQ then of_bool (sv_c v1 = sv_c v2)
                                  else if op = TOK_NE then of_bool (sv_c v1 \<noteq> sv_c v2) else sv_c v1 - sv_c v2),
                          sv_r := VT_CONST, sv_sym := 0\<rparr> # rest) m
             else (case (k1, k2) of
                     (Some l1, Some l2) \<Rightarrow>
                       if is_division op \<and> l2 = 0 \<and> error_wanted then Division_by_zero
                       else (case fold_constants op shm l1 l2 of
                               Some l \<Rightarrow> Values (v1\<lparr>sv_c := value64 l (sv_t v1),
                                            sv_r := sv_r v1 OR (sv_r v2 AND VT_NONCONST)\<rparr> # rest) m
                             | None \<Rightarrow> general)
                   | _ \<Rightarrow> opic_rest b wide op t2 k1 k2 vs m)
      | _ \<Rightarrow> Values vs m)"

end
