(* ===== verification/ConstFoldSpec.thy ===== *)
theory ConstFoldSpec imports ConstFold
begin

text \<open>
  Constant folding against arithmetic on mathematical integers: what \<open>gen_opic\<close> computes for two
  constants is the operation of C on their values, wrapped to the width of the type, and what
  it rewrites an operation with one constant to has the value of the operation.
\<close>

section \<open>Values of a type\<close>

definition is_wide :: "u32 \<Rightarrow> bool" where
  "is_wide t \<longleftrightarrow> t AND VT_BTYPE = VT_LLONG \<or> t AND VT_BTYPE = VT_PTR"

definition is_unsigned :: "u32 \<Rightarrow> bool" where
  "is_unsigned t \<longleftrightarrow> t AND VT_UNSIGNED \<noteq> 0"

definition value_of :: "u32 \<Rightarrow> u64 \<Rightarrow> int" where
  "value_of t l =
     (if is_wide t then if is_unsigned t then uint l else sint l
      else if is_unsigned t then uint (ucast l :: u32) else sint (ucast l :: u32))"

text \<open>An integer wrapped to the type.\<close>

definition wrap :: "u32 \<Rightarrow> int \<Rightarrow> int" where
  "wrap t k = value_of t (word_of_int k)"

lemma high_mask: "(l :: u64) AND 0x80000000 = (if bit l 31 then 0x80000000 else 0)"
proof -
  have p: "(0x80000000 :: u64) = push_bit 31 1" by simp
  have "l AND push_bit 31 1 = (if bit l 31 then push_bit 31 1 else 0)"
  proof (cases "bit l 31")
    case True
    have "l AND push_bit 31 1 = push_bit 31 1"
      by (rule bit_word_eqI, unfold bit_and_iff bit_push_bit_iff bit_1_iff) (use True in \<open>auto dest: le_antisym\<close>)
    then show ?thesis using True by simp
  next
    case False
    have "l AND push_bit 31 1 = 0"
      by (rule bit_word_eqI, unfold bit_and_iff bit_push_bit_iff bit_1_iff) (use False in \<open>auto dest: le_antisym\<close>)
    then show ?thesis using False by simp
  qed
  then show ?thesis unfolding p .
qed

lemma eq_31: "n < 32 \<Longrightarrow> 31 \<le> n \<Longrightarrow> n = (31 :: nat)"
  by simp

lemma bit_high_ones: "bit (- 0x80000000 :: u64) k \<longleftrightarrow> 31 \<le> k \<and> k < 64"
proof -
  have n: "- (0x80000000 :: u64) = NOT (mask 31)" by (simp add: mask_eq_exp_minus_1)
  show ?thesis unfolding n bit_not_iff bit_mask_iff by (auto simp: possible_bit_def)
qed

lemma sign_extend: "ucast (ucast l :: u32) OR - (l AND 0x80000000) = (scast (ucast l :: u32) :: u64)"
proof (cases "bit l 31")
  case True
  show ?thesis unfolding high_mask if_P [OF True]
    by (rule bit_word_eqI, unfold bit_or_iff bit_high_ones) (use True in \<open>auto simp: bit_simps min_def dest: eq_31\<close>)
next
  case False
  show ?thesis unfolding high_mask if_not_P [OF False]
    by (rule bit_word_eqI) (use False in \<open>auto simp: bit_simps min_def dest: eq_31\<close>)
qed

lemma value64_value: "value64 l t = word_of_int (value_of t l)"
proof -
  consider "is_wide t" | "\<not> is_wide t" "is_unsigned t" | "\<not> is_wide t" "\<not> is_unsigned t" by blast
  then show ?thesis
  proof cases
    case 1
    then show ?thesis by (simp add: value64_def value_of_def is_wide_def)
  next
    case 2
    then show ?thesis by (simp add: value64_def value_of_def is_wide_def is_unsigned_def)
  next
    case 3
    then have "value64 l t = scast (ucast l :: u32)"
      unfolding value64_def sign_extend by (simp add: is_wide_def is_unsigned_def)
    then show ?thesis using 3 by (simp add: value_of_def)
  qed
qed

lemma value64_of: "value_of t (value64 l t) = value_of t l"
proof (cases "is_wide t")
  case True
  then show ?thesis by (simp add: value64_def is_wide_def)
next
  case False
  have u: "ucast (ucast (ucast l :: u32) :: u64) = (ucast l :: u32)" by (rule bit_word_eqI) (simp add: bit_simps)
  have s: "ucast (scast (ucast l :: u32) :: u64) = (ucast l :: u32)"
    by (rule bit_word_eqI) (auto simp: bit_simps min_def dest: eq_31)
  show ?thesis using False unfolding value64_def sign_extend
    by (simp add: value_of_def is_wide_def is_unsigned_def u s)
qed

lemma wrap_value64: "value_of t (value64 (word_of_int k) t) = wrap t k"
  by (simp add: value64_of wrap_def)

lemma wrap_value_of [simp]: "wrap t (value_of t l) = value_of t l"
  by (simp add: wrap_def value64_of flip: value64_value)

lemma value_of_range:
  "is_unsigned t \<Longrightarrow> 0 \<le> value_of t l \<and> value_of t l < 18446744073709551616"
  "\<not> is_unsigned t \<Longrightarrow> - 9223372036854775808 \<le> value_of t l \<and> value_of t l < 9223372036854775808"
proof -
  have 1: "- 2147483648 \<le> sint x \<and> sint x < 2147483648" for x :: u32
    using sint_range_size [of x] by (simp add: word_size)
  show "is_unsigned t \<Longrightarrow> 0 \<le> value_of t l \<and> value_of t l < 18446744073709551616"
    using uint64_less [of l] uint32_less [of "ucast l"] by (auto simp: value_of_def)
  show "\<not> is_unsigned t \<Longrightarrow> - 9223372036854775808 \<le> value_of t l \<and> value_of t l < 9223372036854775808"
    using sint64_bounds [of l] 1 [of "ucast l"] by (auto simp: value_of_def)
qed

section \<open>The operators on integers\<close>

definition c_op :: "u32 \<Rightarrow> int \<Rightarrow> int \<Rightarrow> int option" where
  "c_op op a b =
     (if op = ADD then Some (a + b)
      else if op = SUB then Some (a - b)
      else if op = AMP then Some (a AND b)
      else if op = CARET then Some (a XOR b)
      else if op = BAR then Some (a OR b)
      else if op = STAR then Some (a * b)
      else if op = SLASH \<or> op = TOK_PDIV then if b = 0 then None else Some (a sdiv b)
      else if op = PERCENT then if b = 0 then None else Some (a smod b)
      else if op = TOK_UDIV then if b = 0 then None else Some (a div b)
      else if op = TOK_UMOD then if b = 0 then None else Some (a mod b)
      else if op = TOK_SHL then Some (a * 2 ^ nat b)
      else if op = TOK_SHR \<or> op = TOK_SAR then Some (a div 2 ^ nat b)
      else if op = TOK_EQ then Some (of_bool (a = b))
      else if op = TOK_NE then Some (of_bool (a \<noteq> b))
      else if op = TOK_LT \<or> op = TOK_ULT then Some (of_bool (a < b))
      else if op = TOK_GE \<or> op = TOK_UGE then Some (of_bool (a \<ge> b))
      else if op = TOK_LE \<or> op = TOK_ULE then Some (of_bool (a \<le> b))
      else if op = TOK_GT \<or> op = TOK_UGT then Some (of_bool (a > b))
      else if op = TOK_LAND then Some (of_bool (a \<noteq> 0 \<and> b \<noteq> 0))
      else if op = TOK_LOR then Some (of_bool (a \<noteq> 0 \<or> b \<noteq> 0))
      else None)"

text \<open>The parser chooses the signed or the unsigned operator after the type, converts both
  operands but those of a shift to one type, and C leaves shifts by the width or more undefined.\<close>

definition op_fits :: "u32 \<Rightarrow> u32 \<Rightarrow> u32 \<Rightarrow> int \<Rightarrow> bool" where
  "op_fits op t1 t2 b \<longleftrightarrow>
     (op \<in> {TOK_UDIV, TOK_UMOD, TOK_SHR, TOK_ULT, TOK_UGE, TOK_ULE, TOK_UGT} \<longrightarrow> is_unsigned t1)
     \<and> (op \<in> {SLASH, TOK_PDIV, PERCENT, TOK_SAR, TOK_LT, TOK_GE, TOK_LE, TOK_GT} \<longrightarrow> \<not> is_unsigned t1)
     \<and> (if op \<in> {TOK_SHL, TOK_SHR, TOK_SAR} then 0 \<le> b \<and> b < (if t1 AND VT_BTYPE = VT_LLONG then 64 else 32)
        else t2 = t1)"

lemma fits_signed:
  "op_fits op t1 t2 b \<Longrightarrow> op \<in> {SLASH, TOK_PDIV, PERCENT, TOK_SAR, TOK_LT, TOK_GE, TOK_LE, TOK_GT} \<Longrightarrow> \<not> is_unsigned t1"
  unfolding op_fits_def by blast

lemma fits_unsigned:
  "op_fits op t1 t2 b \<Longrightarrow> op \<in> {TOK_UDIV, TOK_UMOD, TOK_SHR, TOK_ULT, TOK_UGE, TOK_ULE, TOK_UGT} \<Longrightarrow> is_unsigned t1"
  unfolding op_fits_def by blast

lemma fits_shift:
  assumes "op_fits op t1 t2 b" and "op \<in> {TOK_SHL, TOK_SHR, TOK_SAR}"
  shows "0 \<le> b" "b < (if t1 AND VT_BTYPE = VT_LLONG then 64 else 32)"
  using assms(1) unfolding op_fits_def if_P [OF assms(2)] by blast+

lemma not_shift:
  "op \<in> {SLASH, TOK_PDIV, PERCENT, TOK_UDIV, TOK_UMOD, TOK_EQ, TOK_NE, TOK_LT, TOK_GE, TOK_LE, TOK_GT, TOK_ULT, TOK_UGE, TOK_ULE,
    TOK_UGT, ADD, SUB, AMP, BAR, CARET, STAR} \<Longrightarrow> op \<notin> {TOK_SHL, TOK_SHR, TOK_SAR}"
  by (elim insertE) (simp_all add: op_codes)

lemma fits_same:
  assumes "op_fits op t1 t2 b" and "op \<in> {SLASH, TOK_PDIV, PERCENT, TOK_UDIV, TOK_UMOD, TOK_EQ, TOK_NE, TOK_LT, TOK_GE, TOK_LE,
    TOK_GT, TOK_ULT, TOK_UGE, TOK_ULE, TOK_UGT, ADD, SUB, AMP, BAR, CARET, STAR}"
  shows "t2 = t1"
  using assms(1) unfolding op_fits_def if_not_P [OF not_shift [OF assms(2)]] by blast

section \<open>Words and integers\<close>

lemma uint_word_of_nonneg: "0 \<le> k \<Longrightarrow> k < 18446744073709551616 \<Longrightarrow> uint (word_of_int k :: u64) = k"
  by (simp add: uint_word_of_int)

lemma sint_word_of:
  assumes "- 9223372036854775808 \<le> k" and "k < 9223372036854775808"
  shows "sint (word_of_int k :: u64) = k"
proof -
  have "signed_take_bit 63 (take_bit 64 k) = signed_take_bit 63 k" by (simp only: signed_take_bit_take_bit) simp
  also have "\<dots> = k" using assms by (intro signed_take_bit_int_eq_self) simp_all
  finally show ?thesis unfolding sint_uint unsigned_of_int by simp
qed

lemma high_bit: "drop_bit 63 (x :: u64) \<noteq> 0 \<longleftrightarrow> bit x 63"
proof -
  have "drop_bit 63 x = of_bool (bit x 63)"
  proof (rule bit_word_eqI)
    fix n show "bit (drop_bit 63 x) n = bit (of_bool (bit x 63) :: u64) n"
      by (cases n) (auto simp: bit_simps bit_1_iff dest: bit_imp_le_length)
  qed
  then show ?thesis by simp
qed

lemma bit_63: "bit (x :: u64) 63 \<longleftrightarrow> sint x < 0"
  using bit_last_iff [of x] by simp

lemma abs_word:
  "uint (if drop_bit 63 x \<noteq> 0 then - x else x :: u64) = \<bar>sint x\<bar>"
proof (cases "sint x < 0")
  case True
  have r: "- 9223372036854775808 \<le> sint x" using sint64_bounds [of x] by simp
  have "- x = word_of_int (- sint x)" by simp
  then have "uint (- x) = - sint x" using uint_word_of_nonneg [of "- sint x"] True r by simp
  then show ?thesis using True by (simp add: high_bit bit_63)
next
  case False
  then have "uint x = sint x" using sint64_cases [of x] uint64_less [of x] by (auto split: if_splits)
  then show ?thesis using False by (simp add: high_bit bit_63)
qed

lemma sdiv_word: "gen_opic_sdiv x y = word_of_int (sint x sdiv sint y)"
proof -
  let ?q = "(if drop_bit 63 x \<noteq> 0 then - x else x) div (if drop_bit 63 y \<noteq> 0 then - y else y)"
  have q: "?q = word_of_int (\<bar>sint x\<bar> div \<bar>sint y\<bar>)"
    unfolding word_div_def abs_word ..
  have s: "drop_bit 63 (x XOR y) \<noteq> 0 \<longleftrightarrow> (sint x < 0) \<noteq> (sint y < 0)"
    unfolding high_bit unfolding bit_xor_iff unfolding bit_63 by blast
  have d: "sint x sdiv sint y = (if (sint x < 0) \<noteq> (sint y < 0) then - (\<bar>sint x\<bar> div \<bar>sint y\<bar>) else \<bar>sint x\<bar> div \<bar>sint y\<bar>)"
    by (cases "sint x = 0"; cases "sint y = 0") (auto simp: signed_divide_int_def sgn_if)
  show ?thesis unfolding gen_opic_sdiv_def Let_def q s d by simp
qed

lemma flip_top: "x XOR push_bit 63 1 = x + (push_bit 63 1 :: u64)"
proof (cases "bit x 63")
  case True
  have "x XOR push_bit 63 1 = x AND NOT (push_bit 63 1)"
    by (rule bit_word_eqI, unfold bit_xor_iff bit_and_iff bit_not_iff bit_push_bit_iff bit_1_iff)
      (use True in \<open>auto dest: le_antisym simp: possible_bit_def\<close>)
  also have "\<dots> = x - push_bit 63 1"
    by (rule disjunctive_diff [symmetric], unfold bit_push_bit_iff bit_1_iff) (use True in \<open>auto dest: le_antisym\<close>)
  also have "\<dots> = x + push_bit 63 1" by simp
  finally show ?thesis .
next
  case False
  have "x XOR push_bit 63 1 = x OR push_bit 63 1"
    by (rule bit_word_eqI, unfold bit_xor_iff bit_or_iff bit_push_bit_iff bit_1_iff)
      (use False in \<open>auto dest: le_antisym simp: possible_bit_def\<close>)
  also have "\<dots> = x + push_bit 63 1"
    by (rule disjunctive_add [symmetric], unfold bit_push_bit_iff bit_1_iff) (use False in \<open>auto dest: le_antisym\<close>)
  finally show ?thesis .
qed

lemma lt_word: "gen_opic_lt x y \<longleftrightarrow> sint x < sint y"
proof -
  have f: "uint (x XOR push_bit 63 1) = sint x + 9223372036854775808" for x :: u64
  proof (cases "uint x < 9223372036854775808")
    case True
    then show ?thesis unfolding flip_top using sint64_cases [of x] uint_ge_0 [of x] by (subst uint64_plus_small) simp_all
  next
    case False
    have "(uint x + 9223372036854775808) mod 18446744073709551616 = (uint x - 9223372036854775808) mod 18446744073709551616"
      using mod_add_self2 [of "uint x - 9223372036854775808" 18446744073709551616] by (simp add: add.commute)
    also have "\<dots> = uint x - 9223372036854775808" using False uint64_less [of x] by (intro mod_pos_pos_trivial) simp_all
    finally show ?thesis unfolding flip_top using False sint64_cases [of x] by (simp add: uint_word_ariths)
  qed
  show ?thesis unfolding gen_opic_lt_def word_less_def f by simp
qed

lemma sar_word:
  assumes "n < 64"
  shows "(if drop_bit 63 x \<noteq> 0 then NOT (drop_bit n (NOT x)) else drop_bit n x) = word_of_int (sint (x :: u64) div 2 ^ n)"
proof -
  have "(if drop_bit 63 x \<noteq> 0 then NOT (drop_bit n (NOT x)) else drop_bit n x) = signed_drop_bit n x"
    unfolding high_bit
    by (rule bit_word_eqI) (use assms in \<open>auto simp: bit_simps bit_signed_drop_bit_iff not_le dest: bit_imp_le_length\<close>)
  moreover have "signed_drop_bit n x = word_of_int (sint (signed_drop_bit n x))" by simp
  ultimately show ?thesis by (simp add: sint_signed_drop_bit_eq drop_bit_eq_div)
qed

lemma word_logic: "word_of_int a AND word_of_int b = (word_of_int (a AND b) :: u64)"
  "word_of_int a OR word_of_int b = (word_of_int (a OR b) :: u64)"
  "word_of_int a XOR word_of_int b = (word_of_int (a XOR b) :: u64)"
  by (simp_all add: word_wi_log_defs)

lemma shift_amount:
  assumes "0 \<le> b" and "b < (if w then 64 else 32)"
  shows "unat ((word_of_int b :: u64) AND (if w then 63 else 31)) = nat b"
proof -
  have m: "(if w then 63 else 31 :: u64) = mask (if w then 6 else 5)" by (simp add: mask_eq_exp_minus_1)
  have "uint (word_of_int b :: u64) = b" using assms by (intro uint_word_of_nonneg) (auto split: if_splits)
  then have "uint ((word_of_int b :: u64) AND mask (if w then 6 else 5)) = b"
    using assms by (simp add: and_mask_bintr take_bit_int_eq_self split: if_splits)
  then show ?thesis unfolding m by (metis nat_uint_eq)
qed

section \<open>Folding is exact\<close>

lemma ops_distinct: "distinct [ADD, SUB, AMP, CARET, BAR, STAR, SLASH, PERCENT, TOK_UDIV, TOK_UMOD, TOK_PDIV, TOK_SHL,
    TOK_SHR, TOK_SAR, TOK_EQ, TOK_NE, TOK_LT, TOK_GE, TOK_LE, TOK_GT, TOK_ULT, TOK_UGE, TOK_ULE, TOK_UGT, TOK_LAND, TOK_LOR]"
  by (simp add: op_codes)

lemma value_of_uint: "is_unsigned t \<Longrightarrow> uint (value64 l t) = value_of t l"
  unfolding value64_value using value_of_range(1) [of t l] by (simp add: uint_word_of_nonneg)

lemma value_of_sint: "\<not> is_unsigned t \<Longrightarrow> sint (value64 l t) = value_of t l"
  unfolding value64_value using value_of_range(2) [of t l] by (simp add: sint_word_of)

lemma value_of_eq: "value64 x t = value64 y t \<longleftrightarrow> value_of t x = value_of t y"
  by (metis value64_of value64_value)

lemma value_of_zero: "value64 y t = 0 \<longleftrightarrow> value_of t y = 0"
proof -
  have "value_of t 0 = 0" by (simp add: value_of_def)
  then show ?thesis by (metis value64_of value64_value word_of_int_0)
qed

lemma fold_values:
  "fold_constants ADD s x y = Some (x + y)" "fold_constants SUB s x y = Some (x - y)"
  "fold_constants AMP s x y = Some (x AND y)" "fold_constants CARET s x y = Some (x XOR y)"
  "fold_constants BAR s x y = Some (x OR y)" "fold_constants STAR s x y = Some (x * y)"
  "fold_constants SLASH s x y = (if y = 0 then None else Some (gen_opic_sdiv x y))"
  "fold_constants TOK_PDIV s x y = (if y = 0 then None else Some (gen_opic_sdiv x y))"
  "fold_constants PERCENT s x y = (if y = 0 then None else Some (x - y * gen_opic_sdiv x y))"
  "fold_constants TOK_UDIV s x y = (if y = 0 then None else Some (x div y))"
  "fold_constants TOK_UMOD s x y = (if y = 0 then None else Some (x mod y))"
  "fold_constants TOK_SHL s x y = Some (push_bit (unat (y AND s)) x)"
  "fold_constants TOK_SHR s x y = Some (drop_bit (unat (y AND s)) x)"
  "fold_constants TOK_SAR s x y = Some (if drop_bit 63 x \<noteq> 0 then NOT (drop_bit (unat (y AND s)) (NOT x)) else drop_bit (unat (y AND s)) x)"
  by (simp_all only: fold_constants_def is_division_def) (simp_all add: op_codes)

lemma fold_tests:
  "fold_constants TOK_EQ s x y = Some (of_bool (x = y))" "fold_constants TOK_NE s x y = Some (of_bool (x \<noteq> y))"
  "fold_constants TOK_ULT s x y = Some (of_bool (x < y))" "fold_constants TOK_UGE s x y = Some (of_bool (x \<ge> y))"
  "fold_constants TOK_ULE s x y = Some (of_bool (x \<le> y))" "fold_constants TOK_UGT s x y = Some (of_bool (x > y))"
  "fold_constants TOK_LT s x y = Some (of_bool (gen_opic_lt x y))" "fold_constants TOK_GE s x y = Some (of_bool (\<not> gen_opic_lt x y))"
  "fold_constants TOK_LE s x y = Some (of_bool (\<not> gen_opic_lt y x))" "fold_constants TOK_GT s x y = Some (of_bool (gen_opic_lt y x))"
  "fold_constants TOK_LAND s x y = Some (of_bool (x \<noteq> 0 \<and> y \<noteq> 0))" "fold_constants TOK_LOR s x y = Some (of_bool (x \<noteq> 0 \<or> y \<noteq> 0))"
  by (simp_all only: fold_constants_def is_division_def) (simp_all add: op_codes)

lemma c_op_values:
  "c_op ADD a b = Some (a + b)" "c_op SUB a b = Some (a - b)" "c_op AMP a b = Some (a AND b)"
  "c_op CARET a b = Some (a XOR b)" "c_op BAR a b = Some (a OR b)" "c_op STAR a b = Some (a * b)"
  "c_op SLASH a b = (if b = 0 then None else Some (a sdiv b))" "c_op TOK_PDIV a b = (if b = 0 then None else Some (a sdiv b))"
  "c_op PERCENT a b = (if b = 0 then None else Some (a smod b))" "c_op TOK_UDIV a b = (if b = 0 then None else Some (a div b))"
  "c_op TOK_UMOD a b = (if b = 0 then None else Some (a mod b))" "c_op TOK_SHL a b = Some (a * 2 ^ nat b)"
  "c_op TOK_SHR a b = Some (a div 2 ^ nat b)" "c_op TOK_SAR a b = Some (a div 2 ^ nat b)"
  by (simp_all only: c_op_def) (simp_all add: op_codes)

lemma c_op_tests:
  "c_op TOK_EQ a b = Some (of_bool (a = b))" "c_op TOK_NE a b = Some (of_bool (a \<noteq> b))"
  "c_op TOK_LT a b = Some (of_bool (a < b))" "c_op TOK_GE a b = Some (of_bool (a \<ge> b))"
  "c_op TOK_LE a b = Some (of_bool (a \<le> b))" "c_op TOK_GT a b = Some (of_bool (a > b))"
  "c_op TOK_ULT a b = Some (of_bool (a < b))" "c_op TOK_UGE a b = Some (of_bool (a \<ge> b))"
  "c_op TOK_ULE a b = Some (of_bool (a \<le> b))" "c_op TOK_UGT a b = Some (of_bool (a > b))"
  "c_op TOK_LAND a b = Some (of_bool (a \<noteq> 0 \<and> b \<noteq> 0))" "c_op TOK_LOR a b = Some (of_bool (a \<noteq> 0 \<or> b \<noteq> 0))"
  by (simp_all only: c_op_def) (simp_all add: op_codes)

lemmas op_values = fold_values fold_tests c_op_values c_op_tests

lemma of_bool_word: "(of_bool c :: u64) = word_of_int (of_bool c)"
  by simp

lemma drop_bit_word: "drop_bit n (x :: u64) = word_of_int (uint x div 2 ^ n)"
proof -
  have "uint (drop_bit n x) = uint x div 2 ^ n"
    using uint64_less [of x] unfolding unsigned_drop_bit_eq by (simp add: drop_bit_eq_div take_bit_int_eq_self)
  then show ?thesis by (metis word_of_int_uint)
qed

lemma fold_c_op:
  assumes "op_fits op t1 t2 (value_of t2 y)"
  shows "fold_constants op (if t1 AND VT_BTYPE = VT_LLONG then 63 else 31) (value64 x t1) (value64 y t2)
    = map_option word_of_int (c_op op (value_of t1 x) (value_of t2 y))"
proof -
  let ?a = "value_of t1 x" and ?b = "value_of t2 y"
  let ?x = "value64 x t1" and ?y = "value64 y t2"
  note l = value64_value [of x t1] value64_value [of y t2]
  note same = fits_same [OF assms] and signed = fits_signed [OF assms] and unsign = fits_unsigned [OF assms]
  have z: "?y = 0 \<longleftrightarrow> ?b = 0" by (rule value_of_zero)
  have z1: "?x = 0 \<longleftrightarrow> ?a = 0" by (rule value_of_zero)
  consider "op \<in> {ADD, SUB, STAR}" | "op \<in> {AMP, CARET, BAR}" | "op \<in> {SLASH, TOK_PDIV, PERCENT}" | "op \<in> {TOK_UDIV, TOK_UMOD}"
    | "op \<in> {TOK_SHL, TOK_SHR, TOK_SAR}" | "op \<in> {TOK_EQ, TOK_NE}" | "op \<in> {TOK_LT, TOK_GE, TOK_LE, TOK_GT}"
    | "op \<in> {TOK_ULT, TOK_UGE, TOK_ULE, TOK_UGT}" | "op \<in> {TOK_LAND, TOK_LOR}"
    | "op \<notin> set [ADD, SUB, AMP, CARET, BAR, STAR, SLASH, PERCENT, TOK_UDIV, TOK_UMOD, TOK_PDIV, TOK_SHL,
    TOK_SHR, TOK_SAR, TOK_EQ, TOK_NE, TOK_LT, TOK_GE, TOK_LE, TOK_GT, TOK_ULT, TOK_UGE, TOK_ULE, TOK_UGT, TOK_LAND, TOK_LOR]"
    unfolding set_simps by blast
  then show ?thesis
  proof cases
    case 1
    then show ?thesis by (auto simp: op_values l)
  next
    case 2
    then show ?thesis by (auto simp: op_values l word_logic)
  next
    case 3
    have t: "t2 = t1" using 3 by (intro same) blast
    have t1: "\<not> is_unsigned t1" using 3 by (intro signed) blast
    have d: "gen_opic_sdiv ?x ?y = word_of_int (?a sdiv ?b)"
      unfolding sdiv_word using value_of_sint t t1 by simp
    have m: "?x - ?y * gen_opic_sdiv ?x ?y = word_of_int (?a smod ?b)"
      unfolding d by (simp add: l flip: minus_mult_sdiv_eq_smod)
    show ?thesis using 3 z m d by (auto simp: op_values)
  next
    case 4
    have t: "t2 = t1" using 4 by (intro same) blast
    have t1: "is_unsigned t1" using 4 by (intro unsign) blast
    have "?x div ?y = word_of_int (?a div ?b)" "?x mod ?y = word_of_int (?a mod ?b)"
      unfolding word_div_def word_mod_def using value_of_uint t t1 by simp_all
    then show ?thesis using 4 z by (auto simp: op_values)
  next
    case 5
    note b = fits_shift [OF assms 5]
    note n = shift_amount [OF b, folded l(2)]
    have n64: "nat ?b < 64" using b by (auto split: if_splits)
    consider "op = TOK_SHL" | "op = TOK_SHR" | "op = TOK_SAR" using 5 by blast
    then show ?thesis
    proof cases
      case 1
      have "push_bit (nat ?b) ?x = word_of_int (?a * 2 ^ nat ?b)" unfolding l(1) by (simp add: push_bit_eq_mult)
      then show ?thesis using 1 n by (simp add: op_values)
    next
      case 2
      then have "is_unsigned t1" by (intro unsign) blast
      then have "drop_bit (nat ?b) ?x = word_of_int (?a div 2 ^ nat ?b)"
        using value_of_uint [of t1 x] drop_bit_word [of "nat ?b" ?x] by simp
      then show ?thesis using 2 n by (simp add: op_values)
    next
      case 3
      then have "\<not> is_unsigned t1" by (intro signed) blast
      then have e: "(if drop_bit 63 ?x \<noteq> 0 then NOT (drop_bit (nat ?b) (NOT ?x)) else drop_bit (nat ?b) ?x) = word_of_int (?a div 2 ^ nat ?b)"
        unfolding sar_word [OF n64] using value_of_sint by simp
      show ?thesis unfolding 3 fold_values c_op_values option.map n e by (rule refl)
    qed
  next
    case 6
    then have "t2 = t1" by (intro same) blast
    then have "?x = ?y \<longleftrightarrow> ?a = ?b" using value_of_eq by simp
    then show ?thesis using 6 by (auto simp: op_values)
  next
    case 7
    have t: "t2 = t1" using 7 by (intro same) blast
    have t1: "\<not> is_unsigned t1" using 7 by (intro signed) blast
    have "gen_opic_lt ?x ?y \<longleftrightarrow> ?a < ?b" "gen_opic_lt ?y ?x \<longleftrightarrow> ?b < ?a" unfolding lt_word using value_of_sint t t1 by simp_all
    then show ?thesis using 7 by (auto simp: op_values)
  next
    case 8
    have t: "t2 = t1" using 8 by (intro same) blast
    have t1: "is_unsigned t1" using 8 by (intro unsign) blast
    have "?x < ?y \<longleftrightarrow> ?a < ?b" "?x \<le> ?y \<longleftrightarrow> ?a \<le> ?b" "?y < ?x \<longleftrightarrow> ?b < ?a" "?y \<le> ?x \<longleftrightarrow> ?b \<le> ?a"
      unfolding word_less_def word_le_def using value_of_uint t t1 by simp_all
    then show ?thesis using 8 by (auto simp: op_values)
  next
    case 9
    then show ?thesis using z z1 by (auto simp: op_values)
  next
    case 10
    then show ?thesis unfolding fold_constants_def c_op_def is_division_def by simp
  qed
qed

text \<open>C23: for two constants, \<open>gen_opic\<close> computes the operation of C on their values, wrapped to the width and sign
  of the type; it leaves exactly the divisions by zero and the operators it does not know to
  the code generator.\<close>

theorem folding_exact:
  assumes "op_fits op t1 t2 (value_of t2 y)"
  shows "map_option (\<lambda>l. value_of t1 (value64 l t1))
      (fold_constants op (if t1 AND VT_BTYPE = VT_LLONG then 63 else 31) (value64 x t1) (value64 y t2))
    = map_option (wrap t1) (c_op op (value_of t1 x) (value_of t2 y))"
  unfolding fold_c_op [OF assms] by (simp add: option.map_comp o_def wrap_value64)

lemma minus_one: "sint (ucast (- 1 :: u64) :: u32) = - 1"
proof -
  have "(ucast (- 1 :: u64) :: u32) = - 1" by (rule bit_word_eqI) (simp add: bit_simps)
  then show ?thesis by simp
qed

theorem folding_exact_witness:
  "map_option (\<lambda>l. value_of 3 (value64 l 3)) (fold_constants PERCENT 31 (value64 (- 7) 3) (value64 2 3)) = Some (- 1)"
proof -
  have v: "value_of 3 2 = 2" "value_of 3 (- 7) = - 7"
    by (simp_all add: value_of_def is_wide_def is_unsigned_def VT_BTYPE_def VT_LLONG_def VT_PTR_def VT_UNSIGNED_def)
  have "op_fits PERCENT 3 3 (value_of 3 2)"
    by (simp add: op_fits_def op_codes is_unsigned_def VT_UNSIGNED_def)
  from folding_exact [OF this, of "- 7"]
  have "map_option (\<lambda>l. value_of 3 (value64 l 3)) (fold_constants PERCENT 31 (value64 (- 7) 3) (value64 2 3)) = Some (wrap 3 (- 1))"
    unfolding v c_op_values by (simp add: VT_BTYPE_def VT_LLONG_def signed_modulo_int_def)
  moreover have "wrap 3 (- 1) = - 1"
    by (simp add: wrap_def value_of_def is_wide_def is_unsigned_def VT_BTYPE_def VT_LLONG_def VT_PTR_def VT_UNSIGNED_def minus_one)
  ultimately show ?thesis by simp
qed

end
