(* ===== verification/ConstSimplifySpec.thy ===== *)
theory ConstSimplifySpec imports ConstFoldSpec
begin

text \<open>
  The rewrites of \<open>gen_opic\<close> for an operation with one constant: the value of the result is the value of
  the operation.
\<close>

section \<open>Simplifications are sound\<close>

lemma power_of_two_value:
  assumes "l > 0" and "l AND (l - 1) = (0 :: u64)"
  obtains k where "l = push_bit k 1" "k < 64" "uint l = 2 ^ k" "shift_loop l (- 1) = int k"
proof -
  have nz: "l \<noteq> 0" using assms(1) by auto
  obtain k where k0: "l = push_bit k 1" "k < LENGTH(64)" by (rule power_of_two [OF nz assms(2)])
  then have k: "l = push_bit k 1" "k < 64" by simp_all
  have u: "uint l = 2 ^ k" unfolding k(1) using k(2) by (rule uint_shifted_1)
  have "shift_loop (push_bit j 1) n = n + int j + 1" if "j < 64" for j n
    using that
  proof (induction j arbitrary: n)
    case 0
    have "drop_bit 1 (1 :: u64) = 0" by simp
    then show ?case by (simp add: shift_loop.simps [of 1] shift_loop.simps [of 0])
  next
    case (Suc j)
    have nz: "(push_bit (Suc j) 1 :: u64) \<noteq> 0"
    proof -
      have "uint (push_bit (Suc j) 1 :: u64) = 2 ^ Suc j" by (rule uint_shifted_1 [OF Suc.prems])
      then show ?thesis by force
    qed
    have "drop_bit 1 (push_bit (Suc j) 1 :: u64) = push_bit j 1"
      by (rule bit_word_eqI, unfold bit_drop_bit_eq comp_def bit_push_bit_iff bit_1_iff) (use Suc.prems in \<open>auto simp: possible_bit_def\<close>)
    then show ?case using Suc nz by (subst shift_loop.simps) simp
  qed
  then have "shift_loop l (- 1) = int k" using k by simp
  then show ?thesis using that k u by blast
qed

text \<open>The value an expression gets by a simplification: \<open>a\<close> is the value of the operand that is not
  constant, \<open>b\<close> that of the constant, \<open>l2\<close> the constant itself.\<close>

definition simplified_value :: "u32 \<Rightarrow> u32 \<Rightarrow> int \<Rightarrow> int \<Rightarrow> u64 \<Rightarrow> simplification \<Rightarrow> int option" where
  "simplified_value t op a b l2 s =
     (case s of
        Keep_constant \<Rightarrow> Some (value_of t (if l2 = 1 then 0 else l2))
      | Keep_operand \<Rightarrow> Some a
      | Use_op op' n \<Rightarrow> map_option (wrap t) (c_op op' a (value_of t n))
      | _ \<Rightarrow> map_option (wrap t) (c_op op a b))"

lemma low_ones:
  assumes "\<not> is_wide t"
  shows "value_of t (x OR 0xFFFFFFFF) = value_of t 0xFFFFFFFF" "value_of t (x AND 0xFFFFFFFF) = value_of t x"
proof -
  have m: "(0xFFFFFFFF :: u64) = mask 32" by (simp add: mask_eq_exp_minus_1)
  have "(ucast (x OR mask 32) :: u32) = ucast (mask 32 :: u64)" "(ucast (x AND mask 32) :: u32) = ucast x"
    by (rule bit_word_eqI, simp add: bit_simps)+
  then show "value_of t (x OR 0xFFFFFFFF) = value_of t 0xFFFFFFFF" "value_of t (x AND 0xFFFFFFFF) = value_of t x"
    using assms unfolding m value_of_def by simp_all
qed

lemma small_value:
  assumes "k < 64" shows "value_of t (word_of_int (int k)) = int k"
proof -
  have u: "uint (word_of_int (int k) :: u64) = int k" using assms by (intro uint_word_of_nonneg) simp_all
  have s: "sint (word_of_int (int k) :: u64) = int k" using assms by (intro sint_word_of) simp_all
  have v: "uint (word_of_int (int k) :: u32) = int k" unfolding uint_word_of_int using assms by simp
  have c: "(ucast (word_of_int (int k) :: u64) :: u32) = word_of_int (int k)"
    unfolding word_uint_eq_iff unsigned_ucast_eq u v using assms by (simp add: take_bit_int_eq_self)
  have w: "sint (word_of_int (int k) :: u32) = int k"
  proof -
    have "signed_take_bit 31 (take_bit 32 (int k)) = signed_take_bit 31 (int k)" by (simp only: signed_take_bit_take_bit) simp
    also have "\<dots> = int k" using assms by (intro signed_take_bit_int_eq_self) simp_all
    finally show ?thesis unfolding sint_uint unsigned_of_int by simp
  qed
  show ?thesis unfolding value_of_def c u s v w by simp
qed

lemma wrapped_word: "wrap t (value_of t x * k) = value_of t (value64 x t * word_of_int k)"
  unfolding wrap_def value64_value by simp

lemma wrap_a [simp]: "wrap t (value_of t x) = value_of t x"
  by (rule wrap_value_of)

lemma one_value: "value64 y t = 1 \<Longrightarrow> value_of t y = 1"
  using value64_of [of t y] small_value [of 1 t] by simp

lemma simplify_one: "simplify op t2 None (Some l2) base =
    (if absorbs op t2 l2 then Keep_constant
     else if neutral op t2 l2 then Keep_operand
     else if op \<in> {STAR, TOK_PDIV, TOK_UDIV, TOK_UMOD} then
       if l2 > 0 \<and> l2 AND (l2 - 1) = 0 then
         if op = TOK_UMOD then Use_op AMP (l2 - 1)
         else Use_op (if op = STAR then TOK_SHL else if op = TOK_PDIV then TOK_SAR else TOK_SHR) (of_int (shift_loop l2 (- 1)))
       else General_case
     else simplify_offset op l2 base)"
  unfolding simplify_def simplify_offset_def by simp

lemma simplify_offset_cases: "simplify_offset op l2 base \<in> {General_case} \<union> range Use_offset"
  unfolding simplify_offset_def Let_def by (simp split: option.split)

lemma simplify_offset_not:
  "simplify_offset op l2 base \<noteq> Keep_constant" "simplify_offset op l2 base \<noteq> Keep_operand"
  "simplify_offset op l2 base \<noteq> Use_op p n" "simplify_offset op l2 base \<noteq> Drop_top"
  using simplify_offset_cases [of op l2 base] by auto

lemma simplify_constant: "simplify op t2 None (Some l2) base = Keep_constant \<Longrightarrow> absorbs op t2 l2"
  unfolding simplify_one by (simp add: simplify_offset_not split: if_splits)

lemma simplify_operand: "simplify op t2 None (Some l2) base = Keep_operand \<Longrightarrow> neutral op t2 l2"
  unfolding simplify_one by (simp add: simplify_offset_not split: if_splits)

lemma simplify_op:
  assumes "simplify op t2 None (Some l2) base = Use_op op' n"
  shows "op \<in> {STAR, TOK_PDIV, TOK_UDIV, TOK_UMOD}" "l2 > 0" "l2 AND (l2 - 1) = 0"
    "(op', n) = (if op = TOK_UMOD then (AMP, l2 - 1)
        else (if op = STAR then TOK_SHL else if op = TOK_PDIV then TOK_SAR else TOK_SHR, of_int (shift_loop l2 (- 1))))"
proof -
  have a: "\<not> absorbs op t2 l2" "\<not> neutral op t2 l2"
    using assms unfolding simplify_one by (cases "absorbs op t2 l2"; cases "neutral op t2 l2"; simp)+
  note s = assms [unfolded simplify_one if_not_P [OF a(1)] if_not_P [OF a(2)]]
  show r: "op \<in> {STAR, TOK_PDIV, TOK_UDIV, TOK_UMOD}"
    using s simplify_offset_not(3) by (rule_tac ccontr) (simp only: if_False)
  note s2 = s [unfolded if_P [OF r]]
  have l: "l2 > 0 \<and> l2 AND (l2 - 1) = 0"
    using s2 by (rule_tac ccontr) (simp only: if_False simplification.distinct)
  then show "l2 > 0" "l2 AND (l2 - 1) = 0" by simp_all
  show "(op', n) = (if op = TOK_UMOD then (AMP, l2 - 1)
        else (if op = STAR then TOK_SHL else if op = TOK_PDIV then TOK_SAR else TOK_SHR, of_int (shift_loop l2 (- 1))))"
    using s2 unfolding if_P [OF l] by (cases "op = TOK_UMOD") (simp_all only: if_True if_False simplification.inject prod.inject simp_thms)
qed

lemma keep_constant_sound:
  assumes "op_fits op t t2 (value_of t2 y)" and "t AND VT_BTYPE \<noteq> VT_PTR"
    and "simplify op (t2 AND VT_BTYPE) None (Some (value64 y t2)) base = Keep_constant"
  shows "map_option (wrap t) (c_op op (value_of t x) (value_of t2 y)) = Some (value_of t (if value64 y t2 = 1 then 0 else value64 y t2))"
proof -
  let ?l = "value64 y t2"
  have c: "?l = 0 \<and> op \<in> {AMP, STAR} \<or> op = BAR \<and> (?l = - 1 \<or> ?l = 0xFFFFFFFF \<and> t2 AND VT_BTYPE \<noteq> VT_LLONG)
             \<or> ?l = 1 \<and> op \<in> {PERCENT, TOK_UMOD}"
    using simplify_constant [OF assms(3)] unfolding absorbs_def .
  have t2: "t2 = t" using c by (intro fits_same [OF assms(1)]) blast
  note fx = folding_exact [OF assms(1), of x]
  have v0: "value_of t 0 = 0" by (simp add: value_of_def)
  from c consider "?l = 0" "op \<in> {AMP, STAR}" | "op = BAR" "?l = - 1"
    | "op = BAR" "?l = 0xFFFFFFFF" "\<not> is_wide t" | "?l = 1" "op \<in> {PERCENT, TOK_UMOD}"
    using assms(2) t2 unfolding is_wide_def by blast
  then show ?thesis
  proof cases
    case 1
    then have "value_of t2 y = 0" using value_of_zero by blast
    then show ?thesis using 1 v0 by (auto simp: op_values wrap_def)
  next
    case 2
    have "map_option (wrap t) (c_op op (value_of t x) (value_of t2 y)) = Some (value_of t (value64 (value64 x t OR - 1) t))"
      unfolding fx [symmetric] unfolding 2 by (simp add: op_values)
    then show ?thesis using 2 by (simp add: value64_of)
  next
    case 3
    have "map_option (wrap t) (c_op op (value_of t x) (value_of t2 y)) = Some (value_of t (value64 (value64 x t OR 0xFFFFFFFF) t))"
      unfolding fx [symmetric] unfolding 3(1,2) by (simp add: op_values)
    then show ?thesis using 3 low_ones by (simp add: value64_of)
  next
    case 4
    then have "value_of t2 y = 1" using one_value by blast
    then show ?thesis using 4 v0 by (auto simp: op_values wrap_def signed_modulo_int_def)
  qed
qed

lemma keep_operand_sound:
  assumes "op_fits op t t2 (value_of t2 y)" and "t AND VT_BTYPE \<noteq> VT_PTR"
    and "simplify op (t2 AND VT_BTYPE) None (Some (value64 y t2)) base = Keep_operand"
  shows "map_option (wrap t) (c_op op (value_of t x) (value_of t2 y)) = Some (value_of t x)"
proof -
  let ?l = "value64 y t2"
  have c: "op \<in> {STAR, SLASH, TOK_UDIV, TOK_PDIV} \<and> ?l = 1
             \<or> op \<in> {ADD, SUB, BAR, CARET, TOK_SHL, TOK_SHR, TOK_SAR} \<and> ?l = 0
             \<or> op = AMP \<and> (?l = - 1 \<or> ?l = 0xFFFFFFFF \<and> t2 AND VT_BTYPE \<noteq> VT_LLONG)"
    using simplify_operand [OF assms(3)] unfolding neutral_def .
  note fx = folding_exact [OF assms(1), of x]
  from c consider "op \<in> {STAR, SLASH, TOK_UDIV, TOK_PDIV}" "?l = 1" | "op \<in> {ADD, SUB, BAR, CARET, TOK_SHL, TOK_SHR, TOK_SAR}" "?l = 0"
    | "op = AMP" "?l = - 1" | "op = AMP" "?l = 0xFFFFFFFF" "t2 AND VT_BTYPE \<noteq> VT_LLONG"
    by blast
  then show ?thesis
  proof cases
    case 1
    then have "value_of t2 y = 1" using one_value by blast
    then show ?thesis using 1 by (auto simp: op_values signed_divide_int_def sgn_mult_abs)
  next
    case 2
    then have "value_of t2 y = 0" using value_of_zero by blast
    then show ?thesis using 2 by (auto simp: op_values)
  next
    case 3
    have "map_option (wrap t) (c_op op (value_of t x) (value_of t2 y)) = Some (value_of t (value64 (value64 x t AND - 1) t))"
      unfolding fx [symmetric] unfolding 3 by (simp add: op_values)
    then show ?thesis by (simp add: value64_of)
  next
    case 4
    have "t2 = t" using 4 by (intro fits_same [OF assms(1)]) blast
    then have w: "\<not> is_wide t" using 4 assms(2) by (simp add: is_wide_def)
    have "map_option (wrap t) (c_op op (value_of t x) (value_of t2 y)) = Some (value_of t (value64 (value64 x t AND 0xFFFFFFFF) t))"
      unfolding fx [symmetric] unfolding 4(1,2) by (simp add: op_values)
    then show ?thesis using low_ones [OF w] by (simp add: value64_of)
  qed
qed

lemma use_op_sound:
  assumes "op_fits op t t2 (value_of t2 y)" and "op = TOK_PDIV \<longrightarrow> 0 < value_of t2 y \<and> value_of t2 y dvd value_of t x"
    and "simplify op (t2 AND VT_BTYPE) None (Some (value64 y t2)) base = Use_op op' n"
  shows "map_option (wrap t) (c_op op (value_of t x) (value_of t2 y)) = map_option (wrap t) (c_op op' (value_of t x) (value_of t n))"
proof -
  let ?l = "value64 y t2" and ?a = "value_of t x" and ?b = "value_of t2 y"
  note c = simplify_op [OF assms(3)]
  have t2: "t2 = t" using c(1) by (intro fits_same [OF assms(1)]) blast
  obtain k where k: "?l = push_bit k 1" "k < 64" "uint ?l = 2 ^ k" "shift_loop ?l (- 1) = int k"
    by (rule power_of_two_value [OF c(2,3)])
  have n: "value_of t (of_int (int k)) = int k" using small_value [OF k(2)] by simp
  have b: "0 < ?b \<Longrightarrow> ?b = 2 ^ k"
  proof -
    assume p: "0 < ?b"
    show "?b = 2 ^ k"
    proof (cases "is_unsigned t2")
      case True then show ?thesis using value_of_uint k(3) by simp
    next
      case False
      then have "sint ?l = ?b" by (rule value_of_sint)
      then show ?thesis using k(3) p sint64_cases [of ?l] uint64_less [of ?l] by (auto split: if_splits)
    qed
  qed
  have ub: "is_unsigned t \<Longrightarrow> ?b = 2 ^ k" using value_of_uint [of t2 y] k(3) t2 by simp
  consider "op = STAR" | "op = TOK_PDIV" | "op = TOK_UDIV" | "op = TOK_UMOD" using c(1) by blast
  then show ?thesis
  proof cases
    case 1
    then have o: "op' = TOK_SHL" "n = of_int (int k)" using c(4) k(4) by (auto simp: op_codes)
    have "?l = word_of_int (2 ^ k)" using k(3) by (metis word_of_int_uint)
    then have "wrap t (?a * ?b) = wrap t (?a * 2 ^ k)"
      unfolding wrapped_word using value64_value [of y t2] by simp
    then show ?thesis unfolding o n 1 by (simp add: op_values)
  next
    case 2
    then have o: "op' = TOK_SAR" "n = of_int (int k)" using c(4) k(4) by (auto simp: op_codes)
    have p: "?b = 2 ^ k" "?b dvd ?a" using b assms(2) 2 by simp_all
    have "?a sdiv ?b = ?a div 2 ^ k"
    proof -
      obtain q where q: "?a = 2 ^ k * q" using p by auto
      show ?thesis unfolding p(1) q by (simp add: signed_divide_int_def abs_mult sgn_mult mult_sgn_abs)
    qed
    then show ?thesis unfolding o n 2 using p by (simp add: op_values)
  next
    case 3
    then have o: "op' = TOK_SHR" "n = of_int (int k)" using c(4) k(4) by (auto simp: op_codes)
    have "is_unsigned t" using 3 by (intro fits_unsigned [OF assms(1)]) blast
    then show ?thesis unfolding o n 3 using ub by (simp add: op_values)
  next
    case 4
    then have o: "op' = AMP" "n = ?l - 1" using c(4) by (auto simp: op_codes)
    have u: "is_unsigned t" using 4 by (intro fits_unsigned [OF assms(1)]) blast
    have un: "uint (?l - 1) = 2 ^ k - 1"
      using k(2) unfolding k(1) by (rule uint_all_ones)
    have "value_of t (?l - 1) = 2 ^ k - 1"
    proof (cases "is_wide t")
      case True
      then show ?thesis using u un by (simp add: value_of_def)
    next
      case False
      have "uint ?l < 4294967296"
        using value_of_uint [of t2 y] u t2 False uint32_less by (simp add: value_of_def)
      then have "uint (?l - 1) < 4294967296" using un k(3) by simp
      then have "uint (ucast (?l - 1) :: u32) = uint (?l - 1)" by (simp add: unsigned_ucast_eq take_bit_int_eq_self)
      then show ?thesis using u un False by (simp add: value_of_def)
    qed
    moreover have "?a AND (2 ^ k - 1) = ?a mod 2 ^ k"
      by (simp add: mask_eq_exp_minus_1 [symmetric] take_bit_eq_mask [symmetric] take_bit_eq_mod)
    ultimately show ?thesis unfolding o 4 using ub [OF u] by (simp add: op_values)
  qed
qed

lemma simplify_to_offset:
  assumes "simplify op t2 None (Some l2) base = Use_offset n"
  shows "\<exists>offset. base = Some offset \<and> n = (if op = SUB then offset - l2 else offset + l2)
    \<and> - 2147483648 \<le> sint n \<and> sint n < 2147483648"
proof -
  have "simplify_offset op l2 base = Use_offset n"
    using assms unfolding simplify_one by (simp split: if_splits)
  then obtain offset where o: "base = Some offset" "op \<in> {ADD, SUB}" "n = (if op = SUB then - l2 else l2) + offset"
    and s: "scast (ucast n :: u32) = n"
    unfolding simplify_offset_def Let_def by (auto split: if_splits option.splits)
  have "sint n = sint (ucast n :: u32)"
    using sint_up_scast [of "ucast n :: u32", where ?'b = 64] s by (simp add: is_up)
  then have "- 2147483648 \<le> sint n \<and> sint n < 2147483648"
    using sint_range_size [of "ucast n :: u32"] by (simp add: word_size)
  then show ?thesis using o by (auto simp: add.commute)
qed



end
