(* ===== verification/TokenString.thy ===== *)
theory TokenString
  imports Prelude "HOL-Library.Signed_Division"
begin

text \<open>
  Token strings: \<open>tok_str_new\<close> to \<open>tok_get\<close> of \<^verbatim>\<open>src/src/compiler/frontend/cprimepp.c\<close> and the walks of
  \<^verbatim>\<open>src/src/compiler/frontend/cprimegen.c\<close> over them, as built for Windows on x86-64 (\<open>long\<close> has 32
  bits, \<open>long double\<close> is \<open>double\<close>).  A token string is an array of ints: each token is followed by the
  words of its value, a text by its size and its bytes packed into words.
\<close>

section \<open>Tokens with a value\<close>

definition TOK_CCHAR :: u32 where "TOK_CCHAR = 0xc0"
definition TOK_LCHAR :: u32 where "TOK_LCHAR = 0xc1"
definition TOK_CINT :: u32 where "TOK_CINT = 0xc2"
definition TOK_CUINT :: u32 where "TOK_CUINT = 0xc3"
definition TOK_CLLONG :: u32 where "TOK_CLLONG = 0xc4"
definition TOK_CULLONG :: u32 where "TOK_CULLONG = 0xc5"
definition TOK_CLONG :: u32 where "TOK_CLONG = 0xc6"
definition TOK_CULONG :: u32 where "TOK_CULONG = 0xc7"
definition TOK_STR :: u32 where "TOK_STR = 0xc8"
definition TOK_LSTR :: u32 where "TOK_LSTR = 0xc9"
definition TOK_CFLOAT :: u32 where "TOK_CFLOAT = 0xca"
definition TOK_CDOUBLE :: u32 where "TOK_CDOUBLE = 0xcb"
definition TOK_CLDOUBLE :: u32 where "TOK_CLDOUBLE = 0xcc"
definition TOK_PPNUM :: u32 where "TOK_PPNUM = 0xcd"
definition TOK_PPSTR :: u32 where "TOK_PPSTR = 0xce"
definition TOK_LINENUM :: u32 where "TOK_LINENUM = 0xcf"
definition TOK_CIMAGI :: u32 where "TOK_CIMAGI = 0xd2"
definition TOK_CIMAGLL :: u32 where "TOK_CIMAGLL = 0xd3"
definition TOK_CIMAGF :: u32 where "TOK_CIMAGF = 0xd4"
definition TOK_CIMAGD :: u32 where "TOK_CIMAGD = 0xd5"
definition TOK_CIMAGL :: u32 where "TOK_CIMAGL = 0xd6"
definition TOK_U16CHAR :: u32 where "TOK_U16CHAR = 0xd7"
definition TOK_U32CHAR :: u32 where "TOK_U32CHAR = 0xd8"
definition TOK_U16STR :: u32 where "TOK_U16STR = 0xd9"
definition TOK_U32STR :: u32 where "TOK_U32STR = 0xda"
definition TOK_U8STR :: u32 where "TOK_U8STR = 0xdb"
definition TOK_U8CHAR :: u32 where "TOK_U8CHAR = 0xdc"
definition TOK_EOF :: u32 where "TOK_EOF = - 1"
definition TOK_MAX_SIZE :: nat where "TOK_MAX_SIZE = 4"

lemmas tok_codes = TOK_CCHAR_def TOK_LCHAR_def TOK_CINT_def TOK_CUINT_def TOK_CLLONG_def TOK_CULLONG_def TOK_CLONG_def
  TOK_CULONG_def TOK_STR_def TOK_LSTR_def TOK_CFLOAT_def TOK_CDOUBLE_def TOK_CLDOUBLE_def TOK_PPNUM_def TOK_PPSTR_def
  TOK_LINENUM_def TOK_CIMAGI_def TOK_CIMAGLL_def TOK_CIMAGF_def TOK_CIMAGD_def TOK_CIMAGL_def TOK_U16CHAR_def
  TOK_U32CHAR_def TOK_U16STR_def TOK_U32STR_def TOK_U8STR_def TOK_U8CHAR_def

definition TOK_HAS_VALUE :: "u32 \<Rightarrow> bool" where
  "TOK_HAS_VALUE t \<longleftrightarrow> TOK_CCHAR \<le> t \<and> t \<le> TOK_LINENUM \<or> TOK_CIMAGI \<le> t \<and> t \<le> TOK_U8CHAR"

text \<open>The cases of the switches in \<open>tok_str_add2\<close> and \<open>tok_get\<close>.\<close>

definition adds_word :: "u32 \<Rightarrow> bool" where
  "adds_word t \<longleftrightarrow> t \<in> {TOK_CINT, TOK_CUINT, TOK_U8CHAR, TOK_CCHAR, TOK_U16CHAR, TOK_U32CHAR, TOK_LCHAR, TOK_CFLOAT,
     TOK_LINENUM, TOK_CLONG, TOK_CULONG, TOK_CIMAGI}"

definition is_text :: "u32 \<Rightarrow> bool" where
  "is_text t \<longleftrightarrow> t \<in> {TOK_PPNUM, TOK_PPSTR, TOK_U8STR, TOK_STR, TOK_U16STR, TOK_U32STR, TOK_LSTR}"

definition is_double_word :: "u32 \<Rightarrow> bool" where
  "is_double_word t \<longleftrightarrow> t \<in> {TOK_CDOUBLE, TOK_CLLONG, TOK_CULLONG, TOK_CIMAGLL, TOK_CIMAGD, TOK_CLDOUBLE, TOK_CIMAGL}"

definition gets_signed :: "u32 \<Rightarrow> bool" where
  "gets_signed t \<longleftrightarrow> t \<in> {TOK_CLONG, TOK_CINT, TOK_U8CHAR, TOK_CCHAR, TOK_U16CHAR, TOK_U32CHAR, TOK_LCHAR, TOK_LINENUM,
     TOK_CIMAGI}"

definition gets_unsigned :: "u32 \<Rightarrow> bool" where
  "gets_unsigned t \<longleftrightarrow> t \<in> {TOK_CULONG, TOK_CUINT}"

definition gets_float :: "u32 \<Rightarrow> bool" where
  "gets_float t \<longleftrightarrow> t \<in> {TOK_CFLOAT, TOK_CIMAGF}"

text \<open>A \<open>CValue\<close>: the words of the union that hold a number, the lowest first, or a text.\<close>

datatype cvalue = Words "u32 list" | Text "u8 list"

definition cvalue_int :: "u32 \<Rightarrow> cvalue" where
  "cvalue_int w = Words [w, if bit w 31 then - 1 else 0]"

section \<open>The array\<close>

text \<open>\<open>ts_str\<close> is the allocated array: its length is \<open>allocated_len\<close>, the first \<open>ts_len\<close> words are in use.  Memory
  that \<open>tal_realloc\<close> adds holds anything: \<open>junk\<close>.\<close>

record token_string =
  ts_str :: "u32 list"
  ts_len :: nat
  need_spc :: u32
  last_line_num :: u32

definition tok_str_new :: token_string where
  "tok_str_new = \<lparr>ts_str = [], ts_len = 0, need_spc = 0, last_line_num = - 1\<rparr>"

text \<open>\<open>while (size < new_size) size = size * 2\<close>, from at least 16.\<close>

function grow_to :: "nat \<Rightarrow> nat \<Rightarrow> nat" where
  "grow_to sz new_size = (if 16 \<le> sz \<and> sz < new_size then grow_to (sz * 2) new_size else sz)"
  by pat_completeness auto
termination by (relation "measure (\<lambda>(sz, new_size). new_size - sz)") auto

declare grow_to.simps [simp del]

definition tok_str_realloc :: "(nat \<Rightarrow> u32) \<Rightarrow> token_string \<Rightarrow> nat \<Rightarrow> token_string" where
  "tok_str_realloc junk s new_size =
     (let allocated_len = length (ts_str s);
          sz = grow_to (if allocated_len < 16 then 16 else allocated_len) new_size
      in if sz > allocated_len then s\<lparr>ts_str := ts_str s @ map junk [allocated_len..<sz]\<rparr> else s)"

text \<open>\<open>str[len++] = t\<close>\<close>

definition put :: "token_string \<Rightarrow> u32 \<Rightarrow> token_string" where
  "put s t = s\<lparr>ts_str := (ts_str s)[ts_len s := t], ts_len := ts_len s + 1\<rparr>"

definition tok_str_add :: "(nat \<Rightarrow> u32) \<Rightarrow> token_string \<Rightarrow> u32 \<Rightarrow> token_string" where
  "tok_str_add junk s t =
     put (if ts_len s \<ge> length (ts_str s) then tok_str_realloc junk s (ts_len s + 1) else s) t"

section \<open>Bytes in words\<close>

text \<open>Byte \<open>k\<close> of an array of ints on a little-endian machine, and \<open>memcpy\<close> into it.\<close>

definition byte_of :: "u32 \<Rightarrow> nat \<Rightarrow> u8" where
  "byte_of w j = ucast (drop_bit (8 * j) w)"

definition set_byte :: "u32 \<Rightarrow> nat \<Rightarrow> u8 \<Rightarrow> u32" where
  "set_byte w j b = (w AND NOT (push_bit (8 * j) 255)) OR push_bit (8 * j) (ucast b)"

definition byte_at :: "u32 list \<Rightarrow> nat \<Rightarrow> u8" where
  "byte_at ws k = byte_of (ws ! (k div 4)) (k mod 4)"

fun copy_bytes :: "u32 list \<Rightarrow> nat \<Rightarrow> u8 list \<Rightarrow> u32 list" where
  "copy_bytes ws k [] = ws"
| "copy_bytes ws k (b # bs) = copy_bytes (ws[k div 4 := set_byte (ws ! (k div 4)) (k mod 4) b]) (k + 1) bs"

section \<open>Adding a token\<close>

text \<open>\<open>None\<close>: the value has not the member that the token calls for.\<close>

definition add_text :: "(nat \<Rightarrow> u32) \<Rightarrow> token_string \<Rightarrow> u8 list \<Rightarrow> token_string" where
  "add_text junk s bs =
     (let nb_words = 1 + (length bs + 3) div 4;
          s1 = (if ts_len s + nb_words \<ge> length (ts_str s) then tok_str_realloc junk s (ts_len s + nb_words + 1) else s);
          str1 = (ts_str s1)[ts_len s1 := of_nat (length bs)];
          str2 = str1[ts_len s1 + nb_words - 1 := 0]
      in s1\<lparr>ts_str := copy_bytes str2 (4 * (ts_len s1 + 1)) bs, ts_len := ts_len s1 + nb_words\<rparr>)"

definition tok_str_add2 :: "(nat \<Rightarrow> u32) \<Rightarrow> token_string \<Rightarrow> u32 \<Rightarrow> cvalue \<Rightarrow> token_string option" where
  "tok_str_add2 junk s t cv =
     (let s1 = (if ts_len s + TOK_MAX_SIZE \<ge> length (ts_str s) then tok_str_realloc junk s (ts_len s + TOK_MAX_SIZE + 1) else s);
          s2 = put s1 t
      in if adds_word t then (case cv of Words (a # _) \<Rightarrow> Some (put s2 a) | _ \<Rightarrow> None)
         else if is_text t then (case cv of Text bs \<Rightarrow> Some (add_text junk s2 bs) | _ \<Rightarrow> None)
         else if is_double_word t then (case cv of Words (a # b # _) \<Rightarrow> Some (put (put s2 a) b) | _ \<Rightarrow> None)
         else Some s2)"

definition tok_str_add_tok :: "(nat \<Rightarrow> u32) \<Rightarrow> u32 \<Rightarrow> token_string \<Rightarrow> u32 \<Rightarrow> cvalue \<Rightarrow> token_string option" where
  "tok_str_add_tok junk line_num s tok tokc =
     (case (if line_num \<noteq> last_line_num s
            then tok_str_add2 junk (s\<lparr>last_line_num := line_num\<rparr>) TOK_LINENUM (cvalue_int line_num) else Some s) of
        None \<Rightarrow> None
      | Some s1 \<Rightarrow> tok_str_add2 junk s1 tok tokc)"

definition tok_str_add2_spc :: "(nat \<Rightarrow> u32) \<Rightarrow> token_string \<Rightarrow> u32 \<Rightarrow> cvalue \<Rightarrow> token_string option" where
  "tok_str_add2_spc junk s t cv =
     (let s1 = (if need_spc s = 3 then tok_str_add junk s 0x20 else s)
      in tok_str_add2 junk (s1\<lparr>need_spc := 2\<rparr>) t cv)"

section \<open>Getting a token\<close>

text \<open>\<open>None\<close>: past the end of the array.  A token without a value leaves \<open>cv\<close> alone.\<close>

definition word_at :: "u32 list \<Rightarrow> nat \<Rightarrow> u32 option" where
  "word_at str p = (if p < length str then Some (str ! p) else None)"

definition tok_get :: "u32 list \<Rightarrow> nat \<Rightarrow> cvalue \<Rightarrow> (u32 \<times> nat \<times> cvalue) option" where
  "tok_get str p cv =
     (case word_at str p of
        None \<Rightarrow> None
      | Some t \<Rightarrow>
          if gets_signed t then map_option (\<lambda>w. (t, p + 2, cvalue_int w)) (word_at str (p + 1))
          else if gets_unsigned t then map_option (\<lambda>w. (t, p + 2, Words [w, 0])) (word_at str (p + 1))
          else if gets_float t then map_option (\<lambda>w. (t, p + 2, Words [w])) (word_at str (p + 1))
          else if is_text t then
            (case word_at str (p + 1) of
               None \<Rightarrow> None
             | Some sz \<Rightarrow>
                 let n = unat sz
                 in if bit sz 31 \<or> 4 * (p + 2) + n > 4 * length str then None
                    else Some (t, p + 2 + (n + 3) div 4, Text (map (byte_at str) [4 * (p + 2)..<4 * (p + 2) + n])))
          else if is_double_word t then
            (case (word_at str (p + 1), word_at str (p + 2)) of
               (Some a, Some b) \<Rightarrow> Some (t, p + 3, Words [a, b])
             | _ \<Rightarrow> None)
          else Some (t, p + 1, cv))"

definition TOK_GET :: "u32 list \<Rightarrow> nat \<Rightarrow> cvalue \<Rightarrow> (u32 \<times> nat \<times> cvalue) option" where
  "TOK_GET str p cv =
     (case word_at str p of
        None \<Rightarrow> None
      | Some t \<Rightarrow> if TOK_HAS_VALUE t then tok_get str p cv else Some (t, p + 1, cv))"

section \<open>Walking over a token string\<close>

text \<open>The first \<open>len\<close> words of \<open>str\<close> are the string; sizes are below \<open>2^31 - 3\<close>.\<close>

definition tok_str_value_extra_words :: "u32 list \<Rightarrow> int \<Rightarrow> int \<Rightarrow> int" where
  "tok_str_value_extra_words str len i =
     (if i < 0 \<or> i \<ge> len then 0
      else let t = str ! nat i in
        if adds_word t \<or> t = TOK_CIMAGF then (if i + 1 < len then 1 else 0)
        else if is_double_word t then (if i + 2 < len then 2 else 0)
        else if is_text t then (if i + 1 < len then 1 + (sint (str ! nat (i + 1)) + 3) sdiv 4 else 0)
        else 0)"

definition tok_str_add_record :: "(nat \<Rightarrow> u32) \<Rightarrow> token_string \<Rightarrow> u32 list \<Rightarrow> int \<Rightarrow> int \<Rightarrow> token_string \<times> int" where
  "tok_str_add_record junk dst src len i =
     (let end1 = i + tok_str_value_extra_words src len i;
          end2 = (if end1 \<ge> len then len - 1 else end1)
      in (fold (\<lambda>k s. tok_str_add junk s (src ! nat k)) [i..end2] dst, end2))"

end
