(* ===== verification/TokenStringSpec.thy ===== *)
theory TokenStringSpec imports TokenString
begin

text \<open>
  What token strings promise: adding a token appends exactly its words, whatever the memory held, and reading the
  string gives the tokens and their values back.  The float imaginary constant is the exception.
\<close>

section \<open>Bytes of words\<close>

lemma byte_of_set:
  assumes "i < 4" and "j < 4"
  shows "byte_of (set_byte w j b) i = (if i = j then b else byte_of w i)"
proof (rule bit_word_eqI)
  fix n assume n: "n < LENGTH(8)"
  have m: "bit (255 :: u32) k \<longleftrightarrow> k < 8" for k
    using bit_mask_iff [of 8 k, where ?'a = u32] by (auto simp: mask_eq_exp_minus_1)
  have r: "8 * i + n < 32" using assms(1) n by simp
  have q: "8 * j \<le> 8 * i + n \<and> 8 * i + n - 8 * j < 8 \<longleftrightarrow> i = j" using n by (auto simp: le_diff_iff)
  have b8: "bit b k \<Longrightarrow> k < 8" for k using bit_imp_le_length [of b k] by simp
  have e: "8 * i + n - 8 * j = n" if "i = j" using that by simp
  show "bit (byte_of (set_byte w j b) i) n = bit (if i = j then b else byte_of w i) n"
    unfolding byte_of_def set_byte_def bit_unsigned_iff bit_drop_bit_eq comp_def bit_or_iff bit_and_iff bit_not_iff
      bit_push_bit_iff m possible_bit_def
    using n r q b8 e by (cases "i = j") (auto simp: bit_simps)
qed

lemma bit_byte_of: "k < 32 \<Longrightarrow> bit w k = bit (byte_of w (k div 8)) (k mod 8)"
  unfolding byte_of_def bit_unsigned_iff bit_drop_bit_eq comp_def by simp

lemma word_bytes_eqI: "(\<And>i. i < 4 \<Longrightarrow> byte_of v i = byte_of w i) \<Longrightarrow> v = w"
  by (rule bit_word_eqI) (simp add: bit_byte_of less_mult_imp_div_less)

lemma words_bytes_eqI:
  assumes "length xs = length ys" and "\<And>j. j < 4 * length xs \<Longrightarrow> byte_at xs j = byte_at ys j"
  shows "xs = ys"
proof (rule nth_equalityI [OF assms(1)])
  fix n assume n: "n < length xs"
  show "xs ! n = ys ! n"
  proof (rule word_bytes_eqI)
    fix i :: nat assume "i < 4"
    then show "byte_of (xs ! n) i = byte_of (ys ! n) i" using assms(2) [of "4 * n + i"] n by (simp add: byte_at_def)
  qed
qed

lemma length_copy [simp]: "length (copy_bytes ws k bs) = length ws"
  by (induction ws k bs rule: copy_bytes.induct) simp_all

lemma byte_at_set:
  assumes "k < 4 * length ws"
  shows "byte_at (ws[k div 4 := set_byte (ws ! (k div 4)) (k mod 4) b]) j = (if j = k then b else byte_at ws j)"
proof (cases "j div 4 = k div 4")
  case True
  have "k div 4 < length ws" using assms by (simp add: less_mult_imp_div_less mult.commute)
  moreover have "j mod 4 = k mod 4 \<longleftrightarrow> j = k" using True by (metis mult_div_mod_eq)
  ultimately show ?thesis using True by (simp add: byte_at_def byte_of_set)
qed (auto simp: byte_at_def)

lemma byte_at_copy:
  assumes "k + length bs \<le> 4 * length ws"
  shows "byte_at (copy_bytes ws k bs) j = (if k \<le> j \<and> j < k + length bs then bs ! (j - k) else byte_at ws j)"
  using assms
proof (induction ws k bs rule: copy_bytes.induct)
  case (2 ws k b bs)
  let ?ws = "ws[k div 4 := set_byte (ws ! (k div 4)) (k mod 4) b]"
  have "byte_at (copy_bytes ?ws (k + 1) bs) j = (if k + 1 \<le> j \<and> j < k + 1 + length bs then bs ! (j - (k + 1)) else byte_at ?ws j)"
    using 2 by simp
  then show ?case using byte_at_set [of k ws b j] 2 by (auto simp: nth_Cons')
qed auto

lemma byte_at_update: "i < length ws \<Longrightarrow> byte_at (ws[i := w]) j = (if j div 4 = i then byte_of w (j mod 4) else byte_at ws j)"
  by (simp add: byte_at_def)

lemma byte_at_append: "byte_at (xs @ ys) j = (if j < 4 * length xs then byte_at xs j else byte_at ys (j - 4 * length xs))"
proof (cases "j < 4 * length xs")
  case True
  then have "j div 4 < length xs" by (simp add: less_mult_imp_div_less mult.commute)
  then show ?thesis using True by (simp add: byte_at_def nth_append)
next
  case False
  then obtain d where d: "j = 4 * length xs + d" using le_Suc_ex [of "4 * length xs" j] by auto
  then show ?thesis using False by (simp add: byte_at_def nth_append)
qed

lemma byte_at_Cons: "4 \<le> j \<Longrightarrow> byte_at (x # ys) j = byte_at ys (j - 4)"
  using byte_at_append [of "[x]" ys j] by simp

lemma byte_at_take: "j < 4 * n \<Longrightarrow> byte_at (take n ws) j = byte_at ws j"
  by (simp add: byte_at_def less_mult_imp_div_less mult.commute)

lemma byte_of_zero: "byte_of 0 i = 0"
  by (simp add: byte_of_def)

lemma byte_at_zero: "j < 4 * n \<Longrightarrow> byte_at (replicate n 0) j = 0"
  by (simp add: byte_at_def byte_of_zero less_mult_imp_div_less mult.commute)

text \<open>The words of a text: its bytes, and zero bytes to the end of the last word.\<close>

definition pack :: "u8 list \<Rightarrow> u32 list" where
  "pack bs = copy_bytes (replicate ((length bs + 3) div 4) 0) 0 bs"

lemma length_pack [simp]: "length (pack bs) = (length bs + 3) div 4"
  by (simp add: pack_def)

lemma byte_at_pack:
  assumes "j < 4 * ((length bs + 3) div 4)"
  shows "byte_at (pack bs) j = (if j < length bs then bs ! j else 0)"
  unfolding pack_def using assms by (subst byte_at_copy) (simp_all add: byte_at_zero)

section \<open>Adding\<close>

lemma grow_to_ge: "16 \<le> sz \<Longrightarrow> sz \<le> grow_to sz n \<and> n \<le> grow_to sz n"
proof (induction sz n rule: grow_to.induct)
  case (1 sz n)
  then show ?case by (subst (1 2) grow_to.simps) auto
qed

lemma realloc_shape:
  "\<exists>more. ts_str (tok_str_realloc junk s n) = ts_str s @ more \<and> n \<le> length (ts_str s @ more)"
  "ts_len (tok_str_realloc junk s n) = ts_len s"
  "need_spc (tok_str_realloc junk s n) = need_spc s" "last_line_num (tok_str_realloc junk s n) = last_line_num s"
  using grow_to_ge [of "if length (ts_str s) < 16 then 16 else length (ts_str s)" n]
  by (auto simp: tok_str_realloc_def Let_def)

definition used :: "token_string \<Rightarrow> u32 list" where
  "used s = take (ts_len s) (ts_str s)"

definition ts_ok :: "token_string \<Rightarrow> bool" where
  "ts_ok s \<longleftrightarrow> ts_len s \<le> length (ts_str s)"

text \<open>\<open>room n s\<close>: \<open>n\<close> more words fit.\<close>

definition room :: "nat \<Rightarrow> token_string \<Rightarrow> bool" where
  "room n s \<longleftrightarrow> ts_len s + n \<le> length (ts_str s)"

lemma room_ok: "room n s \<Longrightarrow> ts_ok s"
  by (simp add: room_def ts_ok_def)

lemma ensure_room:
  assumes "ts_ok s" and "s' = (if c then tok_str_realloc junk s (ts_len s + n) else s)"
    and "\<not> c \<Longrightarrow> ts_len s + n \<le> length (ts_str s)"
  shows "room n s' \<and> used s' = used s \<and> ts_len s' = ts_len s"
  using assms realloc_shape [of junk s "ts_len s + n"] by (auto simp: room_def used_def ts_ok_def)

lemma put_room: "room (Suc n) s \<Longrightarrow> room n (put s t)"
  by (simp add: put_def room_def)

lemma used_put: "room (Suc n) s \<Longrightarrow> used (put s t) = used s @ [t]"
  by (simp add: put_def room_def used_def take_Suc_conv_app_nth)

lemma put_len [simp]: "ts_len (put s t) = ts_len s + 1"
  by (simp add: put_def)

lemma tok_str_add_used:
  assumes "ts_ok s"
  shows "ts_ok (tok_str_add junk s t) \<and> used (tok_str_add junk s t) = used s @ [t]"
proof -
  define s1 where "s1 = (if ts_len s \<ge> length (ts_str s) then tok_str_realloc junk s (ts_len s + 1) else s)"
  have "room (Suc 0) s1 \<and> used s1 = used s \<and> ts_len s1 = ts_len s"
    using ensure_room [OF assms s1_def] by simp
  then show ?thesis unfolding tok_str_add_def s1_def [symmetric]
    using put_room [of 0 s1 t] used_put [of 0 s1 t] room_ok [of 0 "put s1 t"] by simp
qed

lemma add_text_used:
  assumes "ts_ok s"
  shows "ts_ok (add_text junk s bs) \<and> used (add_text junk s bs) = used s @ of_nat (length bs) # pack bs"
proof -
  define q where "q = (length bs + 3) div 4"
  define s1 where "s1 = (if ts_len s + (1 + q) \<ge> length (ts_str s) then tok_str_realloc junk s (ts_len s + (1 + q) + 1) else s)"
  have "ts_len s + (1 + q) + 1 = ts_len s + (2 + q)" by simp
  have e: "ts_len s + (1 + q) < length (ts_str s1)" "used s1 = used s" "ts_len s1 = ts_len s"
    using assms realloc_shape [of junk s "ts_len s + (1 + q) + 1"] by (auto simp: s1_def used_def ts_ok_def)
  define m where "m = ts_len s"
  define str2 where "str2 = (ts_str s1)[m := of_nat (length bs), m + (1 + q) - 1 := 0]"
  have l2: "length str2 = length (ts_str s1)" "m + q + 1 < length (ts_str s1)" using e by (simp_all add: str2_def m_def)
  have r: "add_text junk s bs = s1\<lparr>ts_str := copy_bytes str2 (4 * (m + 1)) bs, ts_len := m + (1 + q)\<rparr>"
    unfolding add_text_def Let_def q_def [symmetric] s1_def [symmetric] str2_def e(3) m_def by simp
  have fit: "length bs \<le> 4 * q" by (simp add: q_def)
  have "take (m + (1 + q)) (copy_bytes str2 (4 * (m + 1)) bs) = take m (ts_str s1) @ of_nat (length bs) # pack bs"
  proof (rule words_bytes_eqI)
    show "length (take (m + (1 + q)) (copy_bytes str2 (4 * (m + 1)) bs)) = length (take m (ts_str s1) @ of_nat (length bs) # pack bs)"
      using l2 by (simp add: q_def [symmetric])
    fix j assume "j < 4 * length (take (m + (1 + q)) (copy_bytes str2 (4 * (m + 1)) bs))"
    then have j: "j < 4 * (m + (1 + q))" using l2 by simp
    have inside: "4 * (m + 1) + length bs \<le> 4 * length str2" using l2 fit by simp
    have c: "byte_at (take (m + (1 + q)) (copy_bytes str2 (4 * (m + 1)) bs)) j
        = (if 4 * (m + 1) \<le> j \<and> j < 4 * (m + 1) + length bs then bs ! (j - 4 * (m + 1)) else byte_at str2 j)"
      unfolding byte_at_take [OF j] by (rule byte_at_copy [OF inside])
    have s2: "byte_at str2 j = (if j div 4 = m + q then 0 else if j div 4 = m then byte_of (of_nat (length bs)) (j mod 4) else byte_at (ts_str s1) j)"
      unfolding str2_def using l2 by (simp add: byte_at_update byte_of_zero)
    consider "j < 4 * m" | "4 * m \<le> j" "j < 4 * (m + 1)" | "4 * (m + 1) \<le> j" by linarith
    then show "byte_at (take (m + (1 + q)) (copy_bytes str2 (4 * (m + 1)) bs)) j
        = byte_at (take m (ts_str s1) @ of_nat (length bs) # pack bs) j"
    proof cases
      case 1
      then have "j div 4 < m" by (simp add: less_mult_imp_div_less mult.commute)
      then show ?thesis unfolding c using 1 l2 by (simp add: s2 byte_at_append byte_at_take min_def)
    next
      case 2
      have d: "j div 4 = m" using 2 by (intro div_nat_eqI) simp_all
      have "byte_at (of_nat (length bs) # pack bs) (j - 4 * m) = byte_of (of_nat (length bs)) (j mod 4)"
      proof -
        have "j mod 4 = j - 4 * m" using minus_mult_div_eq_mod [of j 4] unfolding d by simp
        moreover have "j - 4 * m < 4" using 2 by simp
        ultimately have "(j - 4 * m) div 4 = 0" "(j - 4 * m) mod 4 = j mod 4" by simp_all
        then show ?thesis by (simp add: byte_at_def)
      qed
      moreover have "q = 0 \<Longrightarrow> of_nat (length bs) = (0 :: u32)" using fit by simp
      ultimately show ?thesis unfolding c using 2 l2 d by (auto simp: s2 byte_at_append byte_of_zero min_def)
    next
      case 3
      define i where "i = j - 4 * (m + 1)"
      have i: "j = 4 * (m + 1) + i" "i < 4 * q" using 3 j by (simp_all add: i_def)
      have "byte_at (take m (ts_str s1) @ of_nat (length bs) # pack bs) j = byte_at (pack bs) i"
        using 3 l2 by (simp add: byte_at_append byte_at_Cons i min_def)
      also have "\<dots> = (if i < length bs then bs ! i else 0)" using i(2) unfolding q_def by (rule byte_at_pack)
      finally have g: "byte_at (take m (ts_str s1) @ of_nat (length bs) # pack bs) j = (if i < length bs then bs ! i else 0)" .
      have "byte_at str2 j = 0" if "\<not> i < length bs"
      proof -
        have "i div 4 = q - 1" using that i(2) unfolding q_def by linarith
        moreover have "j div 4 = m + 1 + i div 4" unfolding i(1) by simp
        ultimately have "j div 4 = m + q" using i(2) by simp
        then show ?thesis by (simp add: s2)
      qed
      then show ?thesis unfolding g c using i by auto
    qed
  qed
  moreover have "take m (ts_str s1) = used s" using e by (simp add: used_def m_def)
  ultimately show ?thesis unfolding r using l2 by (simp add: used_def ts_ok_def)
qed

section \<open>The words of a token\<close>

fun token_words :: "u32 \<Rightarrow> cvalue \<Rightarrow> u32 list" where
  "token_words t (Words ws) = t # (if adds_word t then take 1 ws else if is_double_word t then take 2 ws else [])"
| "token_words t (Text bs) = t # (if is_text t then of_nat (length bs) # pack bs else [])"

text \<open>The value has the member that \<open>tok_str_add2\<close> reads.\<close>

fun has_member :: "u32 \<Rightarrow> cvalue \<Rightarrow> bool" where
  "has_member t (Words ws) \<longleftrightarrow> \<not> is_text t \<and> (adds_word t \<longrightarrow> 1 \<le> length ws) \<and> (is_double_word t \<longrightarrow> 2 \<le> length ws)"
| "has_member t (Text bs) \<longleftrightarrow> \<not> adds_word t \<and> \<not> is_double_word t"

lemma one_word: "1 \<le> length ws \<Longrightarrow> \<exists>a as. ws = a # as"
  by (cases ws) simp_all

lemma two_words: "2 \<le> length ws \<Longrightarrow> \<exists>a b as. ws = a # b # as"
  by (metis Suc_le_length_iff numeral_2_eq_2)

lemma kinds_disjoint:
  "adds_word t \<Longrightarrow> \<not> is_text t" "adds_word t \<Longrightarrow> \<not> is_double_word t" "is_text t \<Longrightarrow> \<not> is_double_word t"
  "is_text t \<Longrightarrow> \<not> adds_word t" "is_double_word t \<Longrightarrow> \<not> adds_word t" "is_double_word t \<Longrightarrow> \<not> is_text t"
  unfolding adds_word_def is_text_def is_double_word_def tok_codes by auto

lemma tok_str_add2_used:
  assumes "ts_ok s" and "has_member t cv"
  shows "\<exists>s'. tok_str_add2 junk s t cv = Some s' \<and> ts_ok s' \<and> used s' = used s @ token_words t cv"
proof -
  define s1 where "s1 = (if ts_len s + TOK_MAX_SIZE \<ge> length (ts_str s) then tok_str_realloc junk s (ts_len s + TOK_MAX_SIZE + 1) else s)"
  have n: "ts_len s + TOK_MAX_SIZE + 1 = ts_len s + 5" by (simp add: TOK_MAX_SIZE_def)
  have "ts_len s + 4 < length (ts_str s1) \<and> used s1 = used s \<and> ts_len s1 = ts_len s"
    using assms(1) realloc_shape [of junk s "ts_len s + 5"] unfolding s1_def n
    by (auto simp: used_def ts_ok_def TOK_MAX_SIZE_def)
  then have r: "room (Suc (Suc (Suc 0))) s1" and u: "used s1 = used s" by (simp_all add: room_def)
  note r2 = put_room [OF r] and r3 = put_room [OF put_room [OF r]] and r4 = put_room [OF put_room [OF put_room [OF r]]]
  note u2 = used_put [OF r] and u3 = used_put [OF r2] and u4 = used_put [OF r3]
  note f = tok_str_add2_def [of junk s t cv, unfolded Let_def, folded s1_def]
  show ?thesis
  proof (cases cv)
    case (Text bs)
    then show ?thesis using assms(2) add_text_used [OF room_ok [OF r2 [of t]], of junk bs] room_ok [OF r2 [of t]]
      unfolding f by (auto simp: u2 u)
  next
    case (Words ws)
    consider "adds_word t" | "is_double_word t" | "\<not> adds_word t" "\<not> is_double_word t" "\<not> is_text t"
      using assms(2) Words by auto
    then show ?thesis
    proof cases
      case 1
      then have k: "\<not> is_text t" "\<not> is_double_word t" using kinds_disjoint by blast+
      have "1 \<le> length ws" using assms(2) Words 1 by simp
      then obtain a as where w: "ws = a # as" using one_word by blast
      have "tok_str_add2 junk s t cv = Some (put (put s1 t) a)" using 1 f unfolding Words w by simp
      then show ?thesis using room_ok [OF r3 [of t a]] 1 unfolding Words w by (simp add: u3 u2 u)
    next
      case 2
      then have k: "\<not> is_text t" "\<not> adds_word t" using kinds_disjoint by blast+
      have "2 \<le> length ws" using assms(2) Words 2 by simp
      then obtain a b as where w: "ws = a # b # as" using two_words by blast
      have "tok_str_add2 junk s t cv = Some (put (put (put s1 t) a) b)" using 2 k f unfolding Words w by simp
      then show ?thesis using room_ok [OF r4 [of t a b]] 2 k unfolding Words w by (simp add: u4 u3 u2 u)
    next
      case 3
      then show ?thesis using Words room_ok [OF r2 [of t]] unfolding f by (simp add: u2 u)
    qed
  qed
qed

section \<open>Reading\<close>

lemma kinds_of:
  "gets_signed t \<Longrightarrow> adds_word t" "gets_unsigned t \<Longrightarrow> adds_word t"
  "gets_float t \<Longrightarrow> t \<noteq> TOK_CIMAGF \<Longrightarrow> adds_word t"
  "adds_word t \<Longrightarrow> gets_signed t \<or> gets_unsigned t \<or> gets_float t"
  unfolding adds_word_def gets_signed_def gets_unsigned_def gets_float_def by auto

lemma has_value_kinds: "TOK_HAS_VALUE t \<longleftrightarrow> adds_word t \<or> is_text t \<or> is_double_word t \<or> t = TOK_CIMAGF"
proof -
  have "TOK_HAS_VALUE t \<longleftrightarrow> (192 \<le> unat t \<and> unat t \<le> 207) \<or> (210 \<le> unat t \<and> unat t \<le> 220)"
    unfolding TOK_HAS_VALUE_def tok_codes word_le_nat_alt by simp
  also have "\<dots> \<longleftrightarrow> unat t \<in> set [192..<208] \<union> set [210..<221]" unfolding set_upt by auto
  also have "\<dots> \<longleftrightarrow> adds_word t \<or> is_text t \<or> is_double_word t \<or> t = TOK_CIMAGF"
    unfolding adds_word_def is_text_def is_double_word_def tok_codes
    by (simp add: word_unat_eq_iff upt_rec) blast
  finally show ?thesis .
qed

text \<open>The part of a value that a token string keeps.\<close>

fun kept :: "u32 \<Rightarrow> cvalue \<Rightarrow> cvalue option" where
  "kept t (Words ws) = (if adds_word t then Some (Words (take 1 ws)) else if is_double_word t then Some (Words (take 2 ws)) else None)"
| "kept t (Text bs) = (if is_text t then Some (Text bs) else None)"

lemma word_at_append: "word_at (xs @ ys) (length xs + n) = word_at ys n"
  by (simp add: word_at_def)

lemma read_text:
  assumes "str = pre @ t # of_nat (length bs) # pack bs @ post"
  shows "map (byte_at str) [4 * (length pre + 2)..<4 * (length pre + 2) + length bs] = bs"
proof (rule nth_equalityI)
  fix i assume "i < length (map (byte_at str) [4 * (length pre + 2)..<4 * (length pre + 2) + length bs])"
  then have i: "i < length bs" by simp
  have s: "str = (pre @ [t, of_nat (length bs)]) @ pack bs @ post" using assms by simp
  have l: "4 * length (pre @ [t, of_nat (length bs)]) = 4 * (length pre + 2)" by simp
  have q: "i < 4 * ((length bs + 3) div 4)" using i by linarith
  have "byte_at str (4 * (length pre + 2) + i) = byte_at (pack bs @ post) i"
    unfolding s by (subst byte_at_append, subst l) (simp add: l)
  also have "\<dots> = bs ! i" using q i by (simp add: byte_at_append byte_at_pack)
  finally show "map (byte_at str) [4 * (length pre + 2)..<4 * (length pre + 2) + length bs] ! i = bs ! i" using i by simp
qed simp

lemma text_size:
  assumes "n < 2 ^ 31" shows "unat (of_nat n :: u32) = n" "\<not> bit (of_nat n :: u32) 31" "sint (of_nat n :: u32) = int n"
proof -
  show u: "unat (of_nat n :: u32) = n" using assms by (simp add: unat_of_nat take_bit_nat_eq_self)
  have "bit (of_nat n :: u32) 31 \<longleftrightarrow> bit (unat (of_nat n :: u32)) 31" by (simp only: bit_unsigned_iff) simp
  then have "bit (of_nat n :: u32) 31 \<longleftrightarrow> bit n 31" unfolding u .
  then show "\<not> bit (of_nat n :: u32) 31" using assms by (simp add: bit_iff_odd)
  have "uint (of_nat n :: u32) = int n" using u by (metis int_nat_eq uint_nat uint_ge_0)
  then show "sint (of_nat n :: u32) = int n" using assms by (simp add: sint_uint signed_take_bit_int_eq_self)
qed

lemma tok_get_back:
  assumes "has_member t cv" and "t \<noteq> TOK_CIMAGF" and "\<And>bs. cv = Text bs \<Longrightarrow> length bs < 2 ^ 31"
  shows "\<exists>cv'. TOK_GET (pre @ token_words t cv @ post) (length pre) cv0 = Some (t, length pre + length (token_words t cv), cv')
    \<and> kept t cv' = kept t cv"
proof -
  note w = word_at_append [of pre _ 0, simplified] word_at_append [of pre _ 1] word_at_append [of pre _ 2]
  have n: "word_at (x # xs) 0 = Some x" "word_at (x # y # xs) 1 = Some y" "word_at (x # y # z # xs) 2 = Some z" for x y z :: u32 and xs
    by (simp_all add: word_at_def)
  consider (word_case) a as where "adds_word t" "cv = Words (a # as)" | (text_case) bs where "is_text t" "cv = Text bs"
    | (pair_case) a b as where "is_double_word t" "cv = Words (a # b # as)" | (plain_case) "\<not> TOK_HAS_VALUE t"
  proof (cases "TOK_HAS_VALUE t")
    case True
    then consider "adds_word t" | "is_text t" | "is_double_word t" using assms(2) has_value_kinds by blast
    then show ?thesis
    proof cases
      case 1
      then show ?thesis using assms(1) one_word word_case by (cases cv) auto
    next
      case 2
      then show ?thesis using assms(1) text_case by (cases cv) auto
    next
      case 3
      then show ?thesis using assms(1) two_words pair_case by (cases cv) auto
    qed
  next
    case False
    then show ?thesis by (rule plain_case)
  qed
  then show ?thesis
  proof cases
    case word_case
    have v: "TOK_HAS_VALUE t" using word_case has_value_kinds by blast
    have d: "\<not> is_text t" "\<not> is_double_word t" using word_case kinds_disjoint by blast+
    have s: "pre @ token_words t cv @ post = pre @ t # a # post" using word_case by simp
    have l: "length pre + length (token_words t cv) = length pre + 2" using word_case by simp
    have kt: "kept t cv = Some (Words [a])" using word_case by simp
    have kk: "kept t (Words (a # as')) = Some (Words [a])" for as' using word_case by simp
    consider "gets_signed t" | "\<not> gets_signed t" "gets_unsigned t" | "\<not> gets_signed t" "\<not> gets_unsigned t" "gets_float t"
      using kinds_of(4) [OF word_case(1)] by blast
    then show ?thesis unfolding s l kt TOK_GET_def tok_get_def w n option.case if_P [OF v]
      by cases (simp_all add: word_case(1) cvalue_int_def)
  next
    case text_case
    have v: "TOK_HAS_VALUE t" using text_case has_value_kinds by blast
    have g: "\<not> gets_signed t" "\<not> gets_unsigned t" "\<not> gets_float t"
      using text_case kinds_disjoint kinds_of assms(2) by blast+
    let ?str = "pre @ t # of_nat (length bs) # pack bs @ post"
    have s: "pre @ token_words t cv @ post = ?str" using text_case by simp
    note z = text_size [OF assms(3) [OF text_case(2)]]
    have f: "4 * (length pre + 2) + length bs \<le> 4 * length ?str"
    proof -
      have "length bs \<le> 4 * ((length bs + 3) div 4)" by linarith
      then show ?thesis by simp
    qed
    have "TOK_GET ?str (length pre) cv0
        = Some (t, length pre + 2 + (length bs + 3) div 4, Text (map (byte_at ?str) [4 * (length pre + 2)..<4 * (length pre + 2) + length bs]))"
      unfolding TOK_GET_def tok_get_def w n option.case using v g z f text_case(1) by (simp add: Let_def not_less)
    then show ?thesis unfolding s read_text [OF refl] using text_case by simp
  next
    case pair_case
    have v: "TOK_HAS_VALUE t" using pair_case has_value_kinds by blast
    have g: "\<not> gets_signed t" "\<not> gets_unsigned t" "\<not> gets_float t"
      using pair_case kinds_disjoint kinds_of assms(2) by blast+
    have d: "\<not> is_text t" "\<not> adds_word t" using pair_case kinds_disjoint by blast+
    have s: "pre @ token_words t cv @ post = pre @ t # a # b # post" using pair_case d by simp
    have l: "length pre + length (token_words t cv) = length pre + 3" using pair_case d by simp
    have kt: "kept t cv = Some (Words [a, b])" "kept t (Words [a, b]) = Some (Words [a, b])" using pair_case d by simp_all
    show ?thesis unfolding s l kt TOK_GET_def tok_get_def w n option.case if_P [OF v]
      using g d pair_case(1) kt by simp
  next
    case plain_case
    then have p: "\<not> adds_word t" "\<not> is_text t" "\<not> is_double_word t" using has_value_kinds by blast+
    have "token_words t cv = [t]" "kept t x = None" for x using p by (cases cv; simp) (cases x; simp add: p)
    then show ?thesis using plain_case by (simp add: TOK_GET_def w n)
  qed
qed

section \<open>Writing and reading back\<close>

fun add_tokens :: "(nat \<Rightarrow> u32) \<Rightarrow> token_string \<Rightarrow> (u32 \<times> cvalue) list \<Rightarrow> token_string option" where
  "add_tokens junk s [] = Some s"
| "add_tokens junk s ((t, cv) # ts) =
     (case tok_str_add2 junk s t cv of None \<Rightarrow> None | Some s1 \<Rightarrow> add_tokens junk s1 ts)"

lemma TOK_GET_advances: "TOK_GET str p cv = Some (t, p', cv') \<Longrightarrow> p < p' \<and> p < length str"
  unfolding TOK_GET_def tok_get_def word_at_def Let_def by (auto split: if_splits option.splits)

text \<open>The tokens up to the end marker 0.\<close>

function read_tokens :: "u32 list \<Rightarrow> nat \<Rightarrow> cvalue \<Rightarrow> (u32 \<times> cvalue) list option" where
  "read_tokens str p cv =
     (case word_at str p of
        None \<Rightarrow> None
      | Some w \<Rightarrow>
          if w = 0 then Some []
          else (case TOK_GET str p cv of
                  None \<Rightarrow> None
                | Some (t, p', cv') \<Rightarrow> map_option (Cons (t, cv')) (read_tokens str p' cv')))"
  by pat_completeness auto
termination
  by (relation "measure (\<lambda>(str, p, cv). length str - p)") (auto dest: TOK_GET_advances)

declare read_tokens.simps [simp del]

fun text_fits :: "cvalue \<Rightarrow> bool" where
  "text_fits (Words _) = True"
| "text_fits (Text bs) = (length bs < 2 ^ 31 - 3)"

definition savable :: "u32 \<times> cvalue \<Rightarrow> bool" where
  "savable = (\<lambda>(t, cv). t \<noteq> 0 \<and> t \<noteq> TOK_CIMAGF \<and> has_member t cv \<and> text_fits cv)"

lemma used_new: "used tok_str_new = [] \<and> ts_ok tok_str_new"
  by (simp add: used_def ts_ok_def tok_str_new_def)

lemma used_rest: "\<exists>post. ts_str s = used s @ post"
  unfolding used_def by (metis append_take_drop_id)

lemma add_tokens_used:
  assumes "ts_ok s" and "\<forall>x\<in>set ts. has_member (fst x) (snd x)"
  shows "\<exists>s'. add_tokens junk s ts = Some s' \<and> ts_ok s' \<and> used s' = used s @ concat (map (\<lambda>(t, cv). token_words t cv) ts)"
  using assms
proof (induction ts arbitrary: s)
  case (Cons x ts)
  obtain t cv where x: "x = (t, cv)" by (cases x)
  obtain s1 where s1: "tok_str_add2 junk s t cv = Some s1" "ts_ok s1" "used s1 = used s @ token_words t cv"
    using tok_str_add2_used [OF Cons.prems(1), of t cv junk] Cons.prems(2) x by auto
  show ?case using Cons.IH [OF s1(2)] Cons.prems(2) s1 x by auto
qed simp

lemma token_words_first: "\<exists>ws. token_words t cv = t # ws"
  by (cases cv) simp_all

lemma read_tokens_back:
  assumes "\<forall>x\<in>set ts. savable x"
  shows "\<exists>rs. read_tokens (pre @ concat (map (\<lambda>(t, cv). token_words t cv) ts) @ 0 # post) (length pre) cv0 = Some rs
    \<and> map (\<lambda>(t, cv). (t, kept t cv)) rs = map (\<lambda>(t, cv). (t, kept t cv)) ts"
  using assms
proof (induction ts arbitrary: pre cv0)
  case Nil
  have "word_at (pre @ 0 # post) (length pre) = Some 0" by (simp add: word_at_def)
  then show ?case by (subst read_tokens.simps) simp
next
  case (Cons x ts)
  obtain t cv where x: "x = (t, cv)" by (cases x)
  let ?post = "concat (map (\<lambda>(t, cv). token_words t cv) ts) @ 0 # post"
  let ?str = "pre @ token_words t cv @ ?post"
  have s: "pre @ concat (map (\<lambda>(t, cv). token_words t cv) (x # ts)) @ 0 # post = ?str" by (simp add: x)
  have ok: "has_member t cv" "t \<noteq> TOK_CIMAGF" "t \<noteq> 0" "text_fits cv" using Cons.prems x by (simp_all add: savable_def)
  have "length bs < 2 ^ 31" if "cv = Text bs" for bs using ok(4) that by simp
  then obtain cv' where g: "TOK_GET ?str (length pre) cv0 = Some (t, length pre + length (token_words t cv), cv')" "kept t cv' = kept t cv"
    using tok_get_back [OF ok(1,2), of pre ?post cv0] by blast
  have w: "word_at ?str (length pre) = Some t" using token_words_first [of t cv] by (auto simp: word_at_def)
  obtain rs where r: "read_tokens ((pre @ token_words t cv) @ ?post) (length (pre @ token_words t cv)) cv' = Some rs"
    "map (\<lambda>(t, cv). (t, kept t cv)) rs = map (\<lambda>(t, cv). (t, kept t cv)) ts"
    using Cons.IH [of "pre @ token_words t cv" cv'] Cons.prems by auto
  have "read_tokens ?str (length pre) cv0 = Some ((t, cv') # rs)"
    using g(1) w ok(3) r(1) by (subst read_tokens.simps) simp
  then show ?case unfolding s using g(2) r(2) x by simp
qed



section \<open>The lost value\<close>

text \<open>\<open>tok_str_add2\<close> has no case for \<open>TOK_CIMAGF\<close>, \<open>tok_get\<close> and \<open>tok_str_value_extra_words\<close> have one: the token that
  follows an imaginary float constant (here a semicolon) is taken for its value.\<close>

lemma imaginary_float_swallows_token:
  "\<exists>s. add_tokens junk tok_str_new [(TOK_CIMAGF, Words [a]), (0x3b, Words [])] = Some s
    \<and> read_tokens (ts_str (tok_str_add junk s 0)) 0 cv0 = Some [(TOK_CIMAGF, Words [0x3b])]"
proof -
  have k: "\<not> adds_word TOK_CIMAGF" "\<not> is_text TOK_CIMAGF" "\<not> is_double_word TOK_CIMAGF"
    "\<not> adds_word 0x3b" "\<not> is_text 0x3b" "\<not> is_double_word 0x3b"
    by (simp_all add: adds_word_def is_text_def is_double_word_def tok_codes)
  have "\<forall>x\<in>set [(TOK_CIMAGF, Words [a]), (0x3b, Words [])]. has_member (fst x) (snd x)" using k by simp
  from add_tokens_used [OF _ this, of tok_str_new junk]
  obtain s where s0: "add_tokens junk tok_str_new [(TOK_CIMAGF, Words [a]), (0x3b, Words [])] = Some s" "ts_ok s"
      "used s = used tok_str_new @ concat (map (\<lambda>(t, cv). token_words t cv) [(TOK_CIMAGF, Words [a]), (0x3b, Words [])])"
    using used_new by blast
  have "token_words TOK_CIMAGF (Words [a]) = [TOK_CIMAGF]" "token_words 0x3b (Words []) = [0x3b]"
    by (simp_all only: token_words.simps k if_False)
  then have "concat (map (\<lambda>(t, cv). token_words t cv) [(TOK_CIMAGF, Words [a]), (0x3b, Words [])]) = [TOK_CIMAGF, 0x3b]"
    unfolding list.map prod.case by (simp only: concat.simps append.simps)
  then have s: "used s = [TOK_CIMAGF, 0x3b]" using s0(3) used_new by simp
  have "used (tok_str_add junk s 0) = [TOK_CIMAGF, 0x3b, 0]" using tok_str_add_used [OF s0(2), of junk 0] s by simp
  then obtain post where p: "ts_str (tok_str_add junk s 0) = [TOK_CIMAGF, 0x3b, 0] @ post"
    using used_rest by metis
  have v: "TOK_HAS_VALUE TOK_CIMAGF" "\<not> gets_signed TOK_CIMAGF" "\<not> gets_unsigned TOK_CIMAGF" "gets_float TOK_CIMAGF" "TOK_CIMAGF \<noteq> 0"
    by (simp_all add: has_value_kinds gets_signed_def gets_unsigned_def gets_float_def tok_codes)
  have w: "word_at ([TOK_CIMAGF, 0x3b, 0] @ post) 0 = Some TOK_CIMAGF" "word_at ([TOK_CIMAGF, 0x3b, 0] @ post) (0 + 1) = Some 0x3b"
    "word_at ([TOK_CIMAGF, 0x3b, 0] @ post) 2 = Some 0"
    by (simp_all add: word_at_def numeral_2_eq_2)
  have "TOK_GET ([TOK_CIMAGF, 0x3b, 0] @ post) 0 cv0 = Some (TOK_CIMAGF, 2, Words [0x3b])"
    unfolding TOK_GET_def tok_get_def w option.case using v by simp
  moreover have "read_tokens ([TOK_CIMAGF, 0x3b, 0] @ post) 2 (Words [0x3b]) = Some []"
    by (subst read_tokens.simps, unfold w option.case) simp
  ultimately have "read_tokens ([TOK_CIMAGF, 0x3b, 0] @ post) 0 cv0 = Some [(TOK_CIMAGF, Words [0x3b])]"
    using v(5) by (subst read_tokens.simps, unfold w option.case) simp
  then show ?thesis using s0(1) unfolding p [symmetric] by blast
qed

section \<open>Walking\<close>

lemma extra_words_text:
  assumes "n < 2 ^ 31 - 3" shows "(sint (of_nat n :: u32) + 3) sdiv 4 = int ((n + 3) div 4)"
proof -
  have "sint (of_nat n :: u32) = int n" using assms text_size(3) [of n] by simp
  then show ?thesis by (simp add: signed_divide_int_def sgn_if zdiv_int)
qed



end
