(* ===== verification/CTypes.thy ===== *)
theory CTypes imports ConstFold
begin

text \<open>
  Types of the front end: comparison, sizes and the usual arithmetic conversions of
  \<^verbatim>\<open>src/src/compiler/frontend/cprimegen.c\<close> on a heap of symbols, for x86-64 Windows.  Address 0 is the null
  pointer; \<open>None\<close> is a null pointer followed, or a comparison that does not return.
\<close>

section \<open>Types and the symbols they refer to\<close>

definition VT_VOID :: u32 where "VT_VOID = 0"
definition VT_BYTE :: u32 where "VT_BYTE = 1"
definition VT_SHORT :: u32 where "VT_SHORT = 2"
definition VT_INT :: u32 where "VT_INT = 3"
definition VT_FUNC :: u32 where "VT_FUNC = 6"
definition VT_STRUCT :: u32 where "VT_STRUCT = 7"
definition VT_FLOAT :: u32 where "VT_FLOAT = 8"
definition VT_DOUBLE :: u32 where "VT_DOUBLE = 9"
definition VT_LDOUBLE :: u32 where "VT_LDOUBLE = 10"
definition VT_BOOL :: u32 where "VT_BOOL = 11"
definition VT_NULLPTR :: u32 where "VT_NULLPTR = 12"
definition VT_QLONG :: u32 where "VT_QLONG = 13"
definition VT_QFLOAT :: u32 where "VT_QFLOAT = 14"
definition VT_DEFSIGN :: u32 where "VT_DEFSIGN = 0x0020"
definition VT_ARRAY :: u32 where "VT_ARRAY = 0x0040"
definition VT_BITFIELD :: u32 where "VT_BITFIELD = 0x0080"
definition VT_CONSTANT :: u32 where "VT_CONSTANT = 0x0100"
definition VT_VOLATILE :: u32 where "VT_VOLATILE = 0x0200"
definition VT_LONG :: u32 where "VT_LONG = 0x0800"
definition VT_EXTERN :: u32 where "VT_EXTERN = 0x1000"
definition VT_STATIC :: u32 where "VT_STATIC = 0x2000"
definition VT_TYPEDEF :: u32 where "VT_TYPEDEF = 0x4000"
definition VT_INLINE :: u32 where "VT_INLINE = 0x8000"
definition VT_REFERENCE :: u32 where "VT_REFERENCE = 0x10000"
definition VT_RVALUE_REFERENCE :: u32 where "VT_RVALUE_REFERENCE = 0x20000"
definition VT_WCHAR_T :: u32 where "VT_WCHAR_T = 0x40000"
definition VT_STRUCT_MASK :: u32 where "VT_STRUCT_MASK = push_bit 20 (push_bit 12 1 - 1) OR VT_BITFIELD"
definition VT_ENUM :: u32 where "VT_ENUM = push_bit 20 2"
definition IS_ENUM :: "u32 \<Rightarrow> bool" where "IS_ENUM t \<longleftrightarrow> t AND VT_STRUCT_MASK = VT_ENUM"
definition BIT_SIZE :: "u32 \<Rightarrow> u32" where "BIT_SIZE t = drop_bit 26 t AND 0x3f"
definition VT_STORAGE :: u32 where "VT_STORAGE = VT_EXTERN OR VT_STATIC OR VT_TYPEDEF OR VT_INLINE"
definition VT_TYPE :: u32 where "VT_TYPE = NOT (VT_STORAGE OR VT_STRUCT_MASK)"
definition FUNC_OLD :: nat where "FUNC_OLD = 2"
definition PTR_SIZE :: int where "PTR_SIZE = 8"
definition LDOUBLE_SIZE :: int where "LDOUBLE_SIZE = 16"
definition LDOUBLE_ALIGN :: int where "LDOUBLE_ALIGN = 16"

record ctype =
  ct_t :: u32
  ct_ref :: nat

text \<open>The fields of \<open>Sym\<close> that describe types: size or count \<open>c\<close>, alignment \<open>r\<close>, the type, the parameters
  after it, and the calling convention and kind of a function.\<close>

record csym =
  s_r :: int
  s_c :: int
  s_type :: ctype
  s_next :: nat
  s_func_call :: nat
  s_func_type :: nat

type_synonym syms = "nat \<Rightarrow> csym option"

definition deref :: "syms \<Rightarrow> nat \<Rightarrow> csym option" where
  "deref h a = (if a = 0 then None else h a)"

definition pointed_type :: "syms \<Rightarrow> ctype \<Rightarrow> ctype option" where
  "pointed_type h t = map_option s_type (deref h (ct_ref t))"

definition is_reference_type :: "ctype \<Rightarrow> bool" where
  "is_reference_type t \<longleftrightarrow> ct_t t AND (VT_BTYPE OR VT_REFERENCE) = VT_PTR OR VT_REFERENCE"

definition is_float :: "u32 \<Rightarrow> bool" where
  "is_float t \<longleftrightarrow> t AND VT_BTYPE \<in> {VT_LDOUBLE, VT_DOUBLE, VT_FLOAT, VT_QFLOAT}"

definition is_integer_btype :: "u32 \<Rightarrow> bool" where
  "is_integer_btype bt \<longleftrightarrow> bt \<in> {VT_BYTE, VT_BOOL, VT_SHORT, VT_INT, VT_LLONG}"

definition btype_size :: "u32 \<Rightarrow> int" where
  "btype_size bt =
     (if bt = VT_BYTE \<or> bt = VT_BOOL then 1
      else if bt = VT_SHORT then 2
      else if bt = VT_INT then 4
      else if bt = VT_LLONG then 8
      else if bt = VT_PTR \<or> bt = VT_NULLPTR then PTR_SIZE else 0)"

section \<open>Sizes\<close>

text \<open>Size and alignment; a negative size is that of an incomplete type.\<close>

partial_function (option) type_size :: "syms \<Rightarrow> ctype \<Rightarrow> (int \<times> int) option" where
  "type_size h t =
     (let bt = ct_t t AND VT_BTYPE
      in if bt = VT_STRUCT then map_option (\<lambda>s. (s_c s, s_r s)) (deref h (ct_ref t))
         else if bt = VT_PTR then
           if ct_t t AND VT_ARRAY \<noteq> 0 then
             Option.bind (deref h (ct_ref t)) (\<lambda>s. Option.bind (type_size h (s_type s)) (\<lambda>(ts, a).
               Some (if s_c s < 0 then s_c s else ts * s_c s, a)))
           else Some (PTR_SIZE, PTR_SIZE)
         else if bt = VT_NULLPTR then Some (PTR_SIZE, PTR_SIZE)
         else Option.bind (if IS_ENUM (ct_t t) then map_option (\<lambda>s. s_c s < 0) (deref h (ct_ref t)) else Some False) (\<lambda>incomplete.
           if incomplete then Some (- 1, 0)
           else if bt = VT_LDOUBLE then Some (LDOUBLE_SIZE, LDOUBLE_ALIGN)
           else if bt = VT_DOUBLE \<or> bt = VT_LLONG then Some (8, 8)
           else if bt = VT_INT \<or> bt = VT_FLOAT then Some (4, 4)
           else if bt = VT_SHORT then Some (2, 2)
           else if bt = VT_QLONG \<or> bt = VT_QFLOAT then Some (16, 8)
           else Some (1, 1)))"

definition pointed_size :: "syms \<Rightarrow> ctype \<Rightarrow> int option" where
  "pointed_size h t = Option.bind (pointed_type h t) (\<lambda>p. map_option fst (type_size h p))"

section \<open>Comparison\<close>

text \<open>The flags that are compared; default and explicit signedness only differ for char.\<close>

definition compared_flags :: "ctype \<Rightarrow> bool \<Rightarrow> u32" where
  "compared_flags ty unqualified =
     (let t = ct_t ty AND VT_TYPE;
          t = (if is_reference_type ty then t else t AND NOT VT_RVALUE_REFERENCE)
      in if unqualified then t AND NOT (VT_CONSTANT OR VT_VOLATILE) else t)"

definition same_signedness :: "u32 \<Rightarrow> u32 \<Rightarrow> u32 \<times> u32" where
  "same_signedness t1 t2 =
     (if t1 AND VT_BTYPE \<noteq> VT_BYTE \<and> (t1 OR t2) AND VT_WCHAR_T = 0
      then (t1 AND NOT VT_DEFSIGN, t2 AND NOT VT_DEFSIGN) else (t1, t2))"

definition compared :: "ctype \<Rightarrow> ctype \<Rightarrow> bool \<Rightarrow> u32 \<times> u32" where
  "compared type1 type2 unqualified =
     same_signedness (compared_flags type1 unqualified) (compared_flags type2 unqualified)"

text \<open>\<open>type = &type->ref->type\<close> for an enumeration; \<open>Inl\<close>: both are, and the answer is known.\<close>

definition strip_enum :: "syms \<Rightarrow> ctype \<Rightarrow> ctype \<Rightarrow> (bool + ctype \<times> ctype) option" where
  "strip_enum h type1 type2 =
     (if IS_ENUM (ct_t type1) then
        if IS_ENUM (ct_t type2) then Some (Inl (ct_ref type1 = ct_ref type2))
        else map_option (\<lambda>p. Inr (p, type2)) (pointed_type h type1)
      else if IS_ENUM (ct_t type2) then map_option (\<lambda>p. Inr (type1, p)) (pointed_type h type2)
      else Some (Inr (type1, type2)))"

text \<open>\<open>c\<close> of both symbols, for arrays: a negative count is that of an incomplete array.\<close>

definition counts_agree :: "syms \<Rightarrow> ctype \<Rightarrow> ctype \<Rightarrow> bool option" where
  "counts_agree h type1 type2 =
     Option.bind (deref h (ct_ref type1)) (\<lambda>s1. Option.bind (deref h (ct_ref type2)) (\<lambda>s2.
       Some (s_c s1 < 0 \<or> s_c s2 < 0 \<or> s_c s1 = s_c s2)))"

text \<open>\<open>compare_types\<close> and the loop of \<open>is_compatible_func\<close> call each other: a query is two types and whether
  qualifiers are ignored, or two symbols at which the loop is.\<close>

datatype query = Types ctype ctype bool | Signatures nat nat

partial_function (option) compare_query :: "syms \<Rightarrow> query \<Rightarrow> bool option" where
  "compare_query h q =
     (case q of
        Types type1 type2 unqualified \<Rightarrow>
          if type1 = type2 then Some True
          else Option.bind (strip_enum h type1 type2) (\<lambda>r. case r of
            Inl b \<Rightarrow> Some b
          | Inr (type1, type2) \<Rightarrow>
              (let (t1, t2) = compared type1 type2 unqualified; bt1 = t1 AND VT_BTYPE
               in if t1 \<noteq> t2 then Some False
                  else if bt1 \<noteq> VT_PTR \<and> bt1 \<noteq> VT_STRUCT \<and> bt1 \<noteq> VT_FUNC then Some True
                  else if ct_ref type1 = ct_ref type2 then Some True
                  else Option.bind (if t1 AND VT_ARRAY \<noteq> 0 then counts_agree h type1 type2 else Some True) (\<lambda>agree.
                    if \<not> agree then Some False
                    else if bt1 = VT_PTR then
                      Option.bind (pointed_type h type1) (\<lambda>p1. Option.bind (pointed_type h type2) (\<lambda>p2.
                        compare_query h (Types p1 p2 False)))
                    else if bt1 = VT_STRUCT then Some False
                    else Option.bind (deref h (ct_ref type1)) (\<lambda>s1. Option.bind (deref h (ct_ref type2)) (\<lambda>s2.
                      if s_func_call s1 \<noteq> s_func_call s2 then Some False
                      else if s_func_type s1 \<noteq> s_func_type s2 \<and> s_func_type s1 \<noteq> FUNC_OLD \<and> s_func_type s2 \<noteq> FUNC_OLD then Some False
                      else compare_query h (Signatures (ct_ref type1) (ct_ref type2)))))))
      | Signatures a1 a2 \<Rightarrow>
          Option.bind (deref h a1) (\<lambda>s1. Option.bind (deref h a2) (\<lambda>s2.
            Option.bind (compare_query h (Types (s_type s1) (s_type s2) True)) (\<lambda>same.
              if \<not> same then Some False
              else if s_func_type s1 = FUNC_OLD \<or> s_func_type s2 = FUNC_OLD then Some True
              else if s_next s1 = 0 then Some (s_next s2 = 0)
              else if s_next s2 = 0 then Some False
              else compare_query h (Signatures (s_next s1) (s_next s2))))))"

definition compare_types :: "syms \<Rightarrow> ctype \<Rightarrow> ctype \<Rightarrow> bool \<Rightarrow> bool option" where
  "compare_types h type1 type2 unqualified = compare_query h (Types type1 type2 unqualified)"

definition is_compatible_types :: "syms \<Rightarrow> ctype \<Rightarrow> ctype \<Rightarrow> bool option" where
  "is_compatible_types h type1 type2 = compare_types h type1 type2 False"

definition is_compatible_unqualified_types :: "syms \<Rightarrow> ctype \<Rightarrow> ctype \<Rightarrow> bool option" where
  "is_compatible_unqualified_types h type1 type2 = compare_types h type1 type2 True"

section \<open>The usual arithmetic conversions\<close>

text \<open>The last branches of \<open>combine_types\<close>: operands that are neither void, pointers nor structures.\<close>

definition combine_arithmetic :: "u32 \<Rightarrow> u32 \<Rightarrow> u32" where
  "combine_arithmetic t1 t2 =
     (let bt1 = t1 AND VT_BTYPE; bt2 = t2 AND VT_BTYPE
      in if is_float bt1 \<or> is_float bt2 then
           if bt1 = VT_LDOUBLE \<or> bt2 = VT_LDOUBLE then VT_LDOUBLE
           else if bt1 = VT_DOUBLE \<or> bt2 = VT_DOUBLE then VT_DOUBLE
           else VT_FLOAT
         else if bt1 = VT_LLONG \<or> bt2 = VT_LLONG then
           (let t = VT_LLONG OR VT_LONG;
                t = (if bt1 = VT_LLONG then t AND t1 else t);
                t = (if bt2 = VT_LLONG then t AND t2 else t)
            in if t1 AND (VT_BTYPE OR VT_UNSIGNED) = VT_LLONG OR VT_UNSIGNED
                  \<or> t2 AND (VT_BTYPE OR VT_UNSIGNED) = VT_LLONG OR VT_UNSIGNED
               then t OR VT_UNSIGNED else t)
         else
           (let t = VT_INT OR (VT_LONG AND (t1 OR t2))
            in if t1 AND (VT_BTYPE OR VT_UNSIGNED) = VT_INT OR VT_UNSIGNED \<and> (t1 AND VT_BITFIELD = 0 \<or> BIT_SIZE t1 = 32)
                  \<or> t2 AND (VT_BTYPE OR VT_UNSIGNED) = VT_INT OR VT_UNSIGNED \<and> (t2 AND VT_BITFIELD = 0 \<or> BIT_SIZE t2 = 32)
               then t OR VT_UNSIGNED else t))"

end
