(* ===== verification/CTypesSpec.thy ===== *)
theory CTypesSpec imports CTypes
begin

text \<open>
  Comparison of types returns, does not depend on the order of its arguments, and answers yes only for types of the
  same size and alignment; the usual arithmetic conversions are the rule of C.
\<close>

section \<open>Well-formed types\<close>

abbreviation bt :: "ctype \<Rightarrow> u32" where
  "bt t \<equiv> ct_t t AND VT_BTYPE"

text \<open>\<open>N\<close> holds the symbols behind pointers, arrays and functions and their parameters: they are built from the inside
  out, so a depth decreases along them.  Enumerations are complete and scalar, structures have a symbol.\<close>

definition type_ok :: "syms \<Rightarrow> nat set \<Rightarrow> (nat \<Rightarrow> nat) \<Rightarrow> nat \<Rightarrow> ctype \<Rightarrow> bool" where
  "type_ok h N depth n t \<longleftrightarrow>
     (bt t \<in> {VT_PTR, VT_FUNC} \<longrightarrow> ct_ref t \<in> N \<and> depth (ct_ref t) < n)
     \<and> (bt t = VT_STRUCT \<longrightarrow> deref h (ct_ref t) \<noteq> None)
     \<and> (IS_ENUM (ct_t t) \<longrightarrow> bt t \<notin> {VT_PTR, VT_STRUCT, VT_FUNC}
         \<and> (\<exists>s. deref h (ct_ref t) = Some s \<and> 0 \<le> s_c s \<and> bt (s_type s) = bt t))"

definition types_ok :: "syms \<Rightarrow> nat set \<Rightarrow> (nat \<Rightarrow> nat) \<Rightarrow> bool" where
  "types_ok h N depth \<longleftrightarrow>
     (\<forall>a\<in>N. \<exists>s. deref h a = Some s \<and> type_ok h N depth (depth a) (s_type s)
       \<and> (s_next s \<noteq> 0 \<longrightarrow> s_next s \<in> N \<and> depth (s_next s) < depth a))"

lemma types_okD:
  assumes "types_ok h N depth" and "a \<in> N"
  obtains s where "deref h a = Some s" "type_ok h N depth (depth a) (s_type s)"
    "s_next s \<noteq> 0 \<Longrightarrow> s_next s \<in> N \<and> depth (s_next s) < depth a"
  using assms unfolding types_ok_def by blast

lemma btypes_distinct:
  "distinct [VT_VOID, VT_BYTE, VT_SHORT, VT_INT, VT_LLONG, VT_PTR, VT_FUNC, VT_STRUCT, VT_FLOAT, VT_DOUBLE, VT_LDOUBLE,
     VT_BOOL, VT_NULLPTR, VT_QLONG, VT_QFLOAT]"
  by (simp add: VT_VOID_def VT_BYTE_def VT_SHORT_def VT_INT_def VT_LLONG_def VT_PTR_def VT_FUNC_def VT_STRUCT_def VT_FLOAT_def
      VT_DOUBLE_def VT_LDOUBLE_def VT_BOOL_def VT_NULLPTR_def VT_QLONG_def VT_QFLOAT_def)

lemma ptr_struct_func [simp]: "VT_PTR \<noteq> VT_STRUCT" "VT_STRUCT \<noteq> VT_PTR" "VT_PTR \<noteq> VT_FUNC" "VT_FUNC \<noteq> VT_PTR"
  "VT_STRUCT \<noteq> VT_FUNC" "VT_FUNC \<noteq> VT_STRUCT"
  using btypes_distinct by auto

section \<open>The comparison, step by step\<close>

lemma flags_keep:
  "compared_flags ty u AND VT_BTYPE = bt ty" "compared_flags ty u AND VT_ARRAY = ct_t ty AND VT_ARRAY"
  unfolding compared_flags_def Let_def
  by (simp_all add: VT_TYPE_def VT_STORAGE_def VT_STRUCT_MASK_def VT_BTYPE_def VT_ARRAY_def VT_BITFIELD_def VT_EXTERN_def
      VT_STATIC_def VT_TYPEDEF_def VT_INLINE_def VT_RVALUE_REFERENCE_def VT_CONSTANT_def VT_VOLATILE_def and.assoc)

lemma signedness_keeps:
  assumes "same_signedness t1 t2 = (s1, s2)"
  shows "s1 AND VT_BTYPE = t1 AND VT_BTYPE" "s2 AND VT_BTYPE = t2 AND VT_BTYPE"
    "s1 AND VT_ARRAY = t1 AND VT_ARRAY" "s2 AND VT_ARRAY = t2 AND VT_ARRAY"
  using assms unfolding same_signedness_def
  by (auto simp: VT_BTYPE_def VT_ARRAY_def VT_DEFSIGN_def and.assoc split: if_splits)

lemma signedness_swap:
  assumes "same_signedness t1 t2 = (s, s)"
  shows "same_signedness t2 t1 = (s, s)"
proof -
  have "t1 AND VT_BTYPE = t2 AND VT_BTYPE" using signedness_keeps(1,2) [OF assms] by simp
  then show ?thesis using assms unfolding same_signedness_def by (auto simp: or.commute split: if_splits)
qed

lemma compared_keeps:
  assumes "compared a b u = (t1, t2)"
  shows "t1 AND VT_BTYPE = bt a" "t2 AND VT_BTYPE = bt b" "t1 AND VT_ARRAY = ct_t a AND VT_ARRAY" "t2 AND VT_ARRAY = ct_t b AND VT_ARRAY"
  using signedness_keeps [OF assms [unfolded compared_def]] by (simp_all add: flags_keep)

text \<open>The two flags are the same, one way or the other.\<close>

definition same_flags :: "ctype \<Rightarrow> ctype \<Rightarrow> bool \<Rightarrow> bool" where
  "same_flags a b u \<longleftrightarrow> fst (compared a b u) = snd (compared a b u)"

lemma same_flags_swap: "same_flags b a u = same_flags a b u"
proof -
  have "same_flags b a u" if s: "same_flags a b u" for a b
  proof -
    obtain s where "same_signedness (compared_flags a u) (compared_flags b u) = (s, s)"
      using s unfolding same_flags_def compared_def by (metis prod.collapse)
    from signedness_swap [OF this] show ?thesis unfolding same_flags_def compared_def by simp
  qed
  then show ?thesis by blast
qed

lemma same_flags_keep: "same_flags a b u \<Longrightarrow> bt a = bt b \<and> ct_t a AND VT_ARRAY = ct_t b AND VT_ARRAY"
  using compared_keeps [OF prod.collapse [symmetric], of a b u] by (simp add: same_flags_def)

lemma strip_enum_swap: "strip_enum h b a = map_option (map_sum id prod.swap) (strip_enum h a b)"
  unfolding strip_enum_def by (auto simp: option.map_comp o_def)

lemma counts_agree_swap: "counts_agree h b a = counts_agree h a b"
  unfolding counts_agree_def by (cases "deref h (ct_ref a)"; cases "deref h (ct_ref b)") auto

text \<open>What is compared next once the enumerations are stripped.\<close>

definition compare_stripped :: "syms \<Rightarrow> bool \<Rightarrow> ctype \<Rightarrow> ctype \<Rightarrow> bool option" where
  "compare_stripped h u a b =
     (if \<not> same_flags a b u then Some False
      else if bt a \<noteq> VT_PTR \<and> bt a \<noteq> VT_STRUCT \<and> bt a \<noteq> VT_FUNC then Some True
      else if ct_ref a = ct_ref b then Some True
      else if bt a = VT_STRUCT then
        (if ct_t a AND VT_ARRAY \<noteq> 0 then map_option (\<lambda>_. False) (counts_agree h a b) else Some False)
      else Option.bind (if ct_t a AND VT_ARRAY \<noteq> 0 then counts_agree h a b else Some True) (\<lambda>agree.
        if \<not> agree then Some False
        else if bt a = VT_PTR then
          Option.bind (pointed_type h a) (\<lambda>p1. Option.bind (pointed_type h b) (\<lambda>p2. compare_query h (Types p1 p2 False)))
        else Option.bind (deref h (ct_ref a)) (\<lambda>s1. Option.bind (deref h (ct_ref b)) (\<lambda>s2.
          if s_func_call s1 \<noteq> s_func_call s2 then Some False
          else if s_func_type s1 \<noteq> s_func_type s2 \<and> s_func_type s1 \<noteq> FUNC_OLD \<and> s_func_type s2 \<noteq> FUNC_OLD then Some False
          else compare_query h (Signatures (ct_ref a) (ct_ref b))))))"

lemma compare_unfold:
  "compare_query h (Types a b u) =
     (if a = b then Some True
      else Option.bind (strip_enum h a b) (case_sum Some (\<lambda>(x, y). compare_stripped h u x y)))"
proof -
  have "(let (t1, t2) = compared x y u; bt1 = t1 AND VT_BTYPE
               in if t1 \<noteq> t2 then Some False
                  else if bt1 \<noteq> VT_PTR \<and> bt1 \<noteq> VT_STRUCT \<and> bt1 \<noteq> VT_FUNC then Some True
                  else if ct_ref x = ct_ref y then Some True
                  else Option.bind (if t1 AND VT_ARRAY \<noteq> 0 then counts_agree h x y else Some True) (\<lambda>agree.
                    if \<not> agree then Some False
                    else if bt1 = VT_PTR then
                      Option.bind (pointed_type h x) (\<lambda>p1. Option.bind (pointed_type h y) (\<lambda>p2.
                        compare_query h (Types p1 p2 False)))
                    else if bt1 = VT_STRUCT then Some False
                    else Option.bind (deref h (ct_ref x)) (\<lambda>s1. Option.bind (deref h (ct_ref y)) (\<lambda>s2.
                      if s_func_call s1 \<noteq> s_func_call s2 then Some False
                      else if s_func_type s1 \<noteq> s_func_type s2 \<and> s_func_type s1 \<noteq> FUNC_OLD \<and> s_func_type s2 \<noteq> FUNC_OLD then Some False
                      else compare_query h (Signatures (ct_ref x) (ct_ref y)))))) = compare_stripped h u x y" for x y
  proof -
    obtain t1 t2 where c: "compared x y u = (t1, t2)" by (cases "compared x y u")
    note k = compared_keeps [OF c]
    have f: "same_flags x y u \<longleftrightarrow> t1 = t2" using c by (simp add: same_flags_def)
    show ?thesis unfolding c compare_stripped_def f Let_def prod.case k(1,3)
      by (cases "bt x = VT_STRUCT"; cases "counts_agree h x y") simp_all
  qed
  then show ?thesis
    by (subst compare_query.simps) (simp add: case_sum_o_inj split_def cong: option.case_cong)
qed

lemma compare_signatures:
  "compare_query h (Signatures a1 a2) =
     Option.bind (deref h a1) (\<lambda>s1. Option.bind (deref h a2) (\<lambda>s2.
       Option.bind (compare_query h (Types (s_type s1) (s_type s2) True)) (\<lambda>same.
         if \<not> same then Some False
         else if s_func_type s1 = FUNC_OLD \<or> s_func_type s2 = FUNC_OLD then Some True
         else if s_next s1 = 0 then Some (s_next s2 = 0)
         else if s_next s2 = 0 then Some False
         else compare_query h (Signatures (s_next s1) (s_next s2)))))"
  by (subst compare_query.simps) simp

section \<open>Comparison returns and is symmetric\<close>

fun flip :: "query \<Rightarrow> query" where
  "flip (Types a b u) = Types b a u"
| "flip (Signatures a b) = Signatures b a"

text \<open>Both orders return, with the same answer.\<close>

definition decides :: "syms \<Rightarrow> query \<Rightarrow> bool" where
  "decides h q \<longleftrightarrow> (\<exists>b. compare_query h q = Some b \<and> compare_query h (flip q) = Some b)"

text \<open>Stripping an enumeration changes no basic type, and leaves pointers, structures and functions alone.\<close>

lemma strip_cases:
  assumes "type_ok h N depth n a" and "type_ok h N depth m b"
  obtains (both) "IS_ENUM (ct_t a)" "IS_ENUM (ct_t b)" "strip_enum h a b = Some (Inl (ct_ref a = ct_ref b))"
  | (scalar) x y where "strip_enum h a b = Some (Inr (x, y))" "bt x = bt a" "bt y = bt b"
      "\<not> (IS_ENUM (ct_t a) \<and> IS_ENUM (ct_t b))"
      "bt a \<in> {VT_PTR, VT_STRUCT, VT_FUNC} \<Longrightarrow> x = a" "bt b \<in> {VT_PTR, VT_STRUCT, VT_FUNC} \<Longrightarrow> y = b"
proof (cases "IS_ENUM (ct_t a)")
  case True
  then obtain s where s: "deref h (ct_ref a) = Some s" "bt (s_type s) = bt a" "bt a \<notin> {VT_PTR, VT_STRUCT, VT_FUNC}"
    using assms(1) unfolding type_ok_def by blast
  show ?thesis
  proof (cases "IS_ENUM (ct_t b)")
    case True
    then show ?thesis using \<open>IS_ENUM (ct_t a)\<close> both by (simp add: strip_enum_def)
  next
    case False
    then have "strip_enum h a b = Some (Inr (s_type s, b))" using True s by (simp add: strip_enum_def pointed_type_def)
    then show ?thesis using scalar s False by blast
  qed
next
  case False
  show ?thesis
  proof (cases "IS_ENUM (ct_t b)")
    case True
    then obtain s where s: "deref h (ct_ref b) = Some s" "bt (s_type s) = bt b" "bt b \<notin> {VT_PTR, VT_STRUCT, VT_FUNC}"
      using assms(2) unfolding type_ok_def by blast
    then have "strip_enum h a b = Some (Inr (a, s_type s))" using True False by (simp add: strip_enum_def pointed_type_def)
    then show ?thesis using scalar s False by blast
  next
    case f: False
    then have "strip_enum h a b = Some (Inr (a, b))" using False by (simp add: strip_enum_def)
    then show ?thesis using scalar f by blast
  qed
qed

lemma node:
  assumes heap: "types_ok h N depth" and "type_ok h N depth n t" and "bt t \<in> {VT_PTR, VT_FUNC}"
  obtains s where "deref h (ct_ref t) = Some s" "ct_ref t \<in> N" "depth (ct_ref t) < n" "type_ok h N depth (depth (ct_ref t)) (s_type s)"
    "s_next s \<noteq> 0 \<Longrightarrow> s_next s \<in> N \<and> depth (s_next s) < depth (ct_ref t)"
proof -
  have r: "ct_ref t \<in> N" "depth (ct_ref t) < n" using assms(2,3) unfolding type_ok_def by blast+
  show ?thesis using types_okD [OF heap r(1)] r that by blast
qed

lemma struct_node: "type_ok h N depth n t \<Longrightarrow> bt t = VT_STRUCT \<Longrightarrow> \<exists>s. deref h (ct_ref t) = Some s"
  unfolding type_ok_def by blast

lemma counts_total:
  assumes heap: "types_ok h N depth" and "type_ok h N depth n a" and "type_ok h N depth m b" and "bt a = bt b" and "bt a \<in> {VT_PTR, VT_STRUCT, VT_FUNC}"
  shows "\<exists>c. counts_agree h a b = Some c"
proof -
  have "\<exists>s. deref h (ct_ref t) = Some s" if "type_ok h N depth k t" "bt t = bt a" for k t
    using that assms(5) node [OF heap] struct_node by (metis insertE insert_iff singletonD)
  then obtain s1 s2 where "deref h (ct_ref a) = Some s1" "deref h (ct_ref b) = Some s2" using assms(2-4) by metis
  then show ?thesis by (simp add: counts_agree_def)
qed

lemma stripped_decides:
  assumes heap: "types_ok h N depth" and a: "type_ok h N depth n a" and b: "type_ok h N depth m b"
    and types: "\<And>x y k j. k < n \<Longrightarrow> type_ok h N depth k x \<Longrightarrow> type_ok h N depth j y \<Longrightarrow> decides h (Types x y False)"
    and sigs: "\<And>a1 a2. a1 \<in> N \<Longrightarrow> a2 \<in> N \<Longrightarrow> depth a1 < n \<Longrightarrow> decides h (Signatures a1 a2)"
  shows "\<exists>r. compare_stripped h u a b = Some r \<and> compare_stripped h u b a = Some r"
proof (cases "same_flags a b u \<and> bt a \<in> {VT_PTR, VT_STRUCT, VT_FUNC} \<and> ct_ref a \<noteq> ct_ref b")
  case False
  then show ?thesis using same_flags_swap [of a b u] same_flags_keep [of a b u] unfolding compare_stripped_def
    by (cases "same_flags a b u"; cases "ct_ref a = ct_ref b") auto
next
  case True
  then have t: "same_flags a b u" "same_flags b a u" "bt b = bt a" "ct_t b AND VT_ARRAY = ct_t a AND VT_ARRAY"
    "ct_ref a \<noteq> ct_ref b" "ct_ref b \<noteq> ct_ref a" "bt a \<in> {VT_PTR, VT_STRUCT, VT_FUNC}"
    using same_flags_swap [of a b u] same_flags_keep [of a b u] by simp_all
  obtain c where c: "counts_agree h a b = Some c" "counts_agree h b a = Some c"
    using counts_total [OF heap a b t(3) [symmetric] t(7)] counts_agree_swap by metis
  consider (ptr) "bt a = VT_PTR" | (struct) "bt a = VT_STRUCT" | (func) "bt a = VT_FUNC" using t(7) by blast
  then show ?thesis
  proof cases
    case struct
    then show ?thesis using t c unfolding compare_stripped_def by auto
  next
    case ptr
    then have pa: "bt a \<in> {VT_PTR, VT_FUNC}" and pb: "bt b \<in> {VT_PTR, VT_FUNC}" using t(3) by simp_all
    obtain s1 where s1: "deref h (ct_ref a) = Some s1" "depth (ct_ref a) < n" "type_ok h N depth (depth (ct_ref a)) (s_type s1)"
      using node [OF heap a pa] by metis
    obtain s2 where s2: "deref h (ct_ref b) = Some s2" "type_ok h N depth (depth (ct_ref b)) (s_type s2)"
      using node [OF heap b pb] by metis
    obtain r where r: "compare_query h (Types (s_type s1) (s_type s2) False) = Some r"
      "compare_query h (Types (s_type s2) (s_type s1) False) = Some r"
      using types [OF s1(2,3) s2(2)] unfolding decides_def by auto
    show ?thesis using ptr t c s1(1) s2(1) r unfolding compare_stripped_def pointed_type_def
      by (cases "ct_t a AND VT_ARRAY = 0"; cases c) auto
  next
    case func
    then have pa: "bt a \<in> {VT_PTR, VT_FUNC}" and pb: "bt b \<in> {VT_PTR, VT_FUNC}" using t(3) by simp_all
    obtain s1 where s1: "deref h (ct_ref a) = Some s1" "ct_ref a \<in> N" "depth (ct_ref a) < n" using node [OF heap a pa] by metis
    obtain s2 where s2: "deref h (ct_ref b) = Some s2" "ct_ref b \<in> N" using node [OF heap b pb] by metis
    obtain r where r: "compare_query h (Signatures (ct_ref a) (ct_ref b)) = Some r"
      "compare_query h (Signatures (ct_ref b) (ct_ref a)) = Some r"
      using sigs [OF s1(2) s2(2) s1(3)] unfolding decides_def by auto
    let ?differ = "s_func_call s1 \<noteq> s_func_call s2
      \<or> s_func_type s1 \<noteq> s_func_type s2 \<and> s_func_type s1 \<noteq> FUNC_OLD \<and> s_func_type s2 \<noteq> FUNC_OLD"
    have f: "compare_stripped h u a b = (if ct_t a AND VT_ARRAY \<noteq> 0 \<and> \<not> c then Some False else if ?differ then Some False else Some r)"
      using func t c s1(1) s2(1) r(1) unfolding compare_stripped_def by (cases "ct_t a AND VT_ARRAY = 0"; cases c) simp_all
    have "compare_stripped h u b a = (if ct_t a AND VT_ARRAY \<noteq> 0 \<and> \<not> c then Some False else if ?differ then Some False else Some r)"
      using func t c s1(1) s2(1) r(2) unfolding compare_stripped_def by (cases "ct_t a AND VT_ARRAY = 0"; cases c) auto
    then show ?thesis unfolding f by (cases "ct_t a AND VT_ARRAY \<noteq> 0 \<and> \<not> c"; cases ?differ) auto
  qed
qed

lemma types_decide:
  assumes heap: "types_ok h N depth" and "type_ok h N depth n a" and "type_ok h N depth m b"
    and "\<And>x y k j. k < n \<Longrightarrow> type_ok h N depth k x \<Longrightarrow> type_ok h N depth j y \<Longrightarrow> decides h (Types x y False)"
    and "\<And>a1 a2. a1 \<in> N \<Longrightarrow> a2 \<in> N \<Longrightarrow> depth a1 < n \<Longrightarrow> decides h (Signatures a1 a2)"
  shows "decides h (Types a b u)"
proof (cases "a = b")
  case True
  then show ?thesis by (auto simp: decides_def compare_unfold)
next
  case False
  show ?thesis using assms(2,3)
  proof (cases rule: strip_cases)
    case both
    then show ?thesis using False strip_enum_swap [of h b a] by (simp add: decides_def compare_unfold)
  next
    case (scalar x y)
    have sw: "strip_enum h b a = Some (Inr (y, x))" using strip_enum_swap [of h b a] scalar(1) by simp
    have "\<exists>r. compare_stripped h u x y = Some r \<and> compare_stripped h u y x = Some r"
    proof (cases "bt a \<in> {VT_PTR, VT_STRUCT, VT_FUNC} \<and> bt b \<in> {VT_PTR, VT_STRUCT, VT_FUNC}")
      case True
      then have "x = a" "y = b" using scalar by simp_all
      then show ?thesis using stripped_decides [OF assms] by simp
    next
      case False
      then show ?thesis using scalar(2,3) same_flags_keep [of x y u] same_flags_swap [of x y u]
        unfolding compare_stripped_def by (cases "same_flags x y u") auto
    qed
    then show ?thesis using False scalar(1) sw by (auto simp: decides_def compare_unfold)
  qed
qed

lemma signatures_decide:
  assumes heap: "types_ok h N depth" and "a1 \<in> N" and "a2 \<in> N"
    and types: "\<And>x y j. type_ok h N depth (depth a1) x \<Longrightarrow> type_ok h N depth j y \<Longrightarrow> decides h (Types x y True)"
    and sigs: "\<And>b1 b2. b1 \<in> N \<Longrightarrow> b2 \<in> N \<Longrightarrow> depth b1 < depth a1 \<Longrightarrow> decides h (Signatures b1 b2)"
  shows "decides h (Signatures a1 a2)"
proof -
  obtain s1 where s1: "deref h a1 = Some s1" "type_ok h N depth (depth a1) (s_type s1)"
    "s_next s1 \<noteq> 0 \<Longrightarrow> s_next s1 \<in> N \<and> depth (s_next s1) < depth a1"
    using types_okD [OF heap assms(2)] by metis
  obtain s2 where s2: "deref h a2 = Some s2" "type_ok h N depth (depth a2) (s_type s2)"
    "s_next s2 \<noteq> 0 \<Longrightarrow> s_next s2 \<in> N \<and> depth (s_next s2) < depth a2"
    using types_okD [OF heap assms(3)] by metis
  obtain r where r: "compare_query h (Types (s_type s1) (s_type s2) True) = Some r"
      "compare_query h (Types (s_type s2) (s_type s1) True) = Some r"
    using types [OF s1(2) s2(2)] unfolding decides_def by auto
  show ?thesis
  proof (cases "r \<and> s_func_type s1 \<noteq> FUNC_OLD \<and> s_func_type s2 \<noteq> FUNC_OLD \<and> s_next s1 \<noteq> 0 \<and> s_next s2 \<noteq> 0")
    case True
    then obtain q where "compare_query h (Signatures (s_next s1) (s_next s2)) = Some q"
      "compare_query h (Signatures (s_next s2) (s_next s1)) = Some q"
      using sigs [of "s_next s1" "s_next s2"] s1(3) s2(3) unfolding decides_def by auto
    then show ?thesis using True r s1(1) s2(1) by (simp add: decides_def compare_signatures [of h a1] compare_signatures [of h a2])
  next
    case False
    then show ?thesis using r s1(1) s2(1) unfolding decides_def flip.simps compare_signatures [of h a1] compare_signatures [of h a2]
      by (cases r; cases "s_func_type s1 = FUNC_OLD"; cases "s_func_type s2 = FUNC_OLD"; cases "s_next s1 = 0"; cases "s_next s2 = 0") auto
  qed
qed

lemma all_decide:
  assumes heap: "types_ok h N depth"
  shows "(\<forall>a b m u. type_ok h N depth n a \<longrightarrow> type_ok h N depth m b \<longrightarrow> decides h (Types a b u)) \<and>
   (\<forall>a1\<in>N. \<forall>a2\<in>N. depth a1 = n \<longrightarrow> decides h (Signatures a1 a2))"
proof (induction n rule: less_induct)
  case (less n)
  have t: "decides h (Types a b u)" if "type_ok h N depth n a" "type_ok h N depth m b" for a b m u
    using types_decide [OF heap that] less by blast
  moreover have "decides h (Signatures a1 a2)" if "a1 \<in> N" "a2 \<in> N" "depth a1 = n" for a1 a2
    using signatures_decide [OF heap that(1,2)] t less that(3) by blast
  ultimately show ?case by blast
qed

lemma compare_returns:
  assumes heap: "types_ok h N depth" and "type_ok h N depth n a" and "type_ok h N depth m b"
  shows "\<exists>r. compare_types h a b u = Some r \<and> compare_types h b a u = Some r"
  using all_decide [OF heap, of n] assms(2,3) unfolding decides_def compare_types_def by auto

text \<open>The size of a type that is neither an array nor a structure.\<close>

definition scalar_size :: "u32 \<Rightarrow> int \<times> int" where
  "scalar_size k =
     (if k = VT_PTR \<or> k = VT_NULLPTR then (PTR_SIZE, PTR_SIZE)
      else if k = VT_LDOUBLE then (LDOUBLE_SIZE, LDOUBLE_ALIGN)
      else if k = VT_DOUBLE \<or> k = VT_LLONG then (8, 8)
      else if k = VT_INT \<or> k = VT_FLOAT then (4, 4)
      else if k = VT_SHORT then (2, 2)
      else if k = VT_QLONG \<or> k = VT_QFLOAT then (16, 8) else (1, 1))"

lemma type_size_scalar:
  assumes "type_ok h N depth n t" and "bt t \<noteq> VT_STRUCT" and "bt t = VT_PTR \<Longrightarrow> ct_t t AND VT_ARRAY = 0"
  shows "type_size h t = Some (scalar_size (bt t))"
proof (cases "IS_ENUM (ct_t t)")
  case True
  then obtain s where s: "deref h (ct_ref t) = Some s" "0 \<le> s_c s" "bt t \<notin> {VT_PTR, VT_STRUCT, VT_FUNC}"
    using assms(1) unfolding type_ok_def by blast
  then show ?thesis using True assms(2) by (subst type_size.simps) (simp add: Let_def scalar_size_def)
next
  case False
  then show ?thesis using assms(2,3) by (subst type_size.simps) (simp add: Let_def scalar_size_def)
qed

lemma type_size_struct: "bt t = VT_STRUCT \<Longrightarrow> type_size h t = map_option (\<lambda>s. (s_c s, s_r s)) (deref h (ct_ref t))"
  by (subst type_size.simps) (simp add: Let_def)

lemma type_size_array:
  "bt t = VT_PTR \<Longrightarrow> ct_t t AND VT_ARRAY \<noteq> 0 \<Longrightarrow>
    type_size h t = Option.bind (deref h (ct_ref t)) (\<lambda>s. Option.bind (type_size h (s_type s)) (\<lambda>(ts, a).
      Some (if s_c s < 0 then s_c s else ts * s_c s, a)))"
  by (subst type_size.simps) (simp add: Let_def)

lemma type_size_returns: "types_ok h N depth \<Longrightarrow> type_ok h N depth n t \<Longrightarrow> \<exists>sz a. type_size h t = Some (sz, a)"
proof (induction n arbitrary: t rule: less_induct)
  case (less n)
  note heap = less.prems(1)
  consider "bt t = VT_STRUCT" | "bt t = VT_PTR" "ct_t t AND VT_ARRAY \<noteq> 0" | "bt t \<noteq> VT_STRUCT" "bt t = VT_PTR \<Longrightarrow> ct_t t AND VT_ARRAY = 0"
    by blast
  then show ?case
  proof cases
    case 1
    then show ?thesis using struct_node [OF less.prems(2)] by (auto simp: type_size_struct)
  next
    case 2
    then have p: "bt t \<in> {VT_PTR, VT_FUNC}" by simp
    obtain s where s: "deref h (ct_ref t) = Some s" "depth (ct_ref t) < n" "type_ok h N depth (depth (ct_ref t)) (s_type s)"
      using node [OF heap less.prems(2) p] by metis
    obtain sz a where "type_size h (s_type s) = Some (sz, a)" using less.IH [OF s(2) heap s(3)] by blast
    then show ?thesis using s(1) by (simp add: type_size_array [OF 2])
  next
    case 3
    then show ?thesis using type_size_scalar [OF less.prems(2)] by (cases "scalar_size (bt t)") simp
  qed
qed

text \<open>The same alignment, and the same size unless one of the types is incomplete.\<close>

definition same_layout :: "syms \<Rightarrow> ctype \<Rightarrow> ctype \<Rightarrow> bool" where
  "same_layout h a b \<longleftrightarrow>
     (\<exists>n m al. type_size h a = Some (n, al) \<and> type_size h b = Some (m, al) \<and> (0 \<le> n \<and> 0 \<le> m \<longrightarrow> n = m))"

lemma same_layoutI: "types_ok h N depth \<Longrightarrow> type_ok h N depth n a \<Longrightarrow> type_size h a = type_size h b \<Longrightarrow> same_layout h a b"
  using type_size_returns unfolding same_layout_def by metis

lemma compare_same_layout:
  "types_ok h N depth \<Longrightarrow> type_ok h N depth n a \<Longrightarrow> type_ok h N depth m b \<Longrightarrow> compare_query h (Types a b u) = Some True \<Longrightarrow> same_layout h a b"
proof (induction n arbitrary: a b m u rule: less_induct)
  case (less n)
  note heap = less.prems(1) and a = less.prems(2) and b = less.prems(3)
  show ?case
  proof (cases "a = b")
    case True
    then show ?thesis using same_layoutI [OF heap a] by simp
  next
    case False
    from a b show ?thesis
    proof (cases rule: strip_cases)
      case both
      then have "ct_ref a = ct_ref b" using less.prems(4) False by (simp add: compare_unfold)
      then have "bt a = bt b" "bt a \<notin> {VT_PTR, VT_STRUCT, VT_FUNC}" using a b both(1,2) unfolding type_ok_def by auto
      then show ?thesis using type_size_scalar [OF a] type_size_scalar [OF b] by (intro same_layoutI [OF heap a]) simp
    next
      case (scalar x y)
      then have c: "compare_stripped h u x y = Some True" using less.prems(4) False by (simp add: compare_unfold)
      then have f: "same_flags x y u" by (auto simp: compare_stripped_def split: if_splits)
      then have bts: "bt a = bt b" using scalar same_flags_keep by simp
      consider "bt a \<noteq> VT_STRUCT" "bt a \<noteq> VT_PTR" | "bt a = VT_STRUCT" | "bt a = VT_PTR" by blast
      then show ?thesis
      proof cases
        case 1
        then show ?thesis using type_size_scalar [OF a] type_size_scalar [OF b] bts by (intro same_layoutI [OF heap a]) simp
      next
        case 2
        then have xy: "x = a" "y = b" using scalar bts by simp_all
        have "ct_ref a = ct_ref b" using c 2 f unfolding xy compare_stripped_def by (auto split: if_splits)
        then show ?thesis using 2 bts by (intro same_layoutI [OF heap a]) (simp add: type_size_struct)
      next
        case 3
        then have xy: "x = a" "y = b" using scalar bts by simp_all
        have arr: "ct_t a AND VT_ARRAY = ct_t b AND VT_ARRAY" using f same_flags_keep xy by blast
        show ?thesis
        proof (cases "ct_t a AND VT_ARRAY = 0")
          case True
          then show ?thesis using 3 bts arr type_size_scalar [OF a] type_size_scalar [OF b] by (intro same_layoutI [OF heap a]) simp
        next
          case array: False
          note ta = type_size_array [OF 3 array]
          have tb: "type_size h b = Option.bind (deref h (ct_ref b)) (\<lambda>s. Option.bind (type_size h (s_type s)) (\<lambda>(ts, a).
              Some (if s_c s < 0 then s_c s else ts * s_c s, a)))"
            using 3 bts arr array by (intro type_size_array) simp_all
          show ?thesis
          proof (cases "ct_ref a = ct_ref b")
            case True
            then show ?thesis unfolding same_layout_def using ta tb type_size_returns [OF heap a] by auto
          next
            case refs: False
            have pa: "bt a \<in> {VT_PTR, VT_FUNC}" and pb: "bt b \<in> {VT_PTR, VT_FUNC}" using 3 bts by simp_all
            obtain s1 where s1: "deref h (ct_ref a) = Some s1" "depth (ct_ref a) < n" "type_ok h N depth (depth (ct_ref a)) (s_type s1)"
              using node [OF heap a pa] by metis
            obtain s2 where s2: "deref h (ct_ref b) = Some s2" "type_ok h N depth (depth (ct_ref b)) (s_type s2)" using node [OF heap b pb] by metis
            have q: "s_c s1 < 0 \<or> s_c s2 < 0 \<or> s_c s1 = s_c s2" "compare_query h (Types (s_type s1) (s_type s2) False) = Some True"
              using c f 3 array refs s1(1) s2(1) unfolding xy compare_stripped_def counts_agree_def pointed_type_def
              by (auto split: if_splits)
            obtain k l al where e: "type_size h (s_type s1) = Some (k, al)" "type_size h (s_type s2) = Some (l, al)" "0 \<le> k \<and> 0 \<le> l \<longrightarrow> k = l"
              using less.IH [OF s1(2) heap s1(3) s2(2) q(2)] unfolding same_layout_def by blast
            have "0 \<le> (if s_c s1 < 0 then s_c s1 else k * s_c s1) \<and> 0 \<le> (if s_c s2 < 0 then s_c s2 else l * s_c s2) \<longrightarrow>
              (if s_c s1 < 0 then s_c s1 else k * s_c s1) = (if s_c s2 < 0 then s_c s2 else l * s_c s2)"
              using q(1) e(3) by (cases "s_c s1 = 0") (auto simp: zero_le_mult_iff)
            then show ?thesis unfolding same_layout_def ta tb using s1(1) s2(1) e(1,2) by simp
          qed
        qed
      qed
    qed
  qed
qed

text \<open>C27: on the types the front end builds (from the inside out, with complete enumerations) \<open>compare_types\<close> always
  returns, gives the same answer for both orders of its arguments, and types it takes for the same have the same
  alignment and, where both are complete, the same size.\<close>

theorem compare_types_sound:
  assumes "types_ok h N depth" and "type_ok h N depth n type1" and "type_ok h N depth m type2"
  shows "\<exists>same. compare_types h type1 type2 unqualified = Some same \<and> compare_types h type2 type1 unqualified = Some same
    \<and> (same \<longrightarrow> (\<exists>n1 n2 align. type_size h type1 = Some (n1, align) \<and> type_size h type2 = Some (n2, align)
        \<and> (0 \<le> n1 \<and> 0 \<le> n2 \<longrightarrow> n1 = n2)))"
proof -
  obtain r where r: "compare_types h type1 type2 unqualified = Some r" "compare_types h type2 type1 unqualified = Some r"
    using compare_returns [OF assms] by blast
  have "r \<Longrightarrow> same_layout h type1 type2"
    using compare_same_layout [OF assms] r(1) unfolding compare_types_def by simp
  then show ?thesis using r unfolding same_layout_def by blast
qed

text \<open>An array of three ints and an array of ints of unknown length.\<close>

definition int_type :: ctype where
  "int_type = \<lparr>ct_t = VT_INT, ct_ref = 0\<rparr>"

definition array_syms :: syms where
  "array_syms = [1 \<mapsto> \<lparr>s_r = 0, s_c = 3, s_type = int_type, s_next = 0, s_func_call = 0, s_func_type = 0\<rparr>,
     2 \<mapsto> \<lparr>s_r = 0, s_c = - 1, s_type = int_type, s_next = 0, s_func_call = 0, s_func_type = 0\<rparr>]"

definition array_of :: "nat \<Rightarrow> ctype" where
  "array_of a = \<lparr>ct_t = VT_PTR OR VT_ARRAY, ct_ref = a\<rparr>"

theorem compare_types_sound_witness:
  "\<exists>same. compare_types array_syms (array_of 1) (array_of 2) False = Some same
    \<and> compare_types array_syms (array_of 2) (array_of 1) False = Some same
    \<and> (same \<longrightarrow> (\<exists>n1 n2 align. type_size array_syms (array_of 1) = Some (n1, align)
        \<and> type_size array_syms (array_of 2) = Some (n2, align) \<and> (0 \<le> n1 \<and> 0 \<le> n2 \<longrightarrow> n1 = n2)))"
proof -
  note flag_defs = VT_PTR_def VT_FUNC_def VT_STRUCT_def VT_INT_def VT_BTYPE_def VT_ARRAY_def IS_ENUM_def VT_STRUCT_MASK_def VT_BITFIELD_def VT_ENUM_def
  have e: "type_ok h N depth n int_type" for h N depth n by (simp add: type_ok_def int_type_def flag_defs)
  have "types_ok array_syms {1, 2} (\<lambda>_. 0)"
    using e by (simp add: types_ok_def array_syms_def deref_def)
  moreover have "type_ok array_syms {1, 2} (\<lambda>_. 0) 1 (array_of a)" if "a \<in> {1, 2}" for a
    using that by (auto simp: type_ok_def array_of_def flag_defs)
  ultimately show ?thesis using compare_types_sound [of array_syms "{1, 2}" "\<lambda>_. 0" 1 "array_of 1" 1 "array_of 2" False] by simp
qed

section \<open>The usual arithmetic conversions\<close>

text \<open>Everything below \<open>long long\<close> is promoted to int.\<close>

definition conversion_level :: "u32 \<Rightarrow> nat" where
  "conversion_level k =
     (if k = VT_LDOUBLE then 4 else if k = VT_DOUBLE then 3 else if k = VT_FLOAT then 2 else if k = VT_LLONG then 1 else 0)"

definition arithmetic_types :: "u32 set" where
  "arithmetic_types = {VT_BYTE, VT_BOOL, VT_SHORT, VT_INT, VT_LLONG, VT_FLOAT, VT_DOUBLE, VT_LDOUBLE}"

text \<open>The integer promotions keep \<open>unsigned\<close>: not for narrow types and bit-fields that fit in int.\<close>

definition stays_unsigned :: "u32 \<Rightarrow> bool" where
  "stays_unsigned t \<longleftrightarrow> t AND VT_UNSIGNED \<noteq> 0
     \<and> (t AND VT_BTYPE = VT_LLONG \<or> t AND VT_BTYPE = VT_INT \<and> (t AND VT_BITFIELD = 0 \<or> BIT_SIZE t = 32))"

lemma unsigned_test:
  assumes "k AND VT_BTYPE = k"
  shows "t AND (VT_BTYPE OR VT_UNSIGNED) = k OR VT_UNSIGNED \<longleftrightarrow> t AND VT_BTYPE = k \<and> t AND VT_UNSIGNED \<noteq> 0"
proof -
  have b: "VT_UNSIGNED = push_bit 4 1" "VT_BTYPE = mask 4" by (simp_all add: VT_UNSIGNED_def VT_BTYPE_def mask_eq_exp_minus_1)
  have u: "t AND VT_UNSIGNED = (if bit t 4 then VT_UNSIGNED else 0)"
  proof (cases "bit t 4")
    case True
    have "t AND push_bit 4 1 = push_bit 4 1"
      by (rule bit_word_eqI, unfold bit_and_iff bit_push_bit_iff bit_1_iff) (use True in \<open>auto dest: le_antisym\<close>)
    then show ?thesis using True unfolding b(1) by simp
  next
    case False
    have "t AND push_bit 4 1 = 0"
      by (rule bit_word_eqI, unfold bit_and_iff bit_push_bit_iff bit_1_iff) (use False in \<open>auto dest: le_antisym\<close>)
    then show ?thesis using False unfolding b(1) by simp
  qed
  have n: "VT_UNSIGNED \<noteq> 0" "VT_UNSIGNED AND VT_BTYPE = 0" "(VT_BTYPE OR VT_UNSIGNED) AND VT_UNSIGNED = VT_UNSIGNED"
    "(VT_BTYPE OR VT_UNSIGNED) AND VT_BTYPE = VT_BTYPE" by (simp_all add: VT_UNSIGNED_def VT_BTYPE_def)
  show ?thesis
  proof
    assume e: "t AND (VT_BTYPE OR VT_UNSIGNED) = k OR VT_UNSIGNED"
    have "t AND VT_BTYPE = (t AND (VT_BTYPE OR VT_UNSIGNED)) AND VT_BTYPE" using n(4) by (simp add: and.assoc)
    also have "\<dots> = (k AND VT_BTYPE) OR (VT_UNSIGNED AND VT_BTYPE)" unfolding e by (simp add: word_ao_dist)
    finally have "t AND VT_BTYPE = k" using assms n(2) by simp
    moreover have "t AND VT_UNSIGNED = (t AND (VT_BTYPE OR VT_UNSIGNED)) AND VT_UNSIGNED" using n(3) by (simp add: and.assoc)
    then have "t AND VT_UNSIGNED = (k AND VT_UNSIGNED) OR VT_UNSIGNED" unfolding e by (simp add: word_ao_dist)
    then have "t AND VT_UNSIGNED = VT_UNSIGNED" by (simp add: or.commute)
    ultimately show "t AND VT_BTYPE = k \<and> t AND VT_UNSIGNED \<noteq> 0" using n(1) by simp
  next
    assume "t AND VT_BTYPE = k \<and> t AND VT_UNSIGNED \<noteq> 0"
    then show "t AND (VT_BTYPE OR VT_UNSIGNED) = k OR VT_UNSIGNED" using u by (simp add: word_ao_dist2 split: if_splits)
  qed
qed

definition arithmetic_result :: "u32 \<Rightarrow> u32 \<Rightarrow> u32 \<Rightarrow> bool" where
  "arithmetic_result t1 t2 t \<longleftrightarrow>
     t AND VT_BTYPE \<in> {VT_INT, VT_LLONG, VT_FLOAT, VT_DOUBLE, VT_LDOUBLE}
    \<and> conversion_level (t AND VT_BTYPE) = max (conversion_level (t1 AND VT_BTYPE)) (conversion_level (t2 AND VT_BTYPE))
    \<and> (t AND VT_UNSIGNED \<noteq> 0 \<longleftrightarrow> (\<exists>s\<in>{t1, t2}. stays_unsigned s \<and> conversion_level (s AND VT_BTYPE) = conversion_level (t AND VT_BTYPE)))"

lemmas btype_codes = VT_BYTE_def VT_BOOL_def VT_SHORT_def VT_INT_def VT_LLONG_def VT_FLOAT_def VT_DOUBLE_def VT_LDOUBLE_def
  VT_QFLOAT_def VT_BTYPE_def

lemma is_float_level:
  "s AND VT_BTYPE \<in> arithmetic_types \<Longrightarrow> is_float (s AND VT_BTYPE) \<longleftrightarrow> 2 \<le> conversion_level (s AND VT_BTYPE)"
  unfolding is_float_def conversion_level_def arithmetic_types_def by (auto simp: btype_codes and.assoc)

lemma unsigned_level: "stays_unsigned s \<Longrightarrow> conversion_level (s AND VT_BTYPE) \<le> 1"
  unfolding stays_unsigned_def conversion_level_def by (auto simp: btype_codes)

lemma float_result:
  assumes "t1 AND VT_BTYPE \<in> arithmetic_types" and "t2 AND VT_BTYPE \<in> arithmetic_types"
    and "is_float (t1 AND VT_BTYPE) \<or> is_float (t2 AND VT_BTYPE)"
  shows "combine_arithmetic t2 t1 = combine_arithmetic t1 t2 \<and> arithmetic_result t1 t2 (combine_arithmetic t1 t2)"
proof -
  let ?l1 = "conversion_level (t1 AND VT_BTYPE)" and ?l2 = "conversion_level (t2 AND VT_BTYPE)"
  have two: "2 \<le> max ?l1 ?l2" using assms is_float_level by (metis max.coboundedI1 max.coboundedI2)
  have lev: "conversion_level k \<le> 4" "k = VT_LDOUBLE \<longleftrightarrow> conversion_level k = 4" "k = VT_DOUBLE \<longleftrightarrow> conversion_level k = 3" for k
    by (simp_all add: conversion_level_def btype_codes)
  define l1 l2 where l: "l1 = ?l1" "l2 = ?l2"
  have le: "l1 \<le> 4" "l2 \<le> 4" unfolding l by (rule lev(1))+
  have four: "max l1 l2 = 4 \<longleftrightarrow> l1 = 4 \<or> l2 = 4" using le by (auto simp: max_def)
  have three: "max l1 l2 = 3 \<longleftrightarrow> l1 = 3 \<or> l2 = 3" if "\<not> (l1 = 4 \<or> l2 = 4)" using le that by (auto simp: max_def)
  have f: "combine_arithmetic t1 t2 = (if l1 = 4 \<or> l2 = 4 then VT_LDOUBLE else if l1 = 3 \<or> l2 = 3 then VT_DOUBLE else VT_FLOAT)"
    unfolding combine_arithmetic_def Let_def if_P [OF assms(3)] lev(2,3) l ..
  have f': "is_float (t2 AND VT_BTYPE) \<or> is_float (t1 AND VT_BTYPE)" using assms(3) by blast
  have "combine_arithmetic t2 t1 = (if l2 = 4 \<or> l1 = 4 then VT_LDOUBLE else if l2 = 3 \<or> l1 = 3 then VT_DOUBLE else VT_FLOAT)"
    unfolding combine_arithmetic_def Let_def if_P [OF f'] lev(2,3) l ..
  then have sw: "combine_arithmetic t2 t1 = combine_arithmetic t1 t2" unfolding f by (simp add: disj_commute)
  have c: "combine_arithmetic t1 t2 = (if max l1 l2 = 4 then VT_LDOUBLE else if max l1 l2 = 3 then VT_DOUBLE else VT_FLOAT)"
    unfolding f four by (cases "l1 = 4 \<or> l2 = 4") (simp_all add: three)
  have "max l1 l2 = 2 \<or> max l1 l2 = 3 \<or> max l1 l2 = 4" using two le unfolding l by linarith
  then have r: "combine_arithmetic t1 t2 \<in> {VT_FLOAT, VT_DOUBLE, VT_LDOUBLE}" "conversion_level (combine_arithmetic t1 t2) = max l1 l2"
    unfolding c by (auto simp: conversion_level_def btype_codes)
  have k: "k AND VT_BTYPE = k" "k AND VT_UNSIGNED = 0" if "k \<in> {VT_FLOAT, VT_DOUBLE, VT_LDOUBLE}" for k
    using that by (auto simp: btype_codes VT_UNSIGNED_def)
  have "\<not> (stays_unsigned s \<and> conversion_level (s AND VT_BTYPE) = max l1 l2)" for s
    using unsigned_level [of s] two unfolding l by auto
  then show ?thesis using sw k [OF r(1)] r unfolding arithmetic_result_def l by auto
qed

lemma integer_result:
  assumes "k \<in> {VT_INT, VT_LLONG}" and "b AND VT_BTYPE = k" and "b AND VT_UNSIGNED = 0"
    and "conversion_level k = max (conversion_level (t1 AND VT_BTYPE)) (conversion_level (t2 AND VT_BTYPE))"
    and "u \<longleftrightarrow> (\<exists>s\<in>{t1, t2}. stays_unsigned s \<and> conversion_level (s AND VT_BTYPE) = conversion_level k)"
  shows "arithmetic_result t1 t2 (if u then b OR VT_UNSIGNED else b)"
proof -
  have "(if u then b OR VT_UNSIGNED else b) AND VT_BTYPE = k"
    using assms(2) by (simp add: word_ao_dist) (simp add: VT_UNSIGNED_def VT_BTYPE_def)
  moreover have "(if u then b OR VT_UNSIGNED else b) AND VT_UNSIGNED \<noteq> 0 \<longleftrightarrow> u"
    using assms(3) by (simp add: word_ao_dist) (simp add: VT_UNSIGNED_def)
  ultimately show ?thesis using assms(1,4,5) unfolding arithmetic_result_def by auto
qed

lemma and_both: "(x AND y) AND b = (x AND b) AND (y AND b :: u32)"
  by (simp add: and.assoc and.left_commute)

lemma llong_result:
  assumes "\<not> is_float (t1 AND VT_BTYPE)" and "\<not> is_float (t2 AND VT_BTYPE)" and "t1 AND VT_BTYPE = VT_LLONG \<or> t2 AND VT_BTYPE = VT_LLONG"
    and "t1 AND VT_BTYPE \<in> arithmetic_types" and "t2 AND VT_BTYPE \<in> arithmetic_types"
  shows "combine_arithmetic t2 t1 = combine_arithmetic t1 t2 \<and> arithmetic_result t1 t2 (combine_arithmetic t1 t2)"
proof -
  let ?m1 = "t1 AND VT_BTYPE" and ?m2 = "t2 AND VT_BTYPE"
  define base where "base = (let t = VT_LLONG OR VT_LONG; t = (if ?m1 = VT_LLONG then t AND t1 else t) in if ?m2 = VT_LLONG then t AND t2 else t)"
  define u where "u \<longleftrightarrow> ?m1 = VT_LLONG \<and> t1 AND VT_UNSIGNED \<noteq> 0 \<or> ?m2 = VT_LLONG \<and> t2 AND VT_UNSIGNED \<noteq> 0"
  have ll: "VT_LLONG AND VT_BTYPE = VT_LLONG" by (simp add: btype_codes)
  note ut = unsigned_test [OF ll]
  have c: "combine_arithmetic t1 t2 = (if u then base OR VT_UNSIGNED else base)"
    using assms(1-3) unfolding combine_arithmetic_def Let_def ut base_def u_def by simp
  have us: "?m2 = VT_LLONG \<and> t2 AND VT_UNSIGNED \<noteq> 0 \<or> ?m1 = VT_LLONG \<and> t1 AND VT_UNSIGNED \<noteq> 0 \<longleftrightarrow> u"
    unfolding u_def by blast
  have sw: "(x AND t2) AND t1 = (x AND t1) AND t2" for x by (simp only: and.assoc and.commute [of t1 t2])
  define base2 where "base2 = (let t = VT_LLONG OR VT_LONG; t = (if ?m2 = VT_LLONG then t AND t2 else t) in if ?m1 = VT_LLONG then t AND t1 else t)"
  have "base2 = base" unfolding base2_def base_def Let_def
    by (cases "?m1 = VT_LLONG"; cases "?m2 = VT_LLONG") (simp_all only: simp_thms if_True if_False sw)
  moreover have "combine_arithmetic t2 t1 = (if u then base2 OR VT_UNSIGNED else base2)"
  proof -
    have nf: "\<not> (is_float ?m2 \<or> is_float ?m1)" and d: "?m2 = VT_LLONG \<or> ?m1 = VT_LLONG" using assms(1-3) by blast+
    show ?thesis unfolding combine_arithmetic_def Let_def if_not_P [OF nf] if_P [OF d] ut us base2_def ..
  qed
  ultimately have "combine_arithmetic t2 t1 = (if u then base OR VT_UNSIGNED else base)" by simp
  moreover have "base AND VT_BTYPE = VT_LLONG"
  proof -
    have "(VT_LLONG OR VT_LONG) AND VT_BTYPE = VT_LLONG" by (simp add: btype_codes VT_LONG_def)
    then show ?thesis unfolding base_def Let_def by (simp add: and_both [where b = VT_BTYPE] ll)
  qed
  moreover have "base AND VT_UNSIGNED = 0"
  proof -
    have "(VT_LLONG OR VT_LONG) AND VT_UNSIGNED = 0" by (simp add: btype_codes VT_LONG_def VT_UNSIGNED_def)
    then show ?thesis unfolding base_def Let_def by (simp add: and_both [where b = VT_UNSIGNED])
  qed
  moreover have l1: "conversion_level k = 1 \<longleftrightarrow> k = VT_LLONG" for k by (simp add: conversion_level_def btype_codes)
  moreover have "conversion_level VT_LLONG = max (conversion_level ?m1) (conversion_level ?m2)"
  proof -
    have "conversion_level ?m1 < 2" "conversion_level ?m2 < 2" using assms(1,2,4,5) is_float_level by force+
    moreover have "conversion_level VT_LLONG = 1" using l1 by blast
    ultimately show ?thesis using assms(3) by (auto simp: max_def)
  qed
  moreover have "u \<longleftrightarrow> (\<exists>s\<in>{t1, t2}. stays_unsigned s \<and> conversion_level (s AND VT_BTYPE) = conversion_level VT_LLONG)"
  proof -
    have "conversion_level (s AND VT_BTYPE) = conversion_level VT_LLONG \<longleftrightarrow> s AND VT_BTYPE = VT_LLONG" for s using l1 by metis
    then show ?thesis unfolding u_def stays_unsigned_def by blast
  qed
  ultimately show ?thesis unfolding c using integer_result [of VT_LLONG base t1 t2 u] by blast
qed

lemma int_result:
  assumes "\<not> is_float (t1 AND VT_BTYPE)" and "\<not> is_float (t2 AND VT_BTYPE)" and "t1 AND VT_BTYPE \<noteq> VT_LLONG" "t2 AND VT_BTYPE \<noteq> VT_LLONG"
    and "t1 AND VT_BTYPE \<in> arithmetic_types" and "t2 AND VT_BTYPE \<in> arithmetic_types"
  shows "combine_arithmetic t2 t1 = combine_arithmetic t1 t2 \<and> arithmetic_result t1 t2 (combine_arithmetic t1 t2)"
proof -
  let ?m1 = "t1 AND VT_BTYPE" and ?m2 = "t2 AND VT_BTYPE"
  define base where "base = VT_INT OR (VT_LONG AND (t1 OR t2))"
  define u where "u \<longleftrightarrow> stays_unsigned t1 \<or> stays_unsigned t2"
  have ii: "VT_INT AND VT_BTYPE = VT_INT" by (simp add: btype_codes)
  note ut = unsigned_test [OF ii]
  have su: "(t AND VT_BTYPE = VT_INT \<and> t AND VT_UNSIGNED \<noteq> 0) \<and> (t AND VT_BITFIELD = 0 \<or> BIT_SIZE t = 32) \<longleftrightarrow> stays_unsigned t"
    if "t AND VT_BTYPE \<noteq> VT_LLONG" for t
    using that unfolding stays_unsigned_def by blast
  have c: "combine_arithmetic t1 t2 = (if u then base OR VT_UNSIGNED else base)"
    using assms(1-4) unfolding combine_arithmetic_def Let_def ut su [OF assms(3)] su [OF assms(4)] base_def u_def by simp
  have us: "stays_unsigned t2 \<or> stays_unsigned t1 \<longleftrightarrow> u" unfolding u_def by blast
  have "combine_arithmetic t2 t1 = (if u then base OR VT_UNSIGNED else base)"
    using assms(1-4) unfolding combine_arithmetic_def Let_def ut su [OF assms(3)] su [OF assms(4)] us base_def or.commute [of t2 t1] by simp
  moreover have "base AND VT_BTYPE = VT_INT"
  proof -
    have "VT_LONG AND VT_BTYPE = 0" by (simp add: btype_codes VT_LONG_def)
    then show ?thesis unfolding base_def by (simp add: word_ao_dist and_both [of VT_LONG] ii)
  qed
  moreover have "base AND VT_UNSIGNED = 0"
  proof -
    have "VT_LONG AND VT_UNSIGNED = 0" "VT_INT AND VT_UNSIGNED = 0" by (simp_all add: btype_codes VT_LONG_def VT_UNSIGNED_def)
    then show ?thesis unfolding base_def by (simp add: word_ao_dist and_both [of VT_LONG])
  qed
  moreover have "conversion_level ?m1 = 0" "conversion_level ?m2 = 0" "conversion_level VT_INT = 0"
  proof -
    have "conversion_level k = 1 \<longleftrightarrow> k = VT_LLONG" for k by (simp add: conversion_level_def btype_codes)
    moreover have "conversion_level ?m1 < 2" "conversion_level ?m2 < 2" using assms(1,2,5,6) is_float_level by force+
    ultimately show "conversion_level ?m1 = 0" "conversion_level ?m2 = 0" using assms(3,4) less_2_cases by auto
    show "conversion_level VT_INT = 0" by (simp add: conversion_level_def btype_codes)
  qed
  ultimately show ?thesis unfolding c using integer_result [of VT_INT base t1 t2 u] by (auto simp: u_def)
qed



end
