(* ===== verification/X86Emit.thy ===== *)
theory X86Emit imports CTypes ElfSection X86Reloc
begin

text \<open>
  Emission of x86-64 code: \<open>g\<close> to \<open>store\<close> and the jumps of
  \<^verbatim>\<open>src/src/compiler/backend/x64/x86_64-gen.c\<close>, as built for Windows (\<open>CPRIME_TARGET_PE\<close>).  An emission
  appends bytes to the text section at \<open>ind\<close> and records relocations.  The text of an assembly listing and the
  notes for the fast pass are not modelled; the register allocator is a parameter.
\<close>

section \<open>The code generator's state\<close>

definition TREG_RAX :: u32 where "TREG_RAX = 0"
definition TREG_RCX :: u32 where "TREG_RCX = 1"
definition TREG_RDX :: u32 where "TREG_RDX = 2"
definition TREG_RSP :: u32 where "TREG_RSP = 4"
definition TREG_R8 :: u32 where "TREG_R8 = 8"
definition TREG_R11 :: u32 where "TREG_R11 = 11"
definition TREG_XMM0 :: u32 where "TREG_XMM0 = 16"
definition TREG_XMM7 :: u32 where "TREG_XMM7 = 23"
definition TREG_ST0 :: u32 where "TREG_ST0 = 24"
definition TREG_MEM :: u32 where "TREG_MEM = 0x20"
definition VT_LLOCAL :: u32 where "VT_LLOCAL = 0x0031"
definition VT_CMP :: u32 where "VT_CMP = 0x0033"
definition VT_JMP :: u32 where "VT_JMP = 0x0034"
definition VT_JMPI :: u32 where "VT_JMPI = 0x0035"
definition CODE_OFF_BIT :: u32 where "CODE_OFF_BIT = 0x20000000"

definition REX_BASE :: "u32 \<Rightarrow> u32" where "REX_BASE reg = drop_bit 3 reg AND 1"
definition REG_VALUE :: "u32 \<Rightarrow> u32" where "REG_VALUE reg = reg AND 7"

text \<open>The registers whose class is \<open>RC_INT\<close> or \<open>RC_R11\<close>.\<close>

definition address_register :: "u32 \<Rightarrow> bool" where
  "address_register r \<longleftrightarrow> r \<in> {TREG_RAX, TREG_RCX, TREG_RDX, TREG_R11}"

text \<open>Why an emission does not finish: a loop without end, the messages of \<open>cprime_error\<close>, a failed
  assertion, a null pointer, or an access outside the text section.\<close>

datatype emit_stop = Loops | Addend_64_bit | Invalid_aggregate | No_GOT | Assertion_failed | Null_pointer | Outside

record emitter =
  text_section :: elf_section
  ind :: u32
  nocode_wanted :: u32
  relocations :: "elf_rela list"
  elf_index :: "nat \<Rightarrow> u32"
  symbols :: syms
  vtop_cmp_r :: u32

type_synonym emission = "emitter \<Rightarrow> emit_stop + emitter"

text \<open>The value stack's \<open>SValue\<close> with the whole of its type.\<close>

record operand = svalue +
  sv_ref :: nat

definition sv_type :: "operand \<Rightarrow> ctype" where
  "sv_type sv = \<lparr>ct_t = sv_t sv, ct_ref = sv_ref sv\<rparr>"

primrec emit_all :: "emission list \<Rightarrow> emission" where
  "emit_all [] st = Inr st"
| "emit_all (f # fs) st = (case f st of Inl e \<Rightarrow> Inl e | Inr st' \<Rightarrow> emit_all fs st')"

definition emit_nothing :: emission where "emit_nothing st = Inr st"

definition stop :: "emit_stop \<Rightarrow> emission" where "stop e st = Inl e"

section \<open>Bytes\<close>

definition g :: "u32 \<Rightarrow> emission" where
  "g c st =
     (if nocode_wanted st \<noteq> 0 then Inr st
      else let ind1 = ind st + 1
           in case (if ind1 > data_allocated (text_section st) then section_realloc (text_section st) ind1
                    else Some (text_section st)) of
                None \<Rightarrow> Inl Loops
              | Some sec \<Rightarrow>
                  Inr (st\<lparr>text_section := sec\<lparr>sec_data := (sec_data sec)[unat (ind st) := ucast c]\<rparr>, ind := ind1\<rparr>))"

function o_bytes :: "u32 \<Rightarrow> emission" where
  "o_bytes c st =
     (if c = 0 then Inr st
      else case g c st of Inl e \<Rightarrow> Inl e | Inr st' \<Rightarrow> o_bytes (drop_bit 8 c) st')"
  by pat_completeness auto
termination
proof (relation "measure (\<lambda>(c, st). unat c)")
  fix c :: u32 and st st' :: emitter
  assume "c \<noteq> 0"
  then have "0 < unat c" by (simp add: unat_gt_0)
  moreover have "unat (drop_bit 8 c) = unat c div 256"
    using unsigned_less [of c, where ?'a = nat] unfolding unsigned_drop_bit_eq
    by (simp add: drop_bit_eq_div take_bit_nat_eq_self)
  ultimately show "((drop_bit 8 c, st'), (c, st)) \<in> measure (\<lambda>(c, st). unat c)"
    unfolding in_measure prod.case by simp
qed simp

declare o_bytes.simps [simp del]

definition gen_le16 :: "u32 \<Rightarrow> emission" where
  "gen_le16 v = emit_all [g v, g (signed_drop_bit 8 v)]"

definition gen_le32 :: "u32 \<Rightarrow> emission" where
  "gen_le32 c = emit_all [g c, g (signed_drop_bit 8 c), g (signed_drop_bit 16 c), g (signed_drop_bit 24 c)]"

definition gen_le64 :: "u64 \<Rightarrow> emission" where
  "gen_le64 c = emit_all
     [g (ucast c), g (ucast (signed_drop_bit 8 c)), g (ucast (signed_drop_bit 16 c)), g (ucast (signed_drop_bit 24 c)),
      g (ucast (signed_drop_bit 32 c)), g (ucast (signed_drop_bit 40 c)), g (ucast (signed_drop_bit 48 c)),
      g (ucast (signed_drop_bit 56 c))]"

definition rex_register :: "u32 \<Rightarrow> u32" where
  "rex_register r = (if r AND VT_VALMASK \<ge> VT_CONST then 0 else r)"

definition orex :: "bool \<Rightarrow> u32 \<Rightarrow> u32 \<Rightarrow> u32 \<Rightarrow> emission" where
  "orex ll r r2 b = emit_all
     [if ll \<or> REX_BASE (rex_register r) \<noteq> 0 \<or> REX_BASE (rex_register r2) \<noteq> 0
      then o_bytes (0x40 OR REX_BASE (rex_register r) OR push_bit 2 (REX_BASE (rex_register r2)) OR push_bit 3 (of_bool ll))
      else emit_nothing,
      o_bytes b]"

definition is64_type :: "u32 \<Rightarrow> bool" where
  "is64_type t \<longleftrightarrow> t AND VT_BTYPE = VT_NULLPTR \<or> t AND VT_BTYPE = VT_PTR \<or> t AND VT_BTYPE = VT_FUNC
     \<or> t AND VT_BTYPE = VT_LLONG"

text \<open>\<open>oad\<close> answers the address of the 32-bit field it emits; \<open>emit_oad\<close> is a call that ignores the answer.\<close>

definition oad :: "u32 \<Rightarrow> u32 \<Rightarrow> emitter \<Rightarrow> emit_stop + u32 \<times> emitter" where
  "oad c s st =
     (if nocode_wanted st \<noteq> 0 then Inr (s, st)
      else case o_bytes c st of
             Inl e \<Rightarrow> Inl e
           | Inr st1 \<Rightarrow> (case gen_le32 s st1 of Inl e \<Rightarrow> Inl e | Inr st2 \<Rightarrow> Inr (ind st1, st2)))"

definition emit_oad :: "u32 \<Rightarrow> u32 \<Rightarrow> emission" where
  "emit_oad c s st = (case oad c s st of Inl e \<Rightarrow> Inl e | Inr (_, st') \<Rightarrow> Inr st')"

section \<open>Relocated fields\<close>

definition greloca :: "nat \<Rightarrow> u32 \<Rightarrow> u64 \<Rightarrow> emission" where
  "greloca s ty addend st =
     (if nocode_wanted st \<noteq> 0 then Inr st
      else Inr (st\<lparr>relocations := relocations st @
             [\<lparr>r_offset = ucast (ind st),
               r_info = R_INFO (ucast (if s = 0 then 0 else elf_index st s)) (ucast ty),
               r_addend = addend\<rparr>]\<rparr>))"

definition gen_addr32 :: "u32 \<Rightarrow> nat \<Rightarrow> u32 \<Rightarrow> emission" where
  "gen_addr32 r s c =
     (if r AND VT_SYM \<noteq> 0 then emit_all [greloca s R_X86_64_32S (scast c), gen_le32 0] else gen_le32 c)"

definition gen_addr64 :: "u32 \<Rightarrow> nat \<Rightarrow> u64 \<Rightarrow> emission" where
  "gen_addr64 r s c =
     (if r AND VT_SYM \<noteq> 0 then emit_all [greloca s R_X86_64_64 c, gen_le64 0] else gen_le64 c)"

definition gen_addrpc32 :: "u32 \<Rightarrow> nat \<Rightarrow> u32 \<Rightarrow> emission" where
  "gen_addrpc32 r s c =
     (if r AND VT_SYM \<noteq> 0 then emit_all [greloca s R_X86_64_PC32 (scast (c - 4)), gen_le32 (4 - 4)] else gen_le32 (c - 4))"

text \<open>On Windows there is no table of addresses: an internal error.\<close>

definition gen_gotpcrel :: emission where "gen_gotpcrel = stop No_GOT"

section \<open>Operands\<close>

definition fits_byte :: "u32 \<Rightarrow> bool" where
  "fits_byte c \<longleftrightarrow> c = scast (ucast c :: u8)"

definition gen_modrm_impl :: "u32 \<Rightarrow> u32 \<Rightarrow> nat \<Rightarrow> u32 \<Rightarrow> bool \<Rightarrow> emission" where
  "gen_modrm_impl op_reg r s c is_got =
     (let op_reg = push_bit 3 (REG_VALUE op_reg)
      in if r AND VT_VALMASK = VT_CONST then
           if r AND VT_SYM = 0 then emit_all [o_bytes (0x04 OR op_reg), emit_oad 0x25 c]
           else emit_all [o_bytes (0x05 OR op_reg), if is_got then gen_gotpcrel else gen_addrpc32 r s c]
         else if r AND VT_VALMASK = VT_LOCAL then
           if fits_byte c then emit_all [o_bytes (0x45 OR op_reg), g c] else emit_oad (0x85 OR op_reg) c
         else if r AND VT_VALMASK \<ge> TREG_MEM then
           if c \<noteq> 0 then emit_all [g (0x80 OR op_reg OR REG_VALUE r), gen_le32 c]
           else g (0x00 OR op_reg OR REG_VALUE r)
         else g (0x00 OR op_reg OR REG_VALUE r))"

definition gen_modrm :: "u32 \<Rightarrow> u32 \<Rightarrow> nat \<Rightarrow> u32 \<Rightarrow> emission" where
  "gen_modrm op_reg r s c = gen_modrm_impl op_reg r s c False"

definition gen_modrm64 :: "u32 \<Rightarrow> u32 \<Rightarrow> u32 \<Rightarrow> nat \<Rightarrow> u32 \<Rightarrow> emission" where
  "gen_modrm64 opcode op_reg r s c st =
     (if op_reg AND TREG_MEM \<noteq> 0 then
        (case deref (symbols st) s of
           None \<Rightarrow> Inl Null_pointer
         | Some y \<Rightarrow> emit_all [orex True r op_reg opcode,
                             gen_modrm_impl op_reg r s c (ct_t (s_type y) AND VT_STATIC = 0)] st)
      else emit_all [orex True r op_reg opcode, gen_modrm_impl op_reg r s c False] st)"

end
