(* ===== verification/X86Jump.thy ===== *)
theory X86Jump imports X86Emit
begin

text \<open>
  Jumps whose target is not known yet are linked through their own 32-bit fields: \<open>gsym_addr\<close>, \<open>gjmp\<close>,
  \<open>gjmp_addr\<close>, \<open>gjmp_append\<close> and \<open>gjmp_cond\<close> of \<^verbatim>\<open>src/src/compiler/backend/x64/x86_64-gen.c\<close> and \<open>gsym\<close> of
  \<^verbatim>\<open>src/src/compiler/frontend/cprimegen.c\<close>.  A field holds the address of the next one, 0 ends the
  chain.  The walks need not end on other bytes: the outer \<open>None\<close>; an access outside the section is
  the inner one.
\<close>

definition in_section :: "u8 list \<Rightarrow> u32 \<Rightarrow> bool" where
  "in_section bs t \<longleftrightarrow> unat t + 4 \<le> length bs"

definition jump_field :: "u32 \<Rightarrow> u32 \<Rightarrow> u32" where
  "jump_field t a = (if a <s 0 then - a else a - t - 4)"

partial_function (option) patch_chain :: "u8 list \<Rightarrow> u32 \<Rightarrow> u32 \<Rightarrow> u8 list option option" where
  "patch_chain bs t a =
     (if t = 0 then Some (Some bs)
      else if \<not> in_section bs t then Some None
      else patch_chain (write32le bs (unat t) (jump_field t a)) (read32le bs (unat t)) a)"

partial_function (option) chain_end :: "u8 list \<Rightarrow> u32 \<Rightarrow> u32 option option" where
  "chain_end bs n1 =
     (if \<not> in_section bs n1 then Some None
      else if read32le bs (unat n1) = 0 then Some (Some n1)
      else chain_end bs (read32le bs (unat n1)))"

definition with_data :: "u8 list \<Rightarrow> emission" where
  "with_data bs st = Inr (st\<lparr>text_section := (text_section st)\<lparr>sec_data := bs\<rparr>\<rparr>)"

definition gsym_addr :: "u32 \<Rightarrow> u32 \<Rightarrow> emission" where
  "gsym_addr t a st =
     (case patch_chain (sec_data (text_section st)) t a of
        None \<Rightarrow> Inl Loops
      | Some None \<Rightarrow> Inl Outside
      | Some (Some bs) \<Rightarrow> with_data bs st)"

definition code_on :: emission where
  "code_on st = Inr (st\<lparr>nocode_wanted := nocode_wanted st AND NOT CODE_OFF_BIT\<rparr>)"

definition gsym :: "u32 \<Rightarrow> emission" where
  "gsym t st = (if t \<noteq> 0 then emit_all [gsym_addr t (ind st), code_on] st else Inr st)"

definition gjmp :: "u32 \<Rightarrow> emitter \<Rightarrow> emit_stop + u32 \<times> emitter" where
  "gjmp t = oad 0xe9 t"

definition gjmp_addr :: "u32 \<Rightarrow> emission" where
  "gjmp_addr a st =
     (let r = a - ind st - 2
      in if fits_byte r then emit_all [g 0xeb, g r] st else emit_oad 0xe9 (a - ind st - 5) st)"

definition gjmp_append :: "u32 \<Rightarrow> u32 \<Rightarrow> emitter \<Rightarrow> emit_stop + u32 \<times> emitter" where
  "gjmp_append n t st =
     (if n = 0 then Inr (t, st)
      else case chain_end (sec_data (text_section st)) n of
             None \<Rightarrow> Inl Loops
           | Some None \<Rightarrow> Inl Outside
           | Some (Some p) \<Rightarrow>
               (case with_data (write32le (sec_data (text_section st)) (unat p) t) st of
                  Inl e \<Rightarrow> Inl e
                | Inr st' \<Rightarrow> Inr (n, st')))"

text \<open>\<open>g(0x0f); t = gjmp2(opcode, t)\<close>\<close>

definition jump_long :: "u32 \<Rightarrow> u32 \<Rightarrow> emitter \<Rightarrow> emit_stop + u32 \<times> emitter" where
  "jump_long opcode t st = (case g 0x0f st of Inl e \<Rightarrow> Inl e | Inr st' \<Rightarrow> oad opcode t st')"

text \<open>A comparison of floats (bit \<open>0x100\<close>) first decides on the parity flag, which is set for unordered operands.\<close>

definition gjmp_cond :: "u32 \<Rightarrow> u32 \<Rightarrow> emitter \<Rightarrow> emit_stop + u32 \<times> emitter" where
  "gjmp_cond op t st =
     (if op AND 0x100 \<noteq> 0 then
        let v = vtop_cmp_r st; op = op AND NOT 0x100
        in case (if op XOR v XOR of_bool (v \<noteq> TOK_NE) \<noteq> 0
                 then (case o_bytes 0x067a st of Inl e \<Rightarrow> Inl e | Inr st' \<Rightarrow> Inr (t, st'))
                 else jump_long 0x8a t st) of
             Inl e \<Rightarrow> Inl e
           | Inr (t, st') \<Rightarrow> jump_long (op - 16) t st'
      else jump_long (op - 16) t st)"

end
