(* ===== verification/X86Load.thy ===== *)
theory X86Load imports X86Jump
begin

text \<open>
  Moving values between registers, memory and constants: \<open>load\<close>, \<open>store_immediate\<close>, \<open>store\<close> and their
  small companions of \<^verbatim>\<open>src/src/compiler/backend/x64/x86_64-gen.c\<close>.  \<open>get_reg\<close> is the register allocator's
  answer to \<open>get_reg(RC_INT)\<close>, which may emit code.
\<close>

section \<open>Loading\<close>

text \<open>The type a structure is loaded as.\<close>

definition aggregate_type :: "int \<Rightarrow> u32 option" where
  "aggregate_type n =
     (if n = 1 then Some VT_BYTE else if n = 2 then Some VT_SHORT else if n = 4 then Some VT_INT
      else if n = 8 then Some VT_LLONG else None)"

definition CHARACTER_STORAGE_TYPE :: "u32 \<Rightarrow> u32" where
  "CHARACTER_STORAGE_TYPE t = (if t AND VT_WCHAR_T \<noteq> 0 then t AND NOT (VT_WCHAR_T OR VT_DEFSIGN) else t)"

definition scalar_type :: "operand \<Rightarrow> u32 \<Rightarrow> emitter \<Rightarrow> emit_stop + u32" where
  "scalar_type sv ft st =
     (if ft AND VT_BTYPE = VT_STRUCT then
        (case type_size (symbols st) (sv_type sv) of
           None \<Rightarrow> Inl Null_pointer
         | Some (n, align) \<Rightarrow>
             (case aggregate_type n of None \<Rightarrow> Inl Invalid_aggregate | Some ty \<Rightarrow> Inr (CHARACTER_STORAGE_TYPE ty)))
      else Inr (CHARACTER_STORAGE_TYPE ft))"

text \<open>Opcode and register of a load from memory; the flag says that it has 64 bits.\<close>

datatype load_form = Load_form u32 u32 bool | Load_nothing

definition load_form :: "u32 \<Rightarrow> u32 \<Rightarrow> load_form option" where
  "load_form ft r =
     (if ft AND VT_BTYPE = VT_FLOAT then Some (Load_form 0x6e0f66 (REG_VALUE r) False)
      else if ft AND VT_BTYPE = VT_DOUBLE then Some (Load_form 0x7e0ff3 (REG_VALUE r) False)
      else if ft AND VT_BTYPE = VT_LDOUBLE then Some (Load_form 0xdb 5 False)
      else if ft AND VT_TYPE = VT_BYTE \<or> ft AND VT_TYPE = VT_BOOL then Some (Load_form 0xbe0f r False)
      else if ft AND VT_TYPE = VT_BYTE OR VT_UNSIGNED \<or> ft AND VT_TYPE = VT_BOOL OR VT_UNSIGNED
        then Some (Load_form 0xb60f r False)
      else if ft AND VT_TYPE = VT_SHORT then Some (Load_form 0xbf0f r False)
      else if ft AND VT_TYPE = VT_SHORT OR VT_UNSIGNED then Some (Load_form 0xb70f r False)
      else if ft AND VT_TYPE = VT_VOID then Some Load_nothing
      else if ft AND VT_BTYPE \<in> {VT_INT, VT_LLONG, VT_NULLPTR, VT_PTR, VT_FUNC}
        then Some (Load_form 0x8b r (is64_type ft))
      else None)"

definition load_memory :: "operand \<Rightarrow> u32 \<Rightarrow> u32 \<Rightarrow> u32 \<Rightarrow> u32 \<Rightarrow> emission" where
  "load_memory sv ft r fr fc st =
     (case scalar_type sv ft st of
        Inl e \<Rightarrow> Inl e
      | Inr ft1 \<Rightarrow>
          (case load_form ft1 r of
             None \<Rightarrow> Inl Assertion_failed
           | Some Load_nothing \<Rightarrow> Inr st
           | Some (Load_form b r1 ll) \<Rightarrow>
               if ll then gen_modrm64 b r1 fr (sv_sym sv) fc st
               else emit_all [orex ll fr r1 b, gen_modrm r1 fr (sv_sym sv) fc] st))"

definition load_constant :: "operand \<Rightarrow> u32 \<Rightarrow> u32 \<Rightarrow> u32 \<Rightarrow> u32 \<Rightarrow> emission" where
  "load_constant sv ft r fr fc =
     (if fr AND VT_SYM \<noteq> 0 then
        emit_all [orex True 0 r 0x8d, o_bytes (0x05 + REG_VALUE r * 8), gen_addrpc32 fr (sv_sym sv) fc]
      else if is64_type ft then
        (if drop_bit 32 (sv_c sv) \<noteq> 0 then emit_all [orex True r 0 (0xb8 + REG_VALUE r), gen_le64 (sv_c sv)]
         else if sv_c sv > 0 then emit_all [orex False r 0 (0xb8 + REG_VALUE r), gen_le32 (ucast (sv_c sv))]
         else emit_all [orex False r r 0x31, o_bytes (0xc0 + REG_VALUE r * 9)])
      else emit_all [orex False r 0 (0xb8 + REG_VALUE r), gen_le32 fc])"

text \<open>A comparison of floats (bit \<open>0x100\<close>) is false for unordered operands, and true if it is \<open>!=\<close>.\<close>

definition load_flags :: "u32 \<Rightarrow> u32 \<Rightarrow> emission" where
  "load_flags r fc st =
     (let v = vtop_cmp_r st;
          fc1 = (if fc AND 0x100 \<noteq> 0 then fc AND NOT 0x100 else fc)
      in emit_all
           ((if fc AND 0x100 \<noteq> 0
             then [orex False r 0 (0xb0 + REG_VALUE r), g (v XOR fc1 XOR of_bool (v = TOK_NE)),
                   o_bytes (0x037a + push_bit 8 (REX_BASE r))]
             else []) @
            [orex False r 0 0x0f, o_bytes fc1, o_bytes (0xc0 + REG_VALUE r), orex False r 0 0x0f,
             o_bytes (0xc0b6 + REG_VALUE r * 0x900)]) st)"

definition load_jump :: "u32 \<Rightarrow> u32 \<Rightarrow> u32 \<Rightarrow> emission" where
  "load_jump v r fc =
     (let t = v AND 1
      in emit_all [orex False r 0 0, emit_oad (0xb8 + REG_VALUE r) t, o_bytes (0x05eb + push_bit 8 (REX_BASE r)),
                   gsym fc, orex False r 0 0, emit_oad (0xb8 + REG_VALUE r) (t XOR 1)])"

definition is_xmm :: "u32 \<Rightarrow> bool" where "is_xmm r \<longleftrightarrow> r \<ge> TREG_XMM0 \<and> r \<le> TREG_XMM7"

definition assertion :: "bool \<Rightarrow> emission" where
  "assertion b st = (if b then Inr st else Inl Assertion_failed)"

definition load_register :: "u32 \<Rightarrow> u32 \<Rightarrow> u32 \<Rightarrow> emission" where
  "load_register ft r v st =
     (if is_xmm r then
        if v = TREG_ST0 then emit_all [o_bytes 0xf0245cdd, o_bytes 0x100ff2, o_bytes (0x44 + REG_VALUE r * 8), o_bytes 0xf024] st
        else emit_all
          [assertion (nocode_wanted st \<noteq> 0 \<or> is_xmm v),
           if ft AND VT_BTYPE = VT_FLOAT then o_bytes 0x100ff3
           else emit_all [assertion (ft AND VT_BTYPE = VT_DOUBLE), o_bytes 0x100ff2],
           o_bytes (0xc0 + REG_VALUE v + REG_VALUE r * 8)] st
      else if r = TREG_ST0 then
        emit_all [assertion (nocode_wanted st \<noteq> 0 \<or> is_xmm v), o_bytes 0x110ff2, o_bytes (0x44 + REG_VALUE r * 8),
                  o_bytes 0xf024, o_bytes 0xf02444dd] st
      else emit_all [orex (is64_type ft) r v 0x89, o_bytes (0xc0 + REG_VALUE r + REG_VALUE v * 8)] st)"

definition load_value :: "operand \<Rightarrow> u32 \<Rightarrow> u32 \<Rightarrow> u32 \<Rightarrow> emission" where
  "load_value sv ft r fc =
     (let fr = sv_r sv; v = fr AND VT_VALMASK
      in if v = VT_CONST then load_constant sv ft r fr fc
         else if v = VT_LOCAL then emit_all [orex True 0 r 0x8d, gen_modrm r VT_LOCAL (sv_sym sv) fc]
         else if v = VT_CMP then load_flags r fc
         else if v = VT_JMP \<or> v = VT_JMPI then load_jump v r fc
         else if v \<noteq> r then load_register ft r v
         else emit_nothing)"

text \<open>The address is first loaded into a register when it is itself a value in the frame, or a constant of
  more than 32 bits.\<close>

definition load_address ::
  "(emitter \<Rightarrow> emit_stop + u32 \<times> emitter) \<Rightarrow> (u32 \<Rightarrow> operand \<Rightarrow> emission) \<Rightarrow> bool \<Rightarrow> operand \<Rightarrow> u32 \<Rightarrow> u32
     \<Rightarrow> emitter \<Rightarrow> emit_stop + u32 \<times> emitter" where
  "load_address get_reg again needed v1 r fr st =
     (if needed then
        (case (if address_register r then Inr (r, st) else get_reg st) of
           Inl e \<Rightarrow> Inl e
         | Inr (fr1, st1) \<Rightarrow> (case again fr1 v1 st1 of Inl e \<Rightarrow> Inl e | Inr st2 \<Rightarrow> Inr (fr1, st2)))
      else Inr (fr, st))"

definition load_flags_of :: "u32 \<Rightarrow> u32" where
  "load_flags_of t = t AND NOT (VT_DEFSIGN OR VT_RVALUE_REFERENCE) AND NOT (VT_VOLATILE OR VT_CONSTANT)"

definition pointer_in_frame :: "u32 \<Rightarrow> operand" where
  "pointer_in_frame fc = \<lparr>sv_t = VT_PTR, sv_r = VT_LOCAL OR VT_LVAL, sv_c = scast fc, sv_sym = 0, sv_ref = 0\<rparr>"

definition address_constant :: "u64 \<Rightarrow> operand" where
  "address_constant c = \<lparr>sv_t = VT_LLONG, sv_r = VT_CONST, sv_c = c, sv_sym = 0, sv_ref = 0\<rparr>"

definition load_body ::
  "(emitter \<Rightarrow> emit_stop + u32 \<times> emitter) \<Rightarrow> (u32 \<Rightarrow> operand \<Rightarrow> emission) \<Rightarrow> u32 \<Rightarrow> operand \<Rightarrow> emission" where
  "load_body get_reg again r sv st =
     (let fr = sv_r sv;
          ft = load_flags_of (sv_t sv);
          fc = ucast (sv_c sv) :: u32;
          long = scast fc \<noteq> sv_c sv
      in if long \<and> fr AND VT_SYM \<noteq> 0 then Inl Addend_64_bit
         else if fr AND VT_LVAL \<noteq> 0 then
           (case load_address get_reg again (fr AND VT_VALMASK = VT_LLOCAL) (pointer_in_frame fc) r fr st of
              Inl e \<Rightarrow> Inl e
            | Inr (fr1, st1) \<Rightarrow>
                (case load_address get_reg again long (address_constant (sv_c sv)) r fr1 st1 of
                   Inl e \<Rightarrow> Inl e
                 | Inr (fr2, st2) \<Rightarrow> load_memory sv ft r fr2 (if long then 0 else fc) st2))
         else load_value sv ft r fc st)"

text \<open>The inner loads are of a pointer in the frame or of a constant, which load nothing else.\<close>

definition load :: "(emitter \<Rightarrow> emit_stop + u32 \<times> emitter) \<Rightarrow> u32 \<Rightarrow> operand \<Rightarrow> emission" where
  "load get_reg = load_body get_reg (load_body get_reg (\<lambda>_ _. stop Loops))"

section \<open>Storing\<close>

definition immediate_form :: "u32 \<Rightarrow> u64 \<Rightarrow> operand \<Rightarrow> u32 \<Rightarrow> emission list option" where
  "immediate_form bt x v fc =
     (if bt = VT_BYTE \<or> bt = VT_BOOL then
        Some [orex False (sv_r v) 0 0xc6, gen_modrm 0 (sv_r v) (sv_sym v) fc, g (ucast x)]
      else if bt = VT_SHORT then
        Some [o_bytes 0x66, orex False (sv_r v) 0 0xc7, gen_modrm 0 (sv_r v) (sv_sym v) fc, gen_le16 (ucast x)]
      else if bt = VT_INT then
        Some [orex False (sv_r v) 0 0xc7, gen_modrm 0 (sv_r v) (sv_sym v) fc, gen_le32 (ucast x)]
      else if is64_type bt \<and> x = scast (ucast x :: u32) then
        Some [gen_modrm64 0xc7 0 (sv_r v) (sv_sym v) fc, gen_le32 (ucast x)]
      else None)"

definition store_immediate :: "operand \<Rightarrow> u64 \<Rightarrow> emitter \<Rightarrow> emit_stop + bool \<times> emitter" where
  "store_immediate v x st =
     (let fr = sv_r v AND VT_VALMASK;
          ft = sv_t v AND NOT (VT_VOLATILE OR VT_CONSTANT);
          fc = ucast (sv_c v) :: u32
      in if scast fc \<noteq> sv_c v \<and> fr AND VT_SYM \<noteq> 0 then Inr (False, st)
         else if fr \<noteq> VT_LOCAL then Inr (False, st)
         else case immediate_form (ft AND VT_BTYPE) x v fc of
                None \<Rightarrow> Inr (False, st)
              | Some fs \<Rightarrow> (case emit_all fs st of Inl e \<Rightarrow> Inl e | Inr st' \<Rightarrow> Inr (True, st')))"

text \<open>What \<open>store\<close> emits before the operand, the register it goes on with, and the opcode it still has to emit.\<close>

definition store_form :: "u32 \<Rightarrow> u32 \<Rightarrow> emission list \<times> u32 \<times> u32" where
  "store_form bt r =
     (if bt = VT_FLOAT then ([o_bytes 0x66, o_bytes 0, o_bytes 0x7e0f], REG_VALUE r, 0)
      else if bt = VT_DOUBLE then ([o_bytes 0x66, o_bytes 0, o_bytes 0xd60f], REG_VALUE r, 0)
      else if bt = VT_LDOUBLE then ([o_bytes 0xc0d9, o_bytes 0, o_bytes 0xdb], 7, 0)
      else
        let prefix = (if bt = VT_SHORT then [o_bytes 0x66] else []) @ [o_bytes 0]
        in if bt = VT_BYTE \<or> bt = VT_BOOL then (prefix @ [orex False 0 r 0x88], r, 0)
           else if is64_type bt then (prefix, r, 0x89)
           else (prefix @ [orex False 0 r 0x89], r, 0))"

definition store :: "u32 \<Rightarrow> operand \<Rightarrow> emission" where
  "store r v st =
     (let fr = sv_r v AND VT_VALMASK;
          ft = sv_t v AND NOT (VT_VOLATILE OR VT_CONSTANT);
          fc = ucast (sv_c v) :: u32;
          (prefix, r1, op64) = store_form (ft AND VT_BTYPE) r;
          memory = fr = VT_CONST \<or> fr = VT_LOCAL \<or> sv_r v AND VT_LVAL \<noteq> 0
      in if scast fc \<noteq> sv_c v \<and> fr AND VT_SYM \<noteq> 0 then Inl Addend_64_bit
         else emit_all (prefix @
           (if op64 \<noteq> 0 then
              if memory then [gen_modrm64 op64 r1 (sv_r v) (sv_sym v) fc]
              else if fr \<noteq> r1 then [orex True fr r1 op64, o_bytes (0xc0 + fr + r1 * 8)] else []
            else
              if memory then [gen_modrm r1 (sv_r v) (sv_sym v) fc]
              else if fr \<noteq> r1 then [o_bytes (0xc0 + fr + r1 * 8)] else [])) st)"

section \<open>The stack\<close>

definition gen_offs_sp :: "u32 \<Rightarrow> u32 \<Rightarrow> u32 \<Rightarrow> emission" where
  "gen_offs_sp b r d = emit_all
     (orex True 0 (if r AND 0x100 \<noteq> 0 then 0 else r) b #
      (if fits_byte d then [o_bytes (0x2444 OR push_bit 3 (REG_VALUE r)), g d]
       else [o_bytes (0x2484 OR push_bit 3 (REG_VALUE r)), gen_le32 d]))"

definition using_regs :: "u32 \<Rightarrow> bool" where
  "using_regs n \<longleftrightarrow> \<not> (8 <s n \<or> n AND (n - 1) \<noteq> 0)"

primrec fill_nops :: "nat \<Rightarrow> emission" where
  "fill_nops 0 st = Inr st"
| "fill_nops (Suc n) st = (case g 0x90 st of Inl e \<Rightarrow> Inl e | Inr st' \<Rightarrow> fill_nops n st')"

definition gen_fill_nops :: "u32 \<Rightarrow> emission" where
  "gen_fill_nops bytes = fill_nops (unat bytes)"

definition gen_vla_sp_save :: "u32 \<Rightarrow> emission" where
  "gen_vla_sp_save addr = gen_modrm64 0x89 TREG_RSP VT_LOCAL 0 addr"

definition gen_vla_sp_restore :: "u32 \<Rightarrow> emission" where
  "gen_vla_sp_restore addr = gen_modrm64 0x8b TREG_RSP VT_LOCAL 0 addr"

definition gen_vla_result :: "u32 \<Rightarrow> emission" where
  "gen_vla_result addr = gen_modrm64 0x89 TREG_RAX VT_LOCAL 0 addr"

end
