(* ===== verification/X86Machine.thy ===== *)
theory X86Machine imports Prelude
begin

text \<open>
  The meaning of the bytes: the part of the x86-64 instruction set that the code generator uses for
  integers, after Intel's manual.  It is the specification the emitted code is compared with:
  decoding of prefixes, ModRM operands and immediates, and execution on registers and memory.
\<close>

section \<open>Processor\<close>

record cpu =
  gpr :: "nat \<Rightarrow> u64"
  ram :: "u64 \<Rightarrow> u8"
  rip :: u64
  zf :: bool
  sf :: bool
  cf :: bool
  ovf :: bool
  pf :: bool

primrec of_le :: "u8 list \<Rightarrow> u64" where
  "of_le [] = 0"
| "of_le (b # bs) = ucast b OR push_bit 8 (of_le bs)"

primrec le_bytes :: "nat \<Rightarrow> u64 \<Rightarrow> u8 list" where
  "le_bytes 0 x = []"
| "le_bytes (Suc n) x = ucast x # le_bytes n (drop_bit 8 x)"

definition read_mem :: "nat \<Rightarrow> (u64 \<Rightarrow> u8) \<Rightarrow> u64 \<Rightarrow> u64" where
  "read_mem n m a = of_le (map (\<lambda>i. m (a + of_nat i)) [0..<n])"

primrec write_bytes :: "u8 list \<Rightarrow> u64 \<Rightarrow> (u64 \<Rightarrow> u8) \<Rightarrow> (u64 \<Rightarrow> u8)" where
  "write_bytes [] a m = m"
| "write_bytes (b # bs) a m = write_bytes bs (a + 1) (m(a := b))"

definition write_mem :: "nat \<Rightarrow> u64 \<Rightarrow> u64 \<Rightarrow> (u64 \<Rightarrow> u8) \<Rightarrow> (u64 \<Rightarrow> u8)" where
  "write_mem n a x m = write_bytes (le_bytes n x) a m"

definition zero_extend :: "nat \<Rightarrow> u64 \<Rightarrow> u64" where
  "zero_extend n x = take_bit (8 * n) x"

definition sign_extend :: "nat \<Rightarrow> u64 \<Rightarrow> u64" where
  "sign_extend n x = signed_take_bit (8 * n - 1) x"

section \<open>Instructions\<close>

datatype place = In_register nat | In_memory nat u64 | At_rip u64 | At_address u64

text \<open>Widths are in bytes.  \<open>high\<close> says that the byte registers 4 to 7 are AH to BH (no REX prefix).\<close>

datatype instruction =
    Mov_from nat nat place
  | Mov_to nat bool place nat
  | Mov_extended bool nat nat bool nat place
  | Lea nat place
  | Mov_immediate nat nat u64
  | Mov_immediate_to nat bool place u64
  | Arith nat nat place nat
  | Arith_immediate nat nat place u64
  | Test nat place nat
  | Multiply nat nat place
  | Multiply_immediate nat nat place u64
  | Shift nat nat place u64
  | Set_condition nat bool place
  | Mov_immediate_byte nat bool u64
  | Skip u64
  | Skip_if nat u64
  | Nop

definition fetch :: "nat \<Rightarrow> u8 list \<Rightarrow> (u64 \<times> u8 list) option" where
  "fetch n bs = (if n \<le> length bs then Some (of_le (take n bs), drop n bs) else None)"

definition numbered :: "bool \<Rightarrow> nat \<Rightarrow> nat" where
  "numbered extension n = (if extension then 8 + n else n)"

definition displaced :: "nat \<Rightarrow> (u64 \<Rightarrow> place) \<Rightarrow> u8 list \<Rightarrow> (place \<times> u8 list) option" where
  "displaced n p bs = map_option (\<lambda>(d, rest). (p (sign_extend n d), rest)) (fetch n bs)"

text \<open>ModRM: two bits mode, three bits register, three bits operand; operand 4 has a SIB byte, of which the
  forms without an index are decoded.\<close>

definition decode_operand :: "bool \<Rightarrow> nat \<Rightarrow> nat \<Rightarrow> u8 list \<Rightarrow> (place \<times> u8 list) option" where
  "decode_operand rex_b md rm bs =
     (if md = 3 then Some (In_register (numbered rex_b rm), bs)
      else if rm = 4 then
        (case bs of
           [] \<Rightarrow> None
         | sib # bs1 \<Rightarrow>
             if md = 0 \<and> sib = 0x25 then displaced 4 At_address bs1
             else if md = 1 \<and> sib = 0x24 then displaced 1 (In_memory (numbered rex_b 4)) bs1
             else if md = 2 \<and> sib = 0x24 then displaced 4 (In_memory (numbered rex_b 4)) bs1
             else None)
      else if md = 0 then
        if rm = 5 then displaced 4 At_rip bs else Some (In_memory (numbered rex_b rm) 0, bs)
      else if md = 1 then displaced 1 (In_memory (numbered rex_b rm)) bs
      else displaced 4 (In_memory (numbered rex_b rm)) bs)"

definition decode_modrm :: "bool \<Rightarrow> bool \<Rightarrow> u8 list \<Rightarrow> (nat \<times> place \<times> u8 list) option" where
  "decode_modrm rex_r rex_b bs =
     (case bs of
        [] \<Rightarrow> None
      | m # bs1 \<Rightarrow>
          map_option (\<lambda>(p, rest). (numbered rex_r (unat m div 8 mod 8), p, rest))
            (decode_operand rex_b (unat m div 64) (unat m mod 8) bs1))"

definition with_modrm :: "bool \<Rightarrow> bool \<Rightarrow> (nat \<Rightarrow> place \<Rightarrow> instruction) \<Rightarrow> u8 list \<Rightarrow> (instruction \<times> u8 list) option" where
  "with_modrm rex_r rex_b f bs = map_option (\<lambda>(r, p, rest). (f r p, rest)) (decode_modrm rex_r rex_b bs)"

definition with_immediate ::
  "bool \<Rightarrow> bool \<Rightarrow> nat \<Rightarrow> (nat \<Rightarrow> place \<Rightarrow> u64 \<Rightarrow> instruction) \<Rightarrow> u8 list \<Rightarrow> (instruction \<times> u8 list) option" where
  "with_immediate rex_r rex_b n f bs =
     Option.bind (decode_modrm rex_r rex_b bs) (\<lambda>(r, p, bs1).
       map_option (\<lambda>(x, rest). (f r p (sign_extend n x), rest)) (fetch n bs1))"

record rex =
  present :: bool
  rex_w :: bool
  rex_r :: bool
  rex_b :: bool

definition split_rex :: "u8 list \<Rightarrow> rex \<times> u8 list" where
  "split_rex bs =
     (case bs of
        [] \<Rightarrow> (\<lparr>present = False, rex_w = False, rex_r = False, rex_b = False\<rparr>, bs)
      | b # rest \<Rightarrow>
          if unat b div 16 = 4
          then (\<lparr>present = True, rex_w = bit b 3, rex_r = bit b 2, rex_b = bit b 0\<rparr>, rest)
          else (\<lparr>present = False, rex_w = False, rex_r = False, rex_b = False\<rparr>, bs))"

definition decode_two_byte :: "nat \<Rightarrow> rex \<Rightarrow> u8 list \<Rightarrow> (instruction \<times> u8 list) option" where
  "decode_two_byte w x bs =
     (case bs of
        [] \<Rightarrow> None
      | op # rest \<Rightarrow>
          if op = 0xbe then with_modrm (rex_r x) (rex_b x) (Mov_extended True 1 w (\<not> present x)) rest
          else if op = 0xb6 then with_modrm (rex_r x) (rex_b x) (Mov_extended False 1 w (\<not> present x)) rest
          else if op = 0xbf then with_modrm (rex_r x) (rex_b x) (Mov_extended True 2 w (\<not> present x)) rest
          else if op = 0xb7 then with_modrm (rex_r x) (rex_b x) (Mov_extended False 2 w (\<not> present x)) rest
          else if op = 0xaf then with_modrm (rex_r x) (rex_b x) (Multiply w) rest
          else if unat op div 16 = 9
            then with_modrm (rex_r x) (rex_b x) (\<lambda>_. Set_condition (unat op mod 16) (\<not> present x)) rest
          else None)"

definition decode_one_byte :: "nat \<Rightarrow> rex \<Rightarrow> u8 \<Rightarrow> u8 list \<Rightarrow> (instruction \<times> u8 list) option" where
  "decode_one_byte w x op bs =
     (if op = 0x8b then with_modrm (rex_r x) (rex_b x) (Mov_from w) bs
      else if op = 0x89 then with_modrm (rex_r x) (rex_b x) (\<lambda>r p. Mov_to w False p r) bs
      else if op = 0x88 then with_modrm (rex_r x) (rex_b x) (\<lambda>r p. Mov_to 1 (\<not> present x) p r) bs
      else if op = 0x8d then with_modrm (rex_r x) (rex_b x) Lea bs
      else if op = 0x85 then with_modrm (rex_r x) (rex_b x) (\<lambda>r p. Test w p r) bs
      else if unat op < 64 \<and> unat op mod 8 = 1
        then with_modrm (rex_r x) (rex_b x) (\<lambda>r p. Arith (unat op div 8) w p r) bs
      else if op = 0x83 then with_immediate False (rex_b x) 1 (\<lambda>n. Arith_immediate n w) bs
      else if op = 0x81 then with_immediate False (rex_b x) (min w 4) (\<lambda>n. Arith_immediate n w) bs
      else if op = 0x6b then with_immediate (rex_r x) (rex_b x) 1 (Multiply_immediate w) bs
      else if op = 0x69 then with_immediate (rex_r x) (rex_b x) (min w 4) (Multiply_immediate w) bs
      else if op = 0xc1 then with_immediate False (rex_b x) 1 (\<lambda>n. Shift n w) bs
      else if op = 0xc6 then with_immediate (rex_r x) (rex_b x) 1 (\<lambda>_. Mov_immediate_to 1 (\<not> present x)) bs
      else if op = 0xc7 then with_immediate (rex_r x) (rex_b x) (min w 4) (\<lambda>_. Mov_immediate_to w False) bs
      else if unat op div 8 = 22 then
        map_option (\<lambda>(v, rest). (Mov_immediate_byte (numbered (rex_b x) (unat op mod 8)) (\<not> present x) v, rest)) (fetch 1 bs)
      else if unat op div 8 = 23 then
        map_option (\<lambda>(v, rest). (Mov_immediate w (numbered (rex_b x) (unat op mod 8)) v, rest)) (fetch w bs)
      else if op = 0xeb then map_option (\<lambda>(d, rest). (Skip d, rest)) (fetch 1 bs)
      else if unat op div 16 = 7 then map_option (\<lambda>(d, rest). (Skip_if (unat op mod 16) d, rest)) (fetch 1 bs)
      else if op = 0x90 then Some (Nop, bs)
      else None)"

definition decode :: "u8 list \<Rightarrow> (instruction \<times> u8 list) option" where
  "decode bs0 =
     (let narrow = bs0 \<noteq> [] \<and> hd bs0 = 0x66;
          (x, bs) = split_rex (if narrow then tl bs0 else bs0);
          w = (if rex_w x then 8 else if narrow then 2 else 4)
      in case bs of
           [] \<Rightarrow> None
         | op # rest \<Rightarrow> if op = 0x0f then decode_two_byte w x rest else decode_one_byte w x op rest)"

section \<open>Execution\<close>

definition place_address :: "cpu \<Rightarrow> u64 \<Rightarrow> place \<Rightarrow> u64" where
  "place_address s next p =
     (case p of In_register n \<Rightarrow> 0 | In_memory b d \<Rightarrow> gpr s b + d | At_rip d \<Rightarrow> next + d | At_address a \<Rightarrow> a)"

definition is_high_byte :: "nat \<Rightarrow> bool \<Rightarrow> nat \<Rightarrow> bool" where
  "is_high_byte w high n \<longleftrightarrow> w = 1 \<and> high \<and> 4 \<le> n \<and> n < 8"

definition read_register :: "nat \<Rightarrow> bool \<Rightarrow> nat \<Rightarrow> cpu \<Rightarrow> u64" where
  "read_register w high n s =
     (if is_high_byte w high n then zero_extend 1 (drop_bit 8 (gpr s (n - 4))) else zero_extend w (gpr s n))"

text \<open>A 32-bit result clears the upper half of the register, narrower ones keep the rest of it.\<close>

definition write_register :: "nat \<Rightarrow> bool \<Rightarrow> nat \<Rightarrow> u64 \<Rightarrow> cpu \<Rightarrow> cpu" where
  "write_register w high n x s =
     (if is_high_byte w high n
      then s\<lparr>gpr := (gpr s)(n - 4 := (gpr s (n - 4) AND NOT 0xff00) OR push_bit 8 (zero_extend 1 x))\<rparr>
      else if w \<ge> 4 then s\<lparr>gpr := (gpr s)(n := zero_extend w x)\<rparr>
      else s\<lparr>gpr := (gpr s)(n := (gpr s n AND NOT (mask (8 * w))) OR zero_extend w x)\<rparr>)"

definition read_place :: "nat \<Rightarrow> bool \<Rightarrow> u64 \<Rightarrow> place \<Rightarrow> cpu \<Rightarrow> u64" where
  "read_place w high next p s =
     (case p of In_register n \<Rightarrow> read_register w high n s | _ \<Rightarrow> read_mem w (ram s) (place_address s next p))"

definition write_place :: "nat \<Rightarrow> bool \<Rightarrow> u64 \<Rightarrow> place \<Rightarrow> u64 \<Rightarrow> cpu \<Rightarrow> cpu" where
  "write_place w high next p x s =
     (case p of In_register n \<Rightarrow> write_register w high n x s
      | _ \<Rightarrow> s\<lparr>ram := write_mem w (place_address s next p) x (ram s)\<rparr>)"

definition condition :: "nat \<Rightarrow> cpu \<Rightarrow> bool" where
  "condition cc s =
     ((if cc div 2 = 0 then ovf s else if cc div 2 = 1 then cf s else if cc div 2 = 2 then zf s
       else if cc div 2 = 3 then cf s \<or> zf s else if cc div 2 = 4 then sf s else if cc div 2 = 5 then pf s
       else if cc div 2 = 6 then sf s \<noteq> ovf s else zf s \<or> sf s \<noteq> ovf s) \<noteq> odd cc)"

definition negative :: "nat \<Rightarrow> u64 \<Rightarrow> bool" where
  "negative w x = bit x (8 * w - 1)"

definition even_parity :: "u64 \<Rightarrow> bool" where
  "even_parity x = even (length (filter (bit x) [0..<8]))"

definition with_flags :: "nat \<Rightarrow> u64 \<Rightarrow> bool \<Rightarrow> bool \<Rightarrow> cpu \<Rightarrow> cpu" where
  "with_flags w x carry overflow s =
     s\<lparr>zf := zero_extend w x = 0, sf := negative w x, cf := carry, ovf := overflow, pf := even_parity x\<rparr>"

text \<open>The eight operations of group 1: add, or, adc, sbb, and, sub, xor, cmp; operands are already cut to
  the width.  \<open>None\<close> for a comparison: only the flags change.\<close>

definition sum_of :: "nat \<Rightarrow> u64 \<Rightarrow> u64 \<Rightarrow> bool \<Rightarrow> cpu \<Rightarrow> u64 \<times> cpu" where
  "sum_of w a b c s =
     (let x = zero_extend w (a + b + of_bool c)
      in (x, with_flags w x (2 ^ (8 * w) \<le> uint a + uint b + of_bool c)
            (negative w a = negative w b \<and> negative w x \<noteq> negative w a) s))"

definition difference_of :: "nat \<Rightarrow> u64 \<Rightarrow> u64 \<Rightarrow> bool \<Rightarrow> cpu \<Rightarrow> u64 \<times> cpu" where
  "difference_of w a b c s =
     (let x = zero_extend w (a - b - of_bool c)
      in (x, with_flags w x (uint a < uint b + of_bool c)
            (negative w a \<noteq> negative w b \<and> negative w x \<noteq> negative w a) s))"

definition arithmetic :: "nat \<Rightarrow> nat \<Rightarrow> u64 \<Rightarrow> u64 \<Rightarrow> cpu \<Rightarrow> u64 option \<times> cpu" where
  "arithmetic n w a b s =
     (if n = 0 then map_prod Some id (sum_of w a b False s)
      else if n = 1 then (Some (a OR b), with_flags w (a OR b) False False s)
      else if n = 2 then map_prod Some id (sum_of w a b (cf s) s)
      else if n = 3 then map_prod Some id (difference_of w a b (cf s) s)
      else if n = 4 then (Some (a AND b), with_flags w (a AND b) False False s)
      else if n = 5 then map_prod Some id (difference_of w a b False s)
      else if n = 6 then (Some (a XOR b), with_flags w (a XOR b) False False s)
      else (None, snd (difference_of w a b False s)))"

definition store_result :: "nat \<Rightarrow> u64 \<Rightarrow> place \<Rightarrow> u64 option \<times> cpu \<Rightarrow> cpu" where
  "store_result w next p r = (case fst r of None \<Rightarrow> snd r | Some x \<Rightarrow> write_place w False next p x (snd r))"

text \<open>Shifts (4 left, 5 right, 7 arithmetic) take the count modulo 32 or 64.  The flags they and a
  multiplication leave are not used by the compiler and are kept here.\<close>

definition shifted :: "nat \<Rightarrow> nat \<Rightarrow> u64 \<Rightarrow> u64 \<Rightarrow> u64" where
  "shifted n w a count =
     (let k = unat (count AND (if w = 8 then 63 else 31))
      in zero_extend w (if n = 4 then push_bit k a else if n = 5 then drop_bit k a
                        else signed_drop_bit k (sign_extend w a)))"

text \<open>One instruction that does not jump; \<open>next\<close> is the address after it.\<close>

definition execute :: "u64 \<Rightarrow> instruction \<Rightarrow> cpu \<Rightarrow> cpu" where
  "execute next i s =
     (case i of
        Mov_from w r p \<Rightarrow> write_register w False r (read_place w False next p s) s
      | Mov_to w high p r \<Rightarrow> write_place w high next p (read_register w high r s) s
      | Mov_extended sx n w high r p \<Rightarrow>
          write_register w False r
            (if sx then sign_extend n (read_place n high next p s) else read_place n high next p s) s
      | Lea r p \<Rightarrow> write_register 8 False r (place_address s next p) s
      | Mov_immediate w r x \<Rightarrow> write_register w False r x s
      | Mov_immediate_to w high p x \<Rightarrow> write_place w high next p x s
      | Arith n w p r \<Rightarrow>
          store_result w next p (arithmetic n w (read_place w False next p s) (read_register w False r s) s)
      | Arith_immediate n w p x \<Rightarrow>
          store_result w next p (arithmetic n w (read_place w False next p s) (zero_extend w x) s)
      | Test w p r \<Rightarrow>
          with_flags w (read_place w False next p s AND read_register w False r s) False False s
      | Multiply w r p \<Rightarrow>
          write_register w False r (zero_extend w (read_register w False r s * read_place w False next p s)) s
      | Multiply_immediate w r p x \<Rightarrow>
          write_register w False r (zero_extend w (read_place w False next p s * x)) s
      | Shift n w p x \<Rightarrow> write_place w False next p (shifted n w (read_place w False next p s) x) s
      | Set_condition cc high p \<Rightarrow> write_place 1 high next p (of_bool (condition cc s)) s
      | Mov_immediate_byte r high x \<Rightarrow> write_register 1 high r x s
      | Skip d \<Rightarrow> s | Skip_if cc d \<Rightarrow> s | Nop \<Rightarrow> s)"

definition skipped :: "instruction \<Rightarrow> cpu \<Rightarrow> nat" where
  "skipped i s =
     (case i of Skip d \<Rightarrow> unat d | Skip_if cc d \<Rightarrow> if condition cc s then unat d else 0 | _ \<Rightarrow> 0)"

text \<open>Executing a piece of code from its first byte until its end is reached; each instruction uses up a
  byte at least, so its length is enough fuel.  Short jumps forward inside the piece are followed, a
  jump out of it (a distance of 128 or more is backwards) is \<open>None\<close>.\<close>

definition step :: "u8 list \<Rightarrow> cpu \<Rightarrow> (u8 list \<times> cpu) option" where
  "step bs s =
     (case decode bs of
        None \<Rightarrow> None
      | Some (i, rest) \<Rightarrow>
          let next = rip s + of_nat (length bs - length rest);
              k = skipped i s
          in if k \<le> length rest \<and> k < 128
             then Some (drop k rest, (execute next i s)\<lparr>rip := next + of_nat k\<rparr>)
             else None)"

primrec run_for :: "nat \<Rightarrow> u8 list \<Rightarrow> cpu \<Rightarrow> cpu option" where
  "run_for 0 bs s = (if bs = [] then Some s else None)"
| "run_for (Suc n) bs s = (if bs = [] then Some s else Option.bind (step bs s) (\<lambda>(rest, s'). run_for n rest s'))"

definition run_code :: "u8 list \<Rightarrow> cpu \<Rightarrow> cpu option" where
  "run_code bs = run_for (length bs) bs"

end
