(* ===== verification/X86EmitFacts.thy ===== *)
theory X86EmitFacts imports X86Load X86Machine
begin

text \<open>
  What an emission appends: the relation \<open>emits\<close> between an emission, its bytes and the relocations it
  records, its rules of composition, and the bytes of each of the small emissions.
\<close>

section \<open>Appending code\<close>

definition code_of :: "emitter \<Rightarrow> u8 list" where
  "code_of e = take (unat (ind e)) (sec_data (text_section e))"

text \<open>Code is wanted, and \<open>n\<close> more bytes fit in the section.\<close>

definition ready :: "nat \<Rightarrow> emitter \<Rightarrow> bool" where
  "ready n e \<longleftrightarrow> nocode_wanted e = 0 \<and> valid_section (text_section e) \<and> unat (ind e) + n \<le> 2 ^ 31
     \<and> unat (ind e) \<le> length (sec_data (text_section e))"

text \<open>A relocation of a piece of code: distance from its start, symbol, type and addend.\<close>

type_synonym piece_reloc = "nat \<times> nat \<times> u32 \<times> u64"

definition recorded :: "emitter \<Rightarrow> piece_reloc \<Rightarrow> elf_rela" where
  "recorded e = (\<lambda>(k, s, ty, a).
     \<lparr>r_offset = ucast (ind e + of_nat k),
      r_info = R_INFO (ucast (if s = 0 then 0 else elf_index e s)) (ucast ty), r_addend = a\<rparr>)"

definition moved :: "nat \<Rightarrow> piece_reloc \<Rightarrow> piece_reloc" where
  "moved n = (\<lambda>(k, r). (n + k, r))"

definition appended :: "emitter \<Rightarrow> u8 list \<Rightarrow> piece_reloc list \<Rightarrow> emitter \<Rightarrow> bool" where
  "appended e bs rs e' \<longleftrightarrow>
     ind e' = ind e + of_nat (length bs) \<and> code_of e' = code_of e @ bs
     \<and> relocations e' = relocations e @ List.map (recorded e) rs
     \<and> valid_section (text_section e') \<and> unat (ind e') \<le> length (sec_data (text_section e'))
     \<and> nocode_wanted e' = nocode_wanted e \<and> elf_index e' = elf_index e \<and> symbols e' = symbols e
     \<and> vtop_cmp_r e' = vtop_cmp_r e"

definition emits :: "emission \<Rightarrow> u8 list \<Rightarrow> piece_reloc list \<Rightarrow> bool" where
  "emits f bs rs \<longleftrightarrow> (\<forall>e. ready (length bs) e \<longrightarrow> (\<exists>e'. f e = Inr e' \<and> appended e bs rs e'))"

lemma appended_nothing: "ready n e \<Longrightarrow> appended e [] [] e"
  by (simp add: appended_def ready_def)

lemma ind_after:
  assumes "ready (length bs + n) e" and "appended e bs rs e'"
  shows "unat (ind e') = unat (ind e) + length bs"
proof -
  have "unat (ind e) + length bs < 2 ^ 32" using assms(1) by (simp add: ready_def)
  then show ?thesis using assms(2) by (simp add: appended_def unat_word_ariths unat_of_nat)
qed

lemma ready_after: "ready (length bs + n) e \<Longrightarrow> appended e bs rs e' \<Longrightarrow> ready n e'"
  using ind_after [of bs n e rs e'] by (auto simp: ready_def appended_def)

lemma ready_less: "ready n e \<Longrightarrow> m \<le> n \<Longrightarrow> ready m e"
  by (simp add: ready_def)

lemma recorded_after:
  "appended e bs rs e' \<Longrightarrow> recorded e' = recorded e \<circ> moved (length bs)"
  by (auto simp: fun_eq_iff recorded_def moved_def appended_def add.assoc)

lemma appended_trans:
  assumes "appended e bs rs e1" and "appended e1 bs' rs' e2"
  shows "appended e (bs @ bs') (rs @ List.map (moved (length bs)) rs') e2"
  using assms recorded_after [OF assms(1)] unfolding appended_def by (auto simp: add.assoc)

section \<open>Composition\<close>

lemma emits_nothing: "emits emit_nothing [] []"
  by (simp add: emits_def emit_nothing_def) (blast intro: appended_nothing)

lemma emits_none: "emits (emit_all []) [] []"
  by (simp add: emits_def) (blast intro: appended_nothing)

lemma emitsE:
  assumes "emits f bs rs" and "ready (length bs) e"
  obtains e' where "f e = Inr e'" "appended e bs rs e'"
  using assms by (auto simp: emits_def)

lemma emits_then:
  assumes "emits f bs rs" and "\<And>e e'. ready (length bs + length bs') e \<Longrightarrow> f e = Inr e' \<Longrightarrow> h e = k e'"
    and "emits k bs' rs'"
  shows "emits h (bs @ bs') (rs @ List.map (moved (length bs)) rs')"
  unfolding emits_def
proof (intro allI impI)
  fix e assume "ready (length (bs @ bs')) e"
  then have r: "ready (length bs + length bs') e" by simp
  obtain e1 where e1: "f e = Inr e1" "appended e bs rs e1"
    using emitsE [OF assms(1) ready_less [OF r]] by auto
  obtain e2 where e2: "k e1 = Inr e2" "appended e1 bs' rs' e2"
    by (rule emitsE [OF assms(3) ready_after [OF r e1(2)]])
  then show "\<exists>e'. h e = Inr e' \<and> appended e (bs @ bs') (rs @ List.map (moved (length bs)) rs') e'"
    using assms(2) [OF r e1(1)] appended_trans [OF e1(2) e2(2)] by auto
qed

lemma emits_all_append:
  assumes "emits f bs rs" and "emits (emit_all fs) bs' rs'"
  shows "emits (emit_all (f # fs)) (bs @ bs') (rs @ List.map (moved (length bs)) rs')"
  by (rule emits_then [OF assms(1) _ assms(2)]) simp

lemma emits_all_plain:
  assumes "emits f bs []" and "emits (emit_all fs) bs' []"
  shows "emits (emit_all (f # fs)) (bs @ bs') []"
  using emits_all_append [OF assms] by simp

lemma emits_cong: "emits f bs rs \<Longrightarrow> (\<And>e. ready (length bs) e \<Longrightarrow> h e = f e) \<Longrightarrow> emits h bs rs"
  by (auto simp: emits_def)

section \<open>The small emissions\<close>

lemma take_update_snoc:
  "n < length xs \<Longrightarrow> take (Suc n) (xs[n := x]) = take n xs @ [x]"
  by (simp add: take_Suc_conv_app_nth)

lemma emits_g: "emits (g c) [ucast c] []"
  unfolding emits_def
proof (intro allI impI)
  fix e assume "ready (length [ucast c :: u8]) e"
  then have nc: "nocode_wanted e = 0" and v: "valid_section (text_section e)"
    and b: "unat (ind e) + 1 \<le> 2 ^ 31" and le: "unat (ind e) \<le> length (sec_data (text_section e))"
    by (simp_all add: ready_def)
  define s where "s = text_section e"
  have i: "unat (ind e + 1) = unat (ind e) + 1" using b by (simp add: unat_word_ariths)
  obtain sec where sec: "(if ind e + 1 > data_allocated s then section_realloc s (ind e + 1) else Some s) = Some sec"
    and va: "valid_section sec" and fits: "unat (ind e) < length (sec_data sec)"
    and same: "take (unat (ind e)) (sec_data sec) = take (unat (ind e)) (sec_data s)"
  proof (cases "ind e + 1 > data_allocated s")
    case True
    obtain sec j where s': "section_realloc s (ind e + 1) = Some sec"
      "length (sec_data sec) = 2 ^ j" "j \<le> 31" "unat (ind e + 1) \<le> length (sec_data sec)"
      "take (length (sec_data s)) (sec_data sec) = sec_data s"
      "data_offset sec = data_offset s" "sh_nobits sec = sh_nobits s" "length (sec_data s) \<le> length (sec_data sec)"
      by (rule section_realloc_grows [OF v [folded s_def], of "ind e + 1"]) (use b i in auto)
    have "valid_section sec" using s' v [folded s_def] by (auto simp: valid_section_def)
    moreover have "take (unat (ind e)) (sec_data sec) = take (unat (ind e)) (sec_data s)"
      using s'(5) le by (metis min.absorb1 s_def take_take)
    ultimately show ?thesis using that [of sec] True s' i by simp
  next
    case False
    then have "unat (ind e) < length (sec_data s)"
      using i data_allocated_unat [OF v [folded s_def]] by (simp add: word_le_nat_alt not_less)
    then show ?thesis using that [of s] v [folded s_def] False by simp
  qed
  show "\<exists>e'. g c e = Inr e' \<and> appended e [ucast c] [] e'"
    using sec va fits same nc i
    by (auto simp: g_def Let_def s_def [symmetric] appended_def code_of_def take_update_snoc valid_section_def)
qed

lemmas emits_byte = emits_all_plain [OF emits_g]

function o_code :: "u32 \<Rightarrow> u8 list" where
  "o_code c = (if c = 0 then [] else ucast c # o_code (drop_bit 8 c))"
  by pat_completeness auto
termination
proof (relation "measure unat")
  fix c :: u32
  assume "c \<noteq> 0"
  then have "0 < unat c" by (simp add: unat_gt_0)
  moreover have "unat (drop_bit 8 c) = unat c div 256"
    using unsigned_less [of c, where ?'a = nat] unfolding unsigned_drop_bit_eq
    by (simp add: drop_bit_eq_div take_bit_nat_eq_self)
  ultimately show "(drop_bit 8 c, c) \<in> measure unat" by simp
qed simp

declare o_code.simps [simp del]

lemma emits_o: "emits (o_bytes c) (o_code c) []"
proof (induction c rule: o_code.induct)
  case (1 c)
  show ?case
  proof (cases "c = 0")
    case True
    then show ?thesis by (auto simp: emits_def o_bytes.simps o_code.simps intro: appended_nothing)
  next
    case False
    have "emits (o_bytes c) ([ucast c] @ o_code (drop_bit 8 c)) ([] @ List.map (moved (length [ucast c :: u8])) [])"
      by (rule emits_then [OF emits_g [of c] _ 1 [OF False]]) (simp add: o_bytes.simps [of c] False)
    then show ?thesis using False by (simp add: o_code.simps [of c])
  qed
qed

lemma byte_of_shift: "ucast (signed_drop_bit n c :: u32) = (ucast (drop_bit n (ucast c :: u64)) :: u8)" if "n \<le> 24"
  using that by (intro bit_word_eqI) (auto simp: bit_simps)


lemma byte_of_shift64: "ucast (signed_drop_bit n c :: u64) = (ucast (drop_bit n c) :: u8)" if "n \<le> 56"
  using that by (intro bit_word_eqI) (auto simp: bit_simps)

lemma byte_of: "ucast (ucast (c :: u32) :: u64) = (ucast c :: u8)"
  by (intro bit_word_eqI) (auto simp: bit_simps)

lemma le_bytes_2: "le_bytes 2 x = [ucast x, ucast (drop_bit 8 x)]"
  by (simp add: numeral_2_eq_2)

lemma le_bytes_step: "le_bytes (numeral k) x = ucast x # le_bytes (pred_numeral k) (drop_bit 8 x)"
  by (simp add: numeral_eq_Suc)

lemma le_bytes_4: "le_bytes 4 x = [ucast x, ucast (drop_bit 8 x), ucast (drop_bit 16 x), ucast (drop_bit 24 x)]"
  by (simp add: le_bytes_step)

lemma le_bytes_8: "le_bytes 8 x = [ucast x, ucast (drop_bit 8 x), ucast (drop_bit 16 x), ucast (drop_bit 24 x),
    ucast (drop_bit 32 x), ucast (drop_bit 40 x), ucast (drop_bit 48 x), ucast (drop_bit 56 x)]"
  by (simp add: le_bytes_step)

lemma byte_of_low: "ucast (ucast (x :: u64) :: u32) = (ucast x :: u8)"
  by (intro bit_word_eqI) (auto simp: bit_simps)

lemma emits_le16: "emits (gen_le16 v) (le_bytes 2 (ucast v)) []"
  unfolding gen_le16_def le_bytes_2
  using emits_byte [OF emits_byte [OF emits_none], of v "signed_drop_bit 8 v"]
  by (simp add: byte_of_shift byte_of)

lemma emits_le32: "emits (gen_le32 c) (le_bytes 4 (ucast c)) []"
  unfolding gen_le32_def le_bytes_4
  using emits_byte [OF emits_byte [OF emits_byte [OF emits_byte [OF emits_none]]],
      of c "signed_drop_bit 8 c" "signed_drop_bit 16 c" "signed_drop_bit 24 c"]
  by (simp add: byte_of_shift byte_of)

lemma emits_le64: "emits (gen_le64 c) (le_bytes 8 c) []"
  unfolding gen_le64_def le_bytes_8
  using emits_byte [OF emits_byte [OF emits_byte [OF emits_byte [OF emits_byte [OF emits_byte [OF emits_byte [OF
      emits_byte [OF emits_none]]]]]]], of "ucast c" "ucast (signed_drop_bit 8 c)" "ucast (signed_drop_bit 16 c)"
      "ucast (signed_drop_bit 24 c)" "ucast (signed_drop_bit 32 c)" "ucast (signed_drop_bit 40 c)"
      "ucast (signed_drop_bit 48 c)" "ucast (signed_drop_bit 56 c)"]
  by (simp add: byte_of_shift64 byte_of_low)

definition rex_prefix :: "bool \<Rightarrow> u32 \<Rightarrow> u32 \<Rightarrow> u8 list" where
  "rex_prefix ll r r2 =
     (if ll \<or> REX_BASE (rex_register r) \<noteq> 0 \<or> REX_BASE (rex_register r2) \<noteq> 0
      then o_code (0x40 OR REX_BASE (rex_register r) OR push_bit 2 (REX_BASE (rex_register r2)) OR push_bit 3 (of_bool ll))
      else [])"

lemma emits_orex: "emits (orex ll r r2 b) (rex_prefix ll r r2 @ o_code b) []"
proof -
  have "emits (emit_all [o_bytes b]) (o_code b) []" using emits_all_plain [OF emits_o emits_none] by simp
  then show ?thesis
    unfolding orex_def rex_prefix_def
    using emits_all_plain [OF emits_o] emits_all_plain [OF emits_nothing] by simp
qed

lemma emits_oad: "emits (emit_oad c s) (o_code c @ le_bytes 4 (ucast s)) []"
proof -
  have "emits (emit_oad c s) (o_code c @ le_bytes 4 (ucast s)) ([] @ List.map (moved (length (o_code c))) [])"
    by (rule emits_then [OF emits_o [of c] _ emits_le32 [of s]])
      (auto simp: emit_oad_def oad_def ready_def split: sum.splits)
  then show ?thesis by simp
qed

lemma emits_greloca: "emits (greloca s ty a) [] [(0, s, ty, a)]"
  by (auto simp: emits_def greloca_def ready_def appended_def code_of_def recorded_def)

lemma emits_addrpc32:
  "r AND VT_SYM \<noteq> 0 \<Longrightarrow> emits (gen_addrpc32 r s c) (le_bytes 4 0) [(0, s, R_X86_64_PC32, scast (c - 4))]"
  using emits_all_append [OF emits_greloca [of s R_X86_64_PC32 "scast (c - 4)"] emits_all_plain [OF emits_le32 [of 0] emits_none]]
  by (simp add: gen_addrpc32_def moved_def)

text \<open>The start of a file: nothing emitted, no symbols.\<close>

definition new_emitter :: emitter where
  "new_emitter = \<lparr>text_section = \<lparr>sec_data = [], data_offset = 0, sh_nobits = False, sh_addralign = 1\<rparr>,
     ind = 0, nocode_wanted = 0, relocations = [], elf_index = (\<lambda>_. 0), symbols = (\<lambda>_. None), vtop_cmp_r = 0\<rparr>"

lemma new_emitter_ready: "n \<le> 2 ^ 31 \<Longrightarrow> ready n new_emitter"
  by (simp add: ready_def new_emitter_def valid_section_def)

end
