(* ===== verification/X86Encode.thy ===== *)
theory X86Encode imports X86EmitFacts
begin

text \<open>
  The bytes of prefixes and operands, and that the processor decodes them to the registers and places the code
  generator means.
\<close>

section \<open>Register numbers\<close>

definition reg_number :: "u32 \<Rightarrow> nat" where "reg_number r = unat r mod 16"

lemma REG_VALUE_number: "unat (REG_VALUE r) = unat r mod 8"
proof -
  have "REG_VALUE r = take_bit 3 r" by (simp add: REG_VALUE_def take_bit_eq_mask mask_eq_exp_minus_1)
  then show ?thesis by (simp add: take_bit_eq_mod unat_mod)
qed

lemma REX_BASE_bit: "REX_BASE r = of_bool (bit r 3)"
  by (simp add: REX_BASE_def and_one_eq bit_iff_odd_drop_bit odd_iff_mod_2_eq_one)

lemma bit_number: "bit (r :: u32) 3 \<longleftrightarrow> odd (unat r div 8)"
proof -
  have "bit r 3 \<longleftrightarrow> bit (unat r) 3" by (simp add: bit_unsigned_iff)
  then show ?thesis by (simp add: bit_iff_odd_drop_bit drop_bit_eq_div)
qed

lemma numbered_mod: "numbered (bit r 3) (unat r mod 8) = reg_number r"
  using mod_mult2_eq [of "unat r" 8 2] unfolding numbered_def reg_number_def bit_number
  by (auto simp: odd_iff_mod_2_eq_one even_iff_mod_2_eq_zero)

lemma REG_VALUE_cases: "REG_VALUE r \<in> {0, 1, 2, 3, 4, 5, 6, 7}"
proof -
  have "REG_VALUE r \<le> 7" unfolding REG_VALUE_def by (rule word_and_le1)
  then show ?thesis by (auto simp: word_le_nat_alt intro!: word_unat_eq_iff [THEN iffD2])
qed

section \<open>Single bytes\<close>

lemma o_code_byte: "c \<noteq> 0 \<Longrightarrow> c < 256 \<Longrightarrow> o_code c = [ucast c]"
proof -
  assume c: "c \<noteq> 0" "c < 256"
  then have "unat (drop_bit 8 c) = 0"
    by (simp add: drop_bit_eq_div unat_div word_less_nat_alt)
  then have "drop_bit 8 c = 0" by (simp add: unat_eq_0)
  then show ?thesis using c by (simp add: o_code.simps [of c] o_code.simps [of 0])
qed

text \<open>A ModRM byte of its three fields.\<close>

definition modrm_byte :: "u8 \<Rightarrow> u32 \<Rightarrow> u8 \<Rightarrow> u8" where
  "modrm_byte md reg rm = push_bit 6 md OR push_bit 3 (ucast (REG_VALUE reg)) OR rm"

lemma modrm_fields:
  assumes "md \<in> {0, 1, 2, 3}" and "rm \<in> {0, 1, 2, 3, 4, 5, 6, 7}"
  shows "unat (modrm_byte md reg rm) div 64 = unat md"
    and "unat (modrm_byte md reg rm) div 8 mod 8 = unat reg mod 8"
    and "unat (modrm_byte md reg rm) mod 8 = unat rm"
proof -
  have "unat (modrm_byte md reg rm) div 64 = unat md \<and> unat (modrm_byte md reg rm) div 8 mod 8 = unat (REG_VALUE reg)
      \<and> unat (modrm_byte md reg rm) mod 8 = unat rm"
    using assms REG_VALUE_cases [of reg] unfolding modrm_byte_def by (elim insertE emptyE) simp_all
  then show "unat (modrm_byte md reg rm) div 64 = unat md"
    "unat (modrm_byte md reg rm) div 8 mod 8 = unat reg mod 8" "unat (modrm_byte md reg rm) mod 8 = unat rm"
    by (simp_all add: REG_VALUE_number)
qed

lemma modrm_code:
  "o_code (0x04 OR push_bit 3 (REG_VALUE reg)) = [modrm_byte 0 reg 4]"
  "o_code (0x05 OR push_bit 3 (REG_VALUE reg)) = [modrm_byte 0 reg 5]"
  "o_code (0x45 OR push_bit 3 (REG_VALUE reg)) = [modrm_byte 1 reg 5]"
  "o_code (0x85 OR push_bit 3 (REG_VALUE reg)) = [modrm_byte 2 reg 5]"
  "o_code (0x05 + REG_VALUE reg * 8) = [modrm_byte 0 reg 5]"
  using REG_VALUE_cases [of reg] unfolding modrm_byte_def
  by (elim insertE emptyE; simp add: o_code_byte)+

lemma modrm_registers:
  "o_code (0xc0 + REG_VALUE r + REG_VALUE reg * 8) = [modrm_byte 3 reg (ucast (REG_VALUE r))]"
  "ucast (0x80 OR push_bit 3 (REG_VALUE reg) OR REG_VALUE r) = modrm_byte 2 reg (ucast (REG_VALUE r))"
  "ucast (0x00 OR push_bit 3 (REG_VALUE reg) OR REG_VALUE r) = modrm_byte 0 reg (ucast (REG_VALUE r))"
  using REG_VALUE_cases [of reg] REG_VALUE_cases [of r] unfolding modrm_byte_def
  by (elim insertE emptyE; simp add: o_code_byte)+

lemma REG_VALUE_byte: "unat (ucast (REG_VALUE r) :: u8) = unat r mod 8"
  "(ucast (REG_VALUE r) :: u8) \<in> {0, 1, 2, 3, 4, 5, 6, 7}"
proof -
  have "unat (ucast (REG_VALUE r) :: u8) = unat (REG_VALUE r)"
    using REG_VALUE_cases [of r] by (elim insertE emptyE) simp_all
  then show "unat (ucast (REG_VALUE r) :: u8) = unat r mod 8" by (simp add: REG_VALUE_number)
  show "(ucast (REG_VALUE r) :: u8) \<in> {0, 1, 2, 3, 4, 5, 6, 7}"
    using REG_VALUE_cases [of r] by (elim insertE emptyE) simp_all
qed

section \<open>The REX prefix\<close>

definition rex_bit :: "u32 \<Rightarrow> bool" where
  "rex_bit r \<longleftrightarrow> r AND VT_VALMASK < VT_CONST \<and> bit r 3"

lemma rex_register_bit: "bit (rex_register r) 3 = rex_bit r"
  by (auto simp: rex_register_def rex_bit_def not_le)

definition rex_byte :: "bool \<Rightarrow> bool \<Rightarrow> bool \<Rightarrow> u8" where
  "rex_byte w r b = 0x40 OR of_bool b OR push_bit 2 (of_bool r) OR push_bit 3 (of_bool w)"

lemma rex_prefix_bytes:
  "rex_prefix ll r r2 = (if ll \<or> rex_bit r \<or> rex_bit r2 then [rex_byte ll (rex_bit r2) (rex_bit r)] else [])"
  unfolding rex_prefix_def REX_BASE_bit rex_register_bit
  by (cases ll; cases "rex_bit r"; cases "rex_bit r2") (simp_all add: rex_byte_def o_code_byte)

lemma split_rex_prefix:
  assumes "unat op div 16 \<noteq> 4"
  shows "split_rex (rex_prefix ll r r2 @ op # rest) =
    (\<lparr>present = ll \<or> rex_bit r \<or> rex_bit r2, rex_w = ll, rex_r = rex_bit r2, rex_b = rex_bit r\<rparr>, op # rest)"
  unfolding rex_prefix_bytes
  by (cases ll; cases "rex_bit r"; cases "rex_bit r2")
    (simp_all add: split_rex_def assms rex_byte_def bit_simps)

lemma decode_prefixed:
  assumes "unat op div 16 \<noteq> 4" and "op \<noteq> 0x66"
  shows "decode (rex_prefix ll r r2 @ op # rest) =
    (let x = \<lparr>present = ll \<or> rex_bit r \<or> rex_bit r2, rex_w = ll, rex_r = rex_bit r2, rex_b = rex_bit r\<rparr>;
         w = if ll then 8 else 4
     in if op = 0x0f then decode_two_byte w x rest else decode_one_byte w x op rest)"
proof -
  have "hd (rex_prefix ll r r2 @ op # rest) \<noteq> 0x66"
    unfolding rex_prefix_bytes using assms(2)
    by (cases ll; cases "rex_bit r"; cases "rex_bit r2") (simp_all add: rex_byte_def)
  then show ?thesis using assms by (simp add: decode_def split_rex_prefix)
qed

lemma decode_narrow:
  assumes "unat op div 16 \<noteq> 4" and "op \<noteq> 0x0f"
  shows "decode (0x66 # rex_prefix False r r2 @ op # rest) =
     decode_one_byte 2 \<lparr>present = rex_bit r \<or> rex_bit r2, rex_w = False, rex_r = rex_bit r2, rex_b = rex_bit r\<rparr> op rest"
  using assms by (simp add: decode_def split_rex_prefix)

section \<open>Immediates\<close>

lemma of_le_le_bytes: "of_le (le_bytes n x) = take_bit (8 * n) x"
proof (induction n arbitrary: x)
  case (Suc n)
  show ?case by (rule bit_word_eqI) (auto simp: Suc bit_simps)
qed simp

lemma length_le_bytes [simp]: "length (le_bytes n x) = n"
  by (induction n arbitrary: x) simp_all

lemma fetch_le [simp]: "fetch n (le_bytes n x @ rest) = Some (take_bit (8 * n) x, rest)"
  by (simp add: fetch_def of_le_le_bytes)

lemma fetch_byte [simp]: "fetch (Suc 0) (b # rest) = Some (ucast b, rest)"
  by (simp add: fetch_def)

lemma sign_extend_take: "0 < n \<Longrightarrow> sign_extend n (take_bit (8 * n) x) = sign_extend n x"
  by (cases n) (simp_all add: sign_extend_def signed_take_bit_take_bit)

lemma sign_extend_word: "sign_extend 4 (ucast (c :: u32)) = scast c"
  unfolding sign_extend_def by (rule bit_word_eqI) (auto simp: bit_simps min_def)

lemma sign_extend_byte: "sign_extend 1 (ucast (b :: u8)) = scast b"
  unfolding sign_extend_def by (rule bit_word_eqI) (auto simp: bit_simps min_def)

section \<open>The low half of a word\<close>

lemma uint_low: "uint (take_bit 32 (x :: u64)) = uint x mod 4294967296"
  by (simp only: unsigned_take_bit_eq) (simp add: take_bit_eq_mod)

lemma low_eq_iff: "take_bit 32 x = take_bit 32 (y :: u64) \<longleftrightarrow> uint x mod 4294967296 = uint y mod 4294967296"
  by (simp only: word_uint_eq_iff uint_low)

lemma uint_plus_low: "uint (x + y :: u64) mod 4294967296 = (uint x + uint y) mod 4294967296"
  by (simp add: uint_word_ariths mod_mod_cancel)

lemma uint_minus_low: "uint (x - y :: u64) mod 4294967296 = (uint x - uint y) mod 4294967296"
  by (simp add: uint_word_ariths mod_mod_cancel)

lemma take_bit_plus_cong: "take_bit 32 x = take_bit 32 y \<Longrightarrow> take_bit 32 (a + x) = take_bit 32 (a + y :: u64)"
  unfolding low_eq_iff uint_plus_low by (rule mod_add_cong [OF refl])

lemma take_bit_minus_cong: "take_bit 32 x = take_bit 32 y \<Longrightarrow> take_bit 32 (x - a) = take_bit 32 (y - a :: u64)"
  unfolding low_eq_iff uint_minus_low by (rule mod_diff_cong [OF _ refl])

lemma low_scast: "take_bit 32 (scast e :: u64) = ucast (e :: u32)"
proof (rule bit_word_eqI)
  fix n
  show "bit (take_bit 32 (scast e :: u64)) n = bit (ucast e :: u64) n"
    by (cases "n < 31"; cases "n = 31") (auto simp: bit_simps dest: bit_imp_le_length)
qed

lemma ucast_minus: "(ucast (c - d :: u32) :: u64) = take_bit 32 (ucast c - ucast d)"
proof -
  have c: "uint (ucast x :: u64) = uint x" for x :: u32 by (rule uint_ucast_u32)
  have "uint (take_bit 32 (ucast c - ucast d :: u64)) = (uint c - uint d) mod 2 ^ 64 mod 2 ^ 32"
    by (simp only: unsigned_take_bit_eq) (simp add: take_bit_eq_mod uint_word_ariths c)
  also have "\<dots> = (uint c - uint d) mod 2 ^ 32" by (simp add: mod_mod_cancel)
  also have "\<dots> = uint (c - d)" by (simp add: uint_word_ariths)
  finally show ?thesis by (intro word_uint_eqI) (simp only: c)
qed

lemma low_scast_minus: "take_bit 32 (a + scast (c - d)) = take_bit 32 (a + (scast c - ucast (d :: u32) :: u64))"
proof (rule take_bit_plus_cong)
  have low: "take_bit 32 (ucast c :: u64) = ucast c" by (rule bit_word_eqI) (auto simp: bit_simps dest: bit_imp_le_length)
  have "take_bit 32 (scast (c - d)) = take_bit 32 (ucast c - ucast d :: u64)"
    by (simp only: low_scast ucast_minus)
  also have "\<dots> = take_bit 32 (scast c - ucast d)"
    by (rule take_bit_minus_cong) (subst low_scast, rule low)
  finally show "take_bit 32 (scast (c - d)) = take_bit 32 (scast c - ucast d :: u64)" .
qed
section \<open>Operands\<close>

text \<open>What the bits of \<open>r\<close> under \<open>VT_VALMASK\<close> say an operand in memory is; \<open>field\<close> is the 32-bit field of a
  symbol.\<close>

definition is_register :: "u32 \<Rightarrow> bool" where
  "is_register r \<longleftrightarrow> (r AND VT_VALMASK < 16 \<or> TREG_MEM \<le> r AND VT_VALMASK \<and> r AND VT_VALMASK < VT_CONST)
     \<and> unat r mod 8 \<noteq> 4 \<and> unat r mod 8 \<noteq> 5"

definition is_operand :: "u32 \<Rightarrow> bool" where
  "is_operand r \<longleftrightarrow> r AND VT_VALMASK = VT_CONST \<or> r AND VT_VALMASK = VT_LOCAL \<or> is_register r"

definition is_symbolic :: "u32 \<Rightarrow> bool" where
  "is_symbolic r \<longleftrightarrow> r AND VT_VALMASK = VT_CONST \<and> r AND VT_SYM \<noteq> 0"

definition operand_bytes :: "u32 \<Rightarrow> u32 \<Rightarrow> u32 \<Rightarrow> u64 \<Rightarrow> u8 list" where
  "operand_bytes reg r c field =
     (if r AND VT_VALMASK = VT_CONST then
        if r AND VT_SYM = 0 then modrm_byte 0 reg 4 # 0x25 # le_bytes 4 (ucast c)
        else modrm_byte 0 reg 5 # le_bytes 4 field
      else if r AND VT_VALMASK = VT_LOCAL then
        if fits_byte c then [modrm_byte 1 reg 5, ucast c] else modrm_byte 2 reg 5 # le_bytes 4 (ucast c)
      else if r AND VT_VALMASK \<ge> TREG_MEM \<and> c \<noteq> 0 then modrm_byte 2 reg (ucast (REG_VALUE r)) # le_bytes 4 (ucast c)
      else [modrm_byte 0 reg (ucast (REG_VALUE r))])"

definition operand_relocs :: "u32 \<Rightarrow> nat \<Rightarrow> u32 \<Rightarrow> piece_reloc list" where
  "operand_relocs r s c = (if is_symbolic r then [(1, s, R_X86_64_PC32, scast (c - 4))] else [])"

definition operand_place :: "u32 \<Rightarrow> u32 \<Rightarrow> u64 \<Rightarrow> place" where
  "operand_place r c field =
     (if r AND VT_VALMASK = VT_CONST then
        if r AND VT_SYM = 0 then At_address (scast c) else At_rip (sign_extend 4 field)
      else if r AND VT_VALMASK = VT_LOCAL then In_memory 5 (scast c)
      else In_memory (reg_number r) (if r AND VT_VALMASK \<ge> TREG_MEM then scast c else 0))"

lemma o_code_SIB: "o_code 0x25 = [0x25]" by (simp add: o_code_byte)

lemmas emits_two = emits_all_append [OF _ emits_all_append [OF _ emits_none], simplified]
lemmas emits_two_plain = emits_all_plain [OF _ emits_all_plain [OF _ emits_none], simplified]

lemma emits_modrm:
  "emits (gen_modrm_impl reg r s c False) (operand_bytes reg r c 0) (operand_relocs r s c)"
proof (cases "r AND VT_VALMASK = VT_CONST")
  case True
  show ?thesis
  proof (cases "r AND VT_SYM = 0")
    case plain: True
    show ?thesis
      using emits_two_plain [OF emits_o [of "0x04 OR push_bit 3 (REG_VALUE reg)"] emits_oad [of "0x25" c]] True plain
      by (simp add: gen_modrm_impl_def Let_def operand_bytes_def operand_relocs_def is_symbolic_def modrm_code o_code_SIB)
  next
    case plain: False
    show ?thesis
      using emits_two [OF emits_o [of "0x05 OR push_bit 3 (REG_VALUE reg)"] emits_addrpc32 [OF plain]] True plain
      by (simp add: gen_modrm_impl_def Let_def operand_bytes_def operand_relocs_def is_symbolic_def modrm_code moved_def)
  qed
next
  case const: False
  show ?thesis
  proof (cases "r AND VT_VALMASK = VT_LOCAL")
    case True
    then show ?thesis
      using emits_two_plain [OF emits_o [of "0x45 OR push_bit 3 (REG_VALUE reg)"] emits_g [of c]]
        emits_oad [of "0x85 OR push_bit 3 (REG_VALUE reg)" c] const
      by (simp add: gen_modrm_impl_def Let_def operand_bytes_def operand_relocs_def is_symbolic_def modrm_code)
  next
    case False
    then show ?thesis
      using emits_two_plain [OF emits_g [of "0x80 OR push_bit 3 (REG_VALUE reg) OR REG_VALUE r"] emits_le32 [of c]]
        emits_g [of "0x00 OR push_bit 3 (REG_VALUE reg) OR REG_VALUE r"] const
      by (auto simp: gen_modrm_impl_def Let_def operand_bytes_def operand_relocs_def is_symbolic_def modrm_registers
          simp del: or.left_neutral)
  qed
qed

lemma displaced_le: "displaced 4 p (le_bytes 4 x @ rest) = Some (p (sign_extend 4 x), rest)"
proof -
  have "sign_extend 4 (take_bit 32 x) = sign_extend 4 x" using sign_extend_take [of 4 x] by simp
  then show ?thesis by (simp add: displaced_def)
qed

lemma displaced_byte: "fits_byte c \<Longrightarrow> displaced 1 p (ucast c # rest) = Some (p (scast c), rest)"
proof -
  assume "fits_byte c"
  moreover have "scast (scast (b :: u8) :: u32) = (scast b :: u64)" for b
    by (rule bit_word_eqI) (auto simp: bit_simps min_def)
  ultimately have "scast (ucast c :: u8) = (scast c :: u64)"
    unfolding fits_byte_def by metis
  then show ?thesis using sign_extend_byte [of "ucast c"] by (simp add: displaced_def)
qed

lemma rex_bit_register: "is_register r \<Longrightarrow> rex_bit r = bit r 3"
proof -
  assume "is_register r"
  then have "r AND VT_VALMASK < VT_CONST"
    unfolding is_register_def VT_CONST_def by (auto elim: order.strict_trans)
  then show ?thesis by (simp add: rex_bit_def)
qed

lemma rex_bit_constant: "\<not> r AND VT_VALMASK < VT_CONST \<Longrightarrow> \<not> rex_bit r"
  by (simp add: rex_bit_def)

lemma register_not_frame: "is_register r \<Longrightarrow> r AND VT_VALMASK \<noteq> VT_CONST \<and> r AND VT_VALMASK \<noteq> VT_LOCAL"
  unfolding is_register_def VT_CONST_def VT_LOCAL_def by auto

text \<open>The operand the processor decodes is the place meant, whatever follows it.\<close>

lemma decode_modrm_operand:
  assumes "is_operand r"
  shows "decode_modrm rr (rex_bit r) (operand_bytes reg r c field @ rest) =
    Some (numbered rr (unat reg mod 8), operand_place r c field, rest)"
proof -
  have u5: "unat (5 :: u8) = 5" and u4: "unat (4 :: u8) = 4" by simp_all
  consider (const) "r AND VT_VALMASK = VT_CONST" | (frame) "r AND VT_VALMASK = VT_LOCAL" | (reg) "is_register r"
    using assms by (auto simp: is_operand_def)
  then show ?thesis
  proof cases
    case const
    have "sign_extend 4 (ucast c) = scast c" by (rule sign_extend_word)
    then show ?thesis
      using const by (simp add: operand_bytes_def operand_place_def decode_modrm_def modrm_fields decode_operand_def displaced_le)
  next
    case frame
    have e: "sign_extend 4 (ucast c) = scast c" by (rule sign_extend_word)
    have nb: "\<not> rex_bit r" using frame by (intro rex_bit_constant) (simp add: VT_LOCAL_def VT_CONST_def)
    have nc: "r AND VT_VALMASK \<noteq> VT_CONST" using frame by (simp add: VT_LOCAL_def VT_CONST_def)
    show ?thesis
      using frame nb nc e displaced_byte [of c]
      by (simp add: operand_bytes_def operand_place_def decode_modrm_def modrm_fields decode_operand_def displaced_le numbered_def)
  next
    case reg
    then have n: "unat r mod 8 \<noteq> 4" "unat r mod 8 \<noteq> 5" by (simp_all add: is_register_def)
    have e: "sign_extend 4 (ucast c) = scast c" by (rule sign_extend_word)
    show ?thesis
      using register_not_frame [OF reg] n e REG_VALUE_byte(2) [of r]
      unfolding rex_bit_register [OF reg]
      by (simp add: operand_bytes_def operand_place_def decode_modrm_def modrm_fields decode_operand_def displaced_le
          REG_VALUE_byte(1) numbered_mod)
  qed
qed

lemma decode_modrm_registers:
  "decode_modrm rr rb (modrm_byte 3 reg (ucast (REG_VALUE r)) # rest) =
    Some (numbered rr (unat reg mod 8), In_register (numbered rb (unat r mod 8)), rest)"
  using REG_VALUE_byte(2) [of r]
  by (simp add: decode_modrm_def modrm_fields decode_operand_def REG_VALUE_byte(1))

lemma operand_not_empty: "operand_bytes reg r c field \<noteq> []"
  by (simp add: operand_bytes_def)

section \<open>Running code\<close>

lemma run_for_more: "run_for n bs s = Some s' \<Longrightarrow> n \<le> m \<Longrightarrow> run_for m bs s = Some s'"
proof (induction n arbitrary: bs s m)
  case 0
  then show ?case by (cases m) (auto split: if_splits)
next
  case (Suc n)
  then obtain k where "m = Suc k" "n \<le> k" by (cases m) auto
  then show ?case using Suc by (auto split: if_splits simp: bind_eq_Some_conv)
qed

lemma run_code_step:
  assumes "step bs s = Some (rest, s1)" and "run_code rest s1 = Some s'" and "length rest < length bs"
  shows "run_code bs s = Some s'"
proof -
  obtain n where n: "length bs = Suc n" "length rest \<le> n" using assms(3) by (cases bs) auto
  have "run_for n rest s1 = Some s'" using run_for_more assms(2) n(2) unfolding run_code_def by blast
  then show ?thesis using n(1) assms(1) by (auto simp: run_code_def)
qed

lemma run_code_last: "step bs s = Some ([], s') \<Longrightarrow> bs \<noteq> [] \<Longrightarrow> run_code bs s = Some s'"
  using run_code_step [of bs s "[]" s' s'] by (simp add: run_code_def)

definition jumps :: "instruction \<Rightarrow> bool" where
  "jumps i \<longleftrightarrow> (\<exists>d. i = Skip d) \<or> (\<exists>cc d. i = Skip_if cc d)"

lemma step_decoded:
  "decode (bs @ rest) = Some (i, rest) \<Longrightarrow> \<not> jumps i \<Longrightarrow>
    step (bs @ rest) s = Some (rest, (execute (rip s + of_nat (length bs)) i s)\<lparr>rip := rip s + of_nat (length bs)\<rparr>)"
  by (cases i) (simp_all add: step_def skipped_def jumps_def Let_def)

text \<open>Executing a piece of code with whatever follows it comes to the end of the piece in state \<open>s'\<close>.\<close>

definition executes :: "u8 list \<Rightarrow> cpu \<Rightarrow> cpu \<Rightarrow> bool" where
  "executes bs s s' \<longleftrightarrow> (\<forall>rest s2. run_code rest s' = Some s2 \<longrightarrow> run_code (bs @ rest) s = Some s2)"

lemma executes_run: "executes bs s s' \<Longrightarrow> run_code bs s = Some s'"
  unfolding executes_def by (elim allE [of _ "[]"]) (simp add: run_code_def)

lemma executes_nothing: "executes [] s s"
  by (simp add: executes_def)

lemma executes_append: "executes bs s s1 \<Longrightarrow> executes cs s1 s2 \<Longrightarrow> executes (bs @ cs) s s2"
  by (simp add: executes_def)

lemma executes_one:
  assumes "\<And>rest. decode (bs @ rest) = Some (i, rest)" and "\<not> jumps i" and "bs \<noteq> []"
  shows "executes bs s ((execute (rip s + of_nat (length bs)) i s)\<lparr>rip := rip s + of_nat (length bs)\<rparr>)"
  unfolding executes_def
proof (intro allI impI)
  fix rest s2
  assume "run_code rest ((execute (rip s + of_nat (length bs)) i s)\<lparr>rip := rip s + of_nat (length bs)\<rparr>) = Some s2"
  then show "run_code (bs @ rest) s = Some s2"
    by (rule run_code_step [OF step_decoded [OF assms(1,2)]]) (use assms(3) in simp)
qed

end
