(* ===== verification/X86LoadForms.thy ===== *)
theory X86LoadForms imports X86Encode
begin

text \<open>
  The code of a load from memory: the types it depends on, its bytes, linking the distance to a symbol into them, and
  what the processor does when it executes them.
\<close>

section \<open>Types in memory\<close>

definition load_size :: "u32 \<Rightarrow> nat" where
  "load_size t =
     (if t AND VT_BTYPE = VT_BYTE \<or> t AND VT_BTYPE = VT_BOOL then 1 else if t AND VT_BTYPE = VT_SHORT then 2
      else if t AND VT_BTYPE = VT_INT then 4 else 8)"

text \<open>Integers and pointers; a narrow type has no attributes apart from its sign and its qualifiers.\<close>

definition attributes :: u32 where
  "attributes = VT_DEFSIGN OR VT_RVALUE_REFERENCE OR VT_VOLATILE OR VT_CONSTANT OR VT_WCHAR_T"

definition is_scalar :: "u32 \<Rightarrow> bool" where
  "is_scalar t \<longleftrightarrow> t AND VT_BTYPE \<in> {VT_INT, VT_LLONG, VT_PTR, VT_FUNC, VT_NULLPTR}
     \<or> t AND VT_BTYPE \<in> {VT_BYTE, VT_BOOL, VT_SHORT}
       \<and> t AND VT_TYPE AND NOT (attributes OR VT_BTYPE OR VT_UNSIGNED) = 0"

text \<open>The register after a load: narrow values are extended to 32 bits by their sign, the upper half is 0.\<close>

definition loaded :: "u32 \<Rightarrow> u64 \<Rightarrow> u64" where
  "loaded t x =
     (if load_size t < 4 \<and> t AND VT_UNSIGNED = 0 then zero_extend 4 (sign_extend (load_size t) x) else x)"

lemmas type_bits = VT_DEFSIGN_def VT_RVALUE_REFERENCE_def VT_VOLATILE_def VT_CONSTANT_def VT_WCHAR_T_def
  VT_BTYPE_def VT_TYPE_def VT_STORAGE_def VT_STRUCT_MASK_def VT_BITFIELD_def VT_EXTERN_def VT_STATIC_def
  VT_TYPEDEF_def VT_INLINE_def VT_UNSIGNED_def

lemmas basic_types = VT_VOID_def VT_BYTE_def VT_SHORT_def VT_INT_def VT_LLONG_def VT_PTR_def VT_FUNC_def VT_STRUCT_def
  VT_FLOAT_def VT_DOUBLE_def VT_LDOUBLE_def VT_BOOL_def VT_NULLPTR_def

definition storage_type :: "u32 \<Rightarrow> u32" where
  "storage_type t = CHARACTER_STORAGE_TYPE (load_flags_of t)"

lemma and_not_clear: "(x :: u32) AND m = 0 \<Longrightarrow> x AND NOT m = x"
proof (rule bit_word_eqI)
  fix n
  assume z: "x AND m = 0"
  have "\<not> bit (x AND m) n" unfolding z by simp
  moreover assume "n < LENGTH(32)"
  ultimately show "bit (x AND NOT m) n = bit x n" by (auto simp: bit_and_iff bit_not_iff)
qed

lemma storage_type_masked: "storage_type t = t AND NOT attributes"
proof -
  have f: "load_flags_of t = t AND NOT (VT_DEFSIGN OR VT_RVALUE_REFERENCE OR VT_VOLATILE OR VT_CONSTANT)"
    unfolding load_flags_of_def by (simp add: and.assoc type_bits)
  show ?thesis
  proof (cases "load_flags_of t AND VT_WCHAR_T = 0")
    case True
    then have "load_flags_of t = load_flags_of t AND NOT VT_WCHAR_T" by (simp add: and_not_clear)
    then show ?thesis using True
      unfolding storage_type_def CHARACTER_STORAGE_TYPE_def attributes_def f by (simp add: and.assoc type_bits)
  next
    case False
    then show ?thesis
      unfolding storage_type_def CHARACTER_STORAGE_TYPE_def attributes_def f by (simp add: and.assoc type_bits)
  qed
qed

lemma storage_type_basic: "storage_type t AND VT_BTYPE = t AND VT_BTYPE"
  unfolding storage_type_masked attributes_def by (simp add: and.assoc type_bits)

lemma type_basic: "t AND VT_TYPE = v \<Longrightarrow> t AND VT_BTYPE = v AND VT_BTYPE"
proof -
  assume "t AND VT_TYPE = v"
  then have "t AND (VT_TYPE AND VT_BTYPE) = v AND VT_BTYPE" by (metis and.assoc)
  then show ?thesis by (simp add: type_bits)
qed

lemma narrow_type:
  assumes "t AND VT_TYPE AND NOT (attributes OR VT_BTYPE OR VT_UNSIGNED) = 0"
  shows "storage_type t AND VT_TYPE = (t AND VT_BTYPE) OR (t AND VT_UNSIGNED)"
proof -
  have "storage_type t AND VT_TYPE = t AND VT_TYPE AND NOT attributes"
    unfolding storage_type_masked by (simp add: ac_simps)
  also have "\<dots> = (t AND VT_TYPE AND NOT attributes) AND NOT (NOT (VT_BTYPE OR VT_UNSIGNED))"
    by (rule and_not_clear [symmetric]) (use assms in \<open>simp add: ac_simps bit.de_Morgan_disj\<close>)
  also have "\<dots> = t AND (VT_TYPE AND NOT attributes AND (VT_BTYPE OR VT_UNSIGNED))"
    by (simp add: and.assoc)
  also have "VT_TYPE AND NOT attributes AND (VT_BTYPE OR VT_UNSIGNED) = VT_BTYPE OR VT_UNSIGNED"
    by (simp add: attributes_def type_bits)
  finally show ?thesis by (simp add: bit.conj_disj_distrib)
qed

lemma unsigned_cases: "t AND VT_UNSIGNED = 0 \<or> t AND VT_UNSIGNED = VT_UNSIGNED"
proof -
  define p :: u32 where "p = push_bit 4 1"
  have "bit p n \<longleftrightarrow> n = 4" for n unfolding p_def bit_push_bit_iff bit_1_iff by auto
  then have "t AND p = (if bit t 4 then p else 0)" by (intro bit_word_eqI) (auto simp: bit_and_iff)
  moreover have "VT_UNSIGNED = p" by (simp add: p_def VT_UNSIGNED_def)
  ultimately show ?thesis by metis
qed

definition load_opcode :: "u32 \<Rightarrow> u32" where
  "load_opcode t =
     (if load_size t = 1 then if t AND VT_UNSIGNED = 0 then 0xbe0f else 0xb60f
      else if load_size t = 2 then if t AND VT_UNSIGNED = 0 then 0xbf0f else 0xb70f else 0x8b)"

lemma is64_size: "t AND VT_BTYPE \<in> {VT_INT, VT_LLONG, VT_PTR, VT_FUNC, VT_NULLPTR} \<Longrightarrow> is64_type t \<longleftrightarrow> load_size t = 8"
  unfolding is64_type_def load_size_def basic_types by auto

lemma load_form_scalar:
  assumes "is_scalar t"
  shows "load_form (storage_type t) r = Some (Load_form (load_opcode t) r (load_size t = 8))"
proof -
  note b = storage_type_basic [of t]
  consider (wide) "t AND VT_BTYPE \<in> {VT_INT, VT_LLONG, VT_PTR, VT_FUNC, VT_NULLPTR}"
    | (narrow) "t AND VT_BTYPE \<in> {VT_BYTE, VT_BOOL, VT_SHORT}"
      "t AND VT_TYPE AND NOT (attributes OR VT_BTYPE OR VT_UNSIGNED) = 0"
    using assms by (auto simp: is_scalar_def)
  then show ?thesis
  proof cases
    case wide
    have n: "storage_type t AND VT_TYPE \<noteq> v" if "v AND VT_BTYPE \<notin> {VT_INT, VT_LLONG, VT_PTR, VT_FUNC, VT_NULLPTR}" for v
      using type_basic [of "storage_type t" v] that wide b by auto
    have "is64_type (storage_type t) \<longleftrightarrow> load_size t = 8"
      using is64_size [of t] wide unfolding is64_type_def b by simp
    moreover have "load_opcode t = 0x8b"
      using wide unfolding load_opcode_def load_size_def basic_types by auto
    moreover have "storage_type t AND VT_BTYPE \<notin> {VT_FLOAT, VT_DOUBLE, VT_LDOUBLE}"
      using wide unfolding b basic_types by auto
    moreover have "storage_type t AND VT_TYPE \<notin> {VT_BYTE, VT_BOOL, VT_BYTE OR VT_UNSIGNED, VT_BOOL OR VT_UNSIGNED,
        VT_SHORT, VT_SHORT OR VT_UNSIGNED, VT_VOID}"
      using n by (auto simp: basic_types type_bits)
    ultimately show ?thesis using wide unfolding load_form_def b by auto
  next
    case narrow
    note ty = narrow_type [OF narrow(2)]
    have "storage_type t AND VT_BTYPE \<notin> {VT_FLOAT, VT_DOUBLE, VT_LDOUBLE}"
      using narrow(1) unfolding b basic_types by auto
    then show ?thesis
      using narrow(1) unsigned_cases [of t] unfolding load_form_def ty load_opcode_def load_size_def
      by (elim insertE emptyE disjE) (simp_all add: basic_types VT_UNSIGNED_def)
  qed
qed

section \<open>A load from memory\<close>

lemma small_register:
  assumes "r < 16"
  shows "rex_bit r = bit r 3" and "r AND TREG_MEM = 0" and "r AND VT_VALMASK = r" and "reg_number r = unat r"
proof -
  have u: "unat r < 16" using assms by (simp add: word_less_nat_alt)
  have "take_bit 4 r = r" using u by (intro word_unat_eq_iff [THEN iffD2]) (simp add: unsigned_take_bit_eq take_bit_nat_eq_self)
  then have m: "r AND 0xf = r" by (simp add: take_bit_eq_mask mask_eq_exp_minus_1)
  have c: "(r AND 0xf) AND 0x3f = r AND 0xf" "(r AND 0xf) AND 0x20 = 0" by (simp_all add: and.assoc)
  show v: "r AND VT_VALMASK = r" using c(1) unfolding VT_VALMASK_def by (simp only: m)
  show "r AND TREG_MEM = 0" using c(2) unfolding TREG_MEM_def by (simp only: m)
  show "rex_bit r = bit r 3" using v assms by (simp add: rex_bit_def VT_CONST_def word_less_nat_alt)
  show "reg_number r = unat r" using assms by (simp add: reg_number_def word_less_nat_alt)
qed

lemma load_opcode_cases: "load_opcode t \<in> {0x8b, 0xbe0f, 0xb60f, 0xbf0f, 0xb70f}"
  by (simp add: load_opcode_def)

lemma o_code_two: "c \<ge> 256 \<Longrightarrow> c < 65536 \<Longrightarrow> o_code c = [ucast c, ucast (drop_bit 8 c)]"
proof -
  assume c: "c \<ge> 256" "c < 65536"
  then have u: "256 \<le> unat c" "unat c < 65536" by (simp_all add: word_less_nat_alt word_le_nat_alt)
  have d: "unat (drop_bit 8 c) = unat c div 256" by (simp add: drop_bit_eq_div unat_div)
  have "drop_bit 8 c \<noteq> 0" using d u by (metis div_greater_zero_iff less_numeral_extra(3) unat_0 zero_less_numeral)
  moreover have "drop_bit 8 c < 256" using d u by (simp add: word_less_nat_alt)
  ultimately have "o_code (drop_bit 8 c) = [ucast (drop_bit 8 c)]" by (rule o_code_byte)
  moreover have "c \<noteq> 0" using u by auto
  ultimately show ?thesis by (simp add: o_code.simps [of c])
qed

lemma opcode_bytes:
  "o_code 0x8b = [0x8b]" "o_code 0xbe0f = [0x0f, 0xbe]" "o_code 0xb60f = [0x0f, 0xb6]" "o_code 0xbf0f = [0x0f, 0xbf]"
  "o_code 0xb70f = [0x0f, 0xb7]"
  by (simp_all add: o_code_byte o_code_two)

definition load_instruction :: "u32 \<Rightarrow> bool \<Rightarrow> bool \<Rightarrow> nat \<Rightarrow> place \<Rightarrow> instruction" where
  "load_instruction t high ll r p =
     (if load_size t \<ge> 4 then Mov_from (if ll then 8 else 4) r p
      else Mov_extended (t AND VT_UNSIGNED = 0) (load_size t) (if ll then 8 else 4) high r p)"

lemma load_size_cases: "load_size t \<in> {1, 2, 4, 8}" by (simp add: load_size_def)

lemma decode_load:
  assumes "is_operand fr" and "r < 16"
  shows "decode (rex_prefix ll fr r @ o_code (load_opcode t) @ operand_bytes r fr c field @ rest) =
    Some (load_instruction t (\<not> (ll \<or> rex_bit fr \<or> rex_bit r)) ll (reg_number r) (operand_place fr c field), rest)"
proof -
  have n: "numbered (rex_bit r) (unat r mod 8) = reg_number r"
    using small_register(1) [OF assms(2)] numbered_mod by simp
  show ?thesis
    using decode_modrm_operand [OF assms(1)] n load_size_cases [of t]
    unfolding load_opcode_def load_instruction_def
    by (elim insertE emptyE)
      (simp_all add: opcode_bytes decode_prefixed decode_two_byte_def decode_one_byte_def with_modrm_def Let_def)
qed

section \<open>Linking a piece of code\<close>

text \<open>The linker adds the distance to the symbol's address \<open>S\<close> to a field of a piece of code at address \<open>p\<close>
  (\<open>S + A - P\<close>, see \<open>relocate_pc32\<close>).\<close>

primrec linked :: "(nat \<Rightarrow> u64) \<Rightarrow> u64 \<Rightarrow> u8 list \<Rightarrow> piece_reloc list \<Rightarrow> u8 list" where
  "linked S p bs [] = bs"
| "linked S p bs (r # rs) =
     (case r of (k, s, ty, a) \<Rightarrow>
        linked S p (if ty = R_X86_64_PC32 then write32le bs k (read32le bs k + ucast (S s + a - (p + of_nat k))) else bs) rs)"

definition link_field :: "(nat \<Rightarrow> u64) \<Rightarrow> u64 \<Rightarrow> nat \<Rightarrow> nat \<Rightarrow> u32 \<Rightarrow> u64" where
  "link_field S p k s c = ucast (ucast (S s + scast (c - 4) - (p + of_nat k)) :: u32)"

lemma write32_end:
  "write32le (xs @ le_bytes 4 y) (length xs) x = xs @ le_bytes 4 (ucast x)"
proof -
  have "ucast (ucast x AND 255 :: u16) = (ucast (ucast x :: u64) :: u8)"
    "ucast (drop_bit 8 (ucast x :: u16) AND 255) = (ucast (drop_bit 8 (ucast x :: u64)) :: u8)"
    "ucast (ucast (drop_bit 16 x) AND 255 :: u16) = (ucast (drop_bit 16 (ucast x :: u64)) :: u8)"
    "ucast (drop_bit 8 (ucast (drop_bit 16 x) :: u16) AND 255) = (ucast (drop_bit 24 (ucast x :: u64)) :: u8)"
    unfolding low_byte by (rule bit_word_eqI; auto simp: bit_simps)+
  then show ?thesis
    by (simp add: write32le_def write16le_def le_bytes_4 list_update_append)
qed

lemma read32_zero: "read32le (xs @ le_bytes 4 0) (length xs) = 0"
  by (simp add: read32le_def read16le_def le_bytes_4 nth_append)

lemma linked_operand:
  "linked S p (pre @ operand_bytes r fr c 0) (List.map (moved (length pre)) (operand_relocs fr s c)) =
     pre @ operand_bytes r fr c (link_field S p (length pre + 1) s c)"
proof (cases "is_symbolic fr")
  case True
  have b: "pre @ operand_bytes r fr c f = (pre @ [modrm_byte 0 r 5]) @ le_bytes 4 f" for f
    using True by (simp add: operand_bytes_def is_symbolic_def)
  have "length pre + 1 = length (pre @ [modrm_byte 0 r 5])" by simp
  then show ?thesis
    using True unfolding b operand_relocs_def
    by (simp only: if_True list.map linked.simps moved_def prod.case read32_zero write32_end link_field_def) simp
next
  case False
  then show ?thesis by (auto simp: operand_relocs_def operand_bytes_def is_symbolic_def)
qed

section \<open>Addresses\<close>

definition operand_address :: "(nat \<Rightarrow> u64) \<Rightarrow> cpu \<Rightarrow> u32 \<Rightarrow> nat \<Rightarrow> u64 \<Rightarrow> u64" where
  "operand_address S s fr y c =
     (if fr AND VT_VALMASK = VT_CONST then (if fr AND VT_SYM \<noteq> 0 then S y else 0) + c
      else if fr AND VT_VALMASK = VT_LOCAL then gpr s 5 + c
      else gpr s (reg_number fr) + (if fr AND VT_VALMASK \<ge> TREG_MEM then c else 0))"

text \<open>The symbol is within the reach of a 32-bit distance from the end of the code.\<close>

definition reached :: "u64 \<Rightarrow> u64 \<Rightarrow> bool" where
  "reached a next \<longleftrightarrow> sign_extend 4 (a - next) = a - next"

lemma link_field_reaches:
  assumes "reached (S y + scast c) (p + of_nat k + 4)"
  shows "p + of_nat k + 4 + sign_extend 4 (link_field S p k y c) = S y + scast (c :: u32)"
proof -
  have low: "ucast (ucast x :: u32) = take_bit 32 (x :: u64)" for x by (rule bit_word_eqI) (auto simp: bit_simps)
  define q where "q = p + of_nat k"
  have "S y + scast (c - 4) - q = (S y - q) + scast (c - 4)" by (simp only: diff_add_eq)
  then have "link_field S p k y c = take_bit 32 ((S y - q) + (scast c - ucast (4 :: u32)))"
    unfolding link_field_def low q_def by (simp only: low_scast_minus)
  also have "(S y - q) + (scast c - ucast (4 :: u32)) = S y + scast c - (q + 4)" by simp
  finally have "sign_extend 4 (link_field S p k y c) = sign_extend 4 (S y + scast c - (q + 4))"
    using sign_extend_take [of 4] by simp
  then show ?thesis using assms unfolding reached_def q_def by simp
qed

lemma place_address_operand:
  assumes "is_symbolic fr \<longrightarrow> reached (S y + scast c) (p + of_nat k + 4)"
  shows "place_address s (p + of_nat k + (if is_symbolic fr then 4 else m)) (operand_place fr c (link_field S p k y c)) =
    operand_address S s fr y (scast c)"
proof (cases "is_symbolic fr")
  case True
  then show ?thesis using link_field_reaches [of S y c p k] assms
    by (simp add: is_symbolic_def place_address_def operand_place_def operand_address_def)
next
  case False
  then show ?thesis by (simp add: is_symbolic_def place_address_def operand_place_def operand_address_def)
qed

lemma length_operand_symbolic: "is_symbolic fr \<Longrightarrow> length (operand_bytes r fr c field) = 5"
  by (simp add: is_symbolic_def operand_bytes_def)

text \<open>A field linked in a piece of code \<open>pre @ operand_bytes r fr c 0\<close> gives the address of the operand.\<close>

lemma place_address_linked:
  assumes "is_symbolic fr \<longrightarrow> reached (S y + scast c) (p + of_nat n)"
    and "n = length (pre @ operand_bytes r fr c 0)"
  shows "place_address s (p + of_nat n) (operand_place fr c (link_field S p (length pre + 1) y c)) =
    operand_address S s fr y (scast c)"
proof (cases "is_symbolic fr")
  case True
  then have "n = length pre + 1 + 4" using assms(2) length_operand_symbolic by simp
  then have e: "p + of_nat n = p + of_nat (length pre + 1) + 4" by simp
  have "is_symbolic fr \<longrightarrow> reached (S y + scast c) (p + of_nat (length pre + 1) + 4)" using assms(1) unfolding e .
  from place_address_operand [of fr S y c p "length pre + 1" s, OF this] True
  show ?thesis unfolding e by simp
next
  case False
  then show ?thesis by (simp add: is_symbolic_def place_address_def operand_place_def operand_address_def)
qed

section \<open>Reading memory\<close>

lemma of_le_less: "take_bit (8 * length bs) (of_le bs) = of_le bs"
proof (induction bs)
  case (Cons b bs)
  have "bit (of_le bs) k \<Longrightarrow> k < 8 * length bs" for k
    using arg_cong [OF Cons, of "\<lambda>x. bit x k"] by (simp add: bit_take_bit_iff)
  then show ?case
    by (intro bit_word_eqI) (force simp: bit_simps dest: bit_imp_le_length)
qed simp

lemma read_mem_less: "zero_extend n (read_mem n m a) = read_mem n m a"
  using of_le_less [of "List.map (\<lambda>i. m (a + of_nat i)) [0..<n]"] by (simp add: zero_extend_def read_mem_def)

lemma zero_extend_wider: "zero_extend n x = x \<Longrightarrow> n \<le> k \<Longrightarrow> zero_extend k x = x"
proof -
  assume e: "zero_extend n x = x" and "n \<le> k"
  then have "take_bit (8 * k) (take_bit (8 * n) x) = take_bit (8 * n) x" by (simp add: take_bit_take_bit min_absorb2)
  then show ?thesis using e unfolding zero_extend_def by metis
qed

lemma zero_extend_8: "zero_extend 8 x = x"
  unfolding zero_extend_def by (rule bit_word_eqI) (auto simp: bit_simps)

section \<open>Executing a load\<close>

text \<open>What a run of loading code ends in.\<close>

definition sets_register :: "u32 \<Rightarrow> u64 \<Rightarrow> cpu \<Rightarrow> cpu \<Rightarrow> bool" where
  "sets_register r x s s' \<longleftrightarrow> gpr s' = (gpr s)(reg_number r := x) \<and> ram s' = ram s"

definition load_access :: "u32 \<Rightarrow> u32 \<Rightarrow> u32 \<Rightarrow> nat \<Rightarrow> u32 \<Rightarrow> emission" where
  "load_access t r fr y fc =
     (if load_size t = 8 then gen_modrm64 (load_opcode t) r fr y fc
      else emit_all [orex False fr r (load_opcode t), gen_modrm r fr y fc])"

definition load_access_bytes :: "u32 \<Rightarrow> u32 \<Rightarrow> u32 \<Rightarrow> u8 list" where
  "load_access_bytes t r fr = rex_prefix (load_size t = 8) fr r @ o_code (load_opcode t)"

lemma emits_modrm64:
  assumes "r AND TREG_MEM = 0"
  shows "emits (gen_modrm64 op r fr y c) ((rex_prefix True fr r @ o_code op) @ operand_bytes r fr c 0)
    (List.map (moved (length (rex_prefix True fr r @ o_code op))) (operand_relocs fr y c))"
  using emits_two [OF emits_orex [of True fr r op] emits_modrm [of r fr y c]] assms
  by (auto simp: emits_def gen_modrm64_def)

lemma emits_load_access:
  assumes "r < 16"
  shows "emits (load_access t r fr y fc) (load_access_bytes t r fr @ operand_bytes r fr fc 0)
    (List.map (moved (length (load_access_bytes t r fr))) (operand_relocs fr y fc))"
  using emits_modrm64 [OF small_register(2) [OF assms], of "load_opcode t" fr y fc]
    emits_two [OF emits_orex [of False fr r "load_opcode t"] emits_modrm [of r fr y fc]]
  by (simp add: load_access_def load_access_bytes_def gen_modrm_def del: append_assoc)

lemma operand_place_not_register: "operand_place fr c f \<noteq> In_register n"
  by (simp add: operand_place_def)

lemma write_register_wide: "w \<ge> 4 \<Longrightarrow> write_register w h n x s = s\<lparr>gpr := (gpr s)(n := zero_extend w x)\<rparr>"
  by (simp add: write_register_def is_high_byte_def)

lemma execute_load:
  assumes "place_address s next p = a" and "\<And>n. p \<noteq> In_register n"
  shows "execute next (load_instruction t h (load_size t = 8) n p) s =
     s\<lparr>gpr := (gpr s)(n := loaded t (read_mem (load_size t) (ram s) a))\<rparr>"
proof -
  have rd: "read_place w hh next p s = read_mem w (ram s) a" for w hh
    using assms by (cases p) (auto simp: read_place_def)
  have z: "zero_extend 4 (read_mem k m b) = read_mem k m b" if "k \<le> 4" for k m b
    by (rule zero_extend_wider [OF read_mem_less that])
  show ?thesis
    using load_size_cases [of t]
    by (elim insertE emptyE)
      (simp_all add: load_instruction_def execute_def write_register_wide rd loaded_def zero_extend_8 z)
qed

lemma executes_load_access:
  fixes s :: cpu
  assumes "is_operand fr" and "r < 16"
    and "bs = load_access_bytes t r fr @ operand_bytes r fr fc 0"
    and "rs = List.map (moved (length (load_access_bytes t r fr))) (operand_relocs fr y fc)"
    and "is_symbolic fr \<longrightarrow> reached (S y + scast fc) (rip s + of_nat (length bs))"
  shows "\<exists>s'. executes (linked S (rip s) bs rs) s s' \<and>
    sets_register r (loaded t (read_mem (load_size t) (ram s) (operand_address S s fr y (scast fc)))) s s'"
proof -
  define pre where "pre = load_access_bytes t r fr"
  define f where "f = link_field S (rip s) (length pre + 1) y fc"
  define code where "code = pre @ operand_bytes r fr fc f"
  have link: "linked S (rip s) bs rs = code"
    unfolding assms(3,4) pre_def [symmetric] code_def f_def by (rule linked_operand)
  have len: "length code = length bs" unfolding code_def assms(3) pre_def [symmetric]
    by (simp add: operand_bytes_def)
  define i where "i = load_instruction t (\<not> (load_size t = 8 \<or> rex_bit fr \<or> rex_bit r)) (load_size t = 8) (reg_number r) (operand_place fr fc f)"
  have dec: "decode (code @ rest) = Some (i, rest)" for rest
    using decode_load [OF assms(1,2), of "load_size t = 8" t fc f rest]
    by (simp add: code_def pre_def load_access_bytes_def i_def)
  have nj: "\<not> jumps i" by (simp add: i_def load_instruction_def jumps_def)
  have addr: "place_address s (rip s + of_nat (length bs)) (operand_place fr fc f) = operand_address S s fr y (scast fc)"
    unfolding f_def by (rule place_address_linked) (use assms(3,5) in \<open>simp_all add: pre_def\<close>)
  have "executes code s ((execute (rip s + of_nat (length code)) i s)\<lparr>rip := rip s + of_nat (length code)\<rparr>)"
    by (rule executes_one [OF dec nj]) (simp add: code_def operand_not_empty)
  moreover have "execute (rip s + of_nat (length code)) i s = s\<lparr>gpr := (gpr s)(reg_number r :=
      loaded t (read_mem (load_size t) (ram s) (operand_address S s fr y (scast fc))))\<rparr>"
    unfolding i_def by (rule execute_load) (simp_all add: addr len operand_place_not_register)
  ultimately show ?thesis unfolding link sets_register_def by auto
qed

end
