(* ===== verification/X86LoadSpec.thy ===== *)
theory X86LoadSpec imports X86LoadForms
begin

text \<open>
  What the code \<open>load\<close> emits computes: executed by the processor after the linker has filled in its
  symbols, it puts the value its operand stands for into the register and changes no other register and
  no memory.
\<close>

section \<open>Constants and addresses\<close>

lemma numbered_small: "r < 16 \<Longrightarrow> numbered (rex_bit r) (unat r mod 8) = reg_number r"
  using small_register(1) numbered_mod by simp

lemma move_opcode:
  "o_code (0xb8 + REG_VALUE r) = [0xb8 + ucast (REG_VALUE r)]"
  "unat (0xb8 + ucast (REG_VALUE r) :: u8) = 184 + unat r mod 8"
  "o_code (0xb0 + REG_VALUE r) = [0xb0 + ucast (REG_VALUE r)]"
  "unat (0xb0 + ucast (REG_VALUE r) :: u8) = 176 + unat r mod 8"
proof -
  have "o_code (0xb8 + REG_VALUE r) = [0xb8 + ucast (REG_VALUE r)] \<and> unat (0xb8 + ucast (REG_VALUE r) :: u8) = 184 + unat (REG_VALUE r)
    \<and> o_code (0xb0 + REG_VALUE r) = [0xb0 + ucast (REG_VALUE r)] \<and> unat (0xb0 + ucast (REG_VALUE r) :: u8) = 176 + unat (REG_VALUE r)"
    using REG_VALUE_cases [of r] by (elim insertE emptyE; simp add: o_code_byte)
  then show "o_code (0xb8 + REG_VALUE r) = [0xb8 + ucast (REG_VALUE r)]"
    "unat (0xb8 + ucast (REG_VALUE r) :: u8) = 184 + unat r mod 8"
    "o_code (0xb0 + REG_VALUE r) = [0xb0 + ucast (REG_VALUE r)]"
    "unat (0xb0 + ucast (REG_VALUE r) :: u8) = 176 + unat r mod 8"
    by (simp_all add: REG_VALUE_number)
qed

lemma not_byte: "unat (b :: u8) \<noteq> unat c \<Longrightarrow> b \<noteq> c"
  by auto

lemma decode_move_immediate:
  assumes "r < 16" and "n = (if ll then 8 else 4)"
  shows "decode (rex_prefix ll r 0 @ (0xb8 + ucast (REG_VALUE r)) # le_bytes n x @ rest) =
    Some (Mov_immediate n (reg_number r) (zero_extend n x), rest)"
proof -
  define op :: u8 where "op = 0xb8 + ucast (REG_VALUE r)"
  have u: "unat op = 184 + unat r mod 8" unfolding op_def by (rule move_opcode)
  have d: "(184 + unat r mod 8) div 16 = 11" "(184 + unat r mod 8) div 8 = 23" "(184 + unat r mod 8) mod 8 = unat r mod 8"
    by presburger+
  have ne: "op \<notin> {0x66, 0x0f, 0x8b, 0x89, 0x88, 0x8d, 0x85, 0x83, 0x81, 0x6b, 0x69, 0xc1, 0xc6, 0xc7}"
    using u by auto
  have "\<not> unat op < 64" using u by simp
  then show ?thesis
    using ne u d numbered_small [OF assms(1)] assms(2) unfolding op_def [symmetric]
    by (simp add: decode_prefixed decode_one_byte_def zero_extend_def)
qed

lemma executes_move_immediate:
  assumes "r < 16" and "n = (if ll then 8 else 4)"
  shows "\<exists>s'. executes (rex_prefix ll r 0 @ o_code (0xb8 + REG_VALUE r) @ le_bytes n x) s s' \<and>
    sets_register r (zero_extend n x) s s'"
proof -
  let ?bs = "rex_prefix ll r 0 @ o_code (0xb8 + REG_VALUE r) @ le_bytes n x"
  have "executes ?bs s ((execute (rip s + of_nat (length ?bs)) (Mov_immediate n (reg_number r) (zero_extend n x)) s)
      \<lparr>rip := rip s + of_nat (length ?bs)\<rparr>)"
    by (rule executes_one) (use decode_move_immediate [OF assms] in \<open>simp_all add: move_opcode jumps_def\<close>)
  moreover have "zero_extend n (zero_extend n x) = zero_extend n x" by (simp add: zero_extend_def)
  ultimately show ?thesis
    using assms(2) by (auto simp: execute_def write_register_wide sets_register_def)
qed

lemma xor_bytes: "o_code 0x31 = [0x31]" "o_code (0xc0 + REG_VALUE r * 9) = [modrm_byte 3 r (ucast (REG_VALUE r))]"
  using REG_VALUE_cases [of r] unfolding modrm_byte_def by (auto simp: o_code_byte)

lemma executes_clear:
  assumes "r < 16"
  shows "\<exists>s'. executes (rex_prefix False r r @ o_code 0x31 @ o_code (0xc0 + REG_VALUE r * 9)) s s' \<and> sets_register r 0 s s'"
proof -
  let ?bs = "rex_prefix False r r @ o_code 0x31 @ o_code (0xc0 + REG_VALUE r * 9)"
  let ?i = "Arith 6 4 (In_register (reg_number r)) (reg_number r)"
  have "decode (?bs @ rest) = Some (?i, rest)" for rest
    using decode_modrm_registers [of "rex_bit r" "rex_bit r" r r rest] numbered_small [OF assms]
    by (simp add: xor_bytes decode_prefixed decode_one_byte_def with_modrm_def Let_def)
  then have "executes ?bs s ((execute (rip s + of_nat (length ?bs)) ?i s)\<lparr>rip := rip s + of_nat (length ?bs)\<rparr>)"
    by (rule executes_one) (simp_all add: xor_bytes jumps_def)
  then show ?thesis
    by (auto simp: execute_def store_result_def arithmetic_def read_place_def write_place_def write_register_wide sets_register_def
        with_flags_def zero_extend_def)
qed

lemma rex_bit_0: "\<not> rex_bit 0"
  by (simp add: rex_bit_def)

lemma decode_lea:
  assumes "r < 16" and "is_operand fr" and "\<not> rex_bit fr"
  shows "decode (rex_prefix True 0 r @ 0x8d # operand_bytes r fr c field @ rest) =
    Some (Lea (reg_number r) (operand_place fr c field), rest)"
  using decode_modrm_operand [OF assms(2), of "rex_bit r" r c field rest] assms(3) numbered_small [OF assms(1)]
  by (simp add: decode_prefixed decode_one_byte_def with_modrm_def Let_def rex_bit_0)

lemma executes_lea:
  fixes s :: cpu
  assumes "r < 16" and "is_operand fr" and "\<not> rex_bit fr"
    and "bs = (rex_prefix True 0 r @ [0x8d]) @ operand_bytes r fr fc 0"
    and "rs = List.map (moved (length (rex_prefix True 0 r @ [0x8d]))) (operand_relocs fr y fc)"
    and "is_symbolic fr \<longrightarrow> reached (S y + scast fc) (rip s + of_nat (length bs))"
  shows "\<exists>s'. executes (linked S (rip s) bs rs) s s' \<and> sets_register r (operand_address S s fr y (scast fc)) s s'"
proof -
  define pre where "pre = rex_prefix True 0 r @ [0x8d]"
  define f where "f = link_field S (rip s) (length pre + 1) y fc"
  define code where "code = pre @ operand_bytes r fr fc f"
  have link: "linked S (rip s) bs rs = code"
    unfolding assms(4,5) pre_def [symmetric] code_def f_def by (rule linked_operand)
  have len: "length code = length bs" unfolding code_def assms(4) pre_def [symmetric]
    by (simp add: operand_bytes_def)
  have addr: "place_address s (rip s + of_nat (length bs)) (operand_place fr fc f) = operand_address S s fr y (scast fc)"
    unfolding f_def by (rule place_address_linked) (use assms(4,6) in \<open>simp_all add: pre_def\<close>)
  have "decode (code @ rest) = Some (Lea (reg_number r) (operand_place fr fc f), rest)" for rest
    using decode_lea [OF assms(1-3), of fc f rest] by (simp add: code_def pre_def)
  then have "executes code s ((execute (rip s + of_nat (length code)) (Lea (reg_number r) (operand_place fr fc f)) s)
      \<lparr>rip := rip s + of_nat (length code)\<rparr>)"
    by (rule executes_one) (simp_all add: code_def operand_not_empty jumps_def)
  then show ?thesis unfolding link len
    by (auto simp: execute_def addr write_register_wide zero_extend_8 sets_register_def)
qed

section \<open>Registers and comparisons\<close>

lemma decode_move_register:
  assumes "r < 16" and "v < 16"
  shows "decode (rex_prefix ll r v @ 0x89 # modrm_byte 3 v (ucast (REG_VALUE r)) # rest) =
    Some (Mov_to (if ll then 8 else 4) False (In_register (reg_number r)) (reg_number v), rest)"
  using decode_modrm_registers [of "rex_bit v" "rex_bit r" v r rest] numbered_small [OF assms(1)] numbered_small [OF assms(2)]
  by (simp add: decode_prefixed decode_one_byte_def with_modrm_def Let_def)

lemma executes_move_register:
  assumes "r < 16" and "v < 16"
  shows "\<exists>s'. executes (rex_prefix ll r v @ o_code 0x89 @ o_code (0xc0 + REG_VALUE r + REG_VALUE v * 8)) s s' \<and>
    sets_register r (zero_extend (if ll then 8 else 4) (gpr s (reg_number v))) s s'"
proof -
  let ?bs = "rex_prefix ll r v @ o_code 0x89 @ o_code (0xc0 + REG_VALUE r + REG_VALUE v * 8)"
  let ?i = "Mov_to (if ll then 8 else 4) False (In_register (reg_number r)) (reg_number v)"
  have b: "?bs = rex_prefix ll r v @ [0x89, modrm_byte 3 v (ucast (REG_VALUE r))]"
    by (simp add: modrm_registers o_code_byte)
  have "executes ?bs s ((execute (rip s + of_nat (length ?bs)) ?i s)\<lparr>rip := rip s + of_nat (length ?bs)\<rparr>)"
    unfolding b by (rule executes_one) (use decode_move_register [OF assms] in \<open>simp_all add: jumps_def\<close>)
  moreover have "zero_extend 4 (zero_extend 4 x) = zero_extend 4 x" for x by (simp add: zero_extend_def)
  ultimately show ?thesis
    by (auto simp: execute_def write_place_def write_register_wide read_register_def is_high_byte_def zero_extend_8
        sets_register_def)
qed

text \<open>A comparison leaves a condition \<open>op\<close> (\<open>0x90\<close> plus the number of the condition) in the flags.  After a
  comparison of floats the operands may be unordered (parity), which only \<open>!=\<close> takes for true; \<open>cmp\<close> is the
  operator as it was written, \<open>op\<close> may be its inverse.\<close>

definition comparison_holds :: "u32 \<Rightarrow> u32 \<Rightarrow> cpu \<Rightarrow> bool" where
  "comparison_holds cmp op s =
     (if op AND 0x100 \<noteq> 0 \<and> pf s
      then (op AND NOT 0x100 \<noteq> cmp) \<noteq> (cmp = TOK_NE)
      else condition (unat (op AND 0xf)) s)"

definition is_comparison :: "u32 \<Rightarrow> u32 \<Rightarrow> bool" where
  "is_comparison cmp op \<longleftrightarrow> op AND NOT 0x100 \<in> {0x92, 0x93, 0x94, 0x95, 0x96, 0x97, 0x9c, 0x9d, 0x9e, 0x9f}
     \<and> (op AND 0x100 \<noteq> 0 \<longrightarrow> op AND NOT 0x100 = cmp \<or> op AND NOT 0x100 = cmp XOR 1)"

lemma low_register: "r < 4 \<Longrightarrow> r \<in> {0, 1, 2, 3 :: u32}"
proof -
  assume "r < 4"
  then have "unat r < 4" by (simp add: word_less_nat_alt)
  then have "unat r = 0 \<or> unat r = 1 \<or> unat r = 2 \<or> unat r = 3" by linarith
  then have "unat r = unat (0 :: u32) \<or> unat r = unat (1 :: u32) \<or> unat r = unat (2 :: u32) \<or> unat r = unat (3 :: u32)"
    by simp
  then show ?thesis unfolding word_unat_eq_iff [symmetric] by blast
qed

lemma set_condition_bytes:
  assumes "r < 4"
  shows "rex_prefix False r 0 = []" and "o_code (0xc0 + REG_VALUE r) = [modrm_byte 3 0 (ucast (REG_VALUE r))]"
    and "o_code (0xc0b6 + REG_VALUE r * 0x900) = [0xb6, modrm_byte 3 r (ucast (REG_VALUE r))]"
    and "o_code 0x0f = [0x0f]" and "REX_BASE r = 0" and "o_code 0x037a = [0x7a, 0x03]"
proof -
  have "\<not> bit r 3" using assms unfolding bit_number by (simp add: word_less_nat_alt)
  then show "rex_prefix False r 0 = []" by (simp add: rex_prefix_bytes rex_bit_def)
  show "o_code (0xc0 + REG_VALUE r) = [modrm_byte 3 0 (ucast (REG_VALUE r))]"
    using low_register [OF assms] by (auto simp: o_code_byte modrm_byte_def REG_VALUE_def)
  show "o_code (0xc0b6 + REG_VALUE r * 0x900) = [0xb6, modrm_byte 3 r (ucast (REG_VALUE r))]"
    using low_register [OF assms] by (auto simp: o_code_two modrm_byte_def REG_VALUE_def)
  show "REX_BASE r = 0" using low_register [OF assms] by (auto simp: REX_BASE_def)
qed (simp_all add: o_code_byte o_code_two)

definition with_gpr :: "nat \<Rightarrow> u64 \<Rightarrow> nat \<Rightarrow> cpu \<Rightarrow> cpu" where
  "with_gpr n x k s = s\<lparr>gpr := (gpr s)(n := x), rip := rip s + of_nat k\<rparr>"

definition low_byte_set :: "u64 \<Rightarrow> u64 \<Rightarrow> u64" where
  "low_byte_set old x = (old AND NOT (mask 8)) OR zero_extend 1 x"

lemma low_byte_of_set: "zero_extend (Suc 0) (low_byte_set old x) = zero_extend (Suc 0) x"
  unfolding low_byte_set_def zero_extend_def
  by (rule bit_word_eqI) (auto simp: bit_take_bit_iff bit_or_iff bit_and_iff bit_not_iff bit_mask_iff)

lemma execute_simple:
  "rip s + of_nat k = next \<Longrightarrow> r < 4 \<Longrightarrow> (execute next (Set_condition cc h (In_register r)) s)\<lparr>rip := next\<rparr> =
     with_gpr r (low_byte_set (gpr s r) (of_bool (condition cc s))) k s"
  "rip s + of_nat k = next \<Longrightarrow> r < 4 \<Longrightarrow> (execute next (Mov_immediate_byte r h x) s)\<lparr>rip := next\<rparr> =
     with_gpr r (low_byte_set (gpr s r) x) k s"
  "rip s + of_nat k = next \<Longrightarrow> r < 4 \<Longrightarrow> (execute next (Mov_extended False 1 4 h r (In_register r)) s)\<lparr>rip := next\<rparr> =
     with_gpr r (zero_extend 1 (gpr s r)) k s"
proof -
  have z: "zero_extend 4 (zero_extend (Suc 0) x) = zero_extend (Suc 0) x" for x by (simp add: zero_extend_def)
  have h: "\<not> is_high_byte w h r" if "r < 4" for w h r using that by (simp add: is_high_byte_def)
  show "rip s + of_nat k = next \<Longrightarrow> r < 4 \<Longrightarrow> (execute next (Set_condition cc h (In_register r)) s)\<lparr>rip := next\<rparr> =
     with_gpr r (low_byte_set (gpr s r) (of_bool (condition cc s))) k s"
    "rip s + of_nat k = next \<Longrightarrow> r < 4 \<Longrightarrow> (execute next (Mov_immediate_byte r h x) s)\<lparr>rip := next\<rparr> =
     with_gpr r (low_byte_set (gpr s r) x) k s"
    "rip s + of_nat k = next \<Longrightarrow> r < 4 \<Longrightarrow> (execute next (Mov_extended False 1 4 h r (In_register r)) s)\<lparr>rip := next\<rparr> =
     with_gpr r (zero_extend 1 (gpr s r)) k s"
    by (simp_all add: execute_def write_place_def read_place_def write_register_def read_register_def h with_gpr_def
        low_byte_set_def z)
qed

definition set_byte_code :: "u32 \<Rightarrow> u8 \<Rightarrow> u8 list" where
  "set_byte_code r op = [0x0f, op, modrm_byte 3 0 (ucast (REG_VALUE r))]"

definition extend_byte_code :: "u32 \<Rightarrow> u8 list" where
  "extend_byte_code r = [0x0f, 0xb6, modrm_byte 3 r (ucast (REG_VALUE r))]"

lemma executes_flag_code:
  assumes "r < 4"
  shows "unat op div 16 = 9 \<Longrightarrow> executes (set_byte_code r op) s
      (with_gpr (unat r) (low_byte_set (gpr s (unat r)) (of_bool (condition (unat op mod 16) s))) 3 s)"
    and "executes (extend_byte_code r) s (with_gpr (unat r) (zero_extend 1 (gpr s (unat r))) 3 s)"
    and "executes (o_code (0xb0 + REG_VALUE r) @ [x]) s (with_gpr (unat r) (low_byte_set (gpr s (unat r)) (ucast x)) 2 s)"
proof -
  have r: "unat r < 4" "unat r mod 8 = unat r" using assms by (simp_all add: word_less_nat_alt)
  note m = decode_modrm_registers [of False False]
  show "executes (extend_byte_code r) s (with_gpr (unat r) (zero_extend 1 (gpr s (unat r))) 3 s)"
  proof -
    have "decode (extend_byte_code r @ rest) = Some (Mov_extended False 1 4 True (unat r) (In_register (unat r)), rest)" for rest
      by (simp add: extend_byte_code_def decode_def split_rex_def decode_two_byte_def with_modrm_def m numbered_def r Let_def)
    from executes_one [OF this, of s] show ?thesis
      using execute_simple(3) [of s 3 _ "unat r" True] r(1) by (simp add: extend_byte_code_def jumps_def)
  qed
  show "executes (set_byte_code r op) s
      (with_gpr (unat r) (low_byte_set (gpr s (unat r)) (of_bool (condition (unat op mod 16) s))) 3 s)" if op: "unat op div 16 = 9"
  proof -
    have "op \<notin> {0xbe, 0xb6, 0xbf, 0xb7, 0xaf}" using op by auto
    then have "decode (set_byte_code r op @ rest) = Some (Set_condition (unat op mod 16) True (In_register (unat r)), rest)" for rest
      using op by (simp add: set_byte_code_def decode_def split_rex_def decode_two_byte_def with_modrm_def m numbered_def r Let_def)
    from executes_one [OF this, of s] show ?thesis
      using execute_simple(1) [of s 3 _ "unat r" "unat op mod 16" True] r(1) by (simp add: set_byte_code_def jumps_def)
  qed
  show "executes (o_code (0xb0 + REG_VALUE r) @ [x]) s (with_gpr (unat r) (low_byte_set (gpr s (unat r)) (ucast x)) 2 s)"
  proof -
    define op :: u8 where "op = 0xb0 + ucast (REG_VALUE r)"
    have u: "unat op = 176 + unat r" unfolding op_def move_opcode r ..
    have ne: "op \<notin> {0x66, 0x0f, 0x8b, 0x89, 0x88, 0x8d, 0x85, 0x83, 0x81, 0x6b, 0x69, 0xc1, 0xc6, 0xc7}"
      using u r(1) by auto
    have d: "(176 + unat r) div 16 = 11" "(176 + unat r) div 8 = 22" "(176 + unat r) mod 8 = unat r" "\<not> 176 + unat r < 64"
      using r(1) by presburger+
    have "decode (o_code (0xb0 + REG_VALUE r) @ [x] @ rest) = Some (Mov_immediate_byte (unat r) True (ucast x), rest)" for rest
      using ne u d unfolding move_opcode op_def [symmetric]
      by (simp add: decode_def split_rex_def decode_one_byte_def numbered_def Let_def)
    then have "decode ((o_code (0xb0 + REG_VALUE r) @ [x]) @ rest) = Some (Mov_immediate_byte (unat r) True (ucast x), rest)" for rest
      by simp
    from executes_one [OF this, of s] show ?thesis
      using execute_simple(2) [of s 2 _ "unat r" True] r(1) by (simp add: move_opcode jumps_def)
  qed
qed

text \<open>The code of a comparison; \<open>x\<close> is the answer for unordered operands.\<close>

definition flags_code :: "u32 \<Rightarrow> u32 \<Rightarrow> u32 \<Rightarrow> u8 list" where
  "flags_code cmp r op =
     (if op AND 0x100 \<noteq> 0
      then (o_code (0xb0 + REG_VALUE r) @ [ucast (cmp XOR (op AND NOT 0x100) XOR of_bool (cmp = TOK_NE))]) @ [0x7a, 0x03]
      else []) @ set_byte_code r (ucast (op AND NOT 0x100)) @ extend_byte_code r"

lemma executes_parity_skip:
  assumes "length bs = 3" and "executes cs s1 s'"
    and "pf s \<Longrightarrow> s1 = s\<lparr>rip := rip s + 5\<rparr>"
    and "\<not> pf s \<Longrightarrow> executes bs (s\<lparr>rip := rip s + 2\<rparr>) s1"
  shows "executes ([0x7a, 0x03] @ bs @ cs) s s'"
  unfolding executes_def
proof (intro allI impI)
  fix rest s2
  assume run: "run_code rest s' = Some s2"
  have dec: "decode (0x7a # 0x03 # tl) = Some (Skip_if 10 3, tl)" for tl
    by (simp add: decode_def split_rex_def decode_one_byte_def Let_def)
  have c: "condition 10 s = pf s" by (simp add: condition_def)
  show "run_code (([0x7a, 0x03] @ bs @ cs) @ rest) s = Some s2"
  proof (cases "pf s")
    case True
    have "step (([0x7a, 0x03] @ bs @ cs) @ rest) s = Some (cs @ rest, s1)"
      using assms(1) assms(3) [OF True] True by (simp add: step_def dec skipped_def c execute_def Let_def)
    then show ?thesis
      by (rule run_code_step) (use assms(2) run in \<open>auto simp: executes_def\<close>)
  next
    case False
    have "step (([0x7a, 0x03] @ bs @ cs) @ rest) s = Some (bs @ cs @ rest, s\<lparr>rip := rip s + 2\<rparr>)"
      using False by (simp add: step_def dec skipped_def c execute_def Let_def)
    then show ?thesis
      by (rule run_code_step) (use assms(2) assms(4) [OF False] run in \<open>auto simp: executes_def\<close>)
  qed
qed

lemma condition_rip: "condition cc (s\<lparr>rip := x\<rparr>) = condition cc s"
  by (simp add: condition_def)

lemma xor_flag_byte: "(ucast (ucast (of_bool b :: u32) :: u8) :: u64) = of_bool b"
  by (cases b) simp_all

lemma executes_flags:
  assumes "r < 4" and "is_comparison cmp op"
  shows "\<exists>s'. executes (flags_code cmp r op) s s' \<and> sets_register r (of_bool (comparison_holds cmp op s)) s s'"
proof -
  define fc where "fc = op AND NOT 0x100"
  define n where "n = unat r"
  have n: "reg_number r = n" "n < 4" using assms(1) by (simp_all add: n_def reg_number_def word_less_nat_alt)
  have fc: "fc \<in> {0x92, 0x93, 0x94, 0x95, 0x96, 0x97, 0x9c, 0x9d, 0x9e, 0x9f}"
    using assms(2) by (simp add: is_comparison_def fc_def)
  have "(op AND NOT 0x100) AND 0xf = op AND 0xf" by (simp add: and.assoc)
  then have cc: "unat (ucast fc :: u8) div 16 = 9" "unat (ucast fc :: u8) mod 16 = unat (op AND 0xf)"
    using fc unfolding fc_def by (elim insertE emptyE; simp)+
  define cond where "cond = condition (unat (op AND 0xf)) s"
  note flag = executes_flag_code [OF assms(1)]
  have z1: "zero_extend (Suc 0) (of_bool b) = of_bool b" for b by (cases b) (simp_all add: zero_extend_def)
  have ext: "\<exists>s'. executes (extend_byte_code r) s1 s' \<and> sets_register r x s s'"
    if "gpr s1 = (gpr s)(n := y)" "ram s1 = ram s" "zero_extend 1 y = x" for s1 x y
    using flag(2) [of s1] that n unfolding n_def [symmetric] by (auto simp: with_gpr_def sets_register_def)
  show ?thesis
  proof (cases "op AND 0x100 = 0")
    case True
    then have h: "comparison_holds cmp op s = cond" by (simp add: comparison_holds_def cond_def)
    obtain s' where "executes (extend_byte_code r) (with_gpr n (low_byte_set (gpr s n) (of_bool cond)) 3 s) s'"
      "sets_register r (of_bool cond) s s'"
      using ext [of "with_gpr n (low_byte_set (gpr s n) (of_bool cond)) 3 s" "low_byte_set (gpr s n) (of_bool cond)" "of_bool cond"]
      by (auto simp: with_gpr_def low_byte_of_set z1)
    moreover have "executes (set_byte_code r (ucast fc)) s (with_gpr n (low_byte_set (gpr s n) (of_bool cond)) 3 s)"
      using flag(1) [OF cc(1), of s] unfolding cc(2) cond_def [symmetric] n_def [symmetric] .
    ultimately have "executes (set_byte_code r (ucast fc) @ extend_byte_code r) s s' \<and> sets_register r (of_bool cond) s s'"
      using executes_append by blast
    then show ?thesis using True unfolding h flags_code_def fc_def by auto
  next
    case False
    define b where "b \<longleftrightarrow> (fc \<noteq> cmp) \<noteq> (cmp = TOK_NE)"
    have h: "comparison_holds cmp op s = (if pf s then b else cond)"
      using False by (simp add: comparison_holds_def cond_def b_def fc_def)
    have "fc = cmp \<or> fc = cmp XOR 1" using False assms(2) by (simp add: is_comparison_def fc_def)
    then have x: "cmp XOR fc XOR of_bool (cmp = TOK_NE) = of_bool b"
      unfolding b_def by (auto simp: xor.assoc [symmetric])
    define s0 where "s0 = with_gpr n (low_byte_set (gpr s n) (of_bool b)) 2 s"
    have e0: "executes (o_code (0xb0 + REG_VALUE r) @ [ucast (cmp XOR fc XOR of_bool (cmp = TOK_NE))]) s s0"
      using flag(3) [of "ucast (cmp XOR fc XOR of_bool (cmp = TOK_NE))" s]
      unfolding x xor_flag_byte n_def [symmetric] s0_def .
    have s0: "gpr s0 = (gpr s)(n := low_byte_set (gpr s n) (of_bool b))" "ram s0 = ram s" "pf s0 = pf s"
      "condition (unat (op AND 0xf)) s0 = cond"
      by (simp_all add: s0_def with_gpr_def cond_def condition_def)
    define s1 where "s1 = (if pf s then s0\<lparr>rip := rip s0 + 5\<rparr>
      else with_gpr n (low_byte_set (gpr s0 n) (of_bool cond)) 3 (s0\<lparr>rip := rip s0 + 2\<rparr>))"
    have "\<exists>s'. executes (extend_byte_code r) s1 s' \<and> sets_register r (of_bool (if pf s then b else cond)) s s'"
    proof (cases "pf s")
      case True
      then show ?thesis using ext [of s1 "low_byte_set (gpr s n) (of_bool b)"] s0 by (auto simp: s1_def low_byte_of_set z1)
    next
      case False
      then show ?thesis using ext [of s1 "low_byte_set (gpr s0 n) (of_bool cond)"] s0
        by (auto simp: s1_def with_gpr_def low_byte_of_set z1)
    qed
    then obtain s' where e1: "executes (extend_byte_code r) s1 s'"
      and r1: "sets_register r (of_bool (if pf s then b else cond)) s s'" by blast
    have "executes ([0x7a, 0x03] @ set_byte_code r (ucast fc) @ extend_byte_code r) s0 s'"
    proof (rule executes_parity_skip [OF _ e1])
      show "length (set_byte_code r (ucast fc)) = 3" by (simp add: set_byte_code_def)
      show "pf s0 \<Longrightarrow> s1 = s0\<lparr>rip := rip s0 + 5\<rparr>" by (simp add: s1_def s0)
      show "\<not> pf s0 \<Longrightarrow> executes (set_byte_code r (ucast fc)) (s0\<lparr>rip := rip s0 + 2\<rparr>) s1"
        using flag(1) [OF cc(1), of "s0\<lparr>rip := rip s0 + 2\<rparr>"]
        unfolding cc(2) n_def [symmetric] condition_rip s0(4) by (simp add: s1_def s0(3))
    qed
    from executes_append [OF e0 this] have "executes (flags_code cmp r op) s s'"
      using False unfolding flags_code_def fc_def by (simp only: if_True append_assoc not_False_eq_True)
    then show ?thesis using r1 unfolding h by blast
  qed
qed

end
