(* ===== verification/X86LoadValue.thy ===== *)
theory X86LoadValue imports X86LoadSpec
begin

text \<open>
  \<open>load\<close> as a whole: for every kind of operand the emitted code, linked and executed, leaves the value the operand
  stands for in the register.
\<close>

section \<open>What an operand stands for\<close>

definition accessed_type :: "syms \<Rightarrow> operand \<Rightarrow> u32 option" where
  "accessed_type h sv =
     (if sv_t sv AND VT_BTYPE = VT_STRUCT
      then Option.bind (type_size h (sv_type sv)) (\<lambda>(n, align). aggregate_type n)
      else Some (sv_t sv))"

definition lvalue_address :: "(nat \<Rightarrow> u64) \<Rightarrow> cpu \<Rightarrow> operand \<Rightarrow> u64" where
  "lvalue_address S s sv =
     (if sv_r sv AND VT_VALMASK = VT_LLOCAL then read_mem 8 (ram s) (gpr s 5 + sv_c sv)
      else operand_address S s (sv_r sv) (sv_sym sv) (sv_c sv))"

definition value_of :: "(nat \<Rightarrow> u64) \<Rightarrow> syms \<Rightarrow> u32 \<Rightarrow> cpu \<Rightarrow> operand \<Rightarrow> u64" where
  "value_of S h cmp s sv =
     (let fr = sv_r sv; v = fr AND VT_VALMASK; t = sv_t sv
      in if fr AND VT_LVAL \<noteq> 0 then
           (case accessed_type h sv of
              None \<Rightarrow> 0
            | Some t1 \<Rightarrow> loaded t1 (read_mem (load_size t1) (ram s) (lvalue_address S s sv)))
         else if v = VT_CONST then
           if fr AND VT_SYM \<noteq> 0 then S (sv_sym sv) + sv_c sv
           else zero_extend (if is64_type t then 8 else 4) (sv_c sv)
         else if v = VT_LOCAL then gpr s 5 + sv_c sv
         else if v = VT_CMP then of_bool (comparison_holds cmp (ucast (sv_c sv)) s)
         else zero_extend (if is64_type t then 8 else 4) (gpr s (reg_number v)))"

text \<open>The operands that can be loaded into an integer register \<open>r\<close>.  A value of the flags needs one of the
  first four registers, whose low byte has a name without prefix.\<close>

definition fits_32 :: "u64 \<Rightarrow> bool" where
  "fits_32 c \<longleftrightarrow> scast (ucast c :: u32) = c"

definition loadable :: "u32 \<Rightarrow> syms \<Rightarrow> u32 \<Rightarrow> operand \<Rightarrow> bool" where
  "loadable r h cmp sv \<longleftrightarrow>
     (let fr = sv_r sv; v = fr AND VT_VALMASK
      in r < 16 \<and> (fr AND VT_SYM \<noteq> 0 \<longrightarrow> fits_32 (sv_c sv)) \<and>
         (if fr AND VT_LVAL \<noteq> 0 then
            (case accessed_type h sv of None \<Rightarrow> False | Some t1 \<Rightarrow> is_scalar t1) \<and>
            (if v = VT_LLOCAL then address_register r \<and> fits_32 (sv_c sv)
             else is_operand fr \<and> (fits_32 (sv_c sv) \<or> v = VT_CONST \<and> address_register r))
          else if v = VT_CONST then True
          else if v = VT_LOCAL then fits_32 (sv_c sv)
          else if v = VT_CMP then r < 4 \<and> is_comparison cmp (ucast (sv_c sv))
          else v < 16 \<and> v \<noteq> r))"

section \<open>The pieces of a load\<close>

text \<open>An emission at \<open>e\<close> whose code computes \<open>val\<close>; \<open>reach\<close> is what it needs of the distance to a symbol.\<close>

definition computes ::
  "emission \<Rightarrow> emitter \<Rightarrow> emitter \<Rightarrow> u32 \<Rightarrow> ((nat \<Rightarrow> u64) \<Rightarrow> u64 \<Rightarrow> bool) \<Rightarrow> ((nat \<Rightarrow> u64) \<Rightarrow> cpu \<Rightarrow> u64) \<Rightarrow> nat \<Rightarrow> bool" where
  "computes f e e' r reach val n \<longleftrightarrow>
     (\<exists>bs rs. f e = Inr e' \<and> appended e bs rs e' \<and> length bs \<le> n \<and>
        (\<forall>S s. reach S (rip s + of_nat (length bs)) \<longrightarrow>
           (\<exists>s'. executes (linked S (rip s) bs rs) s s' \<and> sets_register r (val S s) s s')))"

lemma computes_emits:
  assumes "emits f bs rs" and "length bs \<le> n" and "ready n e"
    and "\<And>S s. reach S (rip s + of_nat (length bs)) \<Longrightarrow>
      \<exists>s'. executes (linked S (rip s) bs rs) s s' \<and> sets_register r (val S s) s s'"
  shows "\<exists>e'. computes f e e' r reach val n"
  using emitsE [OF assms(1) ready_less [OF assms(3,2)]] assms(2,4) unfolding computes_def by metis

text \<open>The same for code without symbols.\<close>

definition plainly_computes :: "emission \<Rightarrow> emitter \<Rightarrow> emitter \<Rightarrow> u32 \<Rightarrow> (cpu \<Rightarrow> u64) \<Rightarrow> nat \<Rightarrow> bool" where
  "plainly_computes f e e' r val n \<longleftrightarrow>
     (\<exists>bs. f e = Inr e' \<and> appended e bs [] e' \<and> length bs \<le> n \<and>
        (\<forall>s. \<exists>s'. executes bs s s' \<and> sets_register r (val s) s s'))"

lemma plainly_computes: "plainly_computes f e e' r val n \<Longrightarrow> computes f e e' r reach (\<lambda>_. val) n"
  unfolding plainly_computes_def computes_def by (metis linked.simps(1))

lemma plain_emits:
  assumes "emits f bs []" and "length bs \<le> n" and "ready n e"
    and "\<And>s. \<exists>s'. executes bs s s' \<and> sets_register r (val s) s s'"
  shows "\<exists>e'. plainly_computes f e e' r val n"
  using emitsE [OF assms(1) ready_less [OF assms(3,2)]] assms(2,4) unfolding plainly_computes_def by metis

lemma plain_cong: "plainly_computes f e e' r val n \<Longrightarrow> h e = f e \<Longrightarrow> plainly_computes h e e' r val n"
  by (simp add: plainly_computes_def)

lemma plain_then:
  assumes "plainly_computes f e e1 r v1 m" and "\<And>e1. ready n e1 \<Longrightarrow> \<exists>e2. plainly_computes h e1 e2 r v2 n"
    and "ready (m + n) e" and "\<And>e1. f e = Inr e1 \<Longrightarrow> k e = h e1"
    and "\<And>s s1. sets_register r (v1 s) s s1 \<Longrightarrow> v2 s1 = v s"
  shows "\<exists>e2. plainly_computes k e e2 r v (m + n)"
proof -
  obtain bs where b: "f e = Inr e1" "appended e bs [] e1" "length bs \<le> m"
    "\<And>s. \<exists>s'. executes bs s s' \<and> sets_register r (v1 s) s s'"
    using assms(1) by (auto simp: plainly_computes_def)
  have "ready n e1" by (rule ready_after [OF ready_less [OF assms(3)] b(2)]) (use b(3) in simp)
  then obtain e2 where "plainly_computes h e1 e2 r v2 n" using assms(2) by blast
  then obtain cs where c: "h e1 = Inr e2" "appended e1 cs [] e2" "length cs \<le> n"
    "\<And>s. \<exists>s'. executes cs s s' \<and> sets_register r (v2 s) s s'"
    by (auto simp: plainly_computes_def)
  have "\<exists>s'. executes (bs @ cs) s s' \<and> sets_register r (v s) s s'" for s
  proof -
    obtain s1 where s1: "executes bs s s1" "sets_register r (v1 s) s s1" using b(4) by blast
    obtain s2 where s2: "executes cs s1 s2" "sets_register r (v2 s1) s1 s2" using c(4) by blast
    have "sets_register r (v s) s s2" using s1(2) s2(2) assms(5) [OF s1(2)] by (simp add: sets_register_def)
    then show ?thesis using executes_append [OF s1(1) s2(1)] by blast
  qed
  then show ?thesis
    using appended_trans [OF b(2) c(2)] assms(4) [OF b(1)] b(3) c(1,3)
    unfolding plainly_computes_def by (intro exI [of _ e2] exI [of _ "bs @ cs"]) simp
qed

lemma computes_cong: "computes f e e' r reach val n \<Longrightarrow> h e = f e \<Longrightarrow> computes h e e' r reach val n"
  by (simp add: computes_def)

lemma length_o_code_load: "length (o_code (load_opcode t)) \<le> 2"
  using load_opcode_cases [of t] by (auto simp: opcode_bytes)

lemma length_rex: "length (rex_prefix ll r r2) \<le> 1"
  by (simp add: rex_prefix_bytes)

lemma length_operand: "length (operand_bytes r fr c f) \<le> 6"
  by (simp add: operand_bytes_def)

lemma computes_access:
  assumes "is_operand fr" and "r < 16" and "ready n e" and "9 \<le> n"
  shows "\<exists>e'. computes (load_access t r fr y fc) e e' r (\<lambda>S next. is_symbolic fr \<longrightarrow> reached (S y + scast fc) next)
    (\<lambda>S s. loaded t (read_mem (load_size t) (ram s) (operand_address S s fr y (scast fc)))) n"
proof (rule computes_emits [OF emits_load_access [OF assms(2)] _ assms(3)])
  show "length (load_access_bytes t r fr @ operand_bytes r fr fc 0) \<le> n"
    using length_o_code_load [of t] length_rex [of "load_size t = 8" fr r] length_operand [of r fr fc 0] assms(4)
    by (simp add: load_access_bytes_def)
qed (rule executes_load_access [OF assms(1,2) refl refl])

lemma emits_three_plain:
  "emits f bs [] \<Longrightarrow> emits f2 bs2 [] \<Longrightarrow> emits f3 bs3 [] \<Longrightarrow> emits (emit_all [f, f2, f3]) (bs @ bs2 @ bs3) []"
  using emits_all_plain [OF _ emits_two_plain] by blast

lemma zero_extend_ucast: "zero_extend 4 (ucast (ucast c :: u32)) = zero_extend 4 c"
  unfolding zero_extend_def by (rule bit_word_eqI) (auto simp: bit_simps)

lemma zero_extend_high: "drop_bit 32 c = 0 \<Longrightarrow> zero_extend 4 c = c"
proof -
  assume z: "drop_bit 32 c = 0"
  have "bit c n \<Longrightarrow> n < 32" for n
    using arg_cong [OF z, of "\<lambda>x. bit x (n - 32)"] by (simp add: bit_drop_bit_eq not_less [symmetric]) (metis le_add_diff_inverse not_less)
  then show ?thesis unfolding zero_extend_def by (intro bit_word_eqI) (auto simp: bit_take_bit_iff)
qed

lemma computes_constant:
  assumes "r < 16" and "fr AND VT_SYM = 0" and "ready n e" and "10 \<le> n"
  shows "\<exists>e'. plainly_computes (load_constant sv ft r fr (ucast (sv_c sv))) e e' r
    (\<lambda>_. zero_extend (if is64_type ft then 8 else 4) (sv_c sv)) n"
proof -
  define c where "c = sv_c sv"
  have l: "length (rex_prefix ll r r') \<le> 1" for ll r' by (rule length_rex)
  have l4: "length (rex_prefix ll r 0 @ o_code (0xb8 + REG_VALUE r) @ le_bytes k x) \<le> n" if "k \<le> 8" for ll k x
    using l [of ll 0] that assms(4) by (simp add: move_opcode)
  have a: "\<exists>e'. plainly_computes (emit_all [orex True r 0 (0xb8 + REG_VALUE r), gen_le64 c]) e e' r (\<lambda>_. c) n"
    using emits_two_plain [OF emits_orex [of True r 0 "0xb8 + REG_VALUE r"] emits_le64 [of c]]
      executes_move_immediate [OF assms(1), of 8 True c] l4 [of 8 True c]
    by (intro plain_emits [OF _ _ assms(3), where bs = "rex_prefix True r 0 @ o_code (0xb8 + REG_VALUE r) @ le_bytes 8 c"])
      (simp_all add: zero_extend_8)
  have b: "\<exists>e'. plainly_computes (emit_all [orex False r 0 (0xb8 + REG_VALUE r), gen_le32 (ucast c)]) e e' r
      (\<lambda>_. zero_extend 4 c) n"
    using emits_two_plain [OF emits_orex [of False r 0 "0xb8 + REG_VALUE r"] emits_le32 [of "ucast c"]]
      executes_move_immediate [OF assms(1), of 4 False "ucast (ucast c :: u32)"] l4 [of 4 False "ucast (ucast c :: u32)"]
    by (intro plain_emits [OF _ _ assms(3), where bs = "rex_prefix False r 0 @ o_code (0xb8 + REG_VALUE r) @ le_bytes 4 (ucast (ucast c :: u32))"])
      (simp_all add: zero_extend_ucast)
  have d: "\<exists>e'. plainly_computes (emit_all [orex False r r 0x31, o_bytes (0xc0 + REG_VALUE r * 9)]) e e' r (\<lambda>_. 0) n"
    using emits_two_plain [OF emits_orex [of False r r "0x31"] emits_o [of "0xc0 + REG_VALUE r * 9"]] executes_clear [OF assms(1)]
      l [of False r] assms(4)
    by (intro plain_emits [OF _ _ assms(3), where bs = "rex_prefix False r r @ o_code 0x31 @ o_code (0xc0 + REG_VALUE r * 9)"])
      (simp_all add: xor_bytes)
  have z: "drop_bit 32 c = 0 \<Longrightarrow> zero_extend 4 c = c" by (rule zero_extend_high)
  show ?thesis
  proof (cases "is64_type ft")
    case False
    then show ?thesis using b assms(2) by (simp add: load_constant_def c_def)
  next
    case True
    consider "drop_bit 32 c \<noteq> 0" | "drop_bit 32 c = 0" "c > 0" | "c = 0" using word_neq_0_conv [of c] by blast
    then show ?thesis
    proof cases
      case 1 then show ?thesis using a True assms(2) by (simp add: load_constant_def c_def zero_extend_8)
    next
      case 2 then show ?thesis using b True assms(2) z by (simp add: load_constant_def c_def zero_extend_8)
    next
      case 3 then show ?thesis using d True assms(2) by (simp add: load_constant_def c_def zero_extend_8)
    qed
  qed
qed

lemma o_code_lea: "o_code 0x8d = [0x8d]" by (simp add: o_code_byte)

lemma computes_lea:
  assumes "emits f ((rex_prefix True 0 r @ [0x8d]) @ operand_bytes r fr fc 0)
      (List.map (moved (length (rex_prefix True 0 r @ [0x8d]))) (operand_relocs fr y fc))"
    and "is_operand fr" and "\<not> rex_bit fr" and "r < 16" and "ready n e" and "10 \<le> n"
  shows "\<exists>e'. computes f e e' r (\<lambda>S next. is_symbolic fr \<longrightarrow> reached (S y + scast fc) next)
    (\<lambda>S s. operand_address S s fr y (scast fc)) n"
proof (rule computes_emits [OF assms(1) _ assms(5)])
  show "length ((rex_prefix True 0 r @ [0x8d]) @ operand_bytes r fr fc 0) \<le> n"
    using length_rex [of True 0 r] length_operand [of r fr fc 0] assms(6) by simp
qed (rule executes_lea [OF assms(4,2,3) refl refl])

lemma plain_frame_address:
  assumes "r < 16" and "ready n e" and "10 \<le> n"
  shows "\<exists>e'. plainly_computes (emit_all [orex True 0 r 0x8d, gen_modrm r VT_LOCAL y fc]) e e' r (\<lambda>s. gpr s 5 + scast fc) n"
proof (rule plain_emits [OF _ _ assms(2)])
  have o: "is_operand VT_LOCAL" "\<not> rex_bit VT_LOCAL" "\<not> is_symbolic VT_LOCAL"
    by (simp_all add: is_operand_def rex_bit_def is_symbolic_def VT_LOCAL_def VT_VALMASK_def VT_CONST_def)
  have a: "operand_address S s VT_LOCAL y (scast fc) = gpr s 5 + scast fc" for S s
    by (simp add: operand_address_def VT_LOCAL_def VT_VALMASK_def VT_CONST_def)
  have z: "operand_relocs VT_LOCAL y fc = []" using o(3) by (simp add: operand_relocs_def)
  let ?bs = "(rex_prefix True 0 r @ [0x8d]) @ operand_bytes r VT_LOCAL fc 0"
  show "emits (emit_all [orex True 0 r 0x8d, gen_modrm r VT_LOCAL y fc]) ?bs []"
    using emits_two [OF emits_orex [of True 0 r "0x8d"] emits_modrm [of r VT_LOCAL y fc]]
    unfolding gen_modrm_def o_code_lea z by simp
  show "length ?bs \<le> n" using length_rex [of True 0 r] length_operand [of r VT_LOCAL fc 0] assms(3) by simp
  show "\<exists>s'. executes ?bs s s' \<and> sets_register r (gpr s 5 + scast fc) s s'" for s
    using executes_lea [OF assms(1) o(1,2) refl refl, where S = "\<lambda>_. 0" and s = s and y = y and fc = fc] o(3) a by (simp add: z)
qed

lemma computes_symbol_address:
  assumes "r < 16" and "fr AND VT_VALMASK = VT_CONST" and "fr AND VT_SYM \<noteq> 0" and "ready n e" and "10 \<le> n"
  shows "\<exists>e'. computes (load_constant sv ft r fr fc) e e' r (\<lambda>S next. reached (S (sv_sym sv) + scast fc) next)
    (\<lambda>S s. S (sv_sym sv) + scast fc) n"
proof -
  have o: "is_operand fr" "\<not> rex_bit fr" "is_symbolic fr"
    using assms(2,3) by (simp_all add: is_operand_def rex_bit_def is_symbolic_def)
  have a: "operand_address S s fr (sv_sym sv) (scast fc) = S (sv_sym sv) + scast fc" for S s
    using assms(2,3) by (simp add: operand_address_def)
  have b: "operand_bytes r fr fc 0 = modrm_byte 0 r 5 # le_bytes 4 0"
    using assms(2,3) by (simp add: operand_bytes_def)
  have "emits (load_constant sv ft r fr fc) ((rex_prefix True 0 r @ [0x8d]) @ operand_bytes r fr fc 0)
      (List.map (moved (length (rex_prefix True 0 r @ [0x8d]))) (operand_relocs fr (sv_sym sv) fc))"
    using emits_all_append [OF emits_orex [of True 0 r "0x8d"] emits_two [OF emits_o [of "0x05 + REG_VALUE r * 8"] emits_addrpc32 [OF assms(3)]]]
      assms(3) o(3) unfolding load_constant_def o_code_lea modrm_code b operand_relocs_def
    by (simp add: moved_def)
  from computes_lea [OF this o(1,2) assms(1,4,5)] show ?thesis using o(3) a by simp
qed

lemma computes_register:
  assumes "r < 16" and "v < 16" and "v \<noteq> r" and "ready n e" and "10 \<le> n"
  shows "\<exists>e'. plainly_computes (load_register ft r v) e e' r
    (\<lambda>s. zero_extend (if is64_type ft then 8 else 4) (gpr s (reg_number v))) n"
proof -
  have nx: "\<not> is_xmm r" "r \<noteq> TREG_ST0" using assms(1) by (auto simp: is_xmm_def TREG_XMM0_def TREG_ST0_def)
  let ?bs = "rex_prefix (is64_type ft) r v @ o_code 0x89 @ o_code (0xc0 + REG_VALUE r + REG_VALUE v * 8)"
  have em: "emits (load_register ft r v) ?bs []"
    by (rule emits_cong [OF emits_two_plain [OF emits_orex [of "is64_type ft" r v "0x89"] emits_o, simplified]])
      (use nx in \<open>simp_all add: load_register_def\<close>)
  have l: "length ?bs \<le> n" using length_rex [of "is64_type ft" r v] assms(5) by (simp add: modrm_registers o_code_byte)
  show ?thesis
    by (rule plain_emits [OF em l assms(4)]) (use executes_move_register [OF assms(1,2), of "is64_type ft"] in simp)
qed

lemma computes_flags:
  assumes "r < 4" and "is_comparison (vtop_cmp_r e) op" and "ready n e" and "10 \<le> n"
  shows "\<exists>e'. plainly_computes (load_flags r op) e e' r (\<lambda>s. of_bool (comparison_holds (vtop_cmp_r e) op s)) n"
proof -
  define cmp where "cmp = vtop_cmp_r e"
  define fc where "fc = op AND NOT 0x100"
  have fc: "fc \<in> {0x92, 0x93, 0x94, 0x95, 0x96, 0x97, 0x9c, 0x9d, 0x9e, 0x9f}"
    using assms(2) by (simp add: is_comparison_def fc_def)
  have ofc: "o_code fc = [ucast fc]" using fc by (intro o_code_byte) auto
  note b = set_condition_bytes [OF assms(1)]
  have p: "rex_prefix False r 0 @ xs = xs" for xs by (simp add: b(1))
  let ?tail = "[orex False r 0 0x0f, o_bytes fc, o_bytes (0xc0 + REG_VALUE r), orex False r 0 0x0f, o_bytes (0xc0b6 + REG_VALUE r * 0x900)]"
  let ?head = "[orex False r 0 (0xb0 + REG_VALUE r), g (cmp XOR fc XOR of_bool (cmp = TOK_NE)), o_bytes (0x037a + push_bit 8 (REX_BASE r))]"
  have tail: "emits (emit_all ?tail) (set_byte_code r (ucast fc) @ extend_byte_code r) []"
    using emits_all_plain [OF emits_orex [of False r 0 "0x0f"] emits_all_plain [OF emits_o [of fc] emits_three_plain [OF
          emits_o [of "0xc0 + REG_VALUE r"] emits_orex [of False r 0 "0x0f"] emits_o [of "0xc0b6 + REG_VALUE r * 0x900"]]]]
    by (simp add: b ofc set_byte_code_def extend_byte_code_def)
  have em: "emits (emit_all ((if op AND 0x100 \<noteq> 0 then ?head else []) @ ?tail)) (flags_code cmp r op) []"
  proof (cases "op AND 0x100 = 0")
    case True
    then show ?thesis using tail by (simp add: flags_code_def fc_def)
  next
    case False
    then show ?thesis
      using emits_all_plain [OF emits_orex [of False r 0 "0xb0 + REG_VALUE r"] emits_all_plain [OF
          emits_g [of "cmp XOR fc XOR of_bool (cmp = TOK_NE)"] emits_all_plain [OF emits_o [of "0x037a"] tail]]]
      by (simp add: b flags_code_def fc_def del: emit_all.simps)
  qed
  have fcs: "fc = (if op AND 0x100 \<noteq> 0 then op AND NOT 0x100 else op)"
    using and_not_clear [of op "0x100"] unfolding fc_def by simp
  have l: "length (flags_code cmp r op) \<le> n"
    using assms(4) by (simp add: flags_code_def set_byte_code_def extend_byte_code_def move_opcode)
  have "\<exists>e'. plainly_computes (emit_all ((if op AND 0x100 \<noteq> 0 then ?head else []) @ ?tail)) e e' r
      (\<lambda>s. of_bool (comparison_holds cmp op s)) n"
    by (rule plain_emits [OF em l assms(3)]) (use executes_flags [OF assms(1,2)] in \<open>simp add: cmp_def\<close>)
  moreover have "load_flags r op e = emit_all ((if op AND 0x100 \<noteq> 0 then ?head else []) @ ?tail) e"
    unfolding load_flags_def Let_def cmp_def [symmetric] fcs [symmetric] ..
  ultimately show ?thesis unfolding cmp_def using plain_cong by blast
qed

section \<open>The whole of \<open>load\<close>\<close>

lemma load_flags_basic: "load_flags_of t AND VT_BTYPE = t AND VT_BTYPE"
  unfolding load_flags_of_def by (simp add: and.assoc type_bits)

lemma load_flags_64: "is64_type (load_flags_of t) = is64_type t"
  unfolding is64_type_def load_flags_basic ..

lemma aggregate_storage: "aggregate_type n = Some ty \<Longrightarrow> CHARACTER_STORAGE_TYPE ty = storage_type ty"
  by (auto simp: aggregate_type_def storage_type_def load_flags_of_def type_bits basic_types split: if_splits)

lemma load_memory_access:
  assumes "accessed_type (symbols e) sv = Some t" and "is_scalar t"
  shows "load_memory sv (load_flags_of (sv_t sv)) r fr fc e = load_access t r fr (sv_sym sv) fc e"
proof -
  have "scalar_type sv (load_flags_of (sv_t sv)) e = Inr (storage_type t)"
    using assms(1) aggregate_storage
    by (auto simp: scalar_type_def accessed_type_def load_flags_basic storage_type_def bind_eq_Some_conv split: if_splits)
  moreover have "load_opcode t \<noteq> 0" using load_opcode_cases [of t] by auto
  ultimately show ?thesis
    using load_form_scalar [OF assms(2), of r] by (simp add: load_memory_def load_access_def)
qed

lemma ucast_scast: "ucast (scast (fc :: u32) :: u64) = fc"
proof (rule bit_word_eqI)
  fix n
  assume "n < LENGTH(32)"
  then show "bit (ucast (scast fc :: u64) :: u32) n = bit fc n" by (cases "n < 31"; cases "n = 31") (auto simp: bit_simps)
qed

lemma fits_pointer: "scast (ucast (scast (fc :: u32) :: u64) :: u32) = (scast fc :: u64)"
  by (simp add: ucast_scast)

text \<open>The inner loads do not load anything else, so \<open>load\<close> satisfies the recursion of the code.\<close>

lemma inner_pointer: "load_body get_reg again r (pointer_in_frame fc) = load_access VT_PTR r (VT_LOCAL OR VT_LVAL) 0 fc"
proof
  fix e :: emitter
  have a: "accessed_type (symbols e) (pointer_in_frame fc) = Some VT_PTR"
    by (simp add: accessed_type_def pointer_in_frame_def VT_PTR_def VT_BTYPE_def VT_STRUCT_def)
  have s: "is_scalar VT_PTR" by (simp add: is_scalar_def VT_PTR_def VT_BTYPE_def)
  show "load_body get_reg again r (pointer_in_frame fc) e = load_access VT_PTR r (VT_LOCAL OR VT_LVAL) 0 fc e"
    using load_memory_access [OF a s, of r "VT_LOCAL OR VT_LVAL" fc]
    by (simp add: load_body_def load_address_def Let_def pointer_in_frame_def ucast_scast VT_LOCAL_def VT_LVAL_def VT_VALMASK_def
        VT_LLOCAL_def VT_SYM_def)
qed

lemma inner_constant: "load_body get_reg again r (address_constant c) = load_constant (address_constant c) VT_LLONG r VT_CONST (ucast c)"
  by (simp add: fun_eq_iff load_body_def load_value_def Let_def address_constant_def load_flags_of_def VT_CONST_def VT_LVAL_def
      VT_VALMASK_def VT_SYM_def type_bits VT_LLONG_def)

lemma load_body_cong:
  assumes "\<And>b fc r fr. load_address get_reg f b (pointer_in_frame fc) r fr = load_address get_reg h b (pointer_in_frame fc) r fr"
    and "\<And>b c r fr. load_address get_reg f b (address_constant c) r fr = load_address get_reg h b (address_constant c) r fr"
  shows "load_body get_reg f = load_body get_reg h"
  by (intro ext) (simp only: load_body_def assms)

lemma inner_same:
  "load_address get_reg (load_body get_reg f) b (pointer_in_frame fc) r fr = load_address get_reg (load_body get_reg h) b (pointer_in_frame fc) r fr"
  "load_address get_reg (load_body get_reg f) b (address_constant c) r fr = load_address get_reg (load_body get_reg h) b (address_constant c) r fr"
  by (auto simp: fun_eq_iff load_address_def inner_pointer inner_constant split: sum.split prod.split)

lemma load_recursion: "load get_reg = load_body get_reg (load get_reg)"
  unfolding load_def by (intro load_body_cong inner_same)

lemma plain_access:
  assumes "is_operand fr" and "\<not> is_symbolic fr" and "r < 16" and "ready n e" and "9 \<le> n"
  shows "\<exists>e'. plainly_computes (load_access t r fr y fc) e e' r
    (\<lambda>s. loaded t (read_mem (load_size t) (ram s) (operand_address (\<lambda>_. 0) s fr y (scast fc)))) n"
proof (rule plain_emits [OF _ _ assms(4)])
  have z: "operand_relocs fr y fc = []" using assms(2) by (simp add: operand_relocs_def)
  show "emits (load_access t r fr y fc) (load_access_bytes t r fr @ operand_bytes r fr fc 0) []"
    using emits_load_access [OF assms(3), of t fr y fc] by (simp add: z)
  show "length (load_access_bytes t r fr @ operand_bytes r fr fc 0) \<le> n"
    using length_o_code_load [of t] length_rex [of "load_size t = 8" fr r] length_operand [of r fr fc 0] assms(5)
    by (simp add: load_access_bytes_def)
  show "\<exists>s'. executes (load_access_bytes t r fr @ operand_bytes r fr fc 0) s s' \<and>
      sets_register r (loaded t (read_mem (load_size t) (ram s) (operand_address (\<lambda>_. 0) s fr y (scast fc)))) s s'" for s
    using executes_load_access [OF assms(1,3) refl refl, where S = "\<lambda>_. 0" and s = s and fc = fc and y = y and t = t] assms(2)
    by (simp add: z)
qed

lemma address_register_operand:
  assumes "address_register r"
  shows "r < 16" and "is_operand r" and "\<not> is_symbolic r" and "operand_address S s r y c = gpr s (reg_number r)"
proof -
  have r: "r = 0 \<or> r = 1 \<or> r = 2 \<or> r = 11"
    using assms by (simp add: address_register_def TREG_RAX_def TREG_RCX_def TREG_RDX_def TREG_R11_def)
  have v: "r AND VT_VALMASK = r" "r < 16" "unat r mod 8 \<noteq> 4" "unat r mod 8 \<noteq> 5"
    using r by (elim disjE; simp add: VT_VALMASK_def)+
  then show "r < 16" "is_operand r" by (simp_all add: is_operand_def is_register_def)
  have "r \<noteq> VT_CONST" "r \<noteq> VT_LOCAL" "\<not> TREG_MEM \<le> r"
    using v(2) by (auto simp: VT_CONST_def VT_LOCAL_def TREG_MEM_def not_le intro: order.strict_trans)
  then show "\<not> is_symbolic r" "operand_address S s r y c = gpr s (reg_number r)"
    using v(1) by (simp_all add: is_symbolic_def operand_address_def)
qed

lemma loaded_pointer: "loaded VT_PTR x = x" "load_size VT_PTR = 8"
  by (simp_all add: loaded_def load_size_def VT_PTR_def VT_BTYPE_def VT_BYTE_def VT_BOOL_def VT_SHORT_def VT_INT_def)

lemma pointer_operand: "is_operand (VT_LOCAL OR VT_LVAL)" "\<not> is_symbolic (VT_LOCAL OR VT_LVAL)"
    "operand_address S s (VT_LOCAL OR VT_LVAL) y c = gpr s 5 + c"
  by (simp_all add: is_operand_def is_symbolic_def operand_address_def VT_LOCAL_def VT_LVAL_def VT_VALMASK_def VT_CONST_def)

end
