(* ===== verification/X86CodeSpec.thy ===== *)
theory X86CodeSpec imports X86LoadValue
begin

text \<open>
  The properties of code emission: what loaded code computes.
\<close>

section \<open>Values in registers\<close>

lemma fits_scast: "fits_32 c \<Longrightarrow> scast (ucast c :: u32) = c"
  by (simp add: fits_32_def)

lemma load_lvalue_eq:
  assumes "sv_r sv AND VT_LVAL \<noteq> 0" and "accessed_type (symbols e) sv = Some t" and "is_scalar t"
    and "sv_r sv AND VT_VALMASK \<noteq> VT_LLOCAL" and "fits_32 (sv_c sv)"
  shows "load get_reg r sv e = load_access t r (sv_r sv) (sv_sym sv) (ucast (sv_c sv)) e"
  using assms load_memory_access [OF assms(2,3)] fits_scast [OF assms(5)]
  by (simp add: load_def load_body_def [of get_reg "load_body get_reg f" for f] Let_def load_address_def)

lemma load_value_eq:
  assumes "sv_r sv AND VT_LVAL = 0" and "sv_r sv AND VT_SYM \<noteq> 0 \<longrightarrow> fits_32 (sv_c sv)"
  shows "load get_reg r sv e = load_value sv (load_flags_of (sv_t sv)) r (ucast (sv_c sv)) e"
  using assms fits_scast [of "sv_c sv"] by (auto simp: load_def load_body_def [of get_reg "load_body get_reg f" for f] Let_def)

text \<open>A pointer in the frame is loaded first.\<close>

lemma load_frame_pointer:
  assumes "sv_r sv AND VT_LVAL \<noteq> 0" and "accessed_type (symbols e) sv = Some t" and "is_scalar t"
    and "sv_r sv AND VT_VALMASK = VT_LLOCAL" and "fits_32 (sv_c sv)" and "address_register r" and "ready 20 e"
  shows "\<exists>e'. plainly_computes (load get_reg r sv) e e' r
    (\<lambda>s. loaded t (read_mem (load_size t) (ram s) (read_mem 8 (ram s) (gpr s 5 + sv_c sv)))) 20"
proof -
  define fc :: u32 where "fc = ucast (sv_c sv)"
  have fc: "scast fc = sv_c sv" unfolding fc_def by (rule fits_scast [OF assms(5)])
  note a = address_register_operand [OF assms(6)]
  obtain e1 where e1: "plainly_computes (load_access VT_PTR r (VT_LOCAL OR VT_LVAL) 0 fc) e e1 r
      (\<lambda>s. read_mem 8 (ram s) (gpr s 5 + sv_c sv)) 10"
    using plain_access [OF pointer_operand(1,2) a(1), of 10 e VT_PTR 0 fc] assms(7) ready_less [of 20 e 10]
    by (auto simp: loaded_pointer pointer_operand(3) fc)
  have "\<exists>e2. plainly_computes (load get_reg r sv) e e2 r
    (\<lambda>s. loaded t (read_mem (load_size t) (ram s) (read_mem 8 (ram s) (gpr s 5 + sv_c sv)))) (10 + 10)"
  proof (rule plain_then [OF e1, where h = "load_access t r r (sv_sym sv) fc"])
    show "\<exists>e2. plainly_computes (load_access t r r (sv_sym sv) fc) e1 e2 r
        (\<lambda>s. loaded t (read_mem (load_size t) (ram s) (gpr s (reg_number r)))) 10" if "ready 10 e1" for e1
      using plain_access [OF a(2,3,1) that, of t "sv_sym sv" fc] a(4) by simp
    show "ready (10 + 10) e" using assms(7) by simp
    show "load get_reg r sv e = load_access t r r (sv_sym sv) fc e1"
      if "load_access VT_PTR r (VT_LOCAL OR VT_LVAL) 0 fc e = Inr e1" for e1
    proof -
      have sym: "symbols e1 = symbols e"
        using that e1 by (auto simp: plainly_computes_def appended_def)
      show ?thesis
        using assms(1,4,6) fc that load_memory_access [of e1 sv t r r fc] assms(2,3) sym
        by (simp add: load_def load_body_def [of get_reg "load_body get_reg f" for f] Let_def load_address_def inner_pointer fc_def [symmetric])
    qed
  qed (simp add: sets_register_def)
  then show ?thesis by simp
qed

text \<open>So is an address of more than 32 bits.\<close>

lemma load_absolute:
  assumes "sv_r sv AND VT_LVAL \<noteq> 0" and "accessed_type (symbols e) sv = Some t" and "is_scalar t"
    and "sv_r sv AND VT_VALMASK = VT_CONST" and "\<not> fits_32 (sv_c sv)" and "sv_r sv AND VT_SYM = 0"
    and "address_register r" and "ready 20 e"
  shows "\<exists>e'. plainly_computes (load get_reg r sv) e e' r
    (\<lambda>s. loaded t (read_mem (load_size t) (ram s) (sv_c sv))) 20"
proof -
  define c where "c = sv_c sv"
  define f where "f = load_constant (address_constant c) VT_LLONG r VT_CONST (ucast c)"
  note a = address_register_operand [OF assms(7)]
  have lc: "scast (ucast c :: u32) \<noteq> c" using assms(5) by (simp add: fits_32_def c_def)
  have nl: "VT_CONST \<noteq> VT_LLOCAL" by (simp add: VT_CONST_def VT_LLOCAL_def)
  have "VT_CONST AND VT_SYM = 0" "is64_type VT_LLONG"
    by (simp_all add: VT_CONST_def VT_SYM_def is64_type_def VT_LLONG_def VT_BTYPE_def)
  then obtain e1 where e1: "plainly_computes f e e1 r (\<lambda>s. c) 10"
    using computes_constant [OF a(1), of VT_CONST 10 e "address_constant c" VT_LLONG] assms(8) ready_less [of 20 e 10]
    by (auto simp: f_def zero_extend_8 address_constant_def)
  have "\<exists>e2. plainly_computes (load get_reg r sv) e e2 r (\<lambda>s. loaded t (read_mem (load_size t) (ram s) c)) (10 + 10)"
  proof (rule plain_then [OF e1, where h = "load_access t r r (sv_sym sv) 0"])
    show "\<exists>e2. plainly_computes (load_access t r r (sv_sym sv) 0) e1 e2 r
        (\<lambda>s. loaded t (read_mem (load_size t) (ram s) (gpr s (reg_number r)))) 10" if "ready 10 e1" for e1
      using plain_access [OF a(2,3,1) that, of t "sv_sym sv" 0] a(4) by simp
    show "ready (10 + 10) e" using assms(8) by simp
    show "load get_reg r sv e = load_access t r r (sv_sym sv) 0 e1" if "f e = Inr e1" for e1
    proof -
      have sym: "symbols e1 = symbols e" using that e1 by (auto simp: plainly_computes_def appended_def)
      show ?thesis
        using assms(1,4,6,7) lc nl that load_memory_access [of e1 sv t r r 0] assms(2,3) sym
        by (simp add: load_def load_body_def [of get_reg "load_body get_reg f" for f] Let_def load_address_def inner_constant
            c_def [symmetric] f_def [symmetric])
    qed
  qed (simp add: sets_register_def)
  then show ?thesis by (simp add: c_def)
qed

lemma computes_weaken:
  "computes f e e' r reach val n \<Longrightarrow> n \<le> m \<Longrightarrow> (\<And>S p. reach' S p \<Longrightarrow> reach S p) \<Longrightarrow> (\<And>S s. val' S s = val S s) \<Longrightarrow>
    computes f e e' r reach' val' m"
  unfolding computes_def by (metis order_trans)

lemma plain_weaken:
  "\<exists>e'. plainly_computes f e e' r val n \<Longrightarrow> n \<le> m \<Longrightarrow> h e = f e \<Longrightarrow> (\<And>S s. val' S s = val s) \<Longrightarrow>
    \<exists>e'. computes h e e' r reach' val' m"
  using computes_weaken [OF plainly_computes] computes_cong by metis

definition symbol_reached :: "operand \<Rightarrow> (nat \<Rightarrow> u64) \<Rightarrow> u64 \<Rightarrow> bool" where
  "symbol_reached sv S next \<longleftrightarrow> (is_symbolic (sv_r sv) \<longrightarrow> reached (S (sv_sym sv) + sv_c sv) next)"

lemma load_lvalue_computes:
  assumes "loadable r (symbols e) cmp sv" and "sv_r sv AND VT_LVAL \<noteq> 0" and "ready 20 e"
  shows "\<exists>e'. computes (load get_reg r sv) e e' r (symbol_reached sv) (\<lambda>S s. value_of S (symbols e) cmp s sv) 20"
proof -
  note l = assms(1) [unfolded loadable_def Let_def]
  obtain t where t: "accessed_type (symbols e) sv = Some t" "is_scalar t"
    using l assms(2) by (auto split: option.splits)
  have val: "value_of S (symbols e) cmp s sv = loaded t (read_mem (load_size t) (ram s) (lvalue_address S s sv))" for S s
    using assms(2) t(1) by (simp add: value_of_def)
  consider (pointer) "sv_r sv AND VT_VALMASK = VT_LLOCAL" "address_register r" "fits_32 (sv_c sv)"
    | (plain) "sv_r sv AND VT_VALMASK \<noteq> VT_LLOCAL" "is_operand (sv_r sv)" "fits_32 (sv_c sv)"
    | (long) "sv_r sv AND VT_VALMASK = VT_CONST" "address_register r" "\<not> fits_32 (sv_c sv)" "sv_r sv AND VT_SYM = 0"
    using l assms(2) by (auto split: if_splits)
  then show ?thesis
  proof cases
    case pointer
    show ?thesis
      by (rule plain_weaken [OF load_frame_pointer [OF assms(2) t pointer(1,3,2) assms(3)]])
        (simp_all add: val lvalue_address_def pointer(1))
  next
    case plain
    have "r < 16" using l by simp
    note e = load_lvalue_eq [OF assms(2) t plain(1,3), of get_reg r]
    obtain e' where "computes (load_access t r (sv_r sv) (sv_sym sv) (ucast (sv_c sv))) e e' r
        (\<lambda>S next. is_symbolic (sv_r sv) \<longrightarrow> reached (S (sv_sym sv) + sv_c sv) next)
        (\<lambda>S s. loaded t (read_mem (load_size t) (ram s) (operand_address S s (sv_r sv) (sv_sym sv) (sv_c sv)))) 20"
      using computes_access [OF plain(2) \<open>r < 16\<close> assms(3), where t = t and y = "sv_sym sv" and fc = "ucast (sv_c sv)"]
        fits_scast [OF plain(3)] by auto
    then have c: "computes (load_access t r (sv_r sv) (sv_sym sv) (ucast (sv_c sv))) e e' r (symbol_reached sv)
        (\<lambda>S s. value_of S (symbols e) cmp s sv) 20"
      by (rule computes_weaken)
        (use plain(1) in \<open>simp_all add: symbol_reached_def val lvalue_address_def\<close>)
    show ?thesis using computes_cong [OF c, of "load get_reg r sv"] e by blast
  next
    case long
    have "VT_CONST \<noteq> VT_LLOCAL" by (simp add: VT_CONST_def VT_LLOCAL_def)
    show ?thesis
      by (rule plain_weaken [OF load_absolute [OF assms(2) t long(1,3,4,2) assms(3)]])
        (use long \<open>VT_CONST \<noteq> VT_LLOCAL\<close> in \<open>simp_all add: val lvalue_address_def operand_address_def\<close>)
  qed
qed

lemma load_rvalue_computes:
  assumes "loadable r (symbols e) (vtop_cmp_r e) sv" and "sv_r sv AND VT_LVAL = 0" and "ready 20 e"
  shows "\<exists>e'. computes (load get_reg r sv) e e' r (symbol_reached sv) (\<lambda>S s. value_of S (symbols e) (vtop_cmp_r e) s sv) 20"
proof -
  note l = assms(1) [unfolded loadable_def Let_def]
  define v where "v = sv_r sv AND VT_VALMASK"
  define ft where "ft = load_flags_of (sv_t sv)"
  define fc :: u32 where "fc = ucast (sv_c sv)"
  have r: "r < 16" and sym: "sv_r sv AND VT_SYM \<noteq> 0 \<longrightarrow> fits_32 (sv_c sv)" using l by simp_all
  have e: "load get_reg r sv e = load_value sv ft r fc e"
    unfolding ft_def fc_def by (rule load_value_eq [OF assms(2) sym])
  have d: "VT_CONST \<noteq> VT_LOCAL" "VT_CMP \<noteq> VT_CONST" "VT_CMP \<noteq> VT_LOCAL" "\<not> VT_CONST < 16" "\<not> VT_LOCAL < 16" "\<not> VT_CMP < 16"
    "\<not> VT_JMP < 16" "\<not> VT_JMPI < 16"
    by (simp_all add: VT_CONST_def VT_LOCAL_def VT_CMP_def VT_JMP_def VT_JMPI_def)
  have r10: "ready 10 e" by (rule ready_less [OF assms(3)]) simp
  consider (const) "v = VT_CONST" "sv_r sv AND VT_SYM = 0" | (named) "v = VT_CONST" "sv_r sv AND VT_SYM \<noteq> 0"
    | (frame) "v = VT_LOCAL" "fits_32 (sv_c sv)" | (flags) "v = VT_CMP" "r < 4" "is_comparison (vtop_cmp_r e) fc"
    | (register) "v < 16" "v \<noteq> r"
    using l assms(2) unfolding v_def fc_def by (auto split: if_splits)
  then show ?thesis
  proof cases
    case const
    show ?thesis
      by (rule plain_weaken [OF computes_constant [OF r const(2) r10, where sv = sv and ft = ft]])
        (use const assms(2) e in \<open>simp_all add: load_value_def Let_def v_def value_of_def ft_def load_flags_64 fc_def\<close>)
  next
    case named
    have f: "scast fc = sv_c sv" using sym named(2) fits_scast unfolding fc_def by blast
    obtain e' where "computes (load_constant sv ft r (sv_r sv) fc) e e' r (\<lambda>S next. reached (S (sv_sym sv) + sv_c sv) next)
        (\<lambda>S s. S (sv_sym sv) + sv_c sv) 10"
      using computes_symbol_address [OF r _ named(2) r10, where sv = sv and ft = ft and fc = fc] named(1) f unfolding v_def by auto
    then have "computes (load get_reg r sv) e e' r (symbol_reached sv) (\<lambda>S s. value_of S (symbols e) (vtop_cmp_r e) s sv) 20"
      by (rule computes_cong [OF computes_weaken])
        (use named assms(2) e in \<open>simp_all add: symbol_reached_def is_symbolic_def load_value_def Let_def v_def value_of_def\<close>)
    then show ?thesis ..
  next
    case frame
    have f: "scast fc = sv_c sv" using frame(2) fits_scast unfolding fc_def by blast
    show ?thesis
      by (rule plain_weaken [OF plain_frame_address [OF r r10, where y = "sv_sym sv" and fc = fc]])
        (use frame assms(2) e d f in \<open>simp_all add: load_value_def Let_def v_def value_of_def\<close>)
  next
    case flags
    show ?thesis
      by (rule plain_weaken [OF computes_flags [OF flags(2,3) r10]])
        (use flags assms(2) e d in \<open>simp_all add: load_value_def Let_def v_def value_of_def fc_def\<close>)
  next
    case register
    then have "v \<notin> {VT_CONST, VT_LOCAL, VT_CMP, VT_JMP, VT_JMPI}" using d by auto
    then show ?thesis
      by (intro plain_weaken [OF computes_register [OF r register r10, where ft = ft]])
        (use register assms(2) e in \<open>simp_all add: load_value_def Let_def v_def value_of_def ft_def load_flags_64\<close>)
  qed
qed

text \<open>C29: loading computes the value.  For every operand that can be loaded into an integer register (a
  constant, the address or the contents of a variable, memory behind a register or behind a pointer in the frame,
  a comparison, another register) \<open>load\<close> succeeds and appends code which, after the linker has put in the
  symbol and executed by the processor, leaves the value of the operand, converted to its type, in the
  register and changes no other register and no memory.\<close>

theorem load_computes:
  assumes "loadable r (symbols e) (vtop_cmp_r e) sv" and "ready 20 e"
  shows "\<exists>e' bs rs. load get_reg r sv e = Inr e' \<and> appended e bs rs e' \<and>
    (\<forall>S s. symbol_reached sv S (rip s + of_nat (length bs)) \<longrightarrow>
      (\<exists>s'. run_code (linked S (rip s) bs rs) s = Some s' \<and>
        gpr s' = (gpr s)(reg_number r := value_of S (symbols e) (vtop_cmp_r e) s sv) \<and> ram s' = ram s))"
proof -
  obtain e' where "computes (load get_reg r sv) e e' r (symbol_reached sv) (\<lambda>S s. value_of S (symbols e) (vtop_cmp_r e) s sv) 20"
    using load_lvalue_computes [OF assms(1) _ assms(2)] load_rvalue_computes [OF assms(1) _ assms(2)] by blast
  then obtain bs rs where "load get_reg r sv e = Inr e'" "appended e bs rs e'"
    and run: "\<And>S s. symbol_reached sv S (rip s + of_nat (length bs)) \<Longrightarrow> \<exists>s'. executes (linked S (rip s) bs rs) s s' \<and>
      sets_register r (value_of S (symbols e) (vtop_cmp_r e) s sv) s s'"
    unfolding computes_def by blast
  moreover have "\<exists>s'. run_code (linked S (rip s) bs rs) s = Some s' \<and>
        gpr s' = (gpr s)(reg_number r := value_of S (symbols e) (vtop_cmp_r e) s sv) \<and> ram s' = ram s"
    if "symbol_reached sv S (rip s + of_nat (length bs))" for S s
    using run [OF that] executes_run unfolding sets_register_def by blast
  ultimately show ?thesis by blast
qed

theorem load_computes_witness:
  "\<exists>e' bs rs. load (\<lambda>st. Inr (0, st)) 1 \<lparr>sv_t = VT_BYTE, sv_r = VT_LOCAL OR VT_LVAL, sv_c = - 8, sv_sym = 0, sv_ref = 0\<rparr> new_emitter = Inr e'
    \<and> appended new_emitter bs rs e'
    \<and> (\<forall>S s. \<exists>s'. run_code (linked S (rip s) bs rs) s = Some s'
         \<and> gpr s' = (gpr s)(1 := zero_extend 4 (sign_extend 1 (read_mem 1 (ram s) (gpr s 5 - 8)))) \<and> ram s' = ram s)"
proof -
  define sv :: operand where
    "sv = \<lparr>sv_t = VT_BYTE, sv_r = VT_LOCAL OR VT_LVAL, sv_c = - 8, sv_sym = 0, sv_ref = 0\<rparr>"
  have a: "accessed_type h sv = Some VT_BYTE" for h
    by (simp add: accessed_type_def sv_def VT_BYTE_def VT_BTYPE_def VT_STRUCT_def)
  have s: "is_scalar VT_BYTE" by (simp add: is_scalar_def basic_types type_bits attributes_def)
  have f: "fits_32 (- 8)" by (simp add: fits_32_def)
  have l: "loadable 1 h cmp sv" for h cmp
    using pointer_operand(1) by (simp add: loadable_def a s Let_def)
      (simp add: sv_def f VT_LOCAL_def VT_LVAL_def VT_VALMASK_def VT_LLOCAL_def VT_SYM_def VT_CONST_def VT_CMP_def)
  have ns: "symbol_reached sv S p" for S p using pointer_operand(2) by (simp add: symbol_reached_def sv_def)
  have "value_of S h cmp s sv = zero_extend 4 (sign_extend 1 (read_mem 1 (ram s) (gpr s 5 - 8)))" for S h cmp s
    by (simp add: value_of_def a Let_def lvalue_address_def loaded_def load_size_def basic_types VT_BTYPE_def VT_UNSIGNED_def)
      (simp add: sv_def operand_address_def VT_LOCAL_def VT_LVAL_def VT_VALMASK_def VT_LLOCAL_def VT_CONST_def VT_CMP_def VT_SYM_def TREG_MEM_def)
  moreover have "reg_number 1 = 1" by (simp add: reg_number_def)
  ultimately show ?thesis
    using load_computes [OF l new_emitter_ready [of 20], where get_reg = "\<lambda>st. Inr (0, st)"] ns unfolding sv_def [symmetric] by simp
qed

end
