(* ===== verification/X86JumpSpec.thy ===== *)
theory X86JumpSpec imports X86LoadForms
begin

text \<open>
  Lists of jumps: the invariant that the chain through the fields of the jumps is intact, that every operation of
  \<open>X86Jump\<close> keeps it, and that resolving a label makes every jump of its list land there.
\<close>

section \<open>Chains\<close>

lemmas field32 = le32.whole.length_wr le32.whole.rd_wr le32.whole.wr_other le32.whole.rd_wr_apart

definition apart :: "u32 \<Rightarrow> u32 \<Rightarrow> bool" where
  "apart u v \<longleftrightarrow> unat u + 4 \<le> unat v \<or> unat v + 4 \<le> unat u"

fun jump_chain :: "u8 list \<Rightarrow> u32 \<Rightarrow> u32 list \<Rightarrow> bool" where
  "jump_chain bs t [] \<longleftrightarrow> t = 0"
| "jump_chain bs t (u # us) \<longleftrightarrow> t = u \<and> u \<noteq> 0 \<and> in_section bs u \<and> (\<forall>v\<in>set us. apart u v) \<and> jump_chain bs (read32le bs (unat u)) us"

lemma chain_in_section: "jump_chain bs t us \<Longrightarrow> u \<in> set us \<Longrightarrow> in_section bs u"
  by (induction us arbitrary: t) auto

lemma apart_sym: "apart u v \<longleftrightarrow> apart v u" by (auto simp: apart_def)

lemma read_after_write:
  "apart u v \<Longrightarrow> read32le (write32le bs (unat u) x) (unat v) = read32le bs (unat v)"
  using le32.whole.rd_wr_apart [of "unat u" "unat v" bs x] by (auto simp: apart_def)

lemma read_written: "in_section bs u \<Longrightarrow> read32le (write32le bs (unat u) x) (unat u) = x"
  using le32.whole.rd_wr [of "unat u" bs x] by (simp add: in_section_def)

lemma length_write32: "length (write32le bs p x) = length bs"
  by (rule le32.whole.length_wr)

lemma write32_other: "i < p \<or> p + 4 \<le> i \<Longrightarrow> write32le bs p x ! i = bs ! i"
  using le32.whole.wr_other [of i p bs x] by simp

lemma jump_chain_cong:
  "jump_chain bs t us \<Longrightarrow> (\<And>u. u \<in> set us \<Longrightarrow> in_section cs u) \<Longrightarrow> (\<And>u. u \<in> set us \<Longrightarrow> read32le cs (unat u) = read32le bs (unat u)) \<Longrightarrow> jump_chain cs t us"
  by (induction us arbitrary: t) (auto simp: in_section_def)

lemma chain_write_apart: "jump_chain bs t us \<Longrightarrow> \<forall>u\<in>set us. apart v u \<Longrightarrow> jump_chain (write32le bs (unat v) x) t us"
  by (rule jump_chain_cong) (auto simp: in_section_def length_write32 read_after_write dest: chain_in_section)

text \<open>Following a chain to its end, and joining another one there.\<close>

lemma chain_end_last: "jump_chain bs t us \<Longrightarrow> us \<noteq> [] \<Longrightarrow> chain_end bs t = Some (Some (last us))"
proof (induction us arbitrary: t)
  case (Cons u us)
  show ?case
  proof (cases us)
    case Nil
    then show ?thesis using Cons.prems by (subst chain_end.simps) simp
  next
    case (Cons v vs)
    then have "read32le bs (unat u) \<noteq> 0" using Cons.prems by simp
    then show ?thesis using Cons.prems Cons.IH [of "read32le bs (unat u)"] Cons by (subst chain_end.simps) simp
  qed
qed simp

lemma chain_join:
  assumes "jump_chain bs n us" and "us \<noteq> []" and "jump_chain bs t ts" and "\<forall>u\<in>set us. \<forall>v\<in>set ts. apart u v"
  shows "jump_chain (write32le bs (unat (last us)) t) n (us @ ts)"
  using assms
proof (induction us arbitrary: n)
  case (Cons u us)
  show ?case
  proof (cases us)
    case Nil
    then show ?thesis
      using Cons.prems chain_write_apart [of bs t ts u t] read_written [of bs u t]
      by (auto simp: in_section_def length_write32)
  next
    case (Cons v vs)
    then have l: "last us \<in> set us" by simp
    then have "apart (last us) u" using Cons.prems by (auto simp: apart_sym)
    then have "read32le (write32le bs (unat (last us)) t) (unat u) = read32le bs (unat u)" by (rule read_after_write)
    moreover have "jump_chain (write32le bs (unat (last us)) t) (read32le bs (unat u)) (us @ ts)"
      using Cons.prems Cons by (intro Cons.IH) auto
    ultimately show ?thesis using Cons.prems Cons by (auto simp: in_section_def length_write32)
  qed
qed simp

lemma patch_chain_ends:
  assumes "jump_chain bs t us"
  shows "\<exists>bs'. patch_chain bs t a = Some (Some bs') \<and> length bs' = length bs
    \<and> (\<forall>u\<in>set us. read32le bs' (unat u) = jump_field u a)
    \<and> (\<forall>i. (\<forall>u\<in>set us. i < unat u \<or> unat u + 4 \<le> i) \<longrightarrow> bs' ! i = bs ! i)"
  using assms
proof (induction us arbitrary: t bs)
  case Nil
  then show ?case by (simp add: patch_chain.simps)
next
  case (Cons u us)
  define cs where "cs = write32le bs (unat u) (jump_field u a)"
  have c: "jump_chain cs (read32le bs (unat u)) us" using Cons.prems chain_write_apart unfolding cs_def by auto
  obtain bs' where bs': "patch_chain cs (read32le bs (unat u)) a = Some (Some bs')" "length bs' = length cs"
    "\<And>v. v \<in> set us \<Longrightarrow> read32le bs' (unat v) = jump_field v a"
    "\<And>i. \<forall>v\<in>set us. i < unat v \<or> unat v + 4 \<le> i \<Longrightarrow> bs' ! i = cs ! i"
    using Cons.IH [OF c] by blast
  have "\<forall>i<4. bs' ! (unat u + i) = cs ! (unat u + i)"
    using Cons.prems by (auto intro!: bs'(4) simp: apart_def)
  then have "read32le bs' (unat u) = read32le cs (unat u)" using le32.whole.rd_eq [of bs' "unat u" cs] by simp
  then have u: "read32le bs' (unat u) = jump_field u a" using Cons.prems read_written [of bs u] by (simp add: cs_def)
  have "patch_chain bs t a = Some (Some bs')"
    using Cons.prems bs'(1) by (subst patch_chain.simps) (simp add: cs_def)
  then show ?case using bs'(2,3,4) u by (auto simp: cs_def length_write32 write32_other)
qed

section \<open>Pending jumps\<close>

definition pending :: "emitter \<Rightarrow> u32 \<Rightarrow> u32 list \<Rightarrow> bool" where
  "pending e t us \<longleftrightarrow> jump_chain (sec_data (text_section e)) t us \<and> (\<forall>u\<in>set us. unat u + 4 \<le> unat (ind e))
     \<and> valid_section (text_section e) \<and> unat (ind e) \<le> length (sec_data (text_section e))"

lemma pending_none: "ready n e \<Longrightarrow> pending e 0 []"
  by (simp add: pending_def ready_def)

lemma code_nth: "i < unat (ind e) \<Longrightarrow> unat (ind e) \<le> length (sec_data (text_section e)) \<Longrightarrow> sec_data (text_section e) ! i = code_of e ! i"
  by (simp add: code_of_def)

lemma read32_prefix:
  assumes "p + 4 \<le> length xs"
  shows "read32le (xs @ ys) p = read32le xs p"
  using assms le32.whole.rd_eq [of "xs @ ys" p xs] by (simp add: nth_append)

lemma read_code:
  assumes "unat u + 4 \<le> unat (ind e)" and "unat (ind e) \<le> length (sec_data (text_section e))"
  shows "read32le (sec_data (text_section e)) (unat u) = read32le (code_of e) (unat u)"
  using assms le32.whole.rd_eq [of "sec_data (text_section e)" "unat u" "code_of e"] by (simp add: code_nth)

lemma pending_after:
  assumes "pending e t us" and "appended e bs rs e'" and "ready (length bs) e"
  shows "pending e' t us"
proof -
  have i: "unat (ind e') = unat (ind e) + length bs" using ind_after [of bs 0 e rs e'] assms(2,3) by simp
  have le: "unat (ind e) \<le> length (sec_data (text_section e))" "unat (ind e') \<le> length (sec_data (text_section e'))"
    using assms(1,2) by (auto simp: pending_def appended_def)
  have lc: "length (code_of e) = unat (ind e)" using le by (simp add: code_of_def)
  have rd: "read32le (sec_data (text_section e')) (unat u) = read32le (sec_data (text_section e)) (unat u)"
    if "unat u + 4 \<le> unat (ind e)" for u
    using that read_code [of u e] read_code [of u e'] read32_prefix [of "unat u" "code_of e" bs] le i lc assms(2)
    by (simp add: appended_def)
  have "jump_chain (sec_data (text_section e')) t us"
    by (rule jump_chain_cong [of "sec_data (text_section e)"])
      (use assms(1) i le rd in \<open>auto simp: pending_def in_section_def\<close>)
  then show ?thesis using assms(1,2) i by (auto simp: pending_def appended_def)
qed

text \<open>Emitting a jump with a one-byte opcode and a field, after \<open>n\<close> bytes of its own.\<close>

lemma oad_field:
  assumes "o_code c = [b]" and "ready 5 e"
  obtains e' where "oad c s e = Inr (ind e + 1, e')" "appended e (b # le_bytes 4 (ucast s)) [] e'"
proof -
  have r: "ready (length [b] + 4) e" using assms(2) by simp
  obtain e1 where e1: "o_bytes c e = Inr e1" "appended e [b] [] e1"
    using emitsE [OF emits_o [of c] ready_less [OF assms(2)]] assms(1) by auto
  have "ready (length (le_bytes 4 (ucast s))) e1" using ready_after [OF r e1(2)] by simp
  then obtain e2 where e2: "gen_le32 s e1 = Inr e2" "appended e1 (le_bytes 4 (ucast s)) [] e2"
    by (rule emitsE [OF emits_le32])
  have "ind e1 = ind e + 1" using e1(2) by (simp add: appended_def)
  then show ?thesis
    using that appended_trans [OF e1(2) e2(2)] e1(1) e2(1) assms(2) by (simp add: oad_def ready_def)
qed

lemma field_read: "read32le (xs @ le_bytes 4 (ucast t) @ ys) (length xs) = t"
proof -
  have "read32le (write32le (xs @ le_bytes 4 0) (length xs) t) (length xs) = t"
    by (rule le32.whole.rd_wr) simp
  then have "read32le (xs @ le_bytes 4 (ucast t)) (length xs) = t" by (simp only: write32_end)
  then show ?thesis using read32_prefix [of "length xs" "xs @ le_bytes 4 (ucast t)" ys] by simp
qed

lemma pending_jump:
  assumes "pending e t us" and "ready 5 e" and "o_code c = [b]"
  obtains e' where "oad c t e = Inr (ind e + 1, e')" "appended e (b # le_bytes 4 (ucast t)) [] e'"
    "pending e' (ind e + 1) ((ind e + 1) # us)"
proof -
  obtain e' where e': "oad c t e = Inr (ind e + 1, e')" "appended e (b # le_bytes 4 (ucast t)) [] e'"
    by (rule oad_field [OF assms(3,2)])
  have r: "ready (length (b # le_bytes 4 (ucast t))) e" using assms(2) by simp
  have p: "pending e' t us" by (rule pending_after [OF assms(1) e'(2) r])
  have i: "unat (ind e') = unat (ind e) + 5" using ind_after [of _ 0, OF _ e'(2)] r by simp
  have i1: "unat (ind e + 1) = unat (ind e) + 1" using assms(2) by (simp add: ready_def unat_word_ariths)
  have le: "unat (ind e) \<le> length (sec_data (text_section e))" "unat (ind e') \<le> length (sec_data (text_section e'))"
    using assms(1) p by (simp_all add: pending_def)
  have lc: "length (code_of e @ [b]) = unat (ind e + 1)" using le i1 by (simp add: code_of_def)
  have "read32le (sec_data (text_section e')) (unat (ind e + 1)) = read32le (code_of e') (unat (ind e + 1))"
    by (rule read_code) (use i i1 le in simp_all)
  also have "\<dots> = t"
    using field_read [of "code_of e @ [b]" t "[]"] e'(2) lc by (simp add: appended_def)
  finally have "jump_chain (sec_data (text_section e')) (ind e + 1) ((ind e + 1) # us)"
    using p assms(1) i i1 le by (auto simp: pending_def in_section_def apart_def unat_eq_0 [symmetric])
  then have "pending e' (ind e + 1) ((ind e + 1) # us)" using p i i1 by (auto simp: pending_def)
  then show ?thesis using that e' by blast
qed

section \<open>Pieces of code with jumps to one label\<close>

text \<open>The ways the front end builds a list of jumps: code without jumps, a jump, a conditional jump, two pieces
  that add to the same list, and two pieces with lists of their own that are joined.\<close>

datatype piece = Straight "u8 list" | Jump | Jump_if u32 | Follow piece piece | Join piece piece

primrec emit_straight :: "u8 list \<Rightarrow> emission" where
  "emit_straight [] st = Inr st"
| "emit_straight (b # bs) st = (case g (ucast b) st of Inl e \<Rightarrow> Inl e | Inr st' \<Rightarrow> emit_straight bs st')"

primrec emit_piece :: "piece \<Rightarrow> u32 \<Rightarrow> emitter \<Rightarrow> emit_stop + u32 \<times> emitter" where
  "emit_piece (Straight bs) t st = (case emit_straight bs st of Inl e \<Rightarrow> Inl e | Inr st' \<Rightarrow> Inr (t, st'))"
| "emit_piece Jump t st = gjmp t st"
| "emit_piece (Jump_if op) t st = gjmp_cond op t st"
| "emit_piece (Follow a b) t st = (case emit_piece a t st of Inl e \<Rightarrow> Inl e | Inr (t', st') \<Rightarrow> emit_piece b t' st')"
| "emit_piece (Join a b) t st =
     (case emit_piece a 0 st of
        Inl e \<Rightarrow> Inl e
      | Inr (n, st1) \<Rightarrow>
          (case emit_piece b t st1 of Inl e \<Rightarrow> Inl e | Inr (t', st2) \<Rightarrow> gjmp_append n t' st2))"

text \<open>The bytes of a piece with 0 in the fields, and the places of the fields; \<open>cmp\<close> is \<open>vtop->cmp_r\<close>.\<close>

definition parity_first :: "u32 \<Rightarrow> u32 \<Rightarrow> bool" where
  "parity_first cmp op \<longleftrightarrow> (op AND NOT 0x100) XOR cmp XOR of_bool (cmp \<noteq> TOK_NE) \<noteq> 0"

definition field :: "u8 list" where "field = [0, 0, 0, 0]"

definition condition_bytes :: "u32 \<Rightarrow> u32 \<Rightarrow> u8 list" where
  "condition_bytes cmp op =
     (if op AND 0x100 \<noteq> 0 then if parity_first cmp op then [0x7a, 0x06] else [0x0f, 0x8a] @ field else [])"

primrec piece_bytes :: "u32 \<Rightarrow> piece \<Rightarrow> u8 list" where
  "piece_bytes cmp (Straight bs) = bs"
| "piece_bytes cmp Jump = 0xe9 # field"
| "piece_bytes cmp (Jump_if op) = condition_bytes cmp op @ [0x0f, ucast ((op AND NOT 0x100) - 16)] @ field"
| "piece_bytes cmp (Follow a b) = piece_bytes cmp a @ piece_bytes cmp b"
| "piece_bytes cmp (Join a b) = piece_bytes cmp a @ piece_bytes cmp b"

primrec piece_fields :: "u32 \<Rightarrow> piece \<Rightarrow> nat list" where
  "piece_fields cmp (Straight bs) = []"
| "piece_fields cmp Jump = [1]"
| "piece_fields cmp (Jump_if op) =
     (if op AND 0x100 \<noteq> 0 \<and> \<not> parity_first cmp op then [2] else []) @ [length (condition_bytes cmp op) + 2]"
| "piece_fields cmp (Follow a b) = piece_fields cmp a @ List.map ((+) (length (piece_bytes cmp a))) (piece_fields cmp b)"
| "piece_fields cmp (Join a b) = piece_fields cmp a @ List.map ((+) (length (piece_bytes cmp a))) (piece_fields cmp b)"

primrec conditions :: "piece \<Rightarrow> u32 set" where
  "conditions (Straight bs) = {}"
| "conditions Jump = {}"
| "conditions (Jump_if op) = {op AND NOT 0x100}"
| "conditions (Follow a b) = conditions a \<union> conditions b"
| "conditions (Join a b) = conditions a \<union> conditions b"

definition is_condition :: "u32 \<Rightarrow> bool" where
  "is_condition op \<longleftrightarrow> 0x90 \<le> op \<and> op < 0xa0"

section \<open>What a piece keeps\<close>

definition keeps :: "emitter \<Rightarrow> nat \<Rightarrow> emitter \<Rightarrow> bool" where
  "keeps e m e' \<longleftrightarrow> take (unat (ind e)) (sec_data (text_section e')) = code_of e \<and> unat (ind e') = unat (ind e) + m
     \<and> valid_section (text_section e') \<and> unat (ind e') \<le> length (sec_data (text_section e'))
     \<and> nocode_wanted e' = nocode_wanted e \<and> vtop_cmp_r e' = vtop_cmp_r e"

lemma keeps_appended:
  assumes "appended e bs rs e'" and "ready (length bs) e"
  shows "keeps e (length bs) e'"
proof -
  have i: "unat (ind e') = unat (ind e) + length bs" using ind_after [of bs 0 e rs e'] assms by simp
  have "length (code_of e) = unat (ind e)" using assms(2) by (simp add: ready_def code_of_def)
  then have "take (unat (ind e)) (code_of e') = code_of e" using assms(1) by (simp add: appended_def)
  then have "take (unat (ind e)) (sec_data (text_section e')) = code_of e"
    using i by (simp add: code_of_def min_def)
  then show ?thesis using assms(1) i by (simp add: keeps_def appended_def)
qed

lemma keeps_ready: "keeps e m e' \<Longrightarrow> ready (m + n) e \<Longrightarrow> ready n e'"
  by (simp add: keeps_def ready_def)

lemma keeps_trans:
  assumes "keeps e m e1" and "keeps e1 n e2"
  shows "keeps e (m + n) e2"
proof -
  have le: "unat (ind e) \<le> unat (ind e1)" using assms(1) by (simp add: keeps_def)
  have "take (unat (ind e)) (sec_data (text_section e2)) = take (unat (ind e)) (take (unat (ind e1)) (sec_data (text_section e2)))"
    using le by (simp add: min_def)
  also have "\<dots> = take (unat (ind e)) (code_of e1)"
    using assms(2) unfolding keeps_def by (simp only:)
  also have "\<dots> = take (unat (ind e)) (sec_data (text_section e1))"
    unfolding code_of_def using assms(1) by (simp add: keeps_def min_def)
  also have "\<dots> = code_of e" using assms(1) by (simp add: keeps_def)
  finally show ?thesis using assms by (simp add: keeps_def)
qed

lemma keeps_nth: "keeps e m e' \<Longrightarrow> i < unat (ind e) \<Longrightarrow> unat (ind e) \<le> length (sec_data (text_section e)) \<Longrightarrow>
    sec_data (text_section e') ! i = sec_data (text_section e) ! i"
  unfolding keeps_def code_of_def by (metis nth_take)

lemma pending_keeps:
  assumes "pending e t us" and "keeps e m e'"
  shows "pending e' t us"
proof -
  have le: "unat (ind e) \<le> length (sec_data (text_section e))" using assms(1) by (simp add: pending_def)
  have rd: "read32le (sec_data (text_section e')) (unat u) = read32le (sec_data (text_section e)) (unat u)" if "u \<in> set us" for u
  proof -
    have "unat u + 4 \<le> unat (ind e)" using that assms(1) by (auto simp: pending_def)
    then have "\<forall>i<4. sec_data (text_section e') ! (unat u + i) = sec_data (text_section e) ! (unat u + i)"
      using keeps_nth [OF assms(2) _ le] by simp
    then show ?thesis using le32.whole.rd_eq [of "sec_data (text_section e')" "unat u" "sec_data (text_section e)"] by simp
  qed
  have ins: "in_section (sec_data (text_section e')) u" if "u \<in> set us" for u
  proof -
    have "unat u + 4 \<le> unat (ind e)" using that assms(1) by (auto simp: pending_def)
    then show ?thesis using assms(2) by (simp add: in_section_def keeps_def)
  qed
  have "jump_chain (sec_data (text_section e)) t us" using assms(1) by (simp add: pending_def)
  then have "jump_chain (sec_data (text_section e')) t us" by (rule jump_chain_cong [OF _ ins rd])
  moreover have "\<forall>u\<in>set us. unat u + 4 \<le> unat (ind e')"
  proof
    fix u assume "u \<in> set us"
    then have "unat u + 4 \<le> unat (ind e)" using assms(1) by (simp add: pending_def)
    moreover have "unat (ind e) \<le> unat (ind e')" using assms(2) by (simp add: keeps_def)
    ultimately show "unat u + 4 \<le> unat (ind e')" by (rule order_trans)
  qed
  ultimately show ?thesis using assms(2) by (simp add: pending_def keeps_def)
qed

text \<open>The bytes of a piece apart from its fields.\<close>

definition holds_code :: "emitter \<Rightarrow> u32 \<Rightarrow> u8 list \<Rightarrow> nat list \<Rightarrow> bool" where
  "holds_code e p bs ks \<longleftrightarrow> (\<forall>i<length bs. (\<forall>k\<in>set ks. i < k \<or> k + 4 \<le> i) \<longrightarrow>
     sec_data (text_section e) ! (unat p + i) = bs ! i)"

definition emitted :: "emitter \<Rightarrow> u32 \<Rightarrow> u32 list \<Rightarrow> u8 list \<Rightarrow> nat list \<Rightarrow> u32 \<Rightarrow> emitter \<Rightarrow> bool" where
  "emitted e t us bs ks t' e' \<longleftrightarrow> keeps e (length bs) e' \<and> holds_code e' (ind e) bs ks
     \<and> (\<exists>us'. pending e' t' us' \<and> set us' = set us \<union> (\<lambda>k. ind e + of_nat k) ` set ks)"

section \<open>Every piece keeps the list of jumps\<close>

text \<open>An emission of code with jumps appends \<open>bs\<close>, whatever list of jumps it is given.\<close>

definition works :: "u32 \<Rightarrow> (u32 \<Rightarrow> emitter \<Rightarrow> emit_stop + u32 \<times> emitter) \<Rightarrow> u8 list \<Rightarrow> nat list \<Rightarrow> bool" where
  "works cmp f bs ks \<longleftrightarrow> (\<forall>e t us. ready (length bs) e \<longrightarrow> vtop_cmp_r e = cmp \<longrightarrow> pending e t us \<longrightarrow>
     (\<exists>t' e'. f t e = Inr (t', e') \<and> emitted e t us bs ks t' e'))"

lemma worksE:
  assumes "works cmp f bs ks" and "ready (length bs) e" and "vtop_cmp_r e = cmp" and "pending e t us"
  obtains t' e' where "f t e = Inr (t', e')" "emitted e t us bs ks t' e'"
  using assms unfolding works_def by blast

lemma ind_keeps: "keeps e m e' \<Longrightarrow> ind e' = ind e + of_nat m"
  proof -
  assume "keeps e m e'"
  then have "of_nat (unat (ind e')) = (of_nat (unat (ind e) + m) :: u32)" by (simp only: keeps_def)
  then show ?thesis by simp
qed

lemma code_appended:
  assumes "appended e bs rs e'" and "ready (length bs) e" and "i < length bs"
  shows "sec_data (text_section e') ! (unat (ind e) + i) = bs ! i"
proof -
  have k: "keeps e (length bs) e'" by (rule keeps_appended [OF assms(1,2)])
  have "sec_data (text_section e') ! (unat (ind e) + i) = code_of e' ! (unat (ind e) + i)"
    using k assms(3) by (simp add: keeps_def code_of_def)
  moreover have "length (code_of e) = unat (ind e)" using assms(2) by (simp add: ready_def code_of_def)
  ultimately show ?thesis using assms(1,3) by (simp add: appended_def nth_append)
qed

lemma works_plain:
  assumes "emits f bs rs"
  shows "works cmp (\<lambda>t e. case f e of Inl x \<Rightarrow> Inl x | Inr e' \<Rightarrow> Inr (t, e')) bs []"
  unfolding works_def
proof (intro allI impI)
  fix e t us assume a: "ready (length bs) e" "pending e t us"
  obtain e' where e': "f e = Inr e'" "appended e bs rs e'" by (rule emitsE [OF assms a(1)])
  have "emitted e t us bs [] t e'"
    unfolding emitted_def holds_code_def
    using keeps_appended [OF e'(2) a(1)] code_appended [OF e'(2) a(1)] pending_after [OF a(2) e'(2) a(1)] by auto
  then show "\<exists>t' e'. (case f e of Inl x \<Rightarrow> Inl x | Inr e' \<Rightarrow> Inr (t, e')) = Inr (t', e') \<and> emitted e t us bs [] t' e'"
    using e'(1) by auto
qed

lemma works_oad:
  assumes "o_code c = [b]"
  shows "works cmp (oad c) (b # field) [1]"
  unfolding works_def
proof (intro allI impI)
  fix e t us assume a: "ready (length (b # field)) e" "pending e t us"
  then have r5: "ready 5 e" by (simp add: field_def eval_nat_numeral)
  obtain e' where e': "oad c t e = Inr (ind e + 1, e')" "appended e (b # le_bytes 4 (ucast t)) [] e'"
    "pending e' (ind e + 1) ((ind e + 1) # us)"
    by (rule pending_jump [OF a(2) r5 assms])
  have r: "ready (length (b # le_bytes 4 (ucast t))) e" using r5 by simp
  have "holds_code e' (ind e) (b # field) [1]"
    using code_appended [OF e'(2) r, of 0] by (auto simp: holds_code_def field_def nth_Cons less_Suc_eq_0_disj)
  moreover have "keeps e (length (b # field)) e'" using keeps_appended [OF e'(2) r] by (simp add: field_def eval_nat_numeral)
  ultimately have "emitted e t us (b # field) [1] (ind e + 1) e'"
    unfolding emitted_def using e'(3) by (intro conjI exI [of _ "(ind e + 1) # us"]) auto
  then show "\<exists>t' e'. oad c t e = Inr (t', e') \<and> emitted e t us (b # field) [1] t' e'" using e'(1) by blast
qed

lemma holds_append:
  assumes "holds_code e1 p b1 k1" and "\<And>i. i < length b1 \<Longrightarrow> \<forall>k\<in>set k1. i < k \<or> k + 4 \<le> i \<Longrightarrow>
      sec_data (text_section e2) ! (unat p + i) = sec_data (text_section e1) ! (unat p + i)"
    and "holds_code e2 q b2 k2" and "unat q = unat p + length b1"
  shows "holds_code e2 p (b1 @ b2) (k1 @ List.map ((+) (length b1)) k2)"
  unfolding holds_code_def
proof (intro allI impI)
  fix i assume i: "i < length (b1 @ b2)" and f: "\<forall>k\<in>set (k1 @ List.map ((+) (length b1)) k2). i < k \<or> k + 4 \<le> i"
  show "sec_data (text_section e2) ! (unat p + i) = (b1 @ b2) ! i"
  proof (cases "i < length b1")
    case True
    then show ?thesis using assms(1,2) f by (simp add: holds_code_def nth_append)
  next
    case False
    define j where "j = i - length b1"
    have "j < length b2" using i False by (simp add: j_def)
    moreover have "\<forall>k\<in>set k2. j < k \<or> k + 4 \<le> j"
    proof
      fix k assume "k \<in> set k2"
      then have "i < length b1 + k \<or> length b1 + k + 4 \<le> i" using f by auto
      then show "j < k \<or> k + 4 \<le> j" using False by (auto simp: j_def)
    qed
    ultimately have "sec_data (text_section e2) ! (unat q + j) = b2 ! j" using assms(3) by (simp add: holds_code_def)
    then show ?thesis using False assms(4) by (simp add: nth_append j_def)
  qed
qed

lemma places_append:
  "ind e1 = ind e + of_nat n \<Longrightarrow> (\<lambda>k. ind e1 + of_nat k) ` set k2 = (\<lambda>k. ind e + of_nat k) ` set (List.map ((+) n) k2)"
  by (auto simp: add.assoc image_image)

lemma works_follow:
  assumes "works cmp f b1 k1" and "works cmp h b2 k2"
  shows "works cmp (\<lambda>t e. case f t e of Inl x \<Rightarrow> Inl x | Inr (t', e') \<Rightarrow> h t' e') (b1 @ b2)
    (k1 @ List.map ((+) (length b1)) k2)"
  unfolding works_def
proof (intro allI impI)
  fix e t us assume a: "ready (length (b1 @ b2)) e" "vtop_cmp_r e = cmp" "pending e t us"
  then have r: "ready (length b1 + length b2) e" by simp
  obtain t1 e1 where 1: "f t e = Inr (t1, e1)" "emitted e t us b1 k1 t1 e1"
    by (rule worksE [OF assms(1) ready_less [OF r] a(2,3)]) simp
  then obtain us1 where us1: "pending e1 t1 us1" "set us1 = set us \<union> (\<lambda>k. ind e + of_nat k) ` set k1"
    and k1: "keeps e (length b1) e1" and h1: "holds_code e1 (ind e) b1 k1" by (auto simp: emitted_def)
  obtain t2 e2 where 2: "h t1 e1 = Inr (t2, e2)" "emitted e1 t1 us1 b2 k2 t2 e2"
    by (rule worksE [OF assms(2) keeps_ready [OF k1 r] _ us1(1)]) (use k1 a(2) in \<open>simp add: keeps_def\<close>)
  then obtain us2 where us2: "pending e2 t2 us2" "set us2 = set us1 \<union> (\<lambda>k. ind e1 + of_nat k) ` set k2"
    and k2: "keeps e1 (length b2) e2" and h2: "holds_code e2 (ind e1) b2 k2" by (auto simp: emitted_def)
  have "holds_code e2 (ind e) (b1 @ b2) (k1 @ List.map ((+) (length b1)) k2)"
  proof (rule holds_append [OF h1 _ h2])
    show "unat (ind e1) = unat (ind e) + length b1" using k1 by (simp add: keeps_def)
    then show "sec_data (text_section e2) ! (unat (ind e) + i) = sec_data (text_section e1) ! (unat (ind e) + i)"
      if "i < length b1" for i
      using that keeps_nth [OF k2, of "unat (ind e) + i"] us1(1) by (simp add: pending_def)
  qed
  moreover have "set us2 = set us \<union> (\<lambda>k. ind e + of_nat k) ` set (k1 @ List.map ((+) (length b1)) k2)"
    using us1(2) us2(2) places_append [OF ind_keeps [OF k1], of k2] by (simp add: image_Un Un_assoc)
  ultimately have "emitted e t us (b1 @ b2) (k1 @ List.map ((+) (length b1)) k2) t2 e2"
    unfolding emitted_def using keeps_trans [OF k1 k2] us2(1) by auto
  then show "\<exists>t' e'. (case f t e of Inl x \<Rightarrow> Inl x | Inr (t', e') \<Rightarrow> h t' e') = Inr (t', e') \<and>
      emitted e t us (b1 @ b2) (k1 @ List.map ((+) (length b1)) k2) t' e'"
    using 1(1) 2(1) by auto
qed

text \<open>Joining changes the last field of the list in front only.\<close>

lemma last_image: "us \<noteq> [] \<Longrightarrow> set us = f ` set ks \<Longrightarrow> \<exists>k\<in>set ks. last us = f k"
  using last_in_set [of us] by auto

lemma pending_join:
  assumes "pending e n us" and "pending e t ts" and "\<forall>u\<in>set us. \<forall>v\<in>set ts. apart u v"
  obtains t' e' where "gjmp_append n t e = Inr (t', e')" "pending e' t' (us @ ts)"
    "ind e' = ind e" "nocode_wanted e' = nocode_wanted e" "vtop_cmp_r e' = vtop_cmp_r e"
    "length (sec_data (text_section e')) = length (sec_data (text_section e))"
    "valid_section (text_section e')"
    "\<And>i. \<forall>u\<in>set us. i < unat u \<or> unat u + 4 \<le> i \<Longrightarrow> sec_data (text_section e') ! i = sec_data (text_section e) ! i"
proof (cases "us = []")
  case True
  then have "n = 0" using assms(1) by (simp add: pending_def)
  then show ?thesis using that [of t e] True assms by (simp add: gjmp_append_def pending_def)
next
  case False
  define bs where "bs = write32le (sec_data (text_section e)) (unat (last us)) t"
  have c: "jump_chain (sec_data (text_section e)) n us" using assms(1) by (simp add: pending_def)
  then have n: "n \<noteq> 0" using False by (cases us) auto
  have j: "jump_chain bs n (us @ ts)"
    unfolding bs_def using assms by (intro chain_join [OF c False]) (simp_all add: pending_def)
  have l: "length bs = length (sec_data (text_section e))" by (simp add: bs_def length_write32)
  define e' where "e' = e\<lparr>text_section := (text_section e)\<lparr>sec_data := bs\<rparr>\<rparr>"
  have g: "gjmp_append n t e = Inr (n, e')"
    using n chain_end_last [OF c False] by (simp add: gjmp_append_def with_data_def bs_def e'_def)
  have v: "valid_section (text_section e')" using assms(1) l by (auto simp: e'_def pending_def valid_section_def)
  have p: "pending e' n (us @ ts)" using assms(1,2) j l v by (auto simp: pending_def e'_def)
  show ?thesis
  proof (rule that [OF g p])
    fix i assume "\<forall>u\<in>set us. i < unat u \<or> unat u + 4 \<le> i"
    then have "i < unat (last us) \<or> unat (last us) + 4 \<le> i" using False by simp
    then show "sec_data (text_section e') ! i = sec_data (text_section e) ! i"
      by (simp add: e'_def bs_def write32_other)
  qed (use l v in \<open>simp_all add: e'_def\<close>)
qed

lemma places_apart:
  assumes "k + 4 \<le> n" and "unat p + n \<le> 2 ^ 31"
  shows "unat (p + of_nat k :: u32) = unat p + k"
  using assms by (simp add: unat_word_ariths unat_of_nat)

text \<open>Fields lie inside their piece.\<close>

definition inside :: "u8 list \<Rightarrow> nat list \<Rightarrow> bool" where
  "inside bs ks \<longleftrightarrow> (\<forall>k\<in>set ks. k + 4 \<le> length bs)"

lemma inside_append: "inside b1 k1 \<Longrightarrow> inside b2 k2 \<Longrightarrow> inside (b1 @ b2) (k1 @ List.map ((+) (length b1)) k2)"
  by (auto simp: inside_def)

lemma works_join:
  assumes "works cmp f b1 k1" and "works cmp h b2 k2" and "inside b1 k1" and "inside b2 k2"
  shows "works cmp (\<lambda>t e. case f 0 e of Inl x \<Rightarrow> Inl x | Inr (n, e1) \<Rightarrow>
      (case h t e1 of Inl x \<Rightarrow> Inl x | Inr (t', e2) \<Rightarrow> gjmp_append n t' e2)) (b1 @ b2)
    (k1 @ List.map ((+) (length b1)) k2)"
  unfolding works_def
proof (intro allI impI)
  fix e t us assume a: "ready (length (b1 @ b2)) e" "vtop_cmp_r e = cmp" "pending e t us"
  then have r: "ready (length b1 + length b2) e" by simp
  have bound: "unat (ind e) + (length b1 + length b2) \<le> 2 ^ 31" using r by (simp add: ready_def)
  obtain n e1 where 1: "f 0 e = Inr (n, e1)" "emitted e 0 [] b1 k1 n e1"
    by (rule worksE [OF assms(1) ready_less [OF r] a(2) pending_none [OF a(1)]]) simp
  then obtain ns where ns: "pending e1 n ns" "set ns = (\<lambda>k. ind e + of_nat k) ` set k1"
    and k1: "keeps e (length b1) e1" and h1: "holds_code e1 (ind e) b1 k1" by (auto simp: emitted_def)
  have us1: "pending e1 t us" by (rule pending_keeps [OF a(3) k1])
  obtain t2 e2 where 2: "h t e1 = Inr (t2, e2)" "emitted e1 t us b2 k2 t2 e2"
    by (rule worksE [OF assms(2) keeps_ready [OF k1 r] _ us1]) (use k1 a(2) in \<open>simp add: keeps_def\<close>)
  then obtain us2 where us2: "pending e2 t2 us2" "set us2 = set us \<union> (\<lambda>k. ind e1 + of_nat k) ` set k2"
    and k2: "keeps e1 (length b2) e2" and h2: "holds_code e2 (ind e1) b2 k2" by (auto simp: emitted_def)
  have ns2: "pending e2 n ns" by (rule pending_keeps [OF ns(1) k2])
  have i1: "unat (ind e1) = unat (ind e) + length b1" using k1 by (simp add: keeps_def)
  have u1: "unat (ind e + of_nat k) = unat (ind e) + k" if "k \<in> set k1" for k
    by (rule places_apart [of _ "length b1 + length b2"]) (use that assms(3) bound in \<open>auto simp: inside_def\<close>)
  have u2: "unat (ind e1 + of_nat k) = unat (ind e1) + k" if "k \<in> set k2" for k
    by (rule places_apart [of _ "length b2"]) (use that assms(4) bound i1 in \<open>auto simp: inside_def\<close>)
  have nsp: "unat (ind e) \<le> unat u \<and> unat u + 4 \<le> unat (ind e1)" if "u \<in> set ns" for u
    using that ns(2) u1 i1 assms(3) by (auto simp: inside_def)
  have ap: "\<forall>u\<in>set ns. \<forall>v\<in>set us2. apart u v"
  proof (intro ballI)
    fix u v assume u: "u \<in> set ns" and "v \<in> set us2"
    then consider "v \<in> set us" | k where "k \<in> set k2" "v = ind e1 + of_nat k" using us2(2) by auto
    then show "apart u v"
    proof cases
      case 1
      then have "unat v + 4 \<le> unat (ind e)" using a(3) by (simp add: pending_def)
      then show ?thesis using nsp [OF u] by (simp add: apart_def)
    next
      case 2
      then show ?thesis using nsp [OF u] u2 by (simp add: apart_def)
    qed
  qed
  obtain t3 e3 where 3: "gjmp_append n t2 e2 = Inr (t3, e3)" "pending e3 t3 (ns @ us2)" "ind e3 = ind e2"
    "nocode_wanted e3 = nocode_wanted e2" "vtop_cmp_r e3 = vtop_cmp_r e2"
    "length (sec_data (text_section e3)) = length (sec_data (text_section e2))" "valid_section (text_section e3)"
    "\<And>i. \<forall>u\<in>set ns. i < unat u \<or> unat u + 4 \<le> i \<Longrightarrow> sec_data (text_section e3) ! i = sec_data (text_section e2) ! i"
    using pending_join [OF ns2 us2(1) ap] by blast
  have same: "sec_data (text_section e3) ! (unat (ind e) + i) = sec_data (text_section e2) ! (unat (ind e) + i)"
    if "\<forall>k\<in>set k1. i < k \<or> k + 4 \<le> i" for i
    by (rule 3(8)) (use that ns(2) u1 in auto)
  have before: "sec_data (text_section e3) ! i = sec_data (text_section e2) ! i"
    if "i < unat (ind e) \<or> unat (ind e1) \<le> i" for i
    by (rule 3(8)) (use that nsp in fastforce)
  have k12: "keeps e (length b1 + length b2) e2" by (rule keeps_trans [OF k1 k2])
  have "take (unat (ind e)) (sec_data (text_section e3)) = take (unat (ind e)) (sec_data (text_section e2))"
    using 3(6) before by (intro nth_equalityI) auto
  then have k: "keeps e (length (b1 @ b2)) e3" using k12 3(3-7) by (simp add: keeps_def)
  have h3: "holds_code e3 (ind e1) b2 k2"
    using h2 before unfolding holds_code_def by (metis le_add1)
  have "holds_code e3 (ind e) (b1 @ b2) (k1 @ List.map ((+) (length b1)) k2)"
  proof (rule holds_append [OF h1 _ h3 i1])
    show "sec_data (text_section e3) ! (unat (ind e) + i) = sec_data (text_section e1) ! (unat (ind e) + i)"
      if "i < length b1" "\<forall>k\<in>set k1. i < k \<or> k + 4 \<le> i" for i
      using same [OF that(2)] keeps_nth [OF k2, of "unat (ind e) + i"] that(1) i1 ns(1) by (simp add: pending_def)
  qed
  moreover have "set (ns @ us2) = set us \<union> (\<lambda>k. ind e + of_nat k) ` set (k1 @ List.map ((+) (length b1)) k2)"
    using ns(2) us2(2) places_append [OF ind_keeps [OF k1], of k2] by (auto simp: image_Un)
  ultimately have "emitted e t us (b1 @ b2) (k1 @ List.map ((+) (length b1)) k2) t3 e3"
    unfolding emitted_def using k 3(2) by blast
  then show "\<exists>t' e'. (case f 0 e of Inl x \<Rightarrow> Inl x | Inr (n, e1) \<Rightarrow>
      (case h t e1 of Inl x \<Rightarrow> Inl x | Inr (t', e2) \<Rightarrow> gjmp_append n t' e2)) = Inr (t', e') \<and>
      emitted e t us (b1 @ b2) (k1 @ List.map ((+) (length b1)) k2) t' e'"
    using 1(1) 2(1) 3(1) by auto
qed

lemma emits_straight: "emits (emit_straight bs) bs []"
proof (induction bs)
  case Nil
  then show ?case by (simp add: emits_def) (blast intro: appended_nothing)
next
  case (Cons b bs)
  have "emits (emit_straight (b # bs)) ([ucast (ucast b :: u32)] @ bs) ([] @ List.map (moved (length [ucast (ucast b :: u32) :: u8])) [])"
    by (rule emits_then [OF emits_g _ Cons]) simp
  moreover have "ucast (ucast b :: u32) = b" by (rule bit_word_eqI) (auto simp: bit_simps dest: bit_imp_le_length)
  ultimately show ?case by (simp del: emit_straight.simps)
qed

lemma works_cong: "works cmp f bs ks \<Longrightarrow> (\<And>t e. vtop_cmp_r e = cmp \<Longrightarrow> h t e = f t e) \<Longrightarrow> works cmp h bs ks"
  unfolding works_def by metis

lemma works_jump_long:
  assumes "o_code c = [b]"
  shows "works cmp (jump_long c) ([0x0f, b] @ field) [2]"
proof -
  note w = works_follow [OF works_plain [OF emits_g [of "0x0f"], of cmp] works_oad [OF assms, of cmp]]
  have eq: "jump_long c t e = (case (case g 0x0f e of Inl x \<Rightarrow> Inl x | Inr e' \<Rightarrow> Inr (t, e')) of
      Inl x \<Rightarrow> Inl x | Inr (t', e') \<Rightarrow> oad c t' e')" for t e
    by (cases "g 0x0f e") (simp_all add: jump_long_def)
  have "works cmp (jump_long c) ([ucast (0x0f :: u32)] @ (b # field)) ([] @ List.map ((+) (length [ucast (0x0f :: u32) :: u8])) [1])"
    by (rule works_cong [OF w]) (rule eq)
  moreover have "[ucast (0x0f :: u32)] @ (b # field) = [0x0f, b] @ field" by simp
  moreover have "[] @ List.map ((+) (length [ucast (0x0f :: u32) :: u8])) [1] = [2]" by simp
  ultimately show ?thesis by metis
qed

lemma condition_byte: "is_condition op \<Longrightarrow> o_code (op - 16) = [ucast (op - 16)]"
proof -
  assume "is_condition op"
  then have "144 \<le> unat op" "unat op < 160" by (simp_all add: is_condition_def word_le_nat_alt word_less_nat_alt)
  then have "unat (op - 16) = unat op - 16" by (simp add: unat_sub word_le_nat_alt)
  then show ?thesis using \<open>144 \<le> unat op\<close> \<open>unat op < 160\<close>
    by (intro o_code_byte) (auto simp: word_less_nat_alt simp flip: word_unat_eq_iff)
qed

lemma works_condition:
  assumes "is_condition (op AND NOT 0x100)"
  shows "works cmp (gjmp_cond op) (piece_bytes cmp (Jump_if op)) (piece_fields cmp (Jump_if op))"
proof -
  define c where "c = op AND NOT 0x100"
  note j = works_jump_long [OF condition_byte [OF assms], of cmp, folded c_def]
  consider (plain) "op AND 0x100 = 0" | (parity) "op AND 0x100 \<noteq> 0" "parity_first cmp op"
    | (both) "op AND 0x100 \<noteq> 0" "\<not> parity_first cmp op" by blast
  then show ?thesis
  proof cases
    case plain
    then have "c = op" using and_not_clear [of op "0x100"] by (simp add: c_def)
    then have "works cmp (gjmp_cond op) ([0x0f, ucast (c - 16)] @ field) [2]"
      using plain by (intro works_cong [OF j]) (simp add: gjmp_cond_def)
    then show ?thesis using plain by (simp add: c_def condition_bytes_def numeral_2_eq_2)
  next
    case parity
    have "o_code 0x067a = [0x7a, 0x06]" by (simp add: o_code_two)
    then have p: "emits (o_bytes 0x067a) [0x7a, 0x06] []" using emits_o [of "0x067a"] by simp
    have "works cmp (gjmp_cond op) ([0x7a, 0x06] @ [0x0f, ucast (c - 16)] @ field) ([] @ List.map ((+) (length [0x7a, 0x06 :: u8])) [2])"
      by (rule works_cong [OF works_follow [OF works_plain [OF p] j]])
        (use parity in \<open>simp add: gjmp_cond_def parity_first_def Let_def c_def split: sum.split\<close>)
    then show ?thesis using parity by (simp add: c_def condition_bytes_def)
  next
    case both
    have p: "works cmp (jump_long 0x8a) ([0x0f, 0x8a] @ field) [2]" by (rule works_jump_long) (simp add: o_code_byte)
    have "works cmp (gjmp_cond op) (([0x0f, 0x8a] @ field) @ [0x0f, ucast (c - 16)] @ field)
        ([2] @ List.map ((+) (length ([0x0f, 0x8a] @ field))) [2])"
      by (rule works_cong [OF works_follow [OF p j]])
        (use both in \<open>simp add: gjmp_cond_def parity_first_def Let_def c_def split: sum.split prod.split\<close>)
    then show ?thesis using both by (simp add: c_def condition_bytes_def)
  qed
qed

lemma piece_inside: "inside (piece_bytes cmp b) (piece_fields cmp b)"
proof (induction b)
  case (Follow a b) then show ?case by (simp add: inside_append)
next
  case (Join a b) then show ?case by (simp add: inside_append)
qed (auto simp: inside_def field_def condition_bytes_def)

lemma works_piece:
  "\<forall>op\<in>conditions b. is_condition op \<Longrightarrow> works cmp (emit_piece b) (piece_bytes cmp b) (piece_fields cmp b)"
proof (induction b)
  case (Straight bs)
  have "works cmp (emit_piece (Straight bs)) bs []"
    by (rule works_cong [OF works_plain [OF emits_straight]]) (simp only: emit_piece.simps)
  then show ?case by (simp del: emit_piece.simps)
next
  case Jump
  show ?case using works_oad [of "0xe9" "0xe9" cmp] by (simp add: o_code_byte gjmp_def [abs_def])
next
  case (Jump_if op)
  then have "is_condition (op AND NOT 0x100)" by (simp only: conditions.simps) blast
  then show ?case by (intro works_cong [OF works_condition]) (simp_all only: emit_piece.simps)
next
  case (Follow a b)
  then show ?case using works_follow [of cmp "emit_piece a" _ _ "emit_piece b"] by simp
next
  case (Join a b)
  then show ?case using works_join [of cmp "emit_piece a" _ _ "emit_piece b"] piece_inside by simp
qed

section \<open>Resolving the label\<close>

lemma jump_field_lands: "unat a < 2 ^ 31 \<Longrightarrow> u + 4 + jump_field u a = a"
proof -
  assume "unat a < 2 ^ 31"
  then have "uint a < 2 ^ 31" using of_nat_less_iff [of "unat a" "2 ^ 31", where ?'a = int] by simp
  then have "sint a = uint a"
    using signed_take_bit_int_eq_self [of 31 "uint a"] uint_ge_0 [of a] by (simp add: sint_uint)
  then have "\<not> a <s 0" by (simp add: word_sless_alt)
  then show ?thesis by (simp add: jump_field_def)
qed

lemma gsym_resolves:
  assumes "pending e t us" and "nocode_wanted e = 0"
  obtains e' where "gsym t e = Inr e'" "ind e' = ind e" "nocode_wanted e' = 0"
    "length (sec_data (text_section e')) = length (sec_data (text_section e))"
    "\<And>u. u \<in> set us \<Longrightarrow> read32le (sec_data (text_section e')) (unat u) = jump_field u (ind e)"
    "\<And>i. \<forall>u\<in>set us. i < unat u \<or> unat u + 4 \<le> i \<Longrightarrow> sec_data (text_section e') ! i = sec_data (text_section e) ! i"
proof (cases us)
  case Nil
  then have "t = 0" using assms(1) by (simp add: pending_def)
  then show ?thesis using that [of e] Nil assms(2) by (simp add: gsym_def)
next
  case (Cons u vs)
  then have t: "t \<noteq> 0" using assms(1) by (auto simp: pending_def)
  have c: "jump_chain (sec_data (text_section e)) t us" using assms(1) by (simp add: pending_def)
  obtain bs where bs: "patch_chain (sec_data (text_section e)) t (ind e) = Some (Some bs)"
    "length bs = length (sec_data (text_section e))" "\<And>u. u \<in> set us \<Longrightarrow> read32le bs (unat u) = jump_field u (ind e)"
    "\<And>i. \<forall>u\<in>set us. i < unat u \<or> unat u + 4 \<le> i \<Longrightarrow> bs ! i = sec_data (text_section e) ! i"
    using patch_chain_ends [OF c, of "ind e"] by blast
  define e' where "e' = e\<lparr>text_section := (text_section e)\<lparr>sec_data := bs\<rparr>, nocode_wanted := 0\<rparr>"
  have "gsym t e = Inr e'"
    using t bs(1) assms(2) by (simp add: gsym_def gsym_addr_def with_data_def code_on_def e'_def)
  then show ?thesis
    by (rule that) (use bs in \<open>simp_all add: e'_def\<close>)
qed

text \<open>C30: forward jumps land at their label.  However a piece of code is put together of code without
  jumps, jumps and conditional jumps (with the extra jump of float comparisons) to one label, in sequence
  or with lists of their own that are joined, emitting it and defining the label succeeds, and
  then the field of every jump of the piece leads exactly to the label; all other bytes of the piece are its
  instructions and the code before it is unchanged.\<close>

theorem forward_jumps_land:
  assumes "\<forall>op\<in>conditions b. is_condition op" and "ready (length (piece_bytes (vtop_cmp_r e) b) + 1) e"
  shows "\<exists>t e1 e2. emit_piece b 0 e = Inr (t, e1) \<and> gsym t e1 = Inr e2
    \<and> unat (ind e2) = unat (ind e) + length (piece_bytes (vtop_cmp_r e) b)
    \<and> take (unat (ind e)) (sec_data (text_section e2)) = code_of e
    \<and> (\<forall>k\<in>set (piece_fields (vtop_cmp_r e) b).
         ind e + of_nat k + 4 + read32le (sec_data (text_section e2)) (unat (ind e) + k) = ind e2)
    \<and> holds_code e2 (ind e) (piece_bytes (vtop_cmp_r e) b) (piece_fields (vtop_cmp_r e) b)"
proof -
  define bs where "bs = piece_bytes (vtop_cmp_r e) b"
  define ks where "ks = piece_fields (vtop_cmp_r e) b"
  have r: "ready (length bs) e" by (rule ready_less [OF assms(2)]) (simp add: bs_def)
  have bound: "unat (ind e) + length bs < 2 ^ 31" "unat (ind e) + length bs \<le> 2 ^ 31"
    using assms(2) by (simp_all add: ready_def bs_def)
  have ins: "inside bs ks" unfolding bs_def ks_def by (rule piece_inside)
  obtain t e1 where 1: "emit_piece b 0 e = Inr (t, e1)" "emitted e 0 [] bs ks t e1"
    by (rule worksE [OF works_piece [OF assms(1)] r [unfolded bs_def] refl pending_none [OF r]]) (simp add: bs_def ks_def)
  then obtain us where us: "pending e1 t us" "set us = (\<lambda>k. ind e + of_nat k) ` set ks"
    and k: "keeps e (length bs) e1" and h: "holds_code e1 (ind e) bs ks" by (auto simp: emitted_def)
  have "nocode_wanted e1 = 0" using k r by (simp add: keeps_def ready_def)
  then obtain e2 where 2: "gsym t e1 = Inr e2" "ind e2 = ind e1"
    "length (sec_data (text_section e2)) = length (sec_data (text_section e1))"
    "\<And>u. u \<in> set us \<Longrightarrow> read32le (sec_data (text_section e2)) (unat u) = jump_field u (ind e1)"
    "\<And>i. \<forall>u\<in>set us. i < unat u \<or> unat u + 4 \<le> i \<Longrightarrow> sec_data (text_section e2) ! i = sec_data (text_section e1) ! i"
    using gsym_resolves [OF us(1)] by metis
  have u: "unat (ind e + of_nat k) = unat (ind e) + k" if "k \<in> set ks" for k
    by (rule places_apart [OF _ bound(2)]) (use that ins in \<open>simp add: inside_def\<close>)
  have i: "unat (ind e2) = unat (ind e) + length bs" using 2(2) k by (simp add: keeps_def)
  have "take (unat (ind e)) (sec_data (text_section e2)) = take (unat (ind e)) (sec_data (text_section e1))"
  proof (rule nth_equalityI)
    fix j assume "j < length (take (unat (ind e)) (sec_data (text_section e2)))"
    then have "j < unat (ind e)" by simp
    then show "take (unat (ind e)) (sec_data (text_section e2)) ! j = take (unat (ind e)) (sec_data (text_section e1)) ! j"
      using 2(5) [of j] us(2) u by auto
  qed (simp add: 2(3))
  then have p: "take (unat (ind e)) (sec_data (text_section e2)) = code_of e" using k by (simp add: keeps_def)
  have land: "ind e + of_nat k + 4 + read32le (sec_data (text_section e2)) (unat (ind e) + k) = ind e2" if "k \<in> set ks" for k
    using 2(4) [of "ind e + of_nat k"] us(2) that u [OF that] jump_field_lands [of "ind e2" "ind e + of_nat k"] i bound(1) 2(2)
    by simp
  have "holds_code e2 (ind e) bs ks"
    using h 2(5) us(2) u unfolding holds_code_def by fastforce
  then show ?thesis using 1(1) 2(1) i p land unfolding bs_def ks_def by blast
qed

theorem forward_jumps_land_witness:
  "\<exists>t e1 e2. emit_piece (Join (Jump_if 0x94) (Follow (Straight [0x90]) Jump)) 0 new_emitter = Inr (t, e1) \<and> gsym t e1 = Inr e2
    \<and> 2 + 4 + read32le (sec_data (text_section e2)) 2 = ind e2 \<and> 8 + 4 + read32le (sec_data (text_section e2)) 8 = ind e2
    \<and> unat (ind e2) = 12"
proof -
  define b where "b = Join (Jump_if 0x94) (Follow (Straight [0x90]) Jump)"
  have c: "\<forall>op\<in>conditions b. is_condition op" by (simp add: b_def is_condition_def)
  have s: "vtop_cmp_r new_emitter = 0" "ind new_emitter = 0" by (simp_all add: new_emitter_def)
  have l: "length (piece_bytes 0 b) = 12" "piece_fields 0 b = [2, 8]"
    by (simp_all add: b_def field_def condition_bytes_def)
  show ?thesis
    using forward_jumps_land [OF c new_emitter_ready] unfolding b_def [symmetric] s l by auto
qed

end
