(* ===== verification/SymScope.thy ===== *)
theory SymScope imports CTypes
begin

text \<open>
  Names and scopes of the front end: the symbol stacks, the bindings of every identifier and the allocator of
  symbols in \<^verbatim>\<open>src/src/compiler/frontend/cprimegen.c\<close>, on a heap of symbols (address 0 is the null pointer).
  Labels, the indices of record fields and of constant evaluation that hang on a symbol are not modelled; the depth of
  scopes is an \<open>int\<close>.
\<close>

section \<open>Symbols and bindings\<close>

definition SYM_STRUCT :: u32 where "SYM_STRUCT = 0x40000000"
definition SYM_FIELD :: u32 where "SYM_FIELD = 0x20000000"
definition SYM_FIRST_ANOM :: u32 where "SYM_FIRST_ANOM = 0x10000000"
definition TOK_IDENT :: u32 where "TOK_IDENT = 256"
definition VT_ENUM_VAL :: u32 where "VT_ENUM_VAL = push_bit 20 3"
definition IS_ENUM_VAL :: "u32 \<Rightarrow> bool" where "IS_ENUM_VAL t \<longleftrightarrow> t AND VT_STRUCT_MASK = VT_ENUM_VAL"

record symbol = csym +
  s_v :: u32
  s_scope :: int
  s_tag_alias :: bool
  s_decl_serial :: u32
  s_prev :: nat
  s_prev_tok :: nat
  s_scope_prev :: nat
  s_scope_next :: nat

definition zero_symbol :: symbol where
  "zero_symbol =
     \<lparr>s_r = 0, s_c = 0, s_type = \<lparr>ct_t = 0, ct_ref = 0\<rparr>, s_next = 0, s_func_call = 0, s_func_type = 0, s_v = 0, s_scope = 0,
      s_tag_alias = False, s_decl_serial = 0, s_prev = 0, s_prev_tok = 0, s_scope_prev = 0, s_scope_next = 0\<rparr>"

text \<open>\<open>identifiers\<close> and \<open>structs\<close> are \<open>sym_identifier\<close> and \<open>sym_struct\<close> of the token table's entries; memory from
  \<open>fresh\<close> on was never handed out.\<close>

record scopes =
  heap :: "nat \<Rightarrow> symbol"
  fresh :: nat
  sym_free_first :: nat
  tok_ident :: u32
  identifiers :: "nat \<Rightarrow> nat"
  structs :: "nat \<Rightarrow> nat"
  global_stack :: nat
  local_stack :: nat
  scoped_bindings :: nat
  local_scope :: int
  cpp_global_decl_serial :: u32
  cpp_this_name_tok :: u32
  cpp_lambda_this_name_tok :: u32
  cpp_this_binding_seen :: bool
  nb_using_namespace_toks :: nat

datatype scope_stop = Redeclared u32 | No_token | Null_symbol | Endless

definition update_sym :: "nat \<Rightarrow> (symbol \<Rightarrow> symbol) \<Rightarrow> scopes \<Rightarrow> scopes" where
  "update_sym a f st = st\<lparr>heap := (heap st)(a := f (heap st a))\<rparr>"

datatype sym_stack = Global_stack | Local_stack

definition stack_top :: "sym_stack \<Rightarrow> scopes \<Rightarrow> nat" where
  "stack_top k st = (case k of Global_stack \<Rightarrow> global_stack st | Local_stack \<Rightarrow> local_stack st)"

definition set_stack_top :: "sym_stack \<Rightarrow> nat \<Rightarrow> scopes \<Rightarrow> scopes" where
  "set_stack_top k a st =
     (case k of Global_stack \<Rightarrow> st\<lparr>global_stack := a\<rparr> | Local_stack \<Rightarrow> st\<lparr>local_stack := a\<rparr>)"

section \<open>Allocation\<close>

text \<open>\<open>pool\<close> is \<open>SYM_POOL_NB\<close>, the number of symbols in a block of 8192 bytes.\<close>

primrec link_pool :: "nat \<Rightarrow> nat \<Rightarrow> nat \<Rightarrow> (nat \<Rightarrow> symbol) \<Rightarrow> nat \<times> (nat \<Rightarrow> symbol)" where
  "link_pool 0 a last_sym h = (last_sym, h)"
| "link_pool (Suc n) a last_sym h = link_pool n (a + 1) a (h(a := (h a)\<lparr>s_next := last_sym\<rparr>))"

definition more_syms :: "nat \<Rightarrow> scopes \<Rightarrow> scopes" where
  "more_syms pool st =
     (let (last_sym, h) = link_pool pool (fresh st) (sym_free_first st) (heap st)
      in st\<lparr>heap := h, fresh := fresh st + pool, sym_free_first := last_sym\<rparr>)"

definition sym_malloc :: "nat \<Rightarrow> scopes \<Rightarrow> scope_stop + nat \<times> scopes" where
  "sym_malloc pool st =
     (let st1 = (if sym_free_first st = 0 then more_syms pool st else st); a = sym_free_first st1
      in if a = 0 then Inl Null_symbol else Inr (a, st1\<lparr>sym_free_first := s_next (heap st1 a)\<rparr>))"

definition sym_free :: "nat \<Rightarrow> scopes \<Rightarrow> scopes" where
  "sym_free a st = update_sym a (s_next_update (\<lambda>_. sym_free_first st)) st\<lparr>sym_free_first := a\<rparr>"

definition sym_push2 :: "nat \<Rightarrow> sym_stack \<Rightarrow> u32 \<Rightarrow> u32 \<Rightarrow> int \<Rightarrow> scopes \<Rightarrow> scope_stop + nat \<times> scopes" where
  "sym_push2 pool ps v t c st =
     (case sym_malloc pool st of
        Inl e \<Rightarrow> Inl e
      | Inr (s, st1) \<Rightarrow>
          Inr (s, set_stack_top ps s (update_sym s
            (\<lambda>_. zero_symbol\<lparr>s_v := v, s_type := \<lparr>ct_t = t, ct_ref = 0\<rparr>, s_c := c, s_prev := stack_top ps st1\<rparr>) st1)))"

section \<open>Lookup\<close>

partial_function (option) sym_find2 :: "(nat \<Rightarrow> symbol) \<Rightarrow> nat \<Rightarrow> u32 \<Rightarrow> nat option" where
  "sym_find2 h s v = (if s = 0 \<or> s_v (h s) = v then Some s else sym_find2 h (s_prev (h s)) v)"

definition token_index :: "scopes \<Rightarrow> u32 \<Rightarrow> nat option" where
  "token_index st v = (if v - TOK_IDENT < tok_ident st - TOK_IDENT then Some (unat (v - TOK_IDENT)) else None)"

definition struct_find :: "u32 \<Rightarrow> scopes \<Rightarrow> nat" where
  "struct_find v st =
     (case token_index st v of
        None \<Rightarrow> 0
      | Some i \<Rightarrow> let s = structs st i in if s \<noteq> 0 \<and> s_tag_alias (heap st s) then ct_ref (s_type (heap st s)) else s)"

definition sym_find :: "u32 \<Rightarrow> scopes \<Rightarrow> nat" where
  "sym_find v st = (case token_index st v of None \<Rightarrow> 0 | Some i \<Rightarrow> identifiers st i)"

section \<open>Making symbols visible\<close>

text \<open>The places that hold a link of a chain of bindings: what \<open>Sym **ps\<close> points to.\<close>

datatype slot = Identifier nat | Struct_tag nat | Prev_tok nat

definition read_slot :: "scopes \<Rightarrow> slot \<Rightarrow> nat" where
  "read_slot st ps =
     (case ps of Identifier i \<Rightarrow> identifiers st i | Struct_tag i \<Rightarrow> structs st i | Prev_tok a \<Rightarrow> s_prev_tok (heap st a))"

definition write_slot :: "slot \<Rightarrow> nat \<Rightarrow> scopes \<Rightarrow> scopes" where
  "write_slot ps a st =
     (case ps of
        Identifier i \<Rightarrow> st\<lparr>identifiers := (identifiers st)(i := a)\<rparr>
      | Struct_tag i \<Rightarrow> st\<lparr>structs := (structs st)(i := a)\<rparr>
      | Prev_tok b \<Rightarrow> update_sym b (s_prev_tok_update (\<lambda>_. a)) st)"

partial_function (option) find_slot :: "(nat \<Rightarrow> bool) \<Rightarrow> scopes \<Rightarrow> slot \<Rightarrow> slot option" where
  "find_slot found st ps =
     (if read_slot st ps = 0 \<or> found (read_slot st ps) then Some ps else find_slot found st (Prev_tok (read_slot st ps)))"

definition note_cpp_this_binding :: "u32 \<Rightarrow> scopes \<Rightarrow> scopes" where
  "note_cpp_this_binding v st =
     (if v = cpp_this_name_tok st \<or> v = cpp_lambda_this_name_tok st then st\<lparr>cpp_this_binding_seen := True\<rparr> else st)"

text \<open>Taking a symbol out of the list of scoped bindings, and putting it in front.\<close>

definition leave_bindings :: "nat \<Rightarrow> scopes \<Rightarrow> scopes" where
  "leave_bindings s st =
     (let p = s_scope_prev (heap st s); n = s_scope_next (heap st s);
          st1 = (if p \<noteq> 0 then update_sym p (s_scope_next_update (\<lambda>_. n)) st
                 else if scoped_bindings st = s then st\<lparr>scoped_bindings := n\<rparr> else st);
          st2 = (if n \<noteq> 0 then update_sym n (s_scope_prev_update (\<lambda>_. p)) st1 else st1)
      in update_sym s (\<lambda>y. y\<lparr>s_scope_prev := 0, s_scope_next := 0\<rparr>) st2)"

definition enter_bindings :: "nat \<Rightarrow> scopes \<Rightarrow> scopes" where
  "enter_bindings s st =
     (let b = scoped_bindings st;
          st1 = update_sym s (s_scope_next_update (\<lambda>_. b)) st;
          st2 = (if b \<noteq> 0 then update_sym b (s_scope_prev_update (\<lambda>_. s)) st1 else st1)
      in st2\<lparr>scoped_bindings := s\<rparr>)"

definition sym_link_scoped :: "nat \<Rightarrow> bool \<Rightarrow> int \<Rightarrow> scopes \<Rightarrow> scope_stop + scopes" where
  "sym_link_scoped s yes scope st =
     (let v = s_v (heap st s)
      in case token_index st (v AND NOT SYM_STRUCT) of
           None \<Rightarrow> Inl No_token
         | Some i \<Rightarrow>
             let ps = (if v AND SYM_STRUCT \<noteq> 0 then Struct_tag i else Identifier i);
                 st1 = leave_bindings s st
             in if yes then
                  let st2 = (if v AND SYM_STRUCT = 0 then note_cpp_this_binding (v AND NOT SYM_STRUCT) st1 else st1);
                      st3 = update_sym s (\<lambda>y. y\<lparr>s_prev_tok := read_slot st2 ps\<rparr>) st2;
                      st4 = update_sym s (s_scope_update (\<lambda>_. scope)) (write_slot ps s st3)
                  in Inr (if scope > 0 then enter_bindings s st4 else st4)
                else
                  case find_slot ((=) s) st1 ps of
                    None \<Rightarrow> Inl Endless
                  | Some ps1 \<Rightarrow>
                      Inr (if read_slot st1 ps1 = s then write_slot ps1 (s_prev_tok (heap st1 s)) st1 else st1))"

definition sym_link :: "nat \<Rightarrow> bool \<Rightarrow> scopes \<Rightarrow> scope_stop + scopes" where
  "sym_link s yes st = sym_link_scoped s yes (local_scope st) st"

definition sym_scope_ex :: "nat \<Rightarrow> scopes \<Rightarrow> int" where
  "sym_scope_ex s st =
     (let y = heap st s in if IS_ENUM_VAL (ct_t (s_type y)) then s_scope (heap st (ct_ref (s_type y))) else s_scope y)"

definition sym_push :: "nat \<Rightarrow> u32 \<Rightarrow> ctype \<Rightarrow> int \<Rightarrow> int \<Rightarrow> scopes \<Rightarrow> scope_stop + nat \<times> scopes" where
  "sym_push pool v type r c st =
     (case sym_push2 pool (if local_stack st \<noteq> 0 then Local_stack else Global_stack) v (ct_t type) c st of
        Inl e \<Rightarrow> Inl e
      | Inr (s, st1) \<Rightarrow>
          let st2 = update_sym s (\<lambda>y. y\<lparr>s_type := type, s_r := r\<rparr>) st1
          in if (v AND NOT SYM_STRUCT) <s SYM_FIRST_ANOM then
               (case sym_link s True st2 of
                  Inl e \<Rightarrow> Inl e
                | Inr st3 \<Rightarrow>
                    let p = s_prev_tok (heap st3 s)
                    in if p \<noteq> 0 \<and> sym_scope_ex p st3 = local_scope st3 then Inl (Redeclared v) else Inr (s, st3))
             else Inr (s, st2))"

definition global_identifier_push :: "nat \<Rightarrow> u32 \<Rightarrow> u32 \<Rightarrow> int \<Rightarrow> scopes \<Rightarrow> scope_stop + nat \<times> scopes" where
  "global_identifier_push pool v t c st =
     (case sym_push2 pool Global_stack v t c st of
        Inl e \<Rightarrow> Inl e
      | Inr (s, st1) \<Rightarrow>
          let serial = cpp_global_decl_serial st1 + 1;
              st2 = update_sym s (\<lambda>y. y\<lparr>s_r := uint (VT_CONST OR VT_SYM), s_decl_serial := serial\<rparr>)
                      (st1\<lparr>cpp_global_decl_serial := serial\<rparr>)
          in if v <s SYM_FIRST_ANOM then
               (case token_index st2 v of
                  None \<Rightarrow> Inl No_token
                | Some i \<Rightarrow>
                    let st3 = note_cpp_this_binding v st2
                    in case find_slot (\<lambda>a. s_scope (heap st3 a) = 0) st3 (Identifier i) of
                         None \<Rightarrow> Inl Endless
                       | Some ps \<Rightarrow> Inr (s, write_slot ps s (update_sym s (\<lambda>y. y\<lparr>s_prev_tok := read_slot st3 ps\<rparr>) st3)))
             else Inr (s, st2))"

definition has_token :: "u32 \<Rightarrow> bool" where
  "has_token v \<longleftrightarrow> TOK_IDENT \<le>s (v AND NOT SYM_STRUCT) \<and> (v AND NOT SYM_STRUCT) <s SYM_FIRST_ANOM"

partial_function (option) pop_loop :: "nat \<Rightarrow> bool \<Rightarrow> nat \<Rightarrow> scopes \<Rightarrow> (scope_stop + scopes) option" where
  "pop_loop b keep s st =
     (if s = b then Some (Inr st)
      else if s = 0 then Some (Inl Null_symbol)
      else let ss = s_prev (heap st s)
           in case (if has_token (s_v (heap st s)) then sym_link s False st else Inr st) of
                Inl e \<Rightarrow> Some (Inl e)
              | Inr st1 \<Rightarrow> pop_loop b keep ss (if keep then st1 else sym_free s st1))"

definition sym_pop :: "sym_stack \<Rightarrow> nat \<Rightarrow> bool \<Rightarrow> scopes \<Rightarrow> scope_stop + scopes" where
  "sym_pop ptop b keep st =
     (case pop_loop b keep (stack_top ptop st) st of
        None \<Rightarrow> Inl Endless
      | Some (Inl e) \<Rightarrow> Inl e
      | Some (Inr st1) \<Rightarrow> Inr (if keep then st1 else set_stack_top ptop b st1))"

declare sym_find2.simps [code] find_slot.simps [code] pop_loop.simps [code]

section \<open>Scopes\<close>

record scope_mark =
  lstk :: nat
  using_namespace_count :: nat

definition new_scope_s :: "scopes \<Rightarrow> scope_mark \<times> scopes" where
  "new_scope_s st =
     (\<lparr>lstk = local_stack st, using_namespace_count = nb_using_namespace_toks st\<rparr>,
      st\<lparr>local_scope := local_scope st + 1\<rparr>)"

text \<open>The end of a scope's names in \<open>prev_scope\<close>, and with nothing kept \<open>prev_scope_s\<close>.\<close>

definition prev_scope_names :: "scope_mark \<Rightarrow> bool \<Rightarrow> scopes \<Rightarrow> scope_stop + scopes" where
  "prev_scope_names mark keep st =
     (case sym_pop Local_stack (lstk mark) keep st of
        Inl e \<Rightarrow> Inl e
      | Inr st1 \<Rightarrow>
          Inr (st1\<lparr>nb_using_namespace_toks := using_namespace_count mark, local_scope := local_scope st1 - 1\<rparr>))"

definition prev_scope_s :: "scope_mark \<Rightarrow> scopes \<Rightarrow> scope_stop + scopes" where
  "prev_scope_s mark = prev_scope_names mark False"

end
