(* ===== verification/SymChains.thy ===== *)
theory SymChains imports SymScope
begin

text \<open>
  Linked lists of symbols, described by the lists of their addresses: the chains of bindings of a token, walked through
  the places that hold their links, and the doubly linked list of scoped bindings.
\<close>

section \<open>Segments of linked lists\<close>

primrec segment :: "(nat \<Rightarrow> nat) \<Rightarrow> nat \<Rightarrow> nat list \<Rightarrow> nat \<Rightarrow> bool" where
  "segment n a [] b \<longleftrightarrow> a = b"
| "segment n a (x # xs) b \<longleftrightarrow> a = x \<and> x \<noteq> 0 \<and> segment n (n x) xs b"

lemma segment_append: "segment n a (xs @ ys) b \<longleftrightarrow> (\<exists>c. segment n a xs c \<and> segment n c ys b)"
  by (induction xs arbitrary: a) auto

lemma segment_cong: "(\<And>x. x \<in> set xs \<Longrightarrow> n x = m x) \<Longrightarrow> segment n a xs b = segment m a xs b"
  by (induction xs arbitrary: a) auto

lemma segment_nonzero: "segment n a xs b \<Longrightarrow> 0 \<notin> set xs"
  by (induction xs arbitrary: a) auto

lemma segment_distinct: "segment n a xs 0 \<Longrightarrow> distinct xs"
proof (induction "length xs" arbitrary: xs a rule: less_induct)
  case less
  have unique: "ys = zs" if "segment n a ys 0" "segment n a zs 0" for a ys zs
    using that
  proof (induction ys arbitrary: a zs)
    case Nil then show ?case by (cases zs) auto
  next
    case (Cons y ys) then show ?case by (cases zs) auto
  qed
  show ?case
  proof (cases xs)
    case (Cons x ys)
    then have ys: "segment n (n x) ys 0" using less.prems by simp
    have "x \<notin> set ys"
    proof
      assume "x \<in> set ys"
      then obtain us vs where s: "ys = us @ x # vs" by (auto dest: split_list)
      then have "segment n x (x # vs) 0" using ys by (auto simp: segment_append)
      moreover have "segment n x (x # ys) 0" using less.prems Cons by simp
      ultimately have "x # vs = x # ys" using unique by blast
      then show False using s by simp
    qed
    then show ?thesis using less.hyps [of ys] Cons ys by auto
  qed simp
qed

lemma segment_head: "segment n a xs 0 \<Longrightarrow> a = (case xs of [] \<Rightarrow> 0 | x # _ \<Rightarrow> x)"
  by (cases xs) auto

section \<open>Chains of bindings\<close>

abbreviation prev_tok :: "scopes \<Rightarrow> nat \<Rightarrow> nat" where
  "prev_tok st x \<equiv> s_prev_tok (heap st x)"

primrec stop_slot :: "(nat \<Rightarrow> bool) \<Rightarrow> slot \<Rightarrow> nat list \<Rightarrow> slot" where
  "stop_slot found ps [] = ps"
| "stop_slot found ps (x # xs) = (if found x then ps else stop_slot found (Prev_tok x) xs)"

lemma read_slot_Prev: "read_slot st (Prev_tok x) = prev_tok st x"
  by (simp add: read_slot_def)

lemma find_slot_chain:
  "segment (prev_tok st) (read_slot st ps) xs 0 \<Longrightarrow>
     find_slot found st ps = Some (stop_slot found ps xs)
     \<and> read_slot st (stop_slot found ps xs) = (case dropWhile (\<lambda>x. \<not> found x) xs of [] \<Rightarrow> 0 | x # _ \<Rightarrow> x)"
proof (induction xs arbitrary: ps)
  case Nil
  then show ?case by (subst find_slot.simps) simp
next
  case (Cons x xs)
  have "segment (prev_tok st) (read_slot st (Prev_tok x)) xs 0" using Cons.prems by (simp add: read_slot_def)
  note IH = Cons.IH [OF this]
  show ?case using Cons.prems IH by (subst find_slot.simps) simp
qed

lemma stop_slot_cases: "stop_slot found ps xs = ps \<or> (\<exists>x\<in>set xs. stop_slot found ps xs = Prev_tok x \<and> \<not> found x)"
proof (induction xs arbitrary: ps)
  case (Cons x xs)
  show ?case using Cons.IH [of "Prev_tok x"] by auto
qed simp

lemma read_write_slot:
  "read_slot (write_slot ps a st) qs = (if qs = ps then a else read_slot st qs)"
  by (cases ps; cases qs) (auto simp: read_slot_def write_slot_def update_sym_def)

lemma prev_tok_write: "prev_tok (write_slot ps a st) x = (if ps = Prev_tok x then a else prev_tok st x)"
  using read_write_slot [of ps a st "Prev_tok x"] by (auto simp: read_slot_def)

text \<open>Writing the place where a walk stopped replaces the chain from there.\<close>

lemma write_stop_slot:
  assumes "segment (prev_tok st) (read_slot st ps) xs 0" and "\<forall>p. ps = Prev_tok p \<longrightarrow> p \<notin> set xs"
    and "segment (prev_tok (write_slot (stop_slot found ps xs) a st)) a ys 0"
  shows "segment (prev_tok (write_slot (stop_slot found ps xs) a st)) (read_slot (write_slot (stop_slot found ps xs) a st) ps)
    (takeWhile (\<lambda>x. \<not> found x) xs @ ys) 0"
  using assms
proof (induction xs arbitrary: ps)
  case Nil then show ?case by (simp add: read_write_slot)
next
  case (Cons x xs)
  show ?case
  proof (cases "found x")
    case True then show ?thesis using Cons.prems by (simp add: read_write_slot)
  next
    case False
    have d: "distinct (x # xs)" by (rule segment_distinct [OF Cons.prems(1)])
    define qs where "qs = stop_slot found (Prev_tok x) xs"
    have "segment (prev_tok (write_slot qs a st)) (read_slot (write_slot qs a st) (Prev_tok x)) (takeWhile (\<lambda>x. \<not> found x) xs @ ys) 0"
      unfolding qs_def by (rule Cons.IH) (use Cons.prems d False in \<open>auto simp: read_slot_def\<close>)
    moreover have "qs \<noteq> ps" using stop_slot_cases [of found "Prev_tok x" xs] Cons.prems(2) unfolding qs_def by auto
    moreover have "read_slot (write_slot qs a st) ps = x" "x \<noteq> 0" using Cons.prems(1) \<open>qs \<noteq> ps\<close> by (simp_all add: read_write_slot)
    moreover have "stop_slot found ps (x # xs) = qs" using False by (simp add: qs_def)
    ultimately show ?thesis using False by (simp add: read_slot_Prev)
  qed
qed

section \<open>Scoped bindings\<close>

primrec backed :: "(nat \<Rightarrow> nat) \<Rightarrow> nat \<Rightarrow> nat list \<Rightarrow> bool" where
  "backed m p [] \<longleftrightarrow> True"
| "backed m p (x # xs) \<longleftrightarrow> m x = p \<and> backed m x xs"

lemma backed_append: "backed m p (xs @ ys) \<longleftrightarrow> backed m p xs \<and> backed m (last (p # xs)) ys"
  by (induction xs arbitrary: p) auto

lemma backed_cong: "(\<And>x. x \<in> set xs \<Longrightarrow> m x = k x) \<Longrightarrow> backed m p xs = backed k p xs"
  by (induction xs arbitrary: p) auto

abbreviation scope_next :: "scopes \<Rightarrow> nat \<Rightarrow> nat" where
  "scope_next st x \<equiv> s_scope_next (heap st x)"

abbreviation scope_prev :: "scopes \<Rightarrow> nat \<Rightarrow> nat" where
  "scope_prev st x \<equiv> s_scope_prev (heap st x)"

definition binding_list :: "scopes \<Rightarrow> nat list \<Rightarrow> bool" where
  "binding_list st xs \<longleftrightarrow> segment (scope_next st) (scoped_bindings st) xs 0 \<and> backed (scope_prev st) 0 xs"

lemma leave_absent:
  assumes "binding_list st xs" "s \<notin> set xs" "scope_prev st s = 0" "scope_next st s = 0" "s \<noteq> 0"
  shows "leave_bindings s st = st"
proof -
  have "segment (scope_next st) (scoped_bindings st) xs 0" using assms(1) by (simp add: binding_list_def)
  from segment_head [OF this] have "scoped_bindings st \<noteq> s" using assms(2,5) by (auto split: list.splits)
  then show ?thesis using assms(3,4) by (auto simp: leave_bindings_def update_sym_def Let_def fun_eq_iff)
qed

lemma leave_present:
  assumes "binding_list st (us @ s # vs)"
  shows "binding_list (leave_bindings s st) (us @ vs)"
    and "scope_prev (leave_bindings s st) s = 0" "scope_next (leave_bindings s st) s = 0"
proof -
  have seg: "segment (scope_next st) (scoped_bindings st) (us @ s # vs) 0" and bk: "backed (scope_prev st) 0 (us @ s # vs)"
    using assms by (simp_all add: binding_list_def)
  have d: "distinct (us @ s # vs)" by (rule segment_distinct [OF seg])
  have nz: "0 \<notin> set (us @ s # vs)" by (rule segment_nonzero [OF seg])
  define p n where "p = scope_prev st s" and "n = scope_next st s"
  have p: "p = last (0 # us)" using bk by (simp add: p_def backed_append)
  have sn: "segment (scope_next st) n vs 0" using seg by (auto simp: segment_append n_def)
  have n: "n = (case vs of [] \<Rightarrow> 0 | x # _ \<Rightarrow> x)" by (rule segment_head [OF sn])
  define st' where "st' = leave_bindings s st"
  have pn: "p \<noteq> s" "n \<noteq> s" using p n d nz by (auto split: list.splits)
  have nxt: "scope_next st' x = (if x = s then 0 else if x = p \<and> p \<noteq> 0 then n else scope_next st x)"
    and prv: "scope_prev st' x = (if x = s then 0 else if x = n \<and> n \<noteq> 0 then p else scope_prev st x)" for x
    using pn by (auto simp: st'_def leave_bindings_def update_sym_def Let_def p_def n_def)
  have fst': "scoped_bindings st' = (if p = 0 \<and> scoped_bindings st = s then n else scoped_bindings st)"
    by (auto simp: st'_def leave_bindings_def update_sym_def Let_def p_def n_def)
  have pv: "p \<notin> set vs" using p d nz by (cases us rule: rev_cases) auto
  have nu: "n \<noteq> 0 \<longrightarrow> n \<notin> set us" using n d by (auto split: list.splits)
  have vs: "segment (scope_next st') n vs 0"
    using sn by (subst segment_cong [where m = "scope_next st"]) (use d pv in \<open>auto simp: nxt\<close>)
  have "segment (scope_next st') (scoped_bindings st') (us @ vs) 0"
  proof (cases us rule: rev_cases)
    case Nil
    then show ?thesis using p seg vs fst' by simp
  next
    case (snoc ws q)
    then have q: "q = p" "p \<noteq> 0" using p nz by auto
    have "segment (scope_next st) (scoped_bindings st) ws p" using seg snoc q by (auto simp: segment_append)
    then have "segment (scope_next st') (scoped_bindings st') ws p"
      by (subst segment_cong [where m = "scope_next st"]) (use d snoc q fst' in \<open>auto simp: nxt\<close>)
    moreover have "segment (scope_next st') p ([p] @ vs) 0" using vs q pn by (simp add: nxt)
    ultimately show ?thesis using snoc q by (auto simp: segment_append)
  qed
  moreover have "backed (scope_prev st') 0 (us @ vs)"
  proof -
    have "backed (scope_prev st') 0 us"
      using bk nu by (subst backed_cong [where k = "scope_prev st"]) (use d in \<open>auto simp: prv backed_append\<close>)
    moreover have "backed (scope_prev st') p vs"
    proof (cases vs)
      case (Cons y ys)
      then have y: "n = y" "y \<noteq> 0" "y \<noteq> s" using n nz d by auto
      have "backed (scope_prev st) y ys" using bk Cons by (simp add: backed_append)
      then have "backed (scope_prev st') y ys"
        by (subst backed_cong [where k = "scope_prev st"]) (use d Cons y in \<open>auto simp: prv\<close>)
      then show ?thesis using Cons y by (simp add: prv)
    qed simp
    ultimately show ?thesis using p by (simp add: backed_append)
  qed
  ultimately show "binding_list (leave_bindings s st) (us @ vs)"
    and "scope_prev (leave_bindings s st) s = 0" "scope_next (leave_bindings s st) s = 0"
    unfolding st'_def [symmetric] by (simp_all add: binding_list_def nxt prv)
qed

lemma enter_list:
  assumes "binding_list st xs" "s \<notin> set xs" "scope_prev st s = 0" "s \<noteq> 0"
  shows "binding_list (enter_bindings s st) (s # xs)"
proof -
  have seg: "segment (scope_next st) (scoped_bindings st) xs 0" and bk: "backed (scope_prev st) 0 xs"
    using assms(1) by (simp_all add: binding_list_def)
  define st' where "st' = enter_bindings s st"
  have f: "scoped_bindings st = (case xs of [] \<Rightarrow> 0 | x # _ \<Rightarrow> x)" by (rule segment_head [OF seg])
  have nxt: "scope_next st' x = (if x = s then scoped_bindings st else scope_next st x)"
    and prv: "scope_prev st' x = (if x = scoped_bindings st \<and> x \<noteq> 0 then s else scope_prev st x)" for x
    by (auto simp: st'_def enter_bindings_def update_sym_def Let_def)
  have "scoped_bindings st' = s" by (auto simp: st'_def enter_bindings_def Let_def)
  moreover have "segment (scope_next st') (scoped_bindings st) xs 0"
    using seg by (subst segment_cong [where m = "scope_next st"]) (use assms(2) in \<open>auto simp: nxt\<close>)
  moreover have "backed (scope_prev st') s xs"
  proof (cases xs)
    case (Cons y ys)
    have d: "distinct xs" by (rule segment_distinct [OF seg])
    have "backed (scope_prev st) y ys" using bk Cons by simp
    then have "backed (scope_prev st') y ys"
      by (subst backed_cong [where k = "scope_prev st"]) (use d f Cons in \<open>auto simp: prv\<close>)
    then show ?thesis using Cons f segment_nonzero [OF seg] by (auto simp: prv)
  qed simp
  moreover have "scope_prev st' s = 0"
    using assms f by (cases xs) (auto simp: prv)
  ultimately show ?thesis unfolding st'_def [symmetric] using assms(4) by (simp add: binding_list_def nxt)
qed

end
