(* ===== verification/SymScopeFacts.thy ===== *)
theory SymScopeFacts imports SymChains
begin

text \<open>
  The invariant of the symbol tables, with the lists of symbols it speaks of, and what allocation, linking and
  unlinking do to them.
\<close>

section \<open>The invariant\<close>

text \<open>The symbols bound to each token, innermost first; the scoped bindings; the local stack; the free symbols.\<close>

record names =
  bound_to :: "slot \<Rightarrow> nat list"
  inner :: "nat list"
  on_stack :: "nat list"
  unused :: "nat list"

definition is_head :: "slot \<Rightarrow> bool" where
  "is_head ps \<longleftrightarrow> (\<forall>a. ps \<noteq> Prev_tok a)"

definition slot_of :: "scopes \<Rightarrow> u32 \<Rightarrow> slot option" where
  "slot_of st v =
     map_option (\<lambda>i. if v AND SYM_STRUCT \<noteq> 0 then Struct_tag i else Identifier i) (token_index st (v AND NOT SYM_STRUCT))"

definition linked_in :: "names \<Rightarrow> nat \<Rightarrow> bool" where
  "linked_in A x \<longleftrightarrow> (\<exists>ps. is_head ps \<and> x \<in> set (bound_to A ps))"

definition alive :: "names \<Rightarrow> nat \<Rightarrow> bool" where
  "alive A x \<longleftrightarrow> x \<in> set (on_stack A) \<or> linked_in A x"

definition bindings_ok :: "scopes \<Rightarrow> (slot \<Rightarrow> nat list) \<Rightarrow> bool" where
  "bindings_ok st b \<longleftrightarrow> (\<forall>ps. is_head ps \<longrightarrow>
     segment (prev_tok st) (read_slot st ps) (b ps) 0 \<and> (\<forall>x\<in>set (b ps). slot_of st (s_v (heap st x)) = Some ps))"

definition well_scoped_at :: "nat \<Rightarrow> scopes \<Rightarrow> names \<Rightarrow> bool" where
  "well_scoped_at l st A \<longleftrightarrow>
     bindings_ok st (bound_to A) \<and> binding_list st (inner A)
     \<and> (\<forall>x\<in>set (inner A). linked_in A x)
     \<and> (\<forall>x. alive A x \<and> x \<notin> set (inner A) \<longrightarrow> scope_prev st x = 0 \<and> scope_next st x = 0)
     \<and> segment (\<lambda>x. s_prev (heap st x)) l (on_stack A) 0
     \<and> (\<forall>x\<in>set (on_stack A). has_token (s_v (heap st x)) \<longrightarrow> slot_of st (s_v (heap st x)) \<noteq> None)
     \<and> segment (\<lambda>x. s_next (heap st x)) (sym_free_first st) (unused A) 0
     \<and> (\<forall>x\<in>set (unused A). \<not> alive A x)
     \<and> (\<forall>x. alive A x \<or> x \<in> set (unused A) \<longrightarrow> x < fresh st) \<and> 0 < fresh st
     \<and> TOK_IDENT \<le> tok_ident st \<and> tok_ident st \<le> SYM_FIRST_ANOM"

abbreviation well_scoped :: "scopes \<Rightarrow> names \<Rightarrow> bool" where
  "well_scoped st \<equiv> well_scoped_at (local_stack st) st"

lemma bindings_unique:
  "bindings_ok st b \<Longrightarrow> is_head ps \<Longrightarrow> is_head qs \<Longrightarrow> x \<in> set (b ps) \<Longrightarrow> x \<in> set (b qs) \<Longrightarrow> ps = qs"
  unfolding bindings_ok_def by (metis option.inject)

lemma slot_of_token:
  assumes "well_scoped_at l st A" "slot_of st v = Some ps"
  shows "has_token v"
proof -
  define u where "u = v AND NOT SYM_STRUCT"
  have t: "TOK_IDENT \<le> tok_ident st" "tok_ident st \<le> SYM_FIRST_ANOM" using assms(1) by (auto simp: well_scoped_at_def)
  have d: "u - TOK_IDENT < tok_ident st - TOK_IDENT" using assms(2) by (auto simp: slot_of_def token_index_def u_def split: if_splits)
  have "uint (tok_ident st - TOK_IDENT) = uint (tok_ident st) - 256" "256 \<le> uint (tok_ident st)" "uint (tok_ident st) \<le> 0x10000000"
    using t by (simp_all add: uint_sub_if' word_le_def TOK_IDENT_def SYM_FIRST_ANOM_def)
  moreover have e: "uint (u - TOK_IDENT) = (if 256 \<le> uint u then uint u - 256 else uint u - 256 + 4294967296)"
    by (simp add: uint_sub_if' TOK_IDENT_def)
  moreover have l: "uint (u - TOK_IDENT) < uint (tok_ident st - TOK_IDENT)" using d by (simp add: word_less_def)
  ultimately have u: "256 \<le> uint u" using uint_ge_0 [of u] by (cases "256 \<le> uint u") simp_all
  moreover from u have "uint u < 0x10000000"
    using e l \<open>uint (tok_ident st - TOK_IDENT) = _\<close> \<open>uint (tok_ident st) \<le> _\<close> by simp
  moreover have "sint u = uint u"
  proof -
    have "- (2 ^ 31) \<le> (0::int)" by simp
    from order_trans [OF this uint_ge_0 [of u]] have "- (2 ^ 31) \<le> uint u" .
    then show ?thesis using signed_take_bit_int_eq_self [of 31 "uint u"] \<open>uint u < _\<close> by (simp add: sint_uint)
  qed
  ultimately show ?thesis
    by (simp add: has_token_def u_def [symmetric] word_sle_eq word_sless_alt TOK_IDENT_def SYM_FIRST_ANOM_def)
qed

lemma alive_nonzero: "well_scoped_at l st A \<Longrightarrow> alive A x \<Longrightarrow> x \<noteq> 0"
  unfolding well_scoped_at_def alive_def linked_in_def bindings_ok_def using segment_nonzero by metis

text \<open>What is kept of a symbol that stays: everything but its links.\<close>

definition contents :: "scopes \<Rightarrow> nat \<Rightarrow> symbol" where
  "contents st x = (heap st x)\<lparr>s_prev_tok := 0, s_scope_prev := 0, s_scope_next := 0\<rparr>"

lemma contents_eqD:
  assumes "contents st x = contents st' x"
  shows "s_v (heap st x) = s_v (heap st' x)" "s_scope (heap st x) = s_scope (heap st' x)" "s_prev (heap st x) = s_prev (heap st' x)"
    "s_next (heap st x) = s_next (heap st' x)" "s_type (heap st x) = s_type (heap st' x)" "s_tag_alias (heap st x) = s_tag_alias (heap st' x)"
  using arg_cong [OF assms, of s_v] arg_cong [OF assms, of s_scope] arg_cong [OF assms, of s_prev]
    arg_cong [OF assms, of s_next] arg_cong [OF assms, of s_type] arg_cong [OF assms, of s_tag_alias]
  by (simp_all add: contents_def)

text \<open>The parts of the state that no operation on the links touches.\<close>

definition same_rest :: "scopes \<Rightarrow> scopes \<Rightarrow> bool" where
  "same_rest st st' \<longleftrightarrow> fresh st' = fresh st \<and> sym_free_first st' = sym_free_first st \<and> tok_ident st' = tok_ident st
     \<and> global_stack st' = global_stack st \<and> local_stack st' = local_stack st \<and> local_scope st' = local_scope st
     \<and> nb_using_namespace_toks st' = nb_using_namespace_toks st"

lemma slot_of_same: "tok_ident st' = tok_ident st \<Longrightarrow> slot_of st' = slot_of st"
  by (rule ext) (simp add: slot_of_def token_index_def)

lemma slot_of_head: "slot_of st v = Some ps \<Longrightarrow> is_head ps"
  by (auto simp: slot_of_def is_head_def split: if_splits)

section \<open>Unlinking\<close>

lemma leave_keeps:
  shows "contents (leave_bindings s st) x = contents st x" and "prev_tok (leave_bindings s st) x = prev_tok st x"
    and "same_rest st (leave_bindings s st)" and "read_slot (leave_bindings s st) ps = read_slot st ps"
    and "x \<noteq> s \<Longrightarrow> scope_prev st x = 0 \<Longrightarrow> scope_next st x = 0 \<Longrightarrow> binding_list st us \<Longrightarrow> x \<notin> set us \<Longrightarrow>
      s \<in> set us \<Longrightarrow> scope_prev (leave_bindings s st) x = 0 \<and> scope_next (leave_bindings s st) x = 0"
  subgoal by (auto simp: leave_bindings_def update_sym_def contents_def Let_def)
  subgoal by (auto simp: leave_bindings_def update_sym_def Let_def)
  subgoal by (auto simp: leave_bindings_def update_sym_def Let_def same_rest_def)
  subgoal by (cases ps) (auto simp: leave_bindings_def update_sym_def Let_def read_slot_def)
  subgoal premises p
  proof -
    obtain vs ws where us: "us = vs @ s # ws" using p(6) by (auto dest: split_list)
    have b: "segment (scope_next st) (scoped_bindings st) us 0" "backed (scope_prev st) 0 us" using p(4) by (simp_all add: binding_list_def)
    have "scope_prev st s = 0 \<or> scope_prev st s \<in> set us" using b(2) us by (cases vs rule: rev_cases) (auto simp: backed_append)
    moreover have "segment (scope_next st) (scope_next st s) ws 0" using b(1) us by (auto simp: segment_append)
    then have "scope_next st s = 0 \<or> scope_next st s \<in> set us" using us by (cases ws) auto
    ultimately show ?thesis using p(1,2,3,5) by (auto simp: leave_bindings_def update_sym_def Let_def)
  qed
  done

lemma write_keeps:
  shows "contents (write_slot ps a st) x = contents st x" and "same_rest st (write_slot ps a st)"
    and "scope_prev (write_slot ps a st) x = scope_prev st x" "scope_next (write_slot ps a st) x = scope_next st x"
    and "scoped_bindings (write_slot ps a st) = scoped_bindings st"
  by (cases ps; auto simp: write_slot_def update_sym_def contents_def same_rest_def)+

lemma binding_list_write: "binding_list (write_slot ps a st) us = binding_list st us"
  by (simp add: binding_list_def write_keeps)

lemma split_at:
  assumes "distinct xs" "s \<in> set xs"
  shows "takeWhile (\<lambda>x. \<not> s = x) xs @ tl (dropWhile (\<lambda>x. \<not> s = x) xs) = filter (\<lambda>x. x \<noteq> s) xs"
    and "dropWhile (\<lambda>x. \<not> s = x) xs = s # tl (dropWhile (\<lambda>x. \<not> s = x) xs)"
proof -
  obtain us vs where xs: "xs = us @ s # vs" using assms(2) by (auto dest: split_list)
  then have d: "\<forall>x\<in>set us. \<not> s = x" "\<forall>x\<in>set vs. x \<noteq> s" "\<forall>x\<in>set us. x \<noteq> s" using assms(1) by auto
  have w: "takeWhile (\<lambda>x. \<not> s = x) xs = us" "dropWhile (\<lambda>x. \<not> s = x) xs = s # vs"
    using d(1) unfolding xs by (simp_all add: takeWhile_append2 dropWhile_append2)
  show "takeWhile (\<lambda>x. \<not> s = x) xs @ tl (dropWhile (\<lambda>x. \<not> s = x) xs) = filter (\<lambda>x. x \<noteq> s) xs"
    unfolding w using d by (simp add: xs filter_id_conv)
  show "dropWhile (\<lambda>x. \<not> s = x) xs = s # tl (dropWhile (\<lambda>x. \<not> s = x) xs)" unfolding w by simp
qed

lemma bindings_write:
  assumes b: "bindings_ok st b" and h: "is_head ps"
    and xs: "segment (prev_tok (write_slot (stop_slot found ps (b ps)) a st)) a ys 0"
    and ys: "\<forall>x\<in>set ys. slot_of st (s_v (heap st x)) = Some ps"
  shows "bindings_ok (write_slot (stop_slot found ps (b ps)) a st) (b(ps := takeWhile (\<lambda>x. \<not> found x) (b ps) @ ys))"
proof -
  define q where "q = stop_slot found ps (b ps)"
  have q: "q = ps \<or> (\<exists>x\<in>set (b ps). q = Prev_tok x)" using stop_slot_cases [of found ps "b ps"] by (auto simp: q_def)
  have s: "slot_of (write_slot q a st) = slot_of st" by (rule slot_of_same) (use write_keeps(2) [of st q a] in \<open>simp add: same_rest_def\<close>)
  have v: "s_v (heap (write_slot q a st) x) = s_v (heap st x)" for x using contents_eqD(1) [OF write_keeps(1)] .
  have "segment (prev_tok (write_slot q a st)) (read_slot (write_slot q a st) qs) (b qs) 0" if "is_head qs" "qs \<noteq> ps" for qs
  proof -
    have "segment (prev_tok st) (read_slot st qs) (b qs) 0" using b that by (simp add: bindings_ok_def)
    moreover have "q \<noteq> qs" using q that by (auto simp: is_head_def)
    moreover have "q \<noteq> Prev_tok x" if "x \<in> set (b qs)" for x
      using q that bindings_unique [OF b h \<open>is_head qs\<close>] \<open>qs \<noteq> ps\<close> h by (auto simp: is_head_def)
    ultimately show ?thesis
      by (subst segment_cong [where m = "prev_tok st"]) (auto simp: prev_tok_write read_write_slot)
  qed
  moreover have "segment (prev_tok (write_slot q a st)) (read_slot (write_slot q a st) ps) (takeWhile (\<lambda>x. \<not> found x) (b ps) @ ys) 0"
    unfolding q_def by (rule write_stop_slot) (use b h xs in \<open>auto simp: bindings_ok_def is_head_def\<close>)
  ultimately show ?thesis
    using b ys unfolding q_def [symmetric] bindings_ok_def s v by (auto dest: set_takeWhileD)
qed


text \<open>What a change of the links may do: the contents of every symbol stay.\<close>

definition relinked :: "scopes \<Rightarrow> scopes \<Rightarrow> bool" where
  "relinked st st' \<longleftrightarrow> (\<forall>x. contents st' x = contents st x) \<and> same_rest st st'"

lemma relinked_trans: "relinked a b \<Longrightarrow> relinked b c \<Longrightarrow> relinked a c"
  by (simp add: relinked_def same_rest_def)

lemma relinked_slot_of: "relinked st st' \<Longrightarrow> slot_of st' = slot_of st"
  by (rule slot_of_same) (simp add: relinked_def same_rest_def)

lemma well_scoped_change:
  assumes "well_scoped_at l st A" and k: "same_rest st st'"
    and "\<And>x. x \<in> set (on_stack A) \<Longrightarrow> s_v (heap st' x) = s_v (heap st x) \<and> s_prev (heap st' x) = s_prev (heap st x)"
    and "\<And>x. x \<in> set (unused A) \<Longrightarrow> s_next (heap st' x) = s_next (heap st x)"
    and "bindings_ok st' b" "binding_list st' us"
    and "\<And>x ps. x \<in> set (b ps) \<Longrightarrow> is_head ps \<Longrightarrow> x \<notin> set (unused A) \<and> x < fresh st"
    and "\<And>x. x \<in> set us \<Longrightarrow> \<exists>ps. is_head ps \<and> x \<in> set (b ps)"
    and "\<And>x. alive (A\<lparr>bound_to := b, inner := us\<rparr>) x \<Longrightarrow> x \<notin> set us \<Longrightarrow> scope_prev st' x = 0 \<and> scope_next st' x = 0"
  shows "well_scoped_at l st' (A\<lparr>bound_to := b, inner := us\<rparr>)"
proof -
  note w = assms(1) [unfolded well_scoped_at_def]
  define A' where "A' = A\<lparr>bound_to := b, inner := us\<rparr>"
  have A': "bound_to A' = b" "inner A' = us" "on_stack A' = on_stack A" "unused A' = unused A" by (simp_all add: A'_def)
  have al: "x \<notin> set (unused A) \<and> x < fresh st" if "alive A' x" for x
    using assms(7) that w A' unfolding alive_def linked_in_def by metis
  have so: "slot_of st' = slot_of st" by (rule slot_of_same) (use k in \<open>simp add: same_rest_def\<close>)
  have "well_scoped_at l st' A'"
    unfolding well_scoped_at_def A'
  proof (intro conjI)
    show "bindings_ok st' b" "binding_list st' us" by (rule assms)+
    show "\<forall>x\<in>set us. linked_in A' x" using assms(8) A' by (simp add: linked_in_def)
    show "\<forall>x. alive A' x \<and> x \<notin> set us \<longrightarrow> scope_prev st' x = 0 \<and> scope_next st' x = 0"
      using assms(9) unfolding A'_def by blast
    have "segment (\<lambda>x. s_prev (heap st x)) l (on_stack A) 0" using w by blast
    then show "segment (\<lambda>x. s_prev (heap st' x)) l (on_stack A) 0"
      using k by (subst segment_cong [where m = "\<lambda>x. s_prev (heap st x)"]) (simp_all add: assms(3) same_rest_def)
    show "\<forall>x\<in>set (on_stack A). has_token (s_v (heap st' x)) \<longrightarrow> slot_of st' (s_v (heap st' x)) \<noteq> None"
      using w assms(3) unfolding so by simp
    have "segment (\<lambda>x. s_next (heap st x)) (sym_free_first st) (unused A) 0" using w by blast
    then show "segment (\<lambda>x. s_next (heap st' x)) (sym_free_first st') (unused A) 0"
      using k by (subst segment_cong [where m = "\<lambda>x. s_next (heap st x)"]) (simp_all add: assms(4) same_rest_def)
    show "\<forall>x\<in>set (unused A). \<not> alive A' x" using al by blast
    show "\<forall>x. alive A' x \<or> x \<in> set (unused A) \<longrightarrow> x < fresh st'" using w k al by (auto simp: same_rest_def)
    show "0 < fresh st'" "TOK_IDENT \<le> tok_ident st'" "tok_ident st' \<le> SYM_FIRST_ANOM" using w k by (simp_all add: same_rest_def)
  qed
  then show ?thesis by (simp add: A'_def)
qed

lemma well_scoped_relinked:
  assumes w: "well_scoped_at l st A" and r: "relinked st st'"
    and "bindings_ok st' b" "binding_list st' us"
    and a: "\<And>x ps. x \<in> set (b ps) \<Longrightarrow> is_head ps \<Longrightarrow> alive A x" and "\<And>x. x \<in> set us \<Longrightarrow> \<exists>ps. is_head ps \<and> x \<in> set (b ps)"
    and z: "\<And>x. alive A x \<Longrightarrow> x \<notin> set us \<Longrightarrow> scope_prev st' x = 0 \<and> scope_next st' x = 0"
  shows "well_scoped_at l st' (A\<lparr>bound_to := b, inner := us\<rparr>)"
proof (rule well_scoped_change [OF w])
  have c: "contents st' x = contents st x" for x using r by (simp add: relinked_def)
  show "same_rest st st'" using r by (simp add: relinked_def)
  show "s_v (heap st' x) = s_v (heap st x) \<and> s_prev (heap st' x) = s_prev (heap st x)"
    "s_next (heap st' x) = s_next (heap st x)" for x
    using contents_eqD [OF c] by simp_all
  show "x \<notin> set (unused A) \<and> x < fresh st" if "x \<in> set (b ps)" "is_head ps" for x ps
    using a [OF that] w unfolding well_scoped_at_def by blast
  show "scope_prev st' x = 0 \<and> scope_next st' x = 0" if "alive (A\<lparr>bound_to := b, inner := us\<rparr>) x" "x \<notin> set us" for x
  proof (rule z)
    show "alive A x" using that(1) a by (auto simp: alive_def linked_in_def)
  qed (rule that(2))
qed (rule assms; assumption)+

definition without :: "nat \<Rightarrow> names \<Rightarrow> names" where
  "without s A = A\<lparr>bound_to := (\<lambda>ps. filter (\<lambda>x. x \<noteq> s) (bound_to A ps)), inner := filter (\<lambda>x. x \<noteq> s) (inner A)\<rparr>"

lemma leave_ok:
  assumes w: "well_scoped_at l st A" and s: "alive A s"
  shows "binding_list (leave_bindings s st) (filter (\<lambda>x. x \<noteq> s) (inner A))"
    and "alive A x \<Longrightarrow> x \<notin> set (filter (\<lambda>x. x \<noteq> s) (inner A)) \<Longrightarrow>
      scope_prev (leave_bindings s st) x = 0 \<and> scope_next (leave_bindings s st) x = 0"
proof -
  have l: "binding_list st (inner A)" and z: "\<And>x. alive A x \<Longrightarrow> x \<notin> set (inner A) \<Longrightarrow> scope_prev st x = 0 \<and> scope_next st x = 0"
    using w by (auto simp: well_scoped_at_def)
  have nz: "s \<noteq> 0" by (rule alive_nonzero [OF w s])
  have d: "distinct (inner A)" using l segment_distinct unfolding binding_list_def by blast
  show "binding_list (leave_bindings s st) (filter (\<lambda>x. x \<noteq> s) (inner A))"
  proof (cases "s \<in> set (inner A)")
    case True
    then obtain us vs where i: "inner A = us @ s # vs" by (auto dest: split_list)
    then have "filter (\<lambda>x. x \<noteq> s) us = us" "filter (\<lambda>x. x \<noteq> s) vs = vs" using d by (auto simp: filter_id_conv)
    then have "filter (\<lambda>x. x \<noteq> s) (inner A) = us @ vs" using i by simp
    then show ?thesis using leave_present(1) [of st us s vs] l i by simp
  next
    case False
    then have "filter (\<lambda>x. x \<noteq> s) (inner A) = inner A" by (auto simp: filter_id_conv)
    then show ?thesis using leave_absent [OF l False] z [OF s False] nz l by simp
  qed
  show "scope_prev (leave_bindings s st) x = 0 \<and> scope_next (leave_bindings s st) x = 0"
    if "alive A x" "x \<notin> set (filter (\<lambda>x. x \<noteq> s) (inner A))"
  proof (cases "s \<in> set (inner A)")
    case True
    then obtain us vs where i: "inner A = us @ s # vs" by (auto dest: split_list)
    have "binding_list st (us @ s # vs)" using l i by simp
    note p = leave_present(2,3) [OF this]
    show ?thesis
    proof (cases "x = s")
      case True then show ?thesis using p by simp
    next
      case False
      then have "x \<notin> set (inner A)" using that by simp
      then show ?thesis using leave_keeps(5) [OF False _ _ l _ True] z [OF that(1)] by simp
    qed
  next
    case False
    then have "x \<notin> set (inner A)" using that(2) by auto
    then show ?thesis using leave_absent [OF l False] z [OF s False] nz z [OF that(1)] by simp
  qed
qed

lemma relinked_leave: "relinked st (leave_bindings s st)"
  unfolding relinked_def using leave_keeps(1,3) by blast

lemma relinked_write: "relinked st (write_slot ps a st)"
  unfolding relinked_def using write_keeps(1,2) by blast

lemma bindings_leave: "bindings_ok (leave_bindings s st) b = bindings_ok st b"
  unfolding bindings_ok_def relinked_slot_of [OF relinked_leave] leave_keeps(2,4)
    contents_eqD(1) [OF leave_keeps(1)] ..

lemma stop_slot_split:
  "found s \<Longrightarrow> stop_slot found ps (us @ s # vs) = ps \<or> (\<exists>x\<in>set us. stop_slot found ps (us @ s # vs) = Prev_tok x)"
  by (induction us arbitrary: ps) auto

lemma bindings_unlink:
  assumes b: "bindings_ok st b" and h: "is_head ps" and s: "s \<in> set (b ps)"
  shows "bindings_ok (write_slot (stop_slot ((=) s) ps (b ps)) (prev_tok st s) st) (b(ps := filter (\<lambda>x. x \<noteq> s) (b ps)))"
    and "read_slot st (stop_slot ((=) s) ps (b ps)) = s"
proof -
  define us vs q where "us = takeWhile (\<lambda>x. \<not> s = x) (b ps)" and "vs = tl (dropWhile (\<lambda>x. \<not> s = x) (b ps))"
    and "q = stop_slot ((=) s) ps (b ps)"
  have seg: "segment (prev_tok st) (read_slot st ps) (b ps) 0" using b h by (simp add: bindings_ok_def)
  have d: "distinct (b ps)" by (rule segment_distinct [OF seg])
  have f: "us @ vs = filter (\<lambda>x. x \<noteq> s) (b ps)" "dropWhile (\<lambda>x. \<not> s = x) (b ps) = s # vs"
    using split_at [OF d s] by (simp_all add: us_def vs_def)
  have bp: "b ps = us @ s # vs" using takeWhile_dropWhile_id [of "\<lambda>x. \<not> s = x" "b ps"] f(2) by (simp add: us_def)
  show "read_slot st (stop_slot ((=) s) ps (b ps)) = s"
    using find_slot_chain [OF seg, of "(=) s"] f(2) by simp
  have sv: "segment (prev_tok st) (prev_tok st s) vs 0" using seg bp by (auto simp: segment_append)
  have nq: "q \<noteq> Prev_tok x" if "x \<in> set vs" for x
    using stop_slot_split [of "(=) s" s ps us vs] h d that unfolding q_def bp by (auto simp: is_head_def)
  have sv': "segment (prev_tok (write_slot q (prev_tok st s) st)) (prev_tok st s) vs 0"
    using sv by (subst segment_cong [where m = "prev_tok st"]) (auto simp: prev_tok_write nq)
  have "bindings_ok (write_slot q (prev_tok st s) st) (b(ps := takeWhile (\<lambda>x. \<not> s = x) (b ps) @ vs))"
    unfolding q_def
  proof (rule bindings_write [OF b h])
    show "segment (prev_tok (write_slot (stop_slot ((=) s) ps (b ps)) (prev_tok st s) st)) (prev_tok st s) vs 0"
      using sv' by (simp add: q_def)
    have "set vs \<subseteq> set (b ps)" by (subst bp) auto
    then show "\<forall>x\<in>set vs. slot_of st (s_v (heap st x)) = Some ps" using b h by (auto simp: bindings_ok_def)
  qed
  then show "bindings_ok (write_slot (stop_slot ((=) s) ps (b ps)) (prev_tok st s) st) (b(ps := filter (\<lambda>x. x \<noteq> s) (b ps)))"
    using f(1) by (simp add: us_def q_def)
qed

lemma bindings_cong: "(\<And>ps. is_head ps \<Longrightarrow> b ps = c ps) \<Longrightarrow> bindings_ok st b = bindings_ok st c"
  by (simp add: bindings_ok_def)

lemma sym_unlink:
  assumes w: "well_scoped_at l st A" and s: "alive A s" and v: "slot_of st (s_v (heap st s)) = Some ps"
  shows "\<exists>st'. sym_link s False st = Inr st' \<and> well_scoped_at l st' (without s A) \<and> relinked st st'"
proof -
  define st1 where "st1 = leave_bindings s st"
  define b where "b = bound_to A"
  have h: "is_head ps" by (rule slot_of_head [OF v])
  have b1: "bindings_ok st1 b" using w by (simp add: st1_def bindings_leave well_scoped_at_def b_def)
  have seg: "segment (prev_tok st1) (read_slot st1 ps) (b ps) 0" using b1 h by (simp add: bindings_ok_def)
  note f = find_slot_chain [OF seg, of "(=) s"]
  define q where "q = stop_slot ((=) s) ps (b ps)"
  define st2 where "st2 = (if read_slot st1 q = s then write_slot q (prev_tok st1 s) st1 else st1)"
  have only: "qs = ps" if "s \<in> set (b qs)" "is_head qs" for qs
    using w v that by (auto simp: well_scoped_at_def bindings_ok_def b_def)
  obtain i where i: "token_index st (s_v (heap st s) AND NOT SYM_STRUCT) = Some i"
    "(if s_v (heap st s) AND SYM_STRUCT \<noteq> 0 then Struct_tag i else Identifier i) = ps"
    using v unfolding slot_of_def by blast
  have e: "sym_link s False st = Inr st2"
    unfolding sym_link_def sym_link_scoped_def Let_def i(1) option.case i(2) st1_def [symmetric] conjunct1 [OF f]
    by (simp add: st2_def q_def)
  have others: "filter (\<lambda>x. x \<noteq> s) (b qs) = b qs" if "is_head qs" "qs \<noteq> ps \<or> s \<notin> set (b ps)" for qs
    using only that by (auto simp: filter_id_conv)
  have b2: "bindings_ok st2 (\<lambda>qs. filter (\<lambda>x. x \<noteq> s) (b qs))"
  proof (cases "s \<in> set (b ps)")
    case True
    note u = bindings_unlink [OF b1 h True, folded q_def]
    have "st2 = write_slot q (prev_tok st1 s) st1" using u(2) by (simp add: st2_def)
    then show ?thesis
      using u(1) others by (subst bindings_cong [where c = "b(ps := filter (\<lambda>x. x \<noteq> s) (b ps))"]) auto
  next
    case False
    have "dropWhile (\<lambda>x. \<not> s = x) (b ps) = []" unfolding dropWhile_eq_Nil_conv using False by auto
    then have "read_slot st1 q = 0" using conjunct2 [OF f] unfolding q_def by (simp only: list.case)
    then have "st2 = st1" using alive_nonzero [OF w s] by (simp add: st2_def)
    then show ?thesis using b1 others False by (subst bindings_cong [where c = b]) auto
  qed
  have r1: "relinked st1 st2" using relinked_write by (auto simp: st2_def relinked_def same_rest_def)
  have r: "relinked st st2" using relinked_trans [OF _ r1] relinked_leave unfolding st1_def by blast
  have k: "scope_prev st2 x = scope_prev st1 x" "scope_next st2 x = scope_next st1 x" "scoped_bindings st2 = scoped_bindings st1" for x
    by (simp_all add: st2_def write_keeps)
  have "well_scoped_at l st2 (A\<lparr>bound_to := (\<lambda>qs. filter (\<lambda>x. x \<noteq> s) (b qs)), inner := filter (\<lambda>x. x \<noteq> s) (inner A)\<rparr>)"
  proof (rule well_scoped_relinked [OF w r b2])
    show "binding_list st2 (filter (\<lambda>x. x \<noteq> s) (inner A))"
      using leave_ok(1) [OF w s] by (simp add: binding_list_def k st1_def)
  next
    show "alive A x" if "x \<in> set (filter (\<lambda>x. x \<noteq> s) (b qs))" "is_head qs" for x qs
      using that by (auto simp: alive_def linked_in_def b_def)
  next
    show "\<exists>qs. is_head qs \<and> x \<in> set (filter (\<lambda>x. x \<noteq> s) (b qs))" if "x \<in> set (filter (\<lambda>x. x \<noteq> s) (inner A))" for x
      using that w by (auto simp: well_scoped_at_def linked_in_def b_def)
  next
    show "scope_prev st2 x = 0 \<and> scope_next st2 x = 0" if "alive A x" "x \<notin> set (filter (\<lambda>x. x \<noteq> s) (inner A))" for x
      using leave_ok(2) [OF w s that] by (simp add: k st1_def)
  qed
  then show ?thesis using e r by (auto simp: without_def b_def)
qed

end
