(* ===== verification/SymScopeOps.thy ===== *)
theory SymScopeOps imports SymScopeFacts
begin

text \<open>What allocating, pushing, linking and popping symbols do to the lists of the invariant.\<close>

section \<open>Allocation\<close>

lemma link_pool_chain:
  assumes "link_pool n a l h = (l', h')" "segment (\<lambda>x. s_next (h x)) l F 0" "\<forall>x\<in>set F. x < a" "0 < a"
  shows "segment (\<lambda>x. s_next (h' x)) l' (rev [a..<a + n] @ F) 0 \<and> (\<forall>x < a. h' x = h x)"
  using assms
proof (induction n arbitrary: a l h F)
  case 0
  then show ?case by simp
next
  case (Suc n)
  define h1 where "h1 = h(a := (h a)\<lparr>s_next := l\<rparr>)"
  have l: "link_pool n (a + 1) a h1 = (l', h')" using Suc.prems(1) by (simp add: h1_def)
  have "segment (\<lambda>x. s_next (h1 x)) l F 0"
    using Suc.prems by (subst segment_cong [where m = "\<lambda>x. s_next (h x)"]) (auto simp: h1_def)
  then have "segment (\<lambda>x. s_next (h1 x)) a (a # F) 0" using Suc.prems by (simp add: h1_def)
  moreover have "\<forall>x\<in>set (a # F). x < a + 1" using Suc.prems(3) by auto
  ultimately have "segment (\<lambda>x. s_next (h' x)) l' (rev [a + 1..<a + 1 + n] @ a # F) 0 \<and> (\<forall>x < a + 1. h' x = h1 x)"
    by (rule Suc.IH [OF l]) simp
  moreover have "rev [a..<a + Suc n] = rev [a + 1..<a + 1 + n] @ [a]" by (simp add: upt_conv_Cons)
  ultimately show ?case by (simp add: h1_def)
qed

text \<open>A state that differs in memory that is not in use.\<close>

definition same_tables :: "scopes \<Rightarrow> scopes \<Rightarrow> bool" where
  "same_tables st st' \<longleftrightarrow> identifiers st' = identifiers st \<and> structs st' = structs st \<and> scoped_bindings st' = scoped_bindings st
     \<and> tok_ident st' = tok_ident st"

lemma bindings_same:
  assumes "bindings_ok st b" "same_tables st st'"
    and "\<And>x ps. x \<in> set (b ps) \<Longrightarrow> is_head ps \<Longrightarrow> prev_tok st' x = prev_tok st x \<and> s_v (heap st' x) = s_v (heap st x)"
  shows "bindings_ok st' b"
proof -
  have so: "slot_of st' = slot_of st" by (rule slot_of_same) (use assms(2) in \<open>simp add: same_tables_def\<close>)
  have "segment (prev_tok st') (read_slot st' ps) (b ps) 0" if "is_head ps" for ps
  proof -
    have "read_slot st' ps = read_slot st ps" using that assms(2) by (cases ps) (auto simp: read_slot_def is_head_def same_tables_def)
    moreover have "segment (prev_tok st) (read_slot st ps) (b ps) 0" using assms(1) that by (simp add: bindings_ok_def)
    ultimately show ?thesis by (subst segment_cong [where m = "prev_tok st"]) (simp_all add: assms(3) that)
  qed
  then show ?thesis using assms(1,3) unfolding bindings_ok_def so by simp
qed

lemma binding_list_same:
  assumes "binding_list st us" "same_tables st st'"
    and "\<And>x. x \<in> set us \<Longrightarrow> scope_prev st' x = scope_prev st x \<and> scope_next st' x = scope_next st x"
  shows "binding_list st' us"
proof -
  have "segment (scope_next st') (scoped_bindings st') us 0"
    using assms by (subst segment_cong [where m = "scope_next st"]) (auto simp: binding_list_def same_tables_def)
  moreover have "backed (scope_prev st') 0 us"
    using assms by (subst backed_cong [where k = "scope_prev st"]) (auto simp: binding_list_def)
  ultimately show ?thesis by (simp add: binding_list_def)
qed

lemma well_scoped_alloc:
  assumes w: "well_scoped st A" and t: "same_tables st st'" and "local_stack st' = local_stack st"
    and h: "\<And>x. alive A x \<Longrightarrow> heap st' x = heap st x"
    and f: "segment (\<lambda>x. s_next (heap st' x)) (sym_free_first st') F 0" "\<forall>x\<in>set F. \<not> alive A x \<and> x < fresh st'"
    and "fresh st \<le> fresh st'"
  shows "well_scoped st' (A\<lparr>unused := F\<rparr>)"
proof -
  note w' = w [unfolded well_scoped_at_def]
  define A' where "A' = A\<lparr>unused := F\<rparr>"
  have A': "bound_to A' = bound_to A" "inner A' = inner A" "on_stack A' = on_stack A" "unused A' = F" by (simp_all add: A'_def)
  have al: "alive A' x = alive A x" "linked_in A' x = linked_in A x" for x by (simp_all add: alive_def linked_in_def A')
  have so: "slot_of st' = slot_of st" by (rule slot_of_same) (use t in \<open>simp add: same_tables_def\<close>)
  have i: "alive A x" if "x \<in> set (inner A)" for x using w' that by (simp add: alive_def)
  have b: "alive A x" if "x \<in> set (bound_to A ps)" "is_head ps" for x ps using that by (auto simp: alive_def linked_in_def)
  have o: "alive A x" if "x \<in> set (on_stack A)" for x using that by (simp add: alive_def)
  have "well_scoped st' A'"
    unfolding well_scoped_at_def A' al
  proof (intro conjI)
    show "bindings_ok st' (bound_to A)" by (rule bindings_same [OF _ t]) (use w' b h in auto)
    show "binding_list st' (inner A)" by (rule binding_list_same [OF _ t]) (use w' i h in auto)
    show "\<forall>x\<in>set (inner A). linked_in A x" using w' by blast
    show "\<forall>x. alive A x \<and> x \<notin> set (inner A) \<longrightarrow> scope_prev st' x = 0 \<and> scope_next st' x = 0" using w' h by simp
    have "segment (\<lambda>x. s_prev (heap st x)) (local_stack st) (on_stack A) 0" using w' by blast
    then show "segment (\<lambda>x. s_prev (heap st' x)) (local_stack st') (on_stack A) 0"
      using assms(3) by (subst segment_cong [where m = "\<lambda>x. s_prev (heap st x)"]) (simp_all add: h o)
    show "\<forall>x\<in>set (on_stack A). has_token (s_v (heap st' x)) \<longrightarrow> slot_of st' (s_v (heap st' x)) \<noteq> None"
      using w' h o unfolding so by simp
    show "segment (\<lambda>x. s_next (heap st' x)) (sym_free_first st') F 0" "\<forall>x\<in>set F. \<not> alive A x" using f by auto
    show "\<forall>x. alive A x \<or> x \<in> set F \<longrightarrow> x < fresh st'" using f w' assms(7) by force
    show "0 < fresh st'" using w' assms(7) by linarith
    show "TOK_IDENT \<le> tok_ident st'" "tok_ident st' \<le> SYM_FIRST_ANOM" using w' t by (simp_all add: same_tables_def)
  qed
  then show ?thesis by (simp add: A'_def)
qed

text \<open>The part of the state that neither allocation nor linking touches.\<close>

definition same_scope :: "scopes \<Rightarrow> scopes \<Rightarrow> bool" where
  "same_scope st st' \<longleftrightarrow> tok_ident st' = tok_ident st \<and> local_scope st' = local_scope st
     \<and> nb_using_namespace_toks st' = nb_using_namespace_toks st"

lemma sym_malloc_ok:
  assumes w: "well_scoped st A" and p: "0 < pool"
  shows "\<exists>s st' F. sym_malloc pool st = Inr (s, st') \<and> well_scoped st' (A\<lparr>unused := F\<rparr>) \<and> \<not> alive A s \<and> s \<notin> set F
    \<and> s \<noteq> 0 \<and> s < fresh st' \<and> (\<forall>x. alive A x \<longrightarrow> heap st' x = heap st x) \<and> same_tables st st' \<and> same_scope st st'
    \<and> local_stack st' = local_stack st \<and> global_stack st' = global_stack st"
proof -
  note w' = w [unfolded well_scoped_at_def]
  obtain F1 st1 where f: "st1 = (if sym_free_first st = 0 then more_syms pool st else st)"
    and seg: "segment (\<lambda>x. s_next (heap st1 x)) (sym_free_first st1) F1 0" and n: "F1 \<noteq> []"
    and F1: "\<forall>x\<in>set F1. \<not> alive A x \<and> x < fresh st1"
    and rest: "\<forall>x. alive A x \<longrightarrow> heap st1 x = heap st x" "same_tables st st1" "same_scope st st1" "fresh st \<le> fresh st1"
      "local_stack st1 = local_stack st" "global_stack st1 = global_stack st"
  proof (cases "sym_free_first st = 0")
    case True
    obtain l h where lh: "link_pool pool (fresh st) (sym_free_first st) (heap st) = (l, h)" by (cases "link_pool pool (fresh st) (sym_free_first st) (heap st)")
    define st1 where "st1 = st\<lparr>heap := h, fresh := fresh st + pool, sym_free_first := l\<rparr>"
    have e: "more_syms pool st = st1" using lh by (simp add: more_syms_def st1_def)
    have s0: "segment (\<lambda>x. s_next (heap st x)) (sym_free_first st) [] 0" using True by simp
    have "0 < fresh st" using w' by blast
    note c = link_pool_chain [OF lh s0 _ this]
    have al: "x < fresh st" if "alive A x" for x using w' that by blast
    show ?thesis
    proof (rule that [of st1 "rev [fresh st..<fresh st + pool]"])
      show "segment (\<lambda>x. s_next (heap st1 x)) (sym_free_first st1) (rev [fresh st..<fresh st + pool]) 0"
        using c by (simp add: st1_def)
      show "\<forall>x\<in>set (rev [fresh st..<fresh st + pool]). \<not> alive A x \<and> x < fresh st1" using al by (force simp: st1_def)
    qed (use True e p c al in \<open>simp_all add: st1_def same_tables_def same_scope_def\<close>)
  next
    case False
    show ?thesis
    proof (rule that [of st "unused A"])
      show "unused A \<noteq> []" using False w' by auto
    qed (use False w' in \<open>simp_all add: same_tables_def same_scope_def\<close>)
  qed
  obtain s F where F: "F1 = s # F" using n by (cases F1) auto
  have d: "s \<notin> set F" using segment_distinct [OF seg] F by simp
  have s: "sym_free_first st1 = s" "s \<noteq> 0" "segment (\<lambda>x. s_next (heap st1 x)) (s_next (heap st1 s)) F 0" using seg F by simp_all
  define st' where "st' = st1\<lparr>sym_free_first := s_next (heap st1 s)\<rparr>"
  have "sym_malloc pool st = Inr (s, st')" using s f by (simp add: sym_malloc_def st'_def Let_def)
  moreover have "well_scoped st' (A\<lparr>unused := F\<rparr>)"
    by (rule well_scoped_alloc [OF w]) (use rest s F F1 in \<open>simp_all add: st'_def same_tables_def\<close>)
  ultimately show ?thesis
    using rest d s F F1 by (intro exI [of _ s] exI [of _ st'] exI [of _ F]) (simp add: st'_def same_tables_def same_scope_def)
qed

section \<open>Pushing\<close>

lemma stacked_ok:
  assumes w: "well_scoped st A" and s: "\<not> alive A s" "s \<notin> set (unused A)" "s \<noteq> 0" "s < fresh st"
    and y: "s_prev y = local_stack st" "s_scope_prev y = 0" "s_scope_next y = 0"
      "has_token (s_v y) \<longrightarrow> slot_of st (s_v y) \<noteq> None"
    and st': "heap st' = (heap st)(s := y)" "same_tables st st'" "local_stack st' = s" "fresh st' = fresh st" "sym_free_first st' = sym_free_first st"
  shows "well_scoped st' (A\<lparr>on_stack := s # on_stack A\<rparr>)"
proof -
  note w' = w [unfolded well_scoped_at_def]
  define A' where "A' = A\<lparr>on_stack := s # on_stack A\<rparr>"
  have A': "bound_to A' = bound_to A" "inner A' = inner A" "on_stack A' = s # on_stack A" "unused A' = unused A" by (simp_all add: A'_def)
  have al: "alive A' x \<longleftrightarrow> x = s \<or> alive A x" "linked_in A' x = linked_in A x" for x by (auto simp: alive_def linked_in_def A')
  have so: "slot_of st' = slot_of st" by (rule slot_of_same) (use st' in \<open>simp add: same_tables_def\<close>)
  have i: "x \<noteq> s" if "x \<in> set (inner A)" for x using w' that s by (auto simp: alive_def)
  have b: "x \<noteq> s" if "x \<in> set (bound_to A ps)" "is_head ps" for x ps using that s by (auto simp: alive_def linked_in_def)
  have o: "x \<noteq> s" if "x \<in> set (on_stack A)" for x using that s by (auto simp: alive_def)
  have u: "x \<noteq> s" if "x \<in> set (unused A)" for x using that s by auto
  have "well_scoped st' A'"
    unfolding well_scoped_at_def A' al
  proof (intro conjI)
    show "bindings_ok st' (bound_to A)" by (rule bindings_same [OF _ st'(2)]) (use w' b in \<open>auto simp: st'\<close>)
    show "binding_list st' (inner A)" by (rule binding_list_same [OF _ st'(2)]) (use w' i in \<open>auto simp: st'\<close>)
    show "\<forall>x\<in>set (inner A). linked_in A x" using w' by blast
    show "\<forall>x. (x = s \<or> alive A x) \<and> x \<notin> set (inner A) \<longrightarrow> scope_prev st' x = 0 \<and> scope_next st' x = 0"
      using w' y by (simp add: st')
    have "segment (\<lambda>x. s_prev (heap st x)) (local_stack st) (on_stack A) 0" using w' by blast
    then show "segment (\<lambda>x. s_prev (heap st' x)) (local_stack st') (s # on_stack A) 0"
      using s(3) y(1) by (simp add: st') (subst segment_cong [where m = "\<lambda>x. s_prev (heap st x)"], auto dest: o)
    show "\<forall>x\<in>set (s # on_stack A). has_token (s_v (heap st' x)) \<longrightarrow> slot_of st' (s_v (heap st' x)) \<noteq> None"
      using w' y o unfolding so by (simp add: st')
    have "segment (\<lambda>x. s_next (heap st x)) (sym_free_first st) (unused A) 0" using w' by blast
    then show "segment (\<lambda>x. s_next (heap st' x)) (sym_free_first st') (unused A) 0"
      by (subst segment_cong [where m = "\<lambda>x. s_next (heap st x)"]) (simp_all add: st' u)
    show "\<forall>x\<in>set (unused A). \<not> (x = s \<or> alive A x)" using w' s by auto
    show "\<forall>x. (x = s \<or> alive A x) \<or> x \<in> set (unused A) \<longrightarrow> x < fresh st'" using w' s st' by auto
    show "0 < fresh st'" using w' st' by simp
    show "TOK_IDENT \<le> tok_ident st'" "tok_ident st' \<le> SYM_FIRST_ANOM" using w' st'(2) by (simp_all add: same_tables_def)
  qed
  then show ?thesis by (simp add: A'_def)
qed

end
