(* ===== verification/SymScopeNames.thy ===== *)
theory SymScopeNames imports SymScopeOps
begin

text \<open>Linking and popping symbols, and the pushes of the parser, as operations on the lists of the invariant.\<close>

section \<open>Inserting a binding\<close>

lemma segment_from_stop:
  "segment (prev_tok st) (read_slot st ps) xs 0 \<Longrightarrow>
     segment (prev_tok st) (read_slot st (stop_slot found ps xs)) (dropWhile (\<lambda>x. \<not> found x) xs) 0"
proof (induction xs arbitrary: ps)
  case (Cons x xs)
  have "segment (prev_tok st) (read_slot st (Prev_tok x)) xs 0" using Cons.prems by (simp add: read_slot_Prev)
  then show ?case using Cons.prems Cons.IH by simp
qed simp

lemma stop_slot_take: "stop_slot found ps xs = ps \<or> (\<exists>x\<in>set (takeWhile (\<lambda>x. \<not> found x) xs). stop_slot found ps xs = Prev_tok x)"
proof (induction xs arbitrary: ps)
  case (Cons x xs)
  show ?case using Cons.IH [of "Prev_tok x"] by auto
qed simp

lemma bindings_insert:
  assumes b: "bindings_ok st b" and h: "is_head ps" and new: "\<And>qs. is_head qs \<Longrightarrow> s \<notin> set (b qs)" "s \<noteq> 0"
    and v: "slot_of st (s_v (heap st s)) = Some ps" and p: "prev_tok st s = read_slot st (stop_slot found ps (b ps))"
  shows "bindings_ok (write_slot (stop_slot found ps (b ps)) s st)
    (b(ps := takeWhile (\<lambda>x. \<not> found x) (b ps) @ s # dropWhile (\<lambda>x. \<not> found x) (b ps)))"
proof (rule bindings_write [OF b h])
  define q ys where "q = stop_slot found ps (b ps)" and "ys = dropWhile (\<lambda>x. \<not> found x) (b ps)"
  have seg: "segment (prev_tok st) (read_slot st ps) (b ps) 0" using b h by (simp add: bindings_ok_def)
  have d: "distinct (takeWhile (\<lambda>x. \<not> found x) (b ps) @ ys)" using segment_distinct [OF seg] by (simp add: ys_def)
  have q: "q = ps \<or> (\<exists>x\<in>set (takeWhile (\<lambda>x. \<not> found x) (b ps)). q = Prev_tok x)" unfolding q_def by (rule stop_slot_take)
  have "q \<noteq> Prev_tok x" if "x \<in> set ys" for x using q d h that by (auto simp: is_head_def)
  moreover have "q \<noteq> Prev_tok s" using q h new(1) [OF h] by (auto simp: is_head_def dest: set_takeWhileD)
  moreover have "segment (prev_tok st) (prev_tok st s) ys 0" using segment_from_stop [OF seg] p by (simp add: ys_def)
  ultimately show "segment (prev_tok (write_slot q s st)) s (s # ys) 0"
    using new(2) by (simp add: prev_tok_write) (subst segment_cong [where m = "prev_tok st"], auto simp: prev_tok_write)
  show "\<forall>x\<in>set (s # ys). slot_of st (s_v (heap st x)) = Some ps"
    using v b h by (auto simp: bindings_ok_def ys_def dest: set_dropWhileD)
qed

section \<open>Making a symbol visible\<close>

lemma note_keeps:
  shows "heap (note_cpp_this_binding v st) = heap st" and "same_tables st (note_cpp_this_binding v st)"
    and "same_rest st (note_cpp_this_binding v st)" and "read_slot (note_cpp_this_binding v st) ps = read_slot st ps"
  by (auto simp: note_cpp_this_binding_def same_tables_def same_rest_def read_slot_def split: slot.splits)

lemma enter_keeps:
  shows "contents (enter_bindings s st) x = contents st x" and "prev_tok (enter_bindings s st) x = prev_tok st x"
    and "same_rest st (enter_bindings s st)" and "identifiers (enter_bindings s st) = identifiers st"
    and "structs (enter_bindings s st) = structs st"
    and "x \<noteq> s \<Longrightarrow> x \<noteq> scoped_bindings st \<Longrightarrow>
      scope_prev (enter_bindings s st) x = scope_prev st x \<and> scope_next (enter_bindings s st) x = scope_next st x"
  by (auto simp: enter_bindings_def update_sym_def contents_def same_rest_def Let_def)

lemma bindings_enter: "bindings_ok (enter_bindings s st) b = bindings_ok st b"
proof -
  have so: "slot_of (enter_bindings s st) = slot_of st" by (rule slot_of_same) (use enter_keeps(3) in \<open>simp add: same_rest_def\<close>)
  have v: "s_v (heap (enter_bindings s st) x) = s_v (heap st x)" for x using contents_eqD(1) [OF enter_keeps(1)] .
  have "read_slot (enter_bindings s st) ps = read_slot st ps" for ps
    by (cases ps) (simp_all add: read_slot_def enter_keeps)
  then show ?thesis unfolding bindings_ok_def so v enter_keeps(2) by simp
qed

lemma sym_link_ok:
  assumes w: "well_scoped_at l st A" and s: "s \<in> set (on_stack A)" "\<not> linked_in A s"
    and v: "slot_of st (s_v (heap st s)) = Some ps"
  shows "\<exists>st'. sym_link s True st = Inr st'
    \<and> well_scoped_at l st' (A\<lparr>bound_to := (bound_to A)(ps := s # bound_to A ps), inner := if 0 < local_scope st then s # inner A else inner A\<rparr>)
    \<and> (\<forall>x. x \<noteq> s \<longrightarrow> contents st' x = contents st x) \<and> same_rest st st' \<and> prev_tok st' s = read_slot st ps"
proof -
  note w' = w [unfolded well_scoped_at_def]
  define b where "b = bound_to A"
  have h: "is_head ps" by (rule slot_of_head [OF v])
  have al: "alive A s" using s(1) by (simp add: alive_def)
  have s0: "s \<noteq> 0" by (rule alive_nonzero [OF w al])
  have ni: "s \<notin> set (inner A)" using w' s(2) by blast
  have z: "scope_prev st s = 0" "scope_next st s = 0" using w' al ni by blast+
  have lb: "leave_bindings s st = st" by (rule leave_absent) (use w' ni z s0 in auto)
  obtain i where i: "token_index st (s_v (heap st s) AND NOT SYM_STRUCT) = Some i"
    "(if s_v (heap st s) AND SYM_STRUCT \<noteq> 0 then Struct_tag i else Identifier i) = ps"
    using v unfolding slot_of_def by blast
  define st2 where "st2 = (if s_v (heap st s) AND SYM_STRUCT = 0 then note_cpp_this_binding (s_v (heap st s) AND NOT SYM_STRUCT) st else st)"
  define st3 where "st3 = update_sym s (\<lambda>y. y\<lparr>s_prev_tok := read_slot st2 ps\<rparr>) st2"
  define st4 where "st4 = update_sym s (s_scope_update (\<lambda>_. local_scope st)) (write_slot ps s st3)"
  define st' where "st' = (if 0 < local_scope st then enter_bindings s st4 else st4)"
  have "sym_link s True st = Inr st'"
    unfolding sym_link_def sym_link_scoped_def Let_def i(1) option.case i(2) lb if_True st2_def [symmetric]
      st3_def [symmetric] st4_def [symmetric] st'_def [symmetric] ..
  moreover
  have k2: "heap st2 = heap st" "same_tables st st2" "same_rest st st2" "read_slot st2 ps = read_slot st ps"
    using note_keeps by (auto simp: st2_def same_tables_def same_rest_def)
  have t3: "same_tables st st3" "same_rest st st3" using k2 by (simp_all add: st3_def update_sym_def same_tables_def same_rest_def)
  have h3: "heap st3 x = (if x = s then (heap st s)\<lparr>s_prev_tok := read_slot st ps\<rparr> else heap st x)" for x
    using k2 by (simp add: st3_def update_sym_def)
  have nb: "s \<notin> set (b qs)" if "is_head qs" for qs using s(2) that by (auto simp: linked_in_def b_def)
  have b3: "bindings_ok st3 b"
    by (rule bindings_same [OF _ t3(1)]) (use w' nb in \<open>auto simp: b_def h3\<close>)
  have r3: "read_slot st3 ps = read_slot st ps"
    using h t3(1) by (cases ps) (auto simp: is_head_def read_slot_def same_tables_def)
  have so: "slot_of st3 = slot_of st" by (rule slot_of_same) (use t3 in \<open>simp add: same_tables_def\<close>)
  have "stop_slot (\<lambda>_. True) ps (b ps) = ps" by (cases "b ps") auto
  from bindings_insert [OF b3 h nb s0, where found = "\<lambda>_. True", unfolded this]
  have "bindings_ok (write_slot ps s st3) (b(ps := s # b ps))"
    using v r3 by (cases "b ps") (auto simp: so h3)
  then have b4: "bindings_ok st4 (b(ps := s # b ps))"
    by (rule bindings_same) (auto simp: st4_def update_sym_def same_tables_def)
  have h4: "heap st4 x = (if x = s then (heap st s)\<lparr>s_prev_tok := read_slot st ps, s_scope := local_scope st\<rparr> else heap st x)" for x
    using h h3 by (cases ps) (auto simp: st4_def write_slot_def update_sym_def is_head_def)
  have t4: "scoped_bindings st4 = scoped_bindings st" "same_rest st st4"
    using t3 write_keeps(2) [where ps = ps and a = s and st = st3] by (auto simp: st4_def update_sym_def same_tables_def same_rest_def write_keeps)
  have l4: "binding_list st4 (inner A)"
  proof -
    have "scope_next st4 x = scope_next st x" "scope_prev st4 x = scope_prev st x" for x by (simp_all add: h4)
    then show ?thesis using w' t4(1) by (simp add: binding_list_def)
  qed
  have b': "bindings_ok st' (b(ps := s # b ps))" using b4 by (simp add: st'_def bindings_enter)
  have l': "binding_list st' (if 0 < local_scope st then s # inner A else inner A)"
    using enter_list [OF l4 ni _ s0] l4 z by (simp add: st'_def h4)
  have c': "contents st' x = contents st x" if "x \<noteq> s" for x
    using that by (auto simp: st'_def enter_keeps contents_def h4) (auto simp: enter_keeps(1) [unfolded contents_def] h4)
  have r': "same_rest st st'" using t4(2) enter_keeps(3) [of st4 s] by (auto simp: st'_def same_rest_def)
  have e': "contents st' s = (contents st s)\<lparr>s_scope := local_scope st\<rparr>"
    by (auto simp: st'_def enter_keeps contents_def h4) (auto simp: enter_keeps(1) [unfolded contents_def] h4)
  have same: "s_v (heap st' x) = s_v (heap st x)" "s_prev (heap st' x) = s_prev (heap st x)" "s_next (heap st' x) = s_next (heap st x)" for x
    using contents_eqD [OF c', of x] arg_cong [OF e', of s_v] arg_cong [OF e', of s_prev] arg_cong [OF e', of s_next]
    by (cases "x = s"; simp add: contents_def)+
  have "well_scoped_at l st' (A\<lparr>bound_to := b(ps := s # b ps), inner := if 0 < local_scope st then s # inner A else inner A\<rparr>)"
  proof (rule well_scoped_change [OF w r' _ _ b' l'])
    show "x \<notin> set (unused A) \<and> x < fresh st" if "x \<in> set ((b(ps := s # b ps)) qs)" "is_head qs" for x qs
    proof -
      have "alive A x" using that al by (auto simp: alive_def linked_in_def b_def split: if_splits)
      then show ?thesis using w' by blast
    qed
    show "\<exists>qs. is_head qs \<and> x \<in> set ((b(ps := s # b ps)) qs)" if "x \<in> set (if 0 < local_scope st then s # inner A else inner A)" for x
    proof (cases "x = s")
      case True then show ?thesis using h by (intro exI [of _ ps]) simp
    next
      case False
      then have "linked_in A x" using that w' by (auto split: if_splits)
      then show ?thesis unfolding linked_in_def b_def by auto
    qed
    show "scope_prev st' x = 0 \<and> scope_next st' x = 0"
      if "alive (A\<lparr>bound_to := b(ps := s # b ps), inner := if 0 < local_scope st then s # inner A else inner A\<rparr>) x"
        "x \<notin> set (if 0 < local_scope st then s # inner A else inner A)" for x
    proof -
      have "alive A x" using that(1) s(1) by (auto simp: alive_def linked_in_def b_def split: if_splits)
      moreover have "x \<notin> set (inner A)" using that(2) by (auto split: if_splits)
      ultimately have zx: "scope_prev st x = 0" "scope_next st x = 0" "x \<noteq> 0" using w' alive_nonzero [OF w] by blast+
      have "x \<noteq> scoped_bindings st4" if "x \<noteq> s"
        using segment_head [of _ "scoped_bindings st4" "inner A"] l4 \<open>x \<notin> set (inner A)\<close> zx(3)
        by (cases "inner A") (auto simp: binding_list_def)
      then show ?thesis using enter_keeps(6) [of x s st4] that(2) zx by (auto simp: st'_def h4 split: if_splits)
    qed
  qed (simp_all add: same)
  moreover have "prev_tok st' s = read_slot st ps" by (simp add: st'_def enter_keeps h4)
  ultimately show ?thesis using c' r' by (auto simp: b_def)
qed

end
