(* ===== verification/SymScopePush.thy ===== *)
theory SymScopePush imports SymScopeNames
begin

text \<open>What the pushes of the parser do: nothing that was there is lost.\<close>

section \<open>Extensions\<close>

text \<open>Nothing that was there is lost: new symbols are on top of the local stack, or new global identifiers, of which
  \<open>c\<close> gives the number for every token.\<close>

definition extends :: "names \<Rightarrow> scopes \<Rightarrow> (slot \<Rightarrow> nat) \<Rightarrow> nat list \<Rightarrow> names \<Rightarrow> scopes \<Rightarrow> bool" where
  "extends A st c N A' st' \<longleftrightarrow>
     on_stack A' = N @ on_stack A \<and> (\<forall>x\<in>set N. \<not> alive A x)
     \<and> (\<forall>ps. is_head ps \<longrightarrow> filter (alive A) (bound_to A' ps) = bound_to A ps
          \<and> length (filter (\<lambda>x. \<not> alive A x \<and> x \<notin> set N) (bound_to A' ps)) = c ps)
     \<and> filter (alive A) (inner A') = inner A \<and> (\<forall>x\<in>set (inner A'). alive A x \<or> x \<in> set N)
     \<and> (\<forall>x. alive A x \<longrightarrow> contents st' x = contents st x) \<and> same_scope st st'"

lemma extends_alive:
  assumes "extends A st c N A' st'" "alive A x"
  shows "alive A' x"
proof (cases "x \<in> set (on_stack A)")
  case True
  then show ?thesis using assms(1) by (simp add: extends_def alive_def)
next
  case False
  then obtain ps where "is_head ps" "x \<in> set (bound_to A ps)" using assms(2) by (auto simp: alive_def linked_in_def)
  moreover from this have "x \<in> set (filter (alive A) (bound_to A' ps))" using assms(1) by (simp add: extends_def)
  ultimately show ?thesis by (auto simp: alive_def linked_in_def)
qed

lemma filter_alive: "\<forall>x\<in>set xs. alive A x \<Longrightarrow> filter (alive A) xs = xs"
  by (simp add: filter_id_conv)

lemma extends_refl:
  assumes "well_scoped st A"
  shows "extends A st (\<lambda>_. 0) [] A st"
proof -
  have "\<forall>x\<in>set (bound_to A ps). alive A x" if "is_head ps" for ps using that by (auto simp: alive_def linked_in_def)
  moreover have "\<forall>x\<in>set (inner A). alive A x" using assms by (auto simp: well_scoped_at_def alive_def)
  ultimately show ?thesis by (auto simp: extends_def same_scope_def filter_alive)
qed

lemma extends_trans:
  assumes "extends A st c N A1 st1" and "extends A1 st1 d M A2 st2"
  shows "extends A st (\<lambda>ps. c ps + d ps) (M @ N) A2 st2"
proof -
  note a = assms(1) [unfolded extends_def] and b = assms(2) [unfolded extends_def]
  have al: "alive A x \<Longrightarrow> alive A1 x" for x by (rule extends_alive [OF assms(1)])
  have n: "alive A1 x" if "x \<in> set N" for x using a that by (simp add: alive_def)
  have m: "\<not> alive A1 x" if "x \<in> set M" for x using b that by blast
  have f: "filter (alive A) xs = filter (alive A) (filter (alive A1) xs)" for xs using al by (auto intro: filter_cong)
  have count: "length (filter (\<lambda>x. \<not> alive A x \<and> x \<notin> set (M @ N)) xs)
      = length (filter (\<lambda>x. \<not> alive A x \<and> x \<notin> set N) (filter (alive A1) xs)) + length (filter (\<lambda>x. \<not> alive A1 x \<and> x \<notin> set M) xs)" for xs
    by (induction xs) (auto dest: al n m)
  have "filter (alive A) (bound_to A2 ps) = bound_to A ps
      \<and> length (filter (\<lambda>x. \<not> alive A x \<and> x \<notin> set (M @ N)) (bound_to A2 ps)) = c ps + d ps" if "is_head ps" for ps
    unfolding count using a b that by (simp add: f)
  moreover have "filter (alive A) (inner A2) = inner A" using a b by (simp add: f)
  moreover have "alive A x \<or> x \<in> set (M @ N)" if "x \<in> set (inner A2)" for x
  proof (cases "alive A1 x")
    case True
    then have "x \<in> set (filter (alive A1) (inner A2))" using that by simp
    then have "x \<in> set (inner A1)" using b by simp
    then show ?thesis using a by auto
  next
    case False then show ?thesis using b that by auto
  qed
  ultimately show ?thesis
    using a b m al unfolding extends_def by (auto simp: same_scope_def)
qed

section \<open>Declarations\<close>

lemma same_rest_scope: "same_rest st st' \<Longrightarrow> same_scope st st'"
  by (simp add: same_rest_def same_scope_def)

definition anonymous :: "u32 \<Rightarrow> bool" where
  "anonymous v \<longleftrightarrow> \<not> (v AND NOT SYM_STRUCT) <s SYM_FIRST_ANOM"

lemma sym_push_ok:
  assumes w: "well_scoped st A" and p: "0 < pool" and l: "local_stack st \<noteq> 0" and v: "slot_of st v \<noteq> None \<or> anonymous v"
  shows "(\<exists>u. sym_push pool v type r c st = Inl (Redeclared u))
    \<or> (\<exists>s st' A'. sym_push pool v type r c st = Inr (s, st') \<and> well_scoped st' A' \<and> extends A st (\<lambda>_. 0) [s] A' st' \<and> local_stack st' \<noteq> 0)"
proof -
  obtain s st1 F where m: "sym_malloc pool st = Inr (s, st1)" and w1: "well_scoped st1 (A\<lparr>unused := F\<rparr>)"
    and s: "\<not> alive A s" "s \<notin> set F" "s \<noteq> 0" "s < fresh st1" and h1: "\<forall>x. alive A x \<longrightarrow> heap st1 x = heap st x"
    and k1: "same_tables st st1" "same_scope st st1" "local_stack st1 = local_stack st"
    using sym_malloc_ok [OF w p] by blast
  define y where "y = zero_symbol\<lparr>s_v := v, s_type := type, s_c := c, s_prev := local_stack st1, s_r := r\<rparr>"
  define st2 where "st2 = st1\<lparr>heap := (heap st1)(s := y), local_stack := s\<rparr>"
  have y: "s_v y = v" "s_prev y = local_stack st1" "s_scope_prev y = 0" "s_scope_next y = 0" by (simp_all add: y_def zero_symbol_def)
  have e2: "sym_push2 pool Local_stack v (ct_t type) c st =
      Inr (s, st1\<lparr>heap := (heap st1)(s := zero_symbol\<lparr>s_v := v, s_type := \<lparr>ct_t = ct_t type, ct_ref = 0\<rparr>, s_c := c, s_prev := local_stack st1\<rparr>), local_stack := s\<rparr>)"
    by (simp add: sym_push2_def m set_stack_top_def stack_top_def update_sym_def)
  have e: "update_sym s (\<lambda>y. y\<lparr>s_type := type, s_r := r\<rparr>) (st1\<lparr>heap := (heap st1)(s := zero_symbol\<lparr>s_v := v, s_type := \<lparr>ct_t = ct_t type, ct_ref = 0\<rparr>, s_c := c, s_prev := local_stack st1\<rparr>), local_stack := s\<rparr>) = st2"
    by (rule scopes.equality) (simp_all add: st2_def update_sym_def y_def zero_symbol_def)
  have so: "slot_of st1 = slot_of st" "slot_of st2 = slot_of st"
    by (rule slot_of_same; use k1 in \<open>simp add: same_tables_def st2_def\<close>)+
  have tok: "has_token v \<longrightarrow> slot_of st v \<noteq> None" using v by (auto simp: anonymous_def has_token_def)
  define B where "B = A\<lparr>unused := F, on_stack := s # on_stack A\<rparr>"
  have B: "bound_to B = bound_to A" "inner B = inner A" "on_stack B = s # on_stack A" by (simp_all add: B_def)
  have w2: "well_scoped st2 B"
    using stacked_ok [OF w1, of s y st2] s y tok so by (simp add: st2_def same_tables_def alive_def linked_in_def B_def)
  have nl: "\<not> linked_in B s" "s \<notin> set (inner A)" using s(1) w by (auto simp: alive_def linked_in_def B well_scoped_at_def)
  have c2: "contents st2 x = contents st x" if "alive A x" for x
    using that h1 s(1) by (auto simp: contents_def st2_def)
  have ok: "filter (alive A) (bound_to A ps) = bound_to A ps" if "is_head ps" for ps
    using that by (intro filter_alive) (auto simp: alive_def linked_in_def)
  have oki: "filter (alive A) (inner A) = inner A"
    using w by (intro filter_alive) (auto simp: well_scoped_at_def alive_def)
  have none: "length (filter (\<lambda>x. \<not> alive A x \<and> x \<noteq> s) (bound_to A ps)) = 0" if "is_head ps" for ps
    using that by (auto simp: alive_def linked_in_def filter_empty_conv)
  show ?thesis
  proof (cases "(v AND NOT SYM_STRUCT) <s SYM_FIRST_ANOM")
    case False
    have "sym_push pool v type r c st = Inr (s, st2)"
      using l False by (simp add: sym_push_def e2 e Let_def)
    moreover have "extends A st (\<lambda>_. 0) [s] B st2"
      using c2 s(1) ok oki none w k1 by (auto simp: extends_def B same_scope_def st2_def well_scoped_at_def alive_def)
    ultimately show ?thesis using w2 s(3) by (auto simp: st2_def)
  next
    case True
    then obtain ps where ps: "slot_of st2 (s_v (heap st2 s)) = Some ps" using v y(1) so by (auto simp: anonymous_def st2_def)
    have "s \<in> set (on_stack B)" by (simp add: B)
    then obtain st3 where l3: "sym_link s True st2 = Inr st3"
      and w3: "well_scoped_at (local_stack st2) st3 (B\<lparr>bound_to := (bound_to B)(ps := s # bound_to B ps), inner := if 0 < local_scope st2 then s # inner B else inner B\<rparr>)"
      and c3: "\<forall>x. x \<noteq> s \<longrightarrow> contents st3 x = contents st2 x" and r3: "same_rest st2 st3"
      using sym_link_ok [OF w2 _ nl(1) ps] by blast
    define C where "C = B\<lparr>bound_to := (bound_to B)(ps := s # bound_to B ps), inner := if 0 < local_scope st2 then s # inner B else inner B\<rparr>"
    have C: "bound_to C = (bound_to A)(ps := s # bound_to A ps)" "inner C = (if 0 < local_scope st2 then s # inner A else inner A)" "on_stack C = s # on_stack A"
      by (simp_all add: C_def B)
    have l3': "local_stack st3 = local_stack st2" using r3 by (simp add: same_rest_def)
    have "sym_push pool v type r c st = (let p = s_prev_tok (heap st3 s) in if p \<noteq> 0 \<and> sym_scope_ex p st3 = local_scope st3 then Inl (Redeclared v) else Inr (s, st3))"
      using l True by (simp add: sym_push_def e2 e l3 Let_def)
    moreover have "extends A st (\<lambda>_. 0) [s] C st3"
    proof -
      have "same_scope st st3" using r3 k1 by (simp add: same_rest_def same_scope_def st2_def)
      moreover have "contents st3 x = contents st x" if "alive A x" for x using c3 c2 [OF that] s(1) that by metis
      ultimately show ?thesis
        using s(1) ok oki none w by (auto simp: extends_def C well_scoped_at_def alive_def)
    qed
    ultimately show ?thesis using w3 s(3) unfolding C_def [symmetric] l3' [symmetric]
      by (auto simp: Let_def st2_def l3')
  qed
qed

lemma plain_token: "v AND SYM_STRUCT = 0 \<Longrightarrow> v AND NOT SYM_STRUCT = v"
proof -
  assume a: "v AND SYM_STRUCT = 0"
  have "v = (v AND SYM_STRUCT) OR (v AND NOT SYM_STRUCT)" by (simp flip: bit.conj_disj_distrib)
  then show ?thesis using a by simp
qed

lemma global_push_ok:
  assumes w: "well_scoped st A" and p: "0 < pool" and v0: "v AND SYM_STRUCT = 0" and v: "slot_of st v \<noteq> None \<or> anonymous v"
  shows "\<exists>s st' A'. global_identifier_push pool v t c st = Inr (s, st') \<and> well_scoped st' A'
    \<and> extends A st (\<lambda>ps. of_bool (\<not> anonymous v \<and> slot_of st v = Some ps)) [] A' st' \<and> local_stack st' = local_stack st"
proof -
  obtain s st1 F where m: "sym_malloc pool st = Inr (s, st1)" and w1: "well_scoped st1 (A\<lparr>unused := F\<rparr>)"
    and s: "\<not> alive A s" "s \<notin> set F" "s \<noteq> 0" "s < fresh st1" and h1: "\<forall>x. alive A x \<longrightarrow> heap st1 x = heap st x"
    and k1: "same_tables st st1" "same_scope st st1" "local_stack st1 = local_stack st"
    using sym_malloc_ok [OF w p] by blast
  define serial where "serial = cpp_global_decl_serial st1 + 1"
  define y where "y = zero_symbol\<lparr>s_v := v, s_type := \<lparr>ct_t = t, ct_ref = 0\<rparr>, s_c := c, s_prev := global_stack st1,
    s_r := uint (VT_CONST OR VT_SYM), s_decl_serial := serial\<rparr>"
  define st2 where "st2 = st1\<lparr>heap := (heap st1)(s := y), global_stack := s, cpp_global_decl_serial := serial\<rparr>"
  have y: "s_v y = v" "s_scope_prev y = 0" "s_scope_next y = 0" by (simp_all add: y_def zero_symbol_def)
  have push: "sym_push2 pool Global_stack v t c st =
      Inr (s, st1\<lparr>heap := (heap st1)(s := zero_symbol\<lparr>s_v := v, s_type := \<lparr>ct_t = t, ct_ref = 0\<rparr>, s_c := c, s_prev := global_stack st1\<rparr>), global_stack := s\<rparr>)"
    by (simp add: sym_push2_def m set_stack_top_def stack_top_def update_sym_def)
  define st1' where "st1' = st1\<lparr>heap := (heap st1)(s := zero_symbol\<lparr>s_v := v, s_type := \<lparr>ct_t = t, ct_ref = 0\<rparr>, s_c := c, s_prev := global_stack st1\<rparr>), global_stack := s\<rparr>"
  have e: "update_sym s (\<lambda>y. y\<lparr>s_r := uint (VT_CONST OR VT_SYM), s_decl_serial := cpp_global_decl_serial st1' + 1\<rparr>)
      (st1'\<lparr>cpp_global_decl_serial := cpp_global_decl_serial st1' + 1\<rparr>) = st2"
    by (rule scopes.equality) (simp_all add: st1'_def st2_def update_sym_def y_def serial_def zero_symbol_def)
  have so: "slot_of st2 = slot_of st" by (rule slot_of_same) (use k1 in \<open>simp add: same_tables_def st2_def\<close>)
  define B where "B = A\<lparr>unused := F\<rparr>"
  have B: "bound_to B = bound_to A" "inner B = inner A" "on_stack B = on_stack A" "unused B = F" by (simp_all add: B_def)
  have alB: "alive B x = alive A x" "linked_in B x = linked_in A x" for x by (simp_all add: alive_def linked_in_def B)
  note w1' = w1 [unfolded well_scoped_at_def]
  have w2: "well_scoped st2 B"
  proof -
    have seg: "segment (\<lambda>x. s_next (heap st2 x)) (sym_free_first st2) F 0"
    proof -
      have "segment (\<lambda>x. s_next (heap st1 x)) (sym_free_first st1) F 0" using w1' by simp
      then show ?thesis using s(2) by (subst segment_cong [where m = "\<lambda>x. s_next (heap st1 x)"]) (auto simp: st2_def)
    qed
    have F: "\<forall>x\<in>set F. \<not> alive (A\<lparr>unused := F\<rparr>) x \<and> x < fresh st2" using w1' by (auto simp: st2_def)
    have "well_scoped st2 ((A\<lparr>unused := F\<rparr>)\<lparr>unused := F\<rparr>)"
      by (rule well_scoped_alloc [OF w1 _ _ _ seg F]) (use s in \<open>auto simp: st2_def same_tables_def alive_def linked_in_def\<close>)
    then show ?thesis by (simp add: B_def)
  qed
  note w2' = w2 [unfolded well_scoped_at_def]
  have c2: "contents st2 x = contents st x" if "alive A x" for x using that h1 s(1) by (auto simp: contents_def st2_def)
  have ok: "filter (alive A) (bound_to A ps) = bound_to A ps" if "is_head ps" for ps
    using that by (intro filter_alive) (auto simp: alive_def linked_in_def)
  have none: "filter (\<lambda>x. \<not> alive A x) (bound_to A ps) = []" if "is_head ps" for ps
    using that by (auto simp: alive_def linked_in_def filter_empty_conv)
  have oki: "filter (alive A) (inner A) = inner A" "\<forall>x\<in>set (inner A). alive A x"
    using w by (auto intro!: filter_alive simp: well_scoped_at_def alive_def)
  have anon: "anonymous v \<longleftrightarrow> \<not> v <s SYM_FIRST_ANOM" using plain_token [OF v0] by (simp add: anonymous_def)
  show ?thesis
  proof (cases "anonymous v")
    case True
    have "global_identifier_push pool v t c st = Inr (s, st2)"
      using True e by (simp add: global_identifier_push_def push st1'_def [symmetric] Let_def anon)
    moreover have "extends A st (\<lambda>ps. of_bool (\<not> anonymous v \<and> slot_of st v = Some ps)) [] B st2"
      using True c2 ok none oki k1 by (auto simp: extends_def B same_scope_def st2_def)
    ultimately show ?thesis using w2 k1(3) by (auto simp: st2_def)
  next
    case False
    then obtain i where i: "token_index st2 v = Some i" "slot_of st v = Some (Identifier i)"
      using v v0 plain_token [OF v0] by (auto simp: slot_of_def so [symmetric])
    define ps where "ps = Identifier i"
    have h: "is_head ps" by (simp add: ps_def is_head_def)
    define st3 where "st3 = note_cpp_this_binding v st2"
    define found where "found = (\<lambda>a. s_scope (heap st3 a) = 0)"
    have k3: "heap st3 = heap st2" "same_tables st2 st3" "same_rest st2 st3" "\<And>qs. read_slot st3 qs = read_slot st2 qs"
      using note_keeps unfolding st3_def by blast+
    have b3: "bindings_ok st3 (bound_to A)" by (rule bindings_same [OF _ k3(2)]) (use w2' k3(1) B in auto)
    have seg: "segment (prev_tok st3) (read_slot st3 ps) (bound_to A ps) 0" using b3 h by (simp add: bindings_ok_def)
    define q where "q = stop_slot found ps (bound_to A ps)"
    define st4 where "st4 = update_sym s (\<lambda>y. y\<lparr>s_prev_tok := read_slot st3 q\<rparr>) st3"
    define st5 where "st5 = write_slot q s st4"
    have "global_identifier_push pool v t c st = Inr (s, st5)"
      using False e conjunct1 [OF find_slot_chain [OF seg, of found]] i(1)
      by (simp add: global_identifier_push_def push st1'_def [symmetric] Let_def anon st3_def [symmetric] found_def [symmetric]
          ps_def [symmetric] q_def [symmetric] st4_def [symmetric] st5_def)
    moreover
    have nb: "s \<notin> set (bound_to A qs)" if "is_head qs" for qs using s(1) that by (auto simp: alive_def linked_in_def)
    have h4: "heap st4 x = (if x = s then y\<lparr>s_prev_tok := read_slot st3 q\<rparr> else heap st2 x)" for x
      using k3(1) by (simp add: st4_def update_sym_def st2_def)
    have t4: "same_tables st3 st4" "same_rest st2 st4" using k3 by (simp_all add: st4_def update_sym_def same_tables_def same_rest_def)
    have b4: "bindings_ok st4 (bound_to A)" by (rule bindings_same [OF b3 t4(1)]) (use nb k3(1) in \<open>auto simp: h4\<close>)
    have q: "q = ps \<or> (\<exists>x\<in>set (bound_to A ps). q = Prev_tok x)" using stop_slot_cases [of found ps "bound_to A ps"] by (auto simp: q_def)
    then have "q \<noteq> Prev_tok s" using nb h by (auto simp: is_head_def)
    then have "read_slot st4 q = read_slot st3 q" by (cases q) (auto simp: read_slot_def st4_def update_sym_def)
    then have r4: "prev_tok st4 s = read_slot st4 q" by (simp add: h4)
    have so4: "slot_of st4 = slot_of st" using slot_of_same [of st4 st2] t4(2) so by (simp add: same_rest_def)
    define b where "b = (bound_to A)(ps := takeWhile (\<lambda>x. \<not> found x) (bound_to A ps) @ s # dropWhile (\<lambda>x. \<not> found x) (bound_to A ps))"
    have b5: "bindings_ok st5 b"
      unfolding st5_def b_def q_def
      by (rule bindings_insert [OF b4 h nb s(3)]) (use r4 i(2) y(1) in \<open>simp_all add: so4 h4 ps_def q_def\<close>)
    have k5: "s_v (heap st5 x) = s_v (heap st4 x)" "s_prev (heap st5 x) = s_prev (heap st4 x)" "s_next (heap st5 x) = s_next (heap st4 x)" for x
      using contents_eqD [OF write_keeps(1) [of q s st4 x]] by (simp_all add: st5_def)
    have r5: "same_rest st2 st5" using t4(2) write_keeps(2) [of st4 q s] by (simp add: st5_def same_rest_def)
    have z5: "scope_prev st5 x = (if x = s then 0 else scope_prev st2 x)" "scope_next st5 x = (if x = s then 0 else scope_next st2 x)" for x
      using y by (simp_all add: st5_def write_keeps h4)
    have in_b: "x = s \<or> x \<in> set (bound_to A qs)" if "x \<in> set (b qs)" for x qs
      using that by (auto simp: b_def split: if_splits dest: set_takeWhileD set_dropWhileD)
    have b_in: "x \<in> set (b qs)" if "x \<in> set (bound_to A qs)" for x qs
      using that takeWhile_dropWhile_id [of "\<lambda>x. \<not> found x" "bound_to A qs"] unfolding b_def
      by (metis Un_iff fun_upd_apply list.set_intros(2) set_append)
    have ni: "s \<notin> set (inner A)" using oki(2) s(1) by auto
    have "well_scoped_at (local_stack st2) st5 (B\<lparr>bound_to := b, inner := inner A\<rparr>)"
    proof (rule well_scoped_change [OF w2 r5 _ _ b5])
      show "s_v (heap st5 x) = s_v (heap st2 x) \<and> s_prev (heap st5 x) = s_prev (heap st2 x)" if "x \<in> set (on_stack B)" for x
        using that s(1) by (auto simp: k5 h4 alive_def B)
      show "s_next (heap st5 x) = s_next (heap st2 x)" if "x \<in> set (unused B)" for x using that s(2) by (auto simp: k5 h4 B)
      show "binding_list st5 (inner A)"
      proof -
        have "segment (scope_next st2) (scoped_bindings st2) (inner A) 0" "backed (scope_prev st2) 0 (inner A)"
          using w2' by (simp_all add: B binding_list_def)
        moreover have "scoped_bindings st5 = scoped_bindings st2" using t4(1) k3(2) by (simp add: st5_def write_keeps same_tables_def)
        ultimately show ?thesis
          unfolding binding_list_def using ni
          by (subst segment_cong [where m = "scope_next st2"], force simp: z5) (subst backed_cong [where k = "scope_prev st2"], auto simp: z5)
      qed
      show "x \<notin> set (unused B) \<and> x < fresh st2" if "x \<in> set (b qs)" "is_head qs" for x qs
      proof (cases "x = s")
        case True then show ?thesis using s by (simp add: B st2_def)
      next
        case False
        then have "alive B x" using in_b [OF that(1)] that(2) by (auto simp: alive_def linked_in_def B)
        then show ?thesis using w2' by blast
      qed
      show "\<exists>qs. is_head qs \<and> x \<in> set (b qs)" if "x \<in> set (inner A)" for x
      proof -
        have "linked_in B x" using that w2' by (simp add: B)
        then show ?thesis using b_in by (auto simp: linked_in_def B)
      qed
      show "scope_prev st5 x = 0 \<and> scope_next st5 x = 0" if "alive (B\<lparr>bound_to := b, inner := inner A\<rparr>) x" "x \<notin> set (inner A)" for x
      proof (cases "x = s")
        case False
        then have "alive B x" using that(1) in_b by (fastforce simp: alive_def linked_in_def B)
        then show ?thesis using w2' that(2) False by (simp add: z5 B)
      qed (simp add: z5)
    qed
    moreover have "extends A st (\<lambda>qs. of_bool (\<not> anonymous v \<and> slot_of st v = Some qs)) [] (B\<lparr>bound_to := b, inner := inner A\<rparr>) st5"
    proof -
      have "filter (alive A) (b qs) = bound_to A qs \<and> length (filter (\<lambda>x. \<not> alive A x) (b qs)) = of_bool (slot_of st v = Some qs)"
        if "is_head qs" for qs
      proof (cases "qs = ps")
        case True
        have t: "filter (alive A) (takeWhile (\<lambda>x. \<not> found x) (bound_to A ps)) @ filter (alive A) (dropWhile (\<lambda>x. \<not> found x) (bound_to A ps)) = bound_to A ps"
          using ok [OF h] by (simp flip: filter_append)
        have n: "filter (\<lambda>x. \<not> alive A x) (takeWhile (\<lambda>x. \<not> found x) (bound_to A ps)) @ filter (\<lambda>x. \<not> alive A x) (dropWhile (\<lambda>x. \<not> found x) (bound_to A ps)) = []"
          using none [OF h] by (simp flip: filter_append)
        show ?thesis using True t n s(1) i(2) by (simp add: b_def ps_def)
      next
        case False
        then show ?thesis using ok [OF that] none [OF that] i(2) by (simp add: b_def ps_def)
      qed
      moreover have "contents st5 x = contents st x" if "alive A x" for x
        using c2 [OF that] that s(1) by (auto simp: st5_def write_keeps) (auto simp: contents_def h4)
      moreover have "same_scope st st5" using r5 k1(2) by (simp add: same_rest_def same_scope_def st2_def)
      ultimately show ?thesis using False oki by (simp add: extends_def B)
    qed
    moreover have "local_stack st5 = local_stack st2" "local_stack st2 = local_stack st" using r5 k1(3) by (simp_all add: same_rest_def st2_def)
    ultimately show ?thesis by auto
  qed
qed

end
