(* ===== verification/SymScopeSpec.thy ===== *)
theory SymScopeSpec imports SymScopePush
begin

text \<open>
  A scope leaves no trace: whatever is declared inside, after its end every name means what it meant before, except
  that identifiers declared at file scope from inside stay.
\<close>

section \<open>Popping\<close>

definition without_all :: "nat list \<Rightarrow> names \<Rightarrow> names \<Rightarrow> bool" where
  "without_all N A A' \<longleftrightarrow> (\<forall>ps. is_head ps \<longrightarrow> bound_to A' ps = filter (\<lambda>x. x \<notin> set N) (bound_to A ps))
     \<and> inner A' = filter (\<lambda>x. x \<notin> set N) (inner A)"

lemma well_scoped_cong:
  assumes w: "well_scoped_at l st A" and "\<And>ps. is_head ps \<Longrightarrow> bound_to A' ps = bound_to A ps"
    and "inner A' = inner A" "on_stack A' = on_stack A" "unused A' = unused A"
  shows "well_scoped_at l st A'"
proof -
  have "linked_in A' x = linked_in A x" "alive A' x = alive A x" for x using assms(2,4) by (auto simp: linked_in_def alive_def)
  moreover have "bindings_ok st (bound_to A') = bindings_ok st (bound_to A)" by (rule bindings_cong [OF assms(2)])
  ultimately show ?thesis using w assms(3-5) unfolding well_scoped_at_def by simp
qed

lemma unlink_step:
  assumes w: "well_scoped_at l st A" and s: "s \<in> set (on_stack A)"
  shows "\<exists>st1 A1. (if has_token (s_v (heap st s)) then sym_link s False st else Inr st) = Inr st1 \<and> well_scoped_at l st1 A1
    \<and> relinked st st1 \<and> without_all [s] A A1 \<and> on_stack A1 = on_stack A \<and> unused A1 = unused A"
proof (cases "has_token (s_v (heap st s))")
  case True
  then obtain ps where ps: "slot_of st (s_v (heap st s)) = Some ps" using w s unfolding well_scoped_at_def by blast
  have "alive A s" using s by (simp add: alive_def)
  from sym_unlink [OF w this ps] obtain st1 where "sym_link s False st = Inr st1" "well_scoped_at l st1 (without s A)" "relinked st st1"
    by blast
  moreover have "without_all [s] A (without s A)" by (simp add: without_def without_all_def)
  moreover have "on_stack (without s A) = on_stack A" "unused (without s A) = unused A" by (simp_all add: without_def)
  ultimately show ?thesis using True by auto
next
  case False
  have "s \<notin> set (bound_to A ps)" if "is_head ps" for ps
    using slot_of_token [OF w] False w that by (auto simp: well_scoped_at_def bindings_ok_def)
  moreover from this have "s \<notin> set (inner A)" using w by (auto simp: well_scoped_at_def linked_in_def)
  ultimately have "without_all [s] A A" unfolding without_all_def by (auto intro!: filter_id_conv [THEN iffD2, symmetric])
  then show ?thesis using w False by (auto simp: relinked_def same_rest_def)
qed

lemma free_step:
  assumes w: "well_scoped_at l st A" and s: "on_stack A = s # R" and u: "\<And>ps. is_head ps \<Longrightarrow> s \<notin> set (bound_to A ps)"
  shows "well_scoped_at (s_prev (heap st s)) (sym_free s st) (A\<lparr>on_stack := R, unused := s # unused A\<rparr>)"
proof -
  note w' = w [unfolded well_scoped_at_def]
  define st' where "st' = sym_free s st"
  have h: "heap st' x = (if x = s then (heap st s)\<lparr>s_next := sym_free_first st\<rparr> else heap st x)" for x
    by (simp add: st'_def sym_free_def update_sym_def)
  have t: "same_tables st st'" "sym_free_first st' = s" "fresh st' = fresh st"
    by (simp_all add: st'_def sym_free_def update_sym_def same_tables_def)
  have so: "slot_of st' = slot_of st" by (rule slot_of_same) (use t in \<open>simp add: same_tables_def\<close>)
  have seg: "segment (\<lambda>x. s_prev (heap st x)) l (s # R) 0" using w' s by metis
  have d: "distinct (s # R)" by (rule segment_distinct [OF seg])
  define A' where "A' = A\<lparr>on_stack := R, unused := s # unused A\<rparr>"
  have A': "bound_to A' = bound_to A" "inner A' = inner A" "on_stack A' = R" "unused A' = s # unused A" by (simp_all add: A'_def)
  have al: "alive A' x \<longleftrightarrow> alive A x \<and> x \<noteq> s" "linked_in A' x = linked_in A x" for x
    using d u s by (auto simp: alive_def linked_in_def A')
  have as: "alive A s" using s by (simp add: alive_def)
  have ni: "s \<notin> set (unused A)" using w' as by blast
  have "well_scoped_at (s_prev (heap st s)) st' A'"
    unfolding well_scoped_at_def A' al
  proof (intro conjI)
    show "bindings_ok st' (bound_to A)" by (rule bindings_same [OF _ t(1)]) (use w' in \<open>auto simp: h\<close>)
    show "binding_list st' (inner A)" by (rule binding_list_same [OF _ t(1)]) (use w' in \<open>auto simp: h\<close>)
    show "\<forall>x\<in>set (inner A). linked_in A x" using w' by blast
    show "\<forall>x. (alive A x \<and> x \<noteq> s) \<and> x \<notin> set (inner A) \<longrightarrow> scope_prev st' x = 0 \<and> scope_next st' x = 0"
      using w' by (simp add: h)
    have "segment (\<lambda>x. s_prev (heap st x)) (s_prev (heap st s)) R 0" using seg by simp
    then show "segment (\<lambda>x. s_prev (heap st' x)) (s_prev (heap st s)) R 0"
      by (subst segment_cong [where m = "\<lambda>x. s_prev (heap st x)"]) (simp_all add: h)
    show "\<forall>x\<in>set R. has_token (s_v (heap st' x)) \<longrightarrow> slot_of st' (s_v (heap st' x)) \<noteq> None"
      using w' s unfolding so by (simp add: h)
    have "segment (\<lambda>x. s_next (heap st x)) (sym_free_first st) (unused A) 0" using w' by blast
    then show "segment (\<lambda>x. s_next (heap st' x)) (sym_free_first st') (s # unused A) 0"
      using t(2) alive_nonzero [OF w as] ni
      by (simp add: h) (subst segment_cong [where m = "\<lambda>x. s_next (heap st x)"], auto simp: h)
    show "\<forall>x\<in>set (s # unused A). \<not> (alive A x \<and> x \<noteq> s)" using w' by auto
    show "\<forall>x. alive A x \<and> x \<noteq> s \<or> x \<in> set (s # unused A) \<longrightarrow> x < fresh st'" using w' as t(3) by auto
    show "0 < fresh st'" "TOK_IDENT \<le> tok_ident st'" "tok_ident st' \<le> SYM_FIRST_ANOM"
      using w' t by (simp_all add: same_tables_def)
  qed
  then show ?thesis by (simp add: st'_def A'_def)
qed

lemma without_all_step: "without_all [s] A A1 \<Longrightarrow> without_all N A1 A2 \<Longrightarrow> without_all (s # N) A A2"
  by (auto simp: without_all_def intro!: filter_cong)

lemma pop_keep:
  assumes "well_scoped_at l st A" and "segment (\<lambda>x. s_prev (heap st x)) a N b" "b \<notin> set N" "set N \<subseteq> set (on_stack A)"
  shows "\<exists>st' A'. pop_loop b True a st = Some (Inr st') \<and> well_scoped_at l st' A' \<and> relinked st st' \<and> without_all N A A'
    \<and> on_stack A' = on_stack A"
  using assms
proof (induction N arbitrary: a st A)
  case Nil
  then have "pop_loop b True a st = Some (Inr st)" by (subst pop_loop.simps) simp
  moreover have "without_all [] A A" by (simp add: without_all_def)
  moreover have "relinked st st" by (simp add: relinked_def same_rest_def)
  ultimately show ?case using Nil.prems(1) by blast
next
  case (Cons s N)
  have a: "a = s" "s \<noteq> 0" "s \<noteq> b" "s \<in> set (on_stack A)" using Cons.prems by auto
  obtain st1 A1 where 1: "(if has_token (s_v (heap st s)) then sym_link s False st else Inr st) = Inr st1" "well_scoped_at l st1 A1"
    "relinked st st1" "without_all [s] A A1" "on_stack A1 = on_stack A"
    using unlink_step [OF Cons.prems(1) a(4)] by blast
  have c: "contents st1 x = contents st x" for x using 1(3) by (simp add: relinked_def)
  have "segment (\<lambda>x. s_prev (heap st1 x)) (s_prev (heap st s)) N b"
    using Cons.prems(2) by (subst segment_cong [where m = "\<lambda>x. s_prev (heap st x)"]) (simp_all add: contents_eqD(3) [OF c])
  then obtain st' A' where 2: "pop_loop b True (s_prev (heap st s)) st1 = Some (Inr st')" "well_scoped_at l st' A'" "relinked st1 st'"
    "without_all N A1 A'" "on_stack A' = on_stack A1"
    using Cons.IH [OF 1(2)] Cons.prems(3,4) 1(5) by (metis insert_subset list.simps(15) insertI2 list.set(2))
  have "pop_loop b True a st = Some (Inr st')"
    using a 1(1) 2(1) by (cases "has_token (s_v (heap st s))"; subst pop_loop.simps) (simp_all add: Let_def)
  moreover have "on_stack A' = on_stack A" using 2(5) 1(5) by simp
  ultimately show ?case using 2(2) relinked_trans [OF 1(3) 2(3)] without_all_step [OF 1(4) 2(4)] by blast
qed

lemma pop_free:
  assumes "well_scoped_at a st A" and "on_stack A = N @ L" and "b = (case L of [] \<Rightarrow> 0 | x # _ \<Rightarrow> x)"
  shows "\<exists>st' A'. pop_loop b False a st = Some (Inr st') \<and> well_scoped_at b st' A' \<and> without_all N A A' \<and> on_stack A' = L
    \<and> (\<forall>x. x \<notin> set N \<longrightarrow> contents st' x = contents st x) \<and> same_scope st st'"
  using assms(1,2)
proof (induction N arbitrary: a st A)
  case Nil
  then have "segment (\<lambda>x. s_prev (heap st x)) a L 0" by (simp add: well_scoped_at_def)
  then have "a = b" using segment_head assms(3) by blast
  then have "pop_loop b False a st = Some (Inr st)" by (subst pop_loop.simps) simp
  moreover have "without_all [] A A" by (simp add: without_all_def)
  ultimately show ?case using Nil \<open>a = b\<close> by (auto simp: same_scope_def)
next
  case (Cons s N)
  have seg: "segment (\<lambda>x. s_prev (heap st x)) a (s # N @ L) 0" using Cons.prems by (simp add: well_scoped_at_def)
  have d: "distinct (s # N @ L)" by (rule segment_distinct [OF seg])
  have a: "a = s" "s \<noteq> 0" "s \<noteq> b" "s \<in> set (on_stack A)" using seg d Cons.prems(2) assms(3) by (auto split: list.splits)
  obtain st1 A1 where 1: "(if has_token (s_v (heap st s)) then sym_link s False st else Inr st) = Inr st1" "well_scoped_at a st1 A1"
    "relinked st st1" "without_all [s] A A1" "on_stack A1 = on_stack A"
    using unlink_step [OF Cons.prems(1) a(4)] by blast
  have c: "contents st1 x = contents st x" for x using 1(3) by (simp add: relinked_def)
  define st2 where "st2 = sym_free s st1"
  define A2 where "A2 = A1\<lparr>on_stack := N @ L, unused := s # unused A1\<rparr>"
  have "on_stack A1 = s # N @ L" using 1(5) Cons.prems(2) by simp
  moreover have "s \<notin> set (bound_to A1 ps)" if "is_head ps" for ps using 1(4) that by (simp add: without_all_def)
  ultimately have w2: "well_scoped_at (s_prev (heap st s)) st2 A2"
    using free_step [OF 1(2)] contents_eqD(3) [OF c, of s] by (simp add: st2_def A2_def)
  have A2: "on_stack A2 = N @ L" "without_all [s] A A2" using 1(4) by (simp_all add: A2_def without_all_def)
  obtain st' A' where 2: "pop_loop b False (s_prev (heap st s)) st2 = Some (Inr st')" "well_scoped_at b st' A'"
    "without_all N A2 A'" "on_stack A' = L" "\<forall>x. x \<notin> set N \<longrightarrow> contents st' x = contents st2 x" "same_scope st2 st'"
    using Cons.IH [OF w2 A2(1)] by blast
  have "pop_loop b False a st = Some (Inr st')"
    using a 1(1) 2(1) by (cases "has_token (s_v (heap st s))"; subst pop_loop.simps) (simp_all add: Let_def st2_def)
  moreover have "contents st' x = contents st x" if "x \<notin> set (s # N)" for x
  proof -
    have "contents st2 x = contents st1 x" using that by (simp add: contents_def st2_def sym_free_def update_sym_def)
    then show ?thesis using 2(5) that c by simp
  qed
  moreover have "same_scope st st'"
    using 2(6) 1(3) by (simp add: same_scope_def relinked_def same_rest_def st2_def sym_free_def update_sym_def)
  ultimately show ?case using 2(2,4) without_all_step [OF A2(2) 2(3)] by blast
qed

section \<open>Scopes\<close>

text \<open>What a scope declares: names on the local stack, enumerators (whose value overwrites \<open>c\<close> and \<open>sym_scope\<close>), file-scope
  identifiers, and scopes inside, whose symbols are kept after a statement expression.\<close>

datatype decl =
    Local u32 ctype int int
  | Enumerator u32 ctype int int
  | Global u32 u32 int
  | Scope "decl list" bool

fun declare_all :: "nat \<Rightarrow> decl list \<Rightarrow> scopes \<Rightarrow> scope_stop + scopes" where
  "declare_all pool [] st = Inr st"
| "declare_all pool (Local v type r c # ds) st =
     (case sym_push pool v type r c st of Inl e \<Rightarrow> Inl e | Inr (_, st1) \<Rightarrow> declare_all pool ds st1)"
| "declare_all pool (Enumerator v type low high # ds) st =
     (case sym_push pool v type (uint VT_CONST) 0 st of
        Inl e \<Rightarrow> Inl e
      | Inr (s, st1) \<Rightarrow> declare_all pool ds (update_sym s (\<lambda>y. y\<lparr>s_c := low, s_scope := high\<rparr>) st1))"
| "declare_all pool (Global v t c # ds) st =
     (case global_identifier_push pool v t c st of Inl e \<Rightarrow> Inl e | Inr (_, st1) \<Rightarrow> declare_all pool ds st1)"
| "declare_all pool (Scope es keep # ds) st =
     (let (mark, st1) = new_scope_s st
      in case declare_all pool es st1 of
           Inl e \<Rightarrow> Inl e
         | Inr st2 \<Rightarrow>
             (case prev_scope_names mark keep st2 of Inl e \<Rightarrow> Inl e | Inr st3 \<Rightarrow> declare_all pool ds st3))"

definition nameable :: "scopes \<Rightarrow> u32 \<Rightarrow> bool" where
  "nameable st v \<longleftrightarrow> slot_of st v \<noteq> None \<or> anonymous v"

fun declarable :: "scopes \<Rightarrow> decl list \<Rightarrow> bool" where
  "declarable st [] \<longleftrightarrow> True"
| "declarable st (Local v type r c # ds) \<longleftrightarrow> nameable st v \<and> declarable st ds"
| "declarable st (Enumerator v type low high # ds) \<longleftrightarrow> nameable st v \<and> declarable st ds"
| "declarable st (Global v t c # ds) \<longleftrightarrow> v AND SYM_STRUCT = 0 \<and> nameable st v \<and> declarable st ds"
| "declarable st (Scope es keep # ds) \<longleftrightarrow> declarable st es \<and> declarable st ds"

text \<open>How many identifiers are declared at file scope for a token.\<close>

fun globals :: "scopes \<Rightarrow> decl list \<Rightarrow> slot \<Rightarrow> nat" where
  "globals st [] ps = 0"
| "globals st (Local v type r c # ds) ps = globals st ds ps"
| "globals st (Enumerator v type low high # ds) ps = globals st ds ps"
| "globals st (Global v t c # ds) ps = of_bool (\<not> anonymous v \<and> slot_of st v = Some ps) + globals st ds ps"
| "globals st (Scope es keep # ds) ps = globals st es ps + globals st ds ps"

lemma same_scope_slot: "same_scope st st' \<Longrightarrow> slot_of st' = slot_of st"
  by (rule slot_of_same) (simp add: same_scope_def)

lemma slot_declarable: "slot_of st' = slot_of st \<Longrightarrow> declarable st' ds = declarable st ds"
  by (induction st ds rule: declarable.induct) (simp_all add: nameable_def)

lemma slot_globals: "slot_of st' = slot_of st \<Longrightarrow> globals st' ds ps = globals st ds ps"
  by (induction st ds ps rule: globals.induct) simp_all

lemmas same_scope_declarable = slot_declarable [OF same_scope_slot]
lemmas same_scope_globals = slot_globals [OF same_scope_slot]

text \<open>An extension that has lost the symbols on top of the stack.\<close>

lemma extends_without:
  assumes e: "extends A st c N A1 st1" and w: "without_all N A1 A2" and o: "on_stack A2 = on_stack A \<or> on_stack A2 = N @ on_stack A"
    and k: "\<And>x. alive A x \<Longrightarrow> contents st2 x = contents st1 x" and s: "same_scope st1 st2"
  shows "\<exists>M. extends A st c M A2 st2"
proof -
  note e' = e [unfolded extends_def]
  have n: "x \<notin> set N" if "alive A x" for x using e' that by blast
  have i: "filter (\<lambda>x. x \<notin> set N \<and> alive A x) xs = filter (alive A) xs" for xs
    using n by (auto intro!: filter_cong)
  define M where "M = (if on_stack A2 = on_stack A then [] else N)"
  have M: "on_stack A2 = M @ on_stack A" "set M \<subseteq> set N" using o by (auto simp: M_def)
  have "filter (\<lambda>x. \<not> alive A x \<and> x \<notin> set M) (filter (\<lambda>x. x \<notin> set N) xs) = filter (\<lambda>x. \<not> alive A x \<and> x \<notin> set N) xs" for xs
    using M(2) by (auto intro!: filter_cong)
  then have "extends A st c M A2 st2"
    using e' w M s k unfolding extends_def without_all_def by (auto simp: i same_scope_def)
  then show ?thesis ..
qed

lemma well_scoped_other:
  assumes w: "well_scoped_at l st A" and t: "same_tables st st'" "heap st' = heap st" "fresh st' = fresh st" "sym_free_first st' = sym_free_first st"
  shows "well_scoped_at l st' A"
proof -
  have b: "bindings_ok st' b = bindings_ok st b" for b
  proof
    show "bindings_ok st b \<Longrightarrow> bindings_ok st' b" by (rule bindings_same [OF _ t(1)]) (simp_all add: t)
    show "bindings_ok st' b \<Longrightarrow> bindings_ok st b" by (rule bindings_same [of st' b st]) (use t in \<open>auto simp: same_tables_def\<close>)
  qed
  have "slot_of st' = slot_of st" by (rule slot_of_same) (use t in \<open>simp add: same_tables_def\<close>)
  then show ?thesis using w t unfolding well_scoped_at_def by (simp add: b binding_list_def same_tables_def)
qed

lemma scope_end_ok:
  assumes w0: "well_scoped st A" and w: "well_scoped st2 A2" and s: "new_scope_s st = (mark, st1)" and e: "extends A st1 c N A2 st2"
  shows "\<exists>st3 A3 M. prev_scope_names mark keep st2 = Inr st3 \<and> well_scoped st3 A3 \<and> extends A st c M A3 st3
    \<and> (if keep then local_stack st3 = local_stack st2 else M = [] \<and> local_stack st3 = local_stack st)"
proof -
  have mark: "lstk mark = local_stack st" "using_namespace_count mark = nb_using_namespace_toks st"
    and st1: "st1 = st\<lparr>local_scope := local_scope st + 1\<rparr>" using s by (auto simp: new_scope_s_def)
  have b: "lstk mark = (case on_stack A of [] \<Rightarrow> 0 | x # _ \<Rightarrow> x)"
    using segment_head w0 unfolding mark well_scoped_at_def by metis
  have on: "on_stack A2 = N @ on_stack A" using e by (simp add: extends_def)
  have seg: "segment (\<lambda>x. s_prev (heap st2 x)) (local_stack st2) (N @ on_stack A) 0" using w on by (simp add: well_scoped_at_def)
  define left where "left = (\<lambda>st' :: scopes. st'\<lparr>nb_using_namespace_toks := using_namespace_count mark, local_scope := local_scope st' - 1\<rparr>)"
  have ext: "\<exists>M. extends A st c M A3 (left st')"
    if p: "without_all N A2 A3" "on_stack A3 = on_stack A \<or> on_stack A3 = N @ on_stack A"
      "\<And>x. alive A x \<Longrightarrow> contents st' x = contents st2 x" "same_scope st2 st'" for A3 st'
  proof -
    obtain M where "extends A st1 c M A3 st'" using extends_without [OF e p] by blast
    then have "extends A st c M A3 (left st')" by (simp add: extends_def same_scope_def contents_def left_def st1 mark)
    then show ?thesis ..
  qed
  have wd: "well_scoped_at l (left st') A3" if "well_scoped_at l st' A3" for l st' A3
    by (rule well_scoped_other [OF that]) (simp_all add: left_def same_tables_def)
  show ?thesis
  proof (cases keep)
    case True
    have d: "distinct (N @ on_stack A)" by (rule segment_distinct [OF seg])
    obtain m where "segment (\<lambda>x. s_prev (heap st2 x)) (local_stack st2) N m" "segment (\<lambda>x. s_prev (heap st2 x)) m (on_stack A) 0"
      using seg unfolding segment_append by blast
    then have "segment (\<lambda>x. s_prev (heap st2 x)) (local_stack st2) N (lstk mark)" using segment_head b by metis
    moreover have "lstk mark \<notin> set N"
      using b d segment_nonzero [OF seg] by (auto split: list.splits)
    moreover have "set N \<subseteq> set (on_stack A2)" using on by simp
    ultimately obtain st' A3 where p: "pop_loop (lstk mark) True (local_stack st2) st2 = Some (Inr st')" "well_scoped_at (local_stack st2) st' A3"
      "relinked st2 st'" "without_all N A2 A3" "on_stack A3 = on_stack A2"
      using pop_keep [OF w] by blast
    have "prev_scope_names mark keep st2 = Inr (left st')"
      using True p(1) by (simp add: prev_scope_names_def sym_pop_def stack_top_def left_def)
    moreover have l: "local_stack (left st') = local_stack st2" using p(3) by (simp add: left_def relinked_def same_rest_def)
    moreover have "well_scoped (left st') A3" unfolding l by (rule wd [OF p(2)])
    moreover obtain M where "extends A st c M A3 (left st')"
      using ext [OF p(4), of st'] p(3,5) on by (auto simp: relinked_def same_rest_def same_scope_def)
    ultimately show ?thesis using True by auto
  next
    case False
    obtain st' A3 where p: "pop_loop (lstk mark) False (local_stack st2) st2 = Some (Inr st')" "well_scoped_at (lstk mark) st' A3"
      "without_all N A2 A3" "on_stack A3 = on_stack A" "\<forall>x. x \<notin> set N \<longrightarrow> contents st' x = contents st2 x" "same_scope st2 st'"
      using pop_free [OF w on b] by blast
    define st'' where "st'' = st'\<lparr>local_stack := lstk mark\<rparr>"
    have "prev_scope_names mark keep st2 = Inr (left st'')"
      using False p(1) by (simp add: prev_scope_names_def sym_pop_def stack_top_def set_stack_top_def st''_def left_def)
    moreover have l: "local_stack (left st'') = lstk mark" by (simp add: left_def st''_def)
    moreover have "well_scoped_at (lstk mark) st'' A3"
      by (rule well_scoped_other [OF p(2)]) (simp_all add: st''_def same_tables_def)
    then have "well_scoped (left st'') A3" unfolding l by (rule wd)
    moreover have "contents st'' x = contents st2 x" if "alive A x" for x
      using p(5) e that by (auto simp: st''_def contents_def extends_def)
    then obtain M where "extends A st c M A3 (left st'')"
      using ext [OF p(3), of st''] p(4,6) by (auto simp: same_scope_def st''_def)
    moreover from this have "M = []" using p(4) by (simp add: extends_def)
    ultimately show ?thesis using False mark by auto
  qed
qed

lemma well_scoped_value:
  assumes w: "well_scoped_at l st A"
  shows "well_scoped_at l (update_sym s (\<lambda>y. y\<lparr>s_c := c, s_scope := d\<rparr>) st) A"
proof -
  define st' where "st' = update_sym s (\<lambda>y. y\<lparr>s_c := c, s_scope := d\<rparr>) st"
  have h: "s_v (heap st' x) = s_v (heap st x)" "s_prev (heap st' x) = s_prev (heap st x)" "s_next (heap st' x) = s_next (heap st x)"
    "prev_tok st' x = prev_tok st x" "scope_prev st' x = scope_prev st x" "scope_next st' x = scope_next st x" for x
    by (auto simp: st'_def update_sym_def)
  have t: "same_tables st st'" "same_rest st st'" by (simp_all add: st'_def update_sym_def same_tables_def same_rest_def)
  note w' = w [unfolded well_scoped_at_def]
  have "well_scoped_at l st' (A\<lparr>bound_to := bound_to A, inner := inner A\<rparr>)"
  proof (rule well_scoped_change [OF w t(2)])
    show "bindings_ok st' (bound_to A)" by (rule bindings_same [OF _ t(1)]) (use w' h in auto)
    show "binding_list st' (inner A)" by (rule binding_list_same [OF _ t(1)]) (use w' h in auto)
    show "x \<notin> set (unused A) \<and> x < fresh st" if "x \<in> set (bound_to A ps)" "is_head ps" for x ps
    proof -
      have "alive A x" using that by (auto simp: alive_def linked_in_def)
      then show ?thesis using w' by blast
    qed
    show "\<exists>ps. is_head ps \<and> x \<in> set (bound_to A ps)" if "x \<in> set (inner A)" for x
      using that w' by (auto simp: linked_in_def)
    show "scope_prev st' x = 0 \<and> scope_next st' x = 0" if "alive (A\<lparr>bound_to := bound_to A, inner := inner A\<rparr>) x" "x \<notin> set (inner A)" for x
      using that w' h by simp
  qed (simp_all add: h)
  then show ?thesis by (simp add: st'_def)
qed

lemma extends_value:
  assumes e: "extends A st c N A' st'" and s: "\<not> alive A s"
  shows "extends A st c N A' (update_sym s (\<lambda>y. y\<lparr>s_c := i, s_scope := j\<rparr>) st')"
proof -
  have "contents (update_sym s (\<lambda>y. y\<lparr>s_c := i, s_scope := j\<rparr>) st') x = contents st' x" if "alive A x" for x
    using that s by (auto simp: contents_def update_sym_def)
  moreover have "same_scope st (update_sym s (\<lambda>y. y\<lparr>s_c := i, s_scope := j\<rparr>) st')"
    using e by (simp add: extends_def same_scope_def update_sym_def)
  ultimately show ?thesis using e by (simp add: extends_def)
qed

definition declared :: "names \<Rightarrow> scopes \<Rightarrow> decl list \<Rightarrow> scope_stop + scopes \<Rightarrow> bool" where
  "declared A st ds res \<longleftrightarrow> (\<exists>u. res = Inl (Redeclared u)) \<or>
     (\<exists>st' A' N. res = Inr st' \<and> well_scoped st' A' \<and> extends A st (globals st ds) N A' st' \<and> local_stack st' \<noteq> 0)"

lemma declared_Redeclared: "declared A st ds (Inl (Redeclared u))"
  by (simp add: declared_def)

text \<open>A declaration is followed by others.\<close>

lemma declared_then:
  assumes "extends A st c N A1 st1" and "declared A1 st1 ds res" and "\<And>ps. globals st es ps = c ps + globals st ds ps"
  shows "declared A st es res"
proof -
  have s: "same_scope st st1" using assms(1) by (simp add: extends_def)
  have "(\<lambda>ps. c ps + globals st1 ds ps) = globals st es" using assms(3) same_scope_globals [OF s] by auto
  then show ?thesis using assms(2) extends_trans [OF assms(1)] unfolding declared_def by metis
qed

lemma declared_inside:
  assumes w: "well_scoped st A" and s: "new_scope_s st = (mark, st1)" and "declarable st es"
  shows "well_scoped st1 A" "declarable st1 es" "globals st1 es = globals st es" "local_stack st1 = local_stack st"
proof -
  have st1: "st1 = st\<lparr>local_scope := local_scope st + 1\<rparr>" using s by (simp add: new_scope_s_def)
  show "well_scoped st1 A" using well_scoped_other [OF w, of st1] by (simp add: st1 same_tables_def)
  have so: "slot_of st1 = slot_of st" by (rule slot_of_same) (simp add: st1)
  show "declarable st1 es" using assms(3) slot_declarable [OF so] by simp
  show "globals st1 es = globals st es" using slot_globals [OF so] by auto
  show "local_stack st1 = local_stack st" by (simp add: st1)
qed

lemma declare_ok:
  "0 < pool \<Longrightarrow> well_scoped st A \<Longrightarrow> local_stack st \<noteq> 0 \<Longrightarrow> declarable st ds \<Longrightarrow> declared A st ds (declare_all pool ds st)"
proof (induction pool ds st arbitrary: A rule: declare_all.induct)
  case (1 pool st)
  have "globals st [] = (\<lambda>_. 0)" by (rule ext) simp
  then show ?case using 1 extends_refl [OF 1(2)] by (auto simp: declared_def)
next
  case (2 pool v type r c ds st)
  have v: "slot_of st v \<noteq> None \<or> anonymous v" "declarable st ds" using 2(5) by (simp_all add: nameable_def)
  show ?case
    using sym_push_ok [OF 2(3) 2(2) 2(4) v(1), of type r c]
  proof (elim disjE exE conjE)
    fix u assume "sym_push pool v type r c st = Inl (Redeclared u)"
    then show ?thesis by (simp add: declared_Redeclared)
  next
    fix s st1 A1 assume 1: "sym_push pool v type r c st = Inr (s, st1)" "well_scoped st1 A1" "extends A st (\<lambda>_. 0) [s] A1 st1" "local_stack st1 \<noteq> 0"
    then have "declarable st1 ds" using v(2) same_scope_declarable by (auto simp: extends_def)
    then have "declared A1 st1 ds (declare_all pool ds st1)" using 2(1) [OF 1(1) refl 2(2) 1(2,4)] by simp
    from declared_then [OF 1(3) this] show ?thesis using 1(1) by simp
  qed
next
  case (3 pool v type low high ds st)
  have v: "slot_of st v \<noteq> None \<or> anonymous v" "declarable st ds" using 3(5) by (simp_all add: nameable_def)
  show ?case
    using sym_push_ok [OF 3(3) 3(2) 3(4) v(1), of type "uint VT_CONST" 0]
  proof (elim disjE exE conjE)
    fix u assume "sym_push pool v type (uint VT_CONST) 0 st = Inl (Redeclared u)"
    then show ?thesis by (simp add: declared_Redeclared)
  next
    fix s st1 A1 assume 1: "sym_push pool v type (uint VT_CONST) 0 st = Inr (s, st1)" "well_scoped st1 A1"
      "extends A st (\<lambda>_. 0) [s] A1 st1" "local_stack st1 \<noteq> 0"
    define st2 where "st2 = update_sym s (\<lambda>y. y\<lparr>s_c := low, s_scope := high\<rparr>) st1"
    have "\<not> alive A s" using 1(3) by (simp add: extends_def)
    from extends_value [OF 1(3) this] have e: "extends A st (\<lambda>_. 0) [s] A1 st2" by (simp add: st2_def)
    have l: "local_stack st2 = local_stack st1" by (simp add: st2_def update_sym_def)
    have "well_scoped st2 A1" unfolding l unfolding st2_def by (rule well_scoped_value [OF 1(2)])
    moreover have "declarable st2 ds" using e v(2) same_scope_declarable by (auto simp: extends_def)
    ultimately have "declared A1 st2 ds (declare_all pool ds st2)" using 3(1) [OF 1(1) refl 3(2)] 1(4) l by (simp add: st2_def)
    from declared_then [OF e this] show ?thesis using 1(1) by (simp add: st2_def)
  qed
next
  case (4 pool v t c ds st)
  have v: "v AND SYM_STRUCT = 0" "slot_of st v \<noteq> None \<or> anonymous v" "declarable st ds" using 4(5) by (simp_all add: nameable_def)
  obtain s st1 A1 where 1: "global_identifier_push pool v t c st = Inr (s, st1)" "well_scoped st1 A1"
    "extends A st (\<lambda>ps. of_bool (\<not> anonymous v \<and> slot_of st v = Some ps)) [] A1 st1" "local_stack st1 = local_stack st"
    using global_push_ok [OF 4(3) 4(2) v(1,2)] by blast
  then have "declarable st1 ds" using v(3) same_scope_declarable by (auto simp: extends_def)
  then have "declared A1 st1 ds (declare_all pool ds st1)" using 4(1) [OF 1(1) refl 4(2) 1(2)] 1(4) 4(4) by simp
  from declared_then [OF 1(3) this] show ?case using 1(1) by simp
next
  case (5 pool es keep ds st)
  obtain mark st1 where s: "new_scope_s st = (mark, st1)" by (cases "new_scope_s st")
  note d = declared_inside [OF 5(4) s] 
  have e: "declarable st es" "declarable st ds" using 5(6) by simp_all
  have "declared A st1 es (declare_all pool es st1)" by (rule 5(1) [OF s [symmetric] refl 5(3) d(1) _ d(2)]) (use 5(5) e(1) d(4) in simp_all)
  then show ?case
    unfolding declared_def [of A st1]
  proof (elim disjE exE conjE)
    fix u assume "declare_all pool es st1 = Inl (Redeclared u)"
    then show ?thesis using s by (simp add: declared_Redeclared)
  next
    fix st2 A2 N assume 2: "declare_all pool es st1 = Inr st2" "well_scoped st2 A2" "extends A st1 (globals st1 es) N A2 st2" "local_stack st2 \<noteq> 0"
    obtain st3 A3 M where 3: "prev_scope_names mark keep st2 = Inr st3" "well_scoped st3 A3" "extends A st (globals st es) M A3 st3"
      "if keep then local_stack st3 = local_stack st2 else M = [] \<and> local_stack st3 = local_stack st"
      using scope_end_ok [OF 5(4) 2(2) s 2(3), of keep] d(3) [OF e(1)] by auto
    have l: "local_stack st3 \<noteq> 0" using 3(4) 2(4) 5(5) by (auto split: if_splits)
    have "declarable st3 ds" using 3(3) e(2) same_scope_declarable by (auto simp: extends_def)
    then have "declared A3 st3 ds (declare_all pool ds st3)" using 5(2) [OF s [symmetric] refl 2(1) 3(1) 5(3)] 3(2) l by simp
    from declared_then [OF 3(3) this] show ?thesis using s 2(1) 3(1) by simp
  qed
qed

section \<open>Names after a scope\<close>

fun global_names :: "decl list \<Rightarrow> u32 set" where
  "global_names [] = {}"
| "global_names (Local v type r c # ds) = global_names ds"
| "global_names (Enumerator v type low high # ds) = global_names ds"
| "global_names (Global v t c # ds) = (if anonymous v then {} else {v}) \<union> global_names ds"
| "global_names (Scope es keep # ds) = global_names es \<union> global_names ds"

lemma global_token:
  "v AND SYM_STRUCT = 0 \<Longrightarrow> slot_of st v = (case token_index st v of None \<Rightarrow> None | Some i \<Rightarrow> Some (Identifier i))"
  by (auto simp: slot_of_def plain_token split: option.splits)

lemma globals_none:
  assumes "declarable st ds" and i: "token_index st v = Some i"
  shows "globals st ds (Identifier i) = 0 \<longleftrightarrow> v \<notin> global_names ds"
  using assms
proof (induction st ds "Identifier i" rule: globals.induct)
  case (4 st w t c ds)
  have "slot_of st w = Some (Identifier i) \<longleftrightarrow> w = v"
    using 4(2,3) by (auto simp: global_token token_index_def split: option.splits if_splits simp flip: word_unat_eq_iff)
  then show ?case using 4 by (auto simp: nameable_def)
qed auto

lemma globals_tags: "declarable st ds \<Longrightarrow> globals st ds (Struct_tag i) = 0"
  by (induction st ds "Struct_tag i" rule: globals.induct) (auto simp: global_token split: option.splits)

lemma extends_bound:
  assumes e: "extends A st c [] A' st'" and "is_head ps"
  shows "c ps = 0 \<Longrightarrow> bound_to A' ps = bound_to A ps" and "c ps \<noteq> 0 \<Longrightarrow> bound_to A' ps \<noteq> []"
proof -
  have l: "filter (alive A) (bound_to A' ps) = bound_to A ps" "length (filter (\<lambda>x. \<not> alive A x) (bound_to A' ps)) = c ps"
    using e assms(2) by (simp_all add: extends_def)
  show "bound_to A' ps = bound_to A ps" if "c ps = 0"
  proof -
    have "\<forall>x\<in>set (bound_to A' ps). alive A x" using l(2) that by (auto simp: filter_empty_conv)
    then show ?thesis using l(1) by (simp add: filter_alive)
  qed
  show "bound_to A' ps \<noteq> []" if "c ps \<noteq> 0" using l(2) that by auto
qed

lemma head_bound:
  assumes "well_scoped st A" "is_head ps"
  shows "read_slot st ps = (case bound_to A ps of [] \<Rightarrow> 0 | x # _ \<Rightarrow> x)"
  by (rule segment_head) (use assms in \<open>auto simp: well_scoped_at_def bindings_ok_def\<close>)

text \<open>C31: a scope leaves no trace.  However local names, enumerators, file-scope identifiers and scopes inside (their
  symbols freed, or kept for a statement expression) are declared in a scope, every declaration succeeds unless a name
  is declared twice in one scope, and after the end of the scope every identifier and tag means what it meant
  before, through every level of shadowing, but for identifiers declared at file scope, which are visible.\<close>

theorem scope_restores_names:
  assumes "0 < pool" and w: "well_scoped st A" and "local_stack st \<noteq> 0" and d: "declarable st ds"
  shows "(\<exists>v. declare_all pool [Scope ds False] st = Inl (Redeclared v)) \<or>
    (\<exists>st' A'. declare_all pool [Scope ds False] st = Inr st' \<and> well_scoped st' A'
       \<and> local_stack st' = local_stack st \<and> local_scope st' = local_scope st \<and> scoped_bindings st' = scoped_bindings st
       \<and> (\<forall>v. v \<notin> global_names ds \<longrightarrow> sym_find v st' = sym_find v st)
       \<and> (\<forall>v\<in>global_names ds. sym_find v st' \<noteq> 0)
       \<and> (\<forall>v. struct_find v st' = struct_find v st)
       \<and> (\<forall>ps. is_head ps \<longrightarrow> filter (alive A) (bound_to A' ps) = bound_to A ps)
       \<and> (\<forall>x. alive A x \<longrightarrow> contents st' x = contents st x))"
proof -
  obtain mark st1 where s: "new_scope_s st = (mark, st1)" by (cases "new_scope_s st")
  note inside = declared_inside [OF w s d]
  have "declared A st1 ds (declare_all pool ds st1)" by (rule declare_ok [OF assms(1) inside(1) _ inside(2)]) (use inside(4) assms(3) in simp)
  then consider (stop) u where "declare_all pool ds st1 = Inl (Redeclared u)"
    | (finished) st2 A2 N where "declare_all pool ds st1 = Inr st2" "well_scoped st2 A2" "extends A st1 (globals st1 ds) N A2 st2"
    unfolding declared_def by blast
  then show ?thesis
  proof cases
    case stop
    then show ?thesis using s by simp
  next
    case finished
    from scope_end_ok [OF w finished(2) s finished(3), of False]
    obtain st' A' where 3: "prev_scope_names mark False st2 = Inr st'" "well_scoped st' A'" "extends A st (globals st1 ds) [] A' st'"
      "local_stack st' = local_stack st" by auto
    note e = extends_bound [OF 3(3)] and hd = head_bound [OF w] and hd' = head_bound [OF 3(2)]
    have k: "same_scope st st'" "\<And>x. alive A x \<Longrightarrow> contents st' x = contents st x" "filter (alive A) (inner A') = inner A"
      "\<forall>x\<in>set (inner A'). alive A x" "\<forall>ps. is_head ps \<longrightarrow> filter (alive A) (bound_to A' ps) = bound_to A ps"
      using 3(3) by (simp_all add: extends_def)
    have tok: "token_index st' v = token_index st v" for v using k(1) by (simp add: same_scope_def token_index_def)
    have g: "globals st1 ds (Identifier i) = 0 \<longleftrightarrow> v \<notin> global_names ds" if "token_index st v = Some i" for v i
      using globals_none [OF d that] inside(3) by simp
    have "sym_find v st' = sym_find v st" if "v \<notin> global_names ds" for v
      using e(1) [of "Identifier _"] hd [of "Identifier _"] hd' [of "Identifier _"] g that
      by (auto simp: sym_find_def tok is_head_def read_slot_def split: option.splits)
    moreover have "sym_find v st' \<noteq> 0" if "v \<in> global_names ds" for v
    proof -
      have "slot_of st v \<noteq> None \<and> v AND SYM_STRUCT = 0" using that d
        by (induction st ds rule: declarable.induct) (auto simp: nameable_def split: if_splits)
      then obtain i where i: "token_index st v = Some i" by (auto simp: global_token split: option.splits)
      then have "bound_to A' (Identifier i) \<noteq> []" using e(2) [of "Identifier i"] g [OF i] that by (simp add: is_head_def)
      moreover have "0 \<notin> set (bound_to A' (Identifier i))"
        using alive_nonzero [OF 3(2)] by (auto simp: alive_def linked_in_def is_head_def)
      ultimately show ?thesis using hd' [of "Identifier i"] i
        by (cases "bound_to A' (Identifier i)") (auto simp: sym_find_def tok is_head_def read_slot_def)
    qed
    moreover have "struct_find v st' = struct_find v st" for v
    proof -
      have "structs st' i = structs st i" for i
        using e(1) [of "Struct_tag i"] hd [of "Struct_tag i"] hd' [of "Struct_tag i"] globals_tags [OF inside(2)]
        by (simp add: is_head_def read_slot_def)
      moreover have "alive A (structs st i)" if "structs st i \<noteq> 0" for i
      proof -
        have "structs st i \<in> set (bound_to A (Struct_tag i))"
          using hd [of "Struct_tag i"] that by (cases "bound_to A (Struct_tag i)") (simp_all add: is_head_def read_slot_def)
        then show ?thesis unfolding alive_def linked_in_def is_head_def by (intro disjI2 exI [of _ "Struct_tag i"]) simp
      qed
      ultimately show ?thesis using contents_eqD [OF k(2)]
        by (auto simp: struct_find_def tok Let_def split: option.splits)
    qed
    moreover have "scoped_bindings st' = scoped_bindings st"
    proof -
      have "inner A' = inner A" using k(3,4) by (simp add: filter_alive)
      then show ?thesis using w 3(2) segment_head unfolding well_scoped_at_def binding_list_def by metis
    qed
    moreover have "local_scope st' = local_scope st" using k(1) by (simp add: same_scope_def)
    moreover have "declare_all pool [Scope ds False] st = Inr st'" using s finished(1) 3(1) by simp
    ultimately show ?thesis using 3(2,4) k(2,5) by blast
  qed
qed

text \<open>Inside a function, with nothing declared yet: the local stack holds the mark \<open>SYM_FIELD\<close> of the parameters.\<close>

definition in_function :: scopes where
  "in_function = \<lparr>heap = (\<lambda>_. zero_symbol)(1 := zero_symbol\<lparr>s_v := SYM_FIELD\<rparr>), fresh = 2, sym_free_first = 0, tok_ident = 300,
     identifiers = (\<lambda>_. 0), structs = (\<lambda>_. 0), global_stack = 0, local_stack = 1, scoped_bindings = 0, local_scope = 1,
     cpp_global_decl_serial = 0, cpp_this_name_tok = 0, cpp_lambda_this_name_tok = 0, cpp_this_binding_seen = False,
     nb_using_namespace_toks = 0\<rparr>"

definition no_names :: names where
  "no_names = \<lparr>bound_to = (\<lambda>_. []), inner = [], on_stack = [1], unused = []\<rparr>"

definition some_decls :: "decl list" where
  "some_decls = [Local 260 \<lparr>ct_t = VT_INT, ct_ref = 0\<rparr> 50 (- 8), Global 261 VT_INT 0,
     Scope [Local 260 \<lparr>ct_t = VT_BYTE, ct_ref = 0\<rparr> 50 (- 16)] True]"

theorem scope_restores_names_witness:
  "\<exists>st'. declare_all 2 [Scope some_decls False] in_function = Inr st' \<and> sym_find 260 st' = 0 \<and> sym_find 261 st' \<noteq> 0
     \<and> local_stack st' = 1"
proof -
  have w: "well_scoped in_function no_names"
    by (auto simp: well_scoped_at_def in_function_def no_names_def bindings_ok_def binding_list_def alive_def linked_in_def
        is_head_def read_slot_def zero_symbol_def has_token_def SYM_FIELD_def SYM_STRUCT_def SYM_FIRST_ANOM_def TOK_IDENT_def
        split: slot.splits)
  have d: "declarable in_function some_decls"
    by (simp add: some_decls_def nameable_def slot_of_def token_index_def in_function_def TOK_IDENT_def SYM_STRUCT_def)
  have g: "global_names some_decls = {261}"
    by (simp add: some_decls_def anonymous_def SYM_FIRST_ANOM_def SYM_STRUCT_def)
  have "case declare_all 2 [Scope some_decls False] in_function of Inl e \<Rightarrow> False | Inr st \<Rightarrow> True" by code_simp
  moreover have "local_stack in_function = 1" "sym_find 260 in_function = 0"
    by (simp_all add: in_function_def sym_find_def token_index_def TOK_IDENT_def)
  ultimately show ?thesis using scope_restores_names [OF _ w _ d, of 2] unfolding g by auto
qed

end
