(* ===== verification/StaticGuard.thy ===== *)
theory StaticGuard imports Prelude
begin

text \<open>
  Initialisation of static objects by several threads: \<open>__cpc_static_acquire\<close>, \<open>__cpc_static_release\<close> and
  \<open>__cpc_static_abort\<close> of \<^verbatim>\<open>src/src/runtime/windows/wincompat.c\<close>, one step per access to what threads share.  The lock
  and the condition variable of Windows have their documented meaning: one thread holds the lock, sleeping gives the
  lock up and takes it again after waking, and a thread may wake for no reason.  The static objects themselves are
  destroyed through a list, the last one first.
\<close>

section \<open>The guard\<close>

text \<open>Where a thread is.  \<open>Past\<close> is after the declaration of the object, with the object constructed.\<close>

datatype position =
    Outside
  | Check
  | Enter
  | Test
  | Sleeping
  | Leave bool
  | Constructing
  | Finish_enter u32
  | Finish_store u32
  | Finish_wake u32
  | Finish_leave u32
  | Past

record static_guard =
  guard :: u32
  owner :: "nat option"
  at :: "nat \<Rightarrow> position"
  constructed :: nat

definition move :: "nat \<Rightarrow> position \<Rightarrow> static_guard \<Rightarrow> static_guard" where
  "move t p st = st\<lparr>at := (at st)(t := p)\<rparr>"

definition take_lock :: "nat \<Rightarrow> position \<Rightarrow> static_guard \<Rightarrow> static_guard option" where
  "take_lock t p st = (if owner st = None then Some (move t p (st\<lparr>owner := Some t\<rparr>)) else None)"

definition static_acquire_step :: "nat \<Rightarrow> static_guard \<Rightarrow> static_guard option" where
  "static_acquire_step t st =
     (case at st t of
        Check \<Rightarrow> Some (move t (if guard st = 2 then Past else Enter) st)
      | Enter \<Rightarrow> take_lock t Test st
      | Test \<Rightarrow>
          Some (if guard st = 1 then move t Sleeping (st\<lparr>owner := None\<rparr>)
                else if guard st = 0 then move t (Leave True) (st\<lparr>guard := 1\<rparr>)
                else move t (Leave False) st)
      | Leave initialize \<Rightarrow> Some (move t (if initialize then Constructing else Past) (st\<lparr>owner := None\<rparr>))
      | _ \<Rightarrow> None)"

definition wake_all :: "static_guard \<Rightarrow> static_guard" where
  "wake_all st = st\<lparr>at := (\<lambda>u. if at st u = Sleeping then Enter else at st u)\<rparr>"

definition static_finish_step :: "nat \<Rightarrow> static_guard \<Rightarrow> static_guard option" where
  "static_finish_step t st =
     (case at st t of
        Finish_enter v \<Rightarrow> take_lock t (Finish_store v) st
      | Finish_store v \<Rightarrow> Some (move t (Finish_wake v) (st\<lparr>guard := v\<rparr>))
      | Finish_wake v \<Rightarrow> Some (move t (Finish_leave v) (wake_all st))
      | Finish_leave v \<Rightarrow> Some (move t (if v = 2 then Past else Outside) (st\<lparr>owner := None\<rparr>))
      | _ \<Rightarrow> None)"

definition static_release :: "nat \<Rightarrow> static_guard \<Rightarrow> static_guard" where
  "static_release t st = move t (Finish_enter 2) st"

definition static_abort :: "nat \<Rightarrow> static_guard \<Rightarrow> static_guard" where
  "static_abort t st = move t (Finish_enter 0) st"

text \<open>The code of a declaration calls \<open>__cpc_static_acquire\<close>; if it is to initialise, it constructs the object and
  calls \<open>__cpc_static_release\<close>, or \<open>__cpc_static_abort\<close> when the constructor throws.\<close>

inductive static_step :: "static_guard \<Rightarrow> static_guard \<Rightarrow> bool" where
  reach: "at st t = Outside \<Longrightarrow> static_step st (move t Check st)"
| acquire: "static_acquire_step t st = Some st' \<Longrightarrow> static_step st st'"
| spurious: "at st t = Sleeping \<Longrightarrow> static_step st (move t Enter st)"
| built: "at st t = Constructing \<Longrightarrow> static_step st (static_release t (st\<lparr>constructed := constructed st + 1\<rparr>))"
| thrown: "at st t = Constructing \<Longrightarrow> static_step st (static_abort t st)"
| finish: "static_finish_step t st = Some st' \<Longrightarrow> static_step st st'"

definition not_initialised :: static_guard where
  "not_initialised = \<lparr>guard = 0, owner = None, at = (\<lambda>_. Outside), constructed = 0\<rparr>"

section \<open>The list of static objects\<close>

record destructor =
  d_object :: u64
  d_destroy :: u64
  d_count :: u64
  d_size :: u64

text \<open>A call of a destructor, which may register further objects; \<open>'m\<close> is what else it changes.\<close>

type_synonym 'm destroyer = "u64 \<Rightarrow> u64 \<Rightarrow> destructor list \<times> 'm \<Rightarrow> destructor list \<times> 'm"

text \<open>\<open>allocated\<close> says whether \<open>malloc\<close> had memory; otherwise the process aborts.  That the first registration makes
  the process run the list at its exit is left out.\<close>

definition register_static_destructor ::
  "bool \<Rightarrow> u64 \<Rightarrow> u64 \<Rightarrow> u64 \<Rightarrow> u64 \<Rightarrow> destructor list \<Rightarrow> destructor list option" where
  "register_static_destructor allocated object destroy count sz es =
     (if allocated then Some (\<lparr>d_object = object, d_destroy = destroy, d_count = count, d_size = sz\<rparr> # es) else None)"

primrec destroy_count :: "'m destroyer \<Rightarrow> u64 \<Rightarrow> u64 \<Rightarrow> u64 \<Rightarrow> nat \<Rightarrow> destructor list \<times> 'm \<Rightarrow> destructor list \<times> 'm" where
  "destroy_count call object destroy sz 0 s = s"
| "destroy_count call object destroy sz (Suc n) s =
     destroy_count call object destroy sz n (call destroy (object + of_nat n * sz) s)"

definition static_destroy_elements :: "'m destroyer \<Rightarrow> u64 \<Rightarrow> u64 \<Rightarrow> u64 \<Rightarrow> u64 \<Rightarrow> destructor list \<times> 'm \<Rightarrow> destructor list \<times> 'm" where
  "static_destroy_elements call object destroy count sz = destroy_count call object destroy sz (unat count)"

text \<open>Destructors that register objects for ever keep the loop from ending.\<close>

partial_function (option) run_static_destructors :: "'m destroyer \<Rightarrow> destructor list \<times> 'm \<Rightarrow> (destructor list \<times> 'm) option" where
  "run_static_destructors call s =
     (case fst s of
        [] \<Rightarrow> Some s
      | e # es \<Rightarrow>
          run_static_destructors call
            (static_destroy_elements call (d_object e) (d_destroy e) (d_count e) (d_size e) (es, snd s)))"

text \<open>Objects are destroyed in the reverse order of their registration, the elements of an array from the last to the first.\<close>

definition logged :: "(u64 \<times> u64) list destroyer" where
  "logged destroy object s = (fst s, snd s @ [(destroy, object)])"

definition calls_of :: "destructor \<Rightarrow> (u64 \<times> u64) list" where
  "calls_of e = map (\<lambda>n. (d_destroy e, d_object e + of_nat n * d_size e)) (rev [0..<unat (d_count e)])"

lemma destroy_count_logged:
  "destroy_count logged object destroy sz n s = (fst s, snd s @ map (\<lambda>n. (destroy, object + of_nat n * sz)) (rev [0..<n]))"
  by (induction n arbitrary: s) (simp_all add: logged_def)

lemma destroy_logged:
  "static_destroy_elements logged (d_object e) (d_destroy e) (d_count e) (d_size e) s = (fst s, snd s @ calls_of e)"
  by (simp only: static_destroy_elements_def destroy_count_logged calls_of_def)

lemma run_logged: "run_static_destructors logged (es, l) = Some ([], l @ concat (map calls_of es))"
proof (induction es arbitrary: l)
  case Nil
  show ?case by (subst run_static_destructors.simps) simp
next
  case (Cons e es)
  then show ?case
    by (subst run_static_destructors.simps) (simp add: destroy_logged)
qed

section \<open>The invariant\<close>

fun holds_lock :: "position \<Rightarrow> bool" where
  "holds_lock Test = True"
| "holds_lock (Leave i) = True"
| "holds_lock (Finish_store v) = True"
| "holds_lock (Finish_wake v) = True"
| "holds_lock (Finish_leave v) = True"
| "holds_lock _ = False"

fun initialises :: "position \<Rightarrow> bool" where
  "initialises (Leave i) = i"
| "initialises Constructing = True"
| "initialises (Finish_enter v) = True"
| "initialises (Finish_store v) = True"
| "initialises _ = False"

fun sees_object :: "position \<Rightarrow> bool" where
  "sees_object (Leave i) = (\<not> i)"
| "sees_object (Finish_wake v) = (v = 2)"
| "sees_object (Finish_leave v) = (v = 2)"
| "sees_object Past = True"
| "sees_object _ = False"

fun has_built :: "position \<Rightarrow> bool" where
  "has_built (Finish_enter v) = (v = 2)"
| "has_built (Finish_store v) = (v = 2)"
| "has_built _ = False"

fun wakes :: "position \<Rightarrow> bool" where
  "wakes (Finish_wake v) = True"
| "wakes _ = False"

fun valid_position :: "position \<Rightarrow> bool" where
  "valid_position (Finish_enter v) = (v = 0 \<or> v = 2)"
| "valid_position (Finish_store v) = (v = 0 \<or> v = 2)"
| "valid_position (Finish_wake v) = (v = 0 \<or> v = 2)"
| "valid_position (Finish_leave v) = (v = 0 \<or> v = 2)"
| "valid_position _ = True"

text \<open>\<open>i\<close> is the thread that initialises, if there is one.\<close>

definition guard_ok :: "nat option \<Rightarrow> static_guard \<Rightarrow> bool" where
  "guard_ok i st \<longleftrightarrow>
     guard st \<in> {0, 1, 2} \<and> (guard st = 1 \<longleftrightarrow> i \<noteq> None)
     \<and> (\<forall>t. owner st = Some t \<longleftrightarrow> holds_lock (at st t))
     \<and> (\<forall>t. i = Some t \<longleftrightarrow> initialises (at st t))
     \<and> (\<forall>t. sees_object (at st t) \<longrightarrow> guard st = 2)
     \<and> constructed st = of_bool (guard st = 2 \<or> (\<exists>t. i = Some t \<and> has_built (at st t)))
     \<and> (\<forall>t. at st t = Sleeping \<longrightarrow> guard st = 1 \<or> (\<exists>u. owner st = Some u \<and> wakes (at st u)))
     \<and> (\<forall>t. valid_position (at st t))"

lemma guard_ok_start: "guard_ok None not_initialised"
  by (simp add: guard_ok_def not_initialised_def)

end
