(* ===== verification/StaticGuardSpec.thy ===== *)
theory StaticGuardSpec imports StaticGuard
begin

text \<open>
  The guard's invariant is kept by every step of every thread, so a static object is constructed once, and no thread
  waits for ever.
\<close>

section \<open>Changes of one thread\<close>

lemma guard_okD:
  assumes "guard_ok i st"
  shows "guard st \<in> {0, 1, 2}" "guard st = 1 \<longleftrightarrow> i \<noteq> None" "owner st = Some t \<longleftrightarrow> holds_lock (at st t)"
    "i = Some t \<longleftrightarrow> initialises (at st t)" "sees_object (at st t) \<Longrightarrow> guard st = 2"
    "constructed st = of_bool (guard st = 2 \<or> (\<exists>t. i = Some t \<and> has_built (at st t)))"
    "at st t = Sleeping \<Longrightarrow> guard st = 1 \<or> (\<exists>u. owner st = Some u \<and> wakes (at st u))" "valid_position (at st t)"
  using assms unfolding guard_ok_def by blast+

lemma guard_ok_change:
  assumes ok: "guard_ok i st" and p: "at st' = (at st)(t := p)" "valid_position p"
    and g: "guard st' \<in> {0, 1, 2}" "guard st' = 1 \<longleftrightarrow> i' \<noteq> None" "guard st = 2 \<Longrightarrow> guard st' = 2"
    and l: "owner st' = (if holds_lock p then Some t else if owner st = Some t then None else owner st)"
      "holds_lock p \<Longrightarrow> owner st \<in> {None, Some t}"
    and i: "i' = (if initialises p then Some t else if i = Some t then None else i)" "initialises p \<Longrightarrow> i \<in> {None, Some t}"
    and s: "sees_object p \<Longrightarrow> guard st' = 2"
    and c: "constructed st' = of_bool (guard st' = 2 \<or> (\<exists>u. i' = Some u \<and> has_built (at st' u)))"
    and z: "\<And>u. at st' u = Sleeping \<Longrightarrow> guard st' = 1 \<or> (\<exists>w. owner st' = Some w \<and> wakes (at st' w))"
  shows "guard_ok i' st'"
proof -
  note o = guard_okD [OF ok]
  have "owner st' = Some u \<longleftrightarrow> holds_lock (at st' u)" for u
  proof (cases "u = t")
    case True then show ?thesis using l(1) p(1) by simp
  next
    case False
    then show ?thesis using l p(1) o(3) [of u] by (auto split: if_splits)
  qed
  moreover have "i' = Some u \<longleftrightarrow> initialises (at st' u)" for u
  proof (cases "u = t")
    case True then show ?thesis using i(1) p(1) by simp
  next
    case False
    then show ?thesis using i p(1) o(4) [of u] by (auto split: if_splits)
  qed
  moreover have "sees_object (at st' u) \<Longrightarrow> guard st' = 2" for u using s g(3) p(1) o(5) [of u] by (cases "u = t") auto
  moreover have "valid_position (at st' u)" for u using p o(8) [of u] by (cases "u = t") auto
  ultimately show ?thesis using g(1,2) c z unfolding guard_ok_def by blast
qed

section \<open>Every step keeps it\<close>

lemma move_at: "at (move t p st) = (at st)(t := p)"
  and move_rest: "guard (move t p st) = guard st" "owner (move t p st) = owner st" "constructed (move t p st) = constructed st"
  by (simp_all add: move_def)

lemma sleepers_stay:
  assumes "guard_ok i st" "\<not> wakes (at st t)" "p \<noteq> Sleeping \<or> guard st = 1" "u = t \<or> at st u = Sleeping" "((at st)(t := p)) u = Sleeping"
  shows "guard st = 1 \<or> (\<exists>w. owner st = Some w \<and> wakes (((at st)(t := p)) w))"
proof (cases "u = t")
  case True then show ?thesis using assms(3,5) by simp
next
  case False
  then have "guard st = 1 \<or> (\<exists>w. owner st = Some w \<and> wakes (at st w))" using assms(4) guard_okD(7) [OF assms(1)] by blast
  then show ?thesis using assms(2) by (metis fun_upd_apply)
qed

lemma guard_ok_quiet:
  assumes ok: "guard_ok i st" and p: "valid_position p" "\<not> holds_lock p" "p \<noteq> Sleeping"
    and q: "\<not> holds_lock (at st t)" "\<not> wakes (at st t)" "initialises p = initialises (at st t)" "has_built p = has_built (at st t)"
    and s: "sees_object p \<Longrightarrow> guard st = 2"
  shows "guard_ok i (move t p st)"
proof (rule guard_ok_change [OF ok move_at p(1)])
  note o = guard_okD [OF ok]
  show "guard (move t p st) \<in> {0, 1, 2}" using o(1) by (simp add: move_rest)
  show "guard (move t p st) = 1 \<longleftrightarrow> i \<noteq> None" using o(2) by (simp add: move_rest)
  show "owner (move t p st) = (if holds_lock p then Some t else if owner st = Some t then None else owner st)"
    using p(2) q(1) o(3) by (simp add: move_rest)
  show "i = (if initialises p then Some t else if i = Some t then None else i)" using q(3) o(4) [of t] by auto
  show "initialises p \<Longrightarrow> i \<in> {None, Some t}" using q(3) o(4) [of t] by simp
  show "constructed (move t p st) = of_bool (guard (move t p st) = 2 \<or> (\<exists>u. i = Some u \<and> has_built (at (move t p st) u)))"
    using o(6) q(4) by (auto simp: move_rest move_at)
  show "guard (move t p st) = 1 \<or> (\<exists>w. owner (move t p st) = Some w \<and> wakes (at (move t p st) w))" if "at (move t p st) u = Sleeping" for u
    using sleepers_stay [OF ok q(2), of p u] p(3) that unfolding move_at move_rest by (metis fun_upd_apply)
qed (use p(2) s in \<open>simp_all add: move_rest\<close>)

lemma guard_ok_lock:
  assumes ok: "guard_ok i st" and e: "take_lock t p st = Some st'"
    and p: "valid_position p" "holds_lock p" "\<not> sees_object p" and q: "\<not> holds_lock (at st t)" "\<not> wakes (at st t)"
      "initialises p = initialises (at st t)" "has_built p = has_built (at st t)"
  shows "guard_ok i st'"
proof -
  note o = guard_okD [OF ok]
  have f: "owner st = None" and st': "st' = move t p (st\<lparr>owner := Some t\<rparr>)" using e by (auto simp: take_lock_def split: if_splits)
  show ?thesis
  proof (rule guard_ok_change [OF ok])
    show "at st' = (at st)(t := p)" by (simp add: st' move_def)
    show "guard st' \<in> {0, 1, 2}" "guard st' = 1 \<longleftrightarrow> i \<noteq> None" using o(1,2) by (simp_all add: st' move_rest)
    show "i = (if initialises p then Some t else if i = Some t then None else i)" using q(3) o(4) [of t] by auto
    show "initialises p \<Longrightarrow> i \<in> {None, Some t}" using q(3) o(4) [of t] by simp
    show "constructed st' = of_bool (guard st' = 2 \<or> (\<exists>u. i = Some u \<and> has_built (at st' u)))"
      using o(6) q(4) by (auto simp: st' move_rest move_at)
    show "guard st' = 1 \<or> (\<exists>w. owner st' = Some w \<and> wakes (at st' w))" if "at st' u = Sleeping" for u
      using o(7) [of u] that f p(2) by (auto simp: st' move_rest move_at split: if_splits)
  qed (use p f in \<open>simp_all add: st' move_rest\<close>)
qed

lemma guard_ok_unlock:
  assumes ok: "guard_ok i st" and p: "valid_position p" "\<not> holds_lock p" "p \<noteq> Sleeping \<or> guard st = 1"
    and q: "holds_lock (at st t)" "\<not> wakes (at st t)" "initialises p = initialises (at st t)" "has_built p = has_built (at st t)"
    and s: "sees_object p \<Longrightarrow> guard st = 2" and awake: "guard st = 1 \<or> (\<forall>u. at st u \<noteq> Sleeping)"
  shows "guard_ok i (move t p (st\<lparr>owner := None\<rparr>))"
proof -
  note o = guard_okD [OF ok]
  have l: "owner st = Some t" using o(3) q(1) by simp
  show ?thesis
  proof (rule guard_ok_change [OF ok])
    show "at (move t p (st\<lparr>owner := None\<rparr>)) = (at st)(t := p)" by (simp add: move_def)
    show "guard (move t p (st\<lparr>owner := None\<rparr>)) \<in> {0, 1, 2}" "guard (move t p (st\<lparr>owner := None\<rparr>)) = 1 \<longleftrightarrow> i \<noteq> None"
      using o(1,2) by (simp_all add: move_rest)
    show "i = (if initialises p then Some t else if i = Some t then None else i)" using q(3) o(4) [of t] by auto
    show "initialises p \<Longrightarrow> i \<in> {None, Some t}" using q(3) o(4) [of t] by simp
    show "constructed (move t p (st\<lparr>owner := None\<rparr>)) = of_bool (guard (move t p (st\<lparr>owner := None\<rparr>)) = 2 \<or>
        (\<exists>u. i = Some u \<and> has_built (at (move t p (st\<lparr>owner := None\<rparr>)) u)))"
      using o(6) q(4) by (auto simp: move_rest move_at)
    show "guard (move t p (st\<lparr>owner := None\<rparr>)) = 1 \<or> (\<exists>w. owner (move t p (st\<lparr>owner := None\<rparr>)) = Some w \<and> wakes (at (move t p (st\<lparr>owner := None\<rparr>)) w))"
      if "at (move t p (st\<lparr>owner := None\<rparr>)) u = Sleeping" for u
      using awake p(3) that by (auto simp: move_rest move_at split: if_splits)
  qed (use p s l in \<open>simp_all add: move_rest\<close>)
qed

lemma guard_ok_wake_all: "guard_ok i st \<Longrightarrow> guard_ok i (wake_all st)"
proof -
  assume ok: "guard_ok i st"
  have same: "holds_lock (at (wake_all st) u) = holds_lock (at st u)" "initialises (at (wake_all st) u) = initialises (at st u)"
    "sees_object (at (wake_all st) u) = sees_object (at st u)" "has_built (at (wake_all st) u) = has_built (at st u)"
    "valid_position (at (wake_all st) u) = valid_position (at st u)" "at (wake_all st) u \<noteq> Sleeping" for u
    by (simp_all add: wake_all_def)
  have rest: "guard (wake_all st) = guard st" "owner (wake_all st) = owner st" "constructed (wake_all st) = constructed st"
    by (simp_all add: wake_all_def)
  have "\<forall>u. at (wake_all st) u = Sleeping \<longrightarrow> X" for X using same(6) by blast
  then show ?thesis using ok unfolding guard_ok_def same(1-5) rest by blast
qed


lemma acquire_ok: "guard_ok i st \<Longrightarrow> static_acquire_step t st = Some st' \<Longrightarrow> \<exists>j. guard_ok j st'"
proof -
  assume ok: "guard_ok i st" and e: "static_acquire_step t st = Some st'"
  note o = guard_okD [OF ok]
  consider (check) "at st t = Check" | (enter) "at st t = Enter" | (test) "at st t = Test" | (leave) b where "at st t = Leave b"
    using e by (cases "at st t") (auto simp: static_acquire_step_def)
  then show ?thesis
  proof cases
    case check
    then have "st' = move t (if guard st = 2 then Past else Enter) st" using e by (simp add: static_acquire_step_def)
    moreover have "guard_ok i (move t (if guard st = 2 then Past else Enter) st)" by (rule guard_ok_quiet [OF ok]) (use check in \<open>auto split: if_splits\<close>)
    ultimately show ?thesis by blast
  next
    case enter
    then have "take_lock t Test st = Some st'" using e by (simp add: static_acquire_step_def)
    then have "guard_ok i st'" by (rule guard_ok_lock [OF ok]) (use enter in auto)
    then show ?thesis by blast
  next
    case test
    have l: "owner st = Some t" using o(3) test by simp
    consider "guard st = 1" | "guard st = 0" | "guard st = 2" using o(1) by auto
    then show ?thesis
    proof cases
      case 1
      then have "st' = move t Sleeping (st\<lparr>owner := None\<rparr>)" using e test by (simp add: static_acquire_step_def)
      moreover have "guard_ok i (move t Sleeping (st\<lparr>owner := None\<rparr>))" by (rule guard_ok_unlock [OF ok]) (use test 1 in auto)
      ultimately show ?thesis by blast
    next
      case 2
      then have st': "st' = move t (Leave True) (st\<lparr>guard := 1\<rparr>)" using e test by (simp add: static_acquire_step_def)
      have n: "i = None" using o(2) 2 by auto
      have "guard_ok (Some t) st'"
      proof (rule guard_ok_change [OF ok])
        show "at st' = (at st)(t := Leave True)" by (simp add: st' move_def)
        show "constructed st' = of_bool (guard st' = 2 \<or> (\<exists>u. Some t = Some u \<and> has_built (at st' u)))"
          using o(6) n 2 by (simp add: st' move_rest move_at)
      qed (use l n 2 in \<open>simp_all add: st' move_rest\<close>)
      then show ?thesis by blast
    next
      case 3
      then have st': "st' = move t (Leave False) st" using e test by (simp add: static_acquire_step_def)
      have "guard_ok i st'"
      proof (rule guard_ok_change [OF ok])
        show "at st' = (at st)(t := Leave False)" by (simp add: st' move_def)
        show "i = (if initialises (Leave False) then Some t else if i = Some t then None else i)" using o(4) [of t] test by auto
        show "guard st' = 1 \<longleftrightarrow> i \<noteq> None" using o(2) by (simp add: st' move_rest)
        show "constructed st' = of_bool (guard st' = 2 \<or> (\<exists>u. i = Some u \<and> has_built (at st' u)))"
          using o(6) 3 by (simp add: st' move_rest)
        show "guard st' = 1 \<or> (\<exists>w. owner st' = Some w \<and> wakes (at st' w))" if "at st' u = Sleeping" for u
          using o(7) [of u] that l test 3 by (auto simp: st' move_at split: if_splits)
      qed (use l 3 in \<open>simp_all add: st' move_rest\<close>)
      then show ?thesis by blast
    qed
  next
    case (leave b)
    have l: "owner st = Some t" using o(3) leave by simp
    have st': "st' = move t (if b then Constructing else Past) (st\<lparr>owner := None\<rparr>)" using e leave by (simp add: static_acquire_step_def)
    have "guard st = 1 \<or> (\<forall>u. at st u \<noteq> Sleeping)" using o(7) l leave by auto
    moreover have "\<not> b \<Longrightarrow> guard st = 2" using o(5) [of t] leave by simp
    ultimately have "guard_ok i st'" unfolding st' by (intro guard_ok_unlock [OF ok]) (use leave in \<open>auto split: if_splits\<close>)
    then show ?thesis by blast
  qed
qed

lemma finish_ok: "guard_ok i st \<Longrightarrow> static_finish_step t st = Some st' \<Longrightarrow> \<exists>j. guard_ok j st'"
proof -
  assume ok: "guard_ok i st" and e: "static_finish_step t st = Some st'"
  note o = guard_okD [OF ok]
  have val: "v = 0 \<or> v = 2" if "at st t \<in> {Finish_enter v, Finish_store v, Finish_wake v, Finish_leave v}" for v
    using o(8) [of t] that by auto
  consider (enter) v where "at st t = Finish_enter v" | (store) v where "at st t = Finish_store v"
    | (wake) v where "at st t = Finish_wake v" | (leave) v where "at st t = Finish_leave v"
    using e by (cases "at st t") (auto simp: static_finish_step_def)
  then show ?thesis
  proof cases
    case (enter v)
    then have "take_lock t (Finish_store v) st = Some st'" using e by (simp add: static_finish_step_def)
    then have "guard_ok i st'" by (rule guard_ok_lock [OF ok]) (use enter val [of v] in auto)
    then show ?thesis by blast
  next
    case (store v)
    have l: "owner st = Some t" using o(3) store by simp
    have i: "i = Some t" using o(4) store by simp
    have st': "st' = move t (Finish_wake v) (st\<lparr>guard := v\<rparr>)" using e store by (simp add: static_finish_step_def)
    have "guard_ok None st'"
    proof (rule guard_ok_change [OF ok])
      show "at st' = (at st)(t := Finish_wake v)" by (simp add: st' move_def)
      show "guard st' = 1 \<longleftrightarrow> None \<noteq> None" using val [of v] store by (auto simp: st' move_rest)
      show "guard st' = 2" if "guard st = 2" using that o(2) i by simp
      show "guard st' \<in> {0, 1, 2}" using val [of v] store by (auto simp: st' move_rest)
      show "constructed st' = of_bool (guard st' = 2 \<or> (\<exists>u. None = Some u \<and> has_built (at st' u)))"
        using o(2,6) i store by (auto simp: st' move_rest)
    qed (use l i val [of v] store in \<open>auto simp: st' move_rest move_at\<close>)
    then show ?thesis by blast
  next
    case (wake v)
    have st': "st' = move t (Finish_leave v) (wake_all st)" using e wake by (simp add: static_finish_step_def)
    have at: "at (wake_all st) t = Finish_wake v" using wake by (simp add: wake_all_def)
    note ok' = guard_ok_wake_all [OF ok]
    note o' = guard_okD [OF ok']
    have l: "owner (wake_all st) = Some t" using o'(3) at by simp
    have "guard_ok i st'"
    proof (rule guard_ok_change [OF ok'])
      show "at st' = (at (wake_all st))(t := Finish_leave v)" by (simp add: st' move_def)
      show "guard st' \<in> {0, 1, 2}" "guard st' = 1 \<longleftrightarrow> i \<noteq> None" using o'(1,2) by (simp_all add: st' move_rest)
      show "i = (if initialises (Finish_leave v) then Some t else if i = Some t then None else i)" using o'(4) [of t] at by auto
      show "constructed st' = of_bool (guard st' = 2 \<or> (\<exists>u. i = Some u \<and> has_built (at st' u)))"
      proof -
        have "has_built (at st' u) = has_built (at (wake_all st) u)" for u using at by (simp add: st' move_at)
        then show ?thesis using o'(6) by (simp add: st' move_rest)
      qed
      show "guard st' = 1 \<or> (\<exists>w. owner st' = Some w \<and> wakes (at st' w))" if "at st' u = Sleeping" for u
        using that by (simp add: st' move_at wake_all_def split: if_splits)
      show "sees_object (Finish_leave v) \<Longrightarrow> guard st' = 2" using o'(5) [of t] at by (simp add: st' move_rest)
    qed (use l val [of v] wake in \<open>auto simp: st' move_rest\<close>)
    then show ?thesis by blast
  next
    case (leave v)
    have l: "owner st = Some t" using o(3) leave by simp
    have st': "st' = move t (if v = 2 then Past else Outside) (st\<lparr>owner := None\<rparr>)" using e leave by (simp add: static_finish_step_def)
    have "guard st = 1 \<or> (\<forall>u. at st u \<noteq> Sleeping)" using o(7) l leave by auto
    moreover have "v = 2 \<Longrightarrow> guard st = 2" using o(5) [of t] leave by simp
    ultimately have "guard_ok i st'" unfolding st' by (intro guard_ok_unlock [OF ok]) (use leave in \<open>auto split: if_splits\<close>)
    then show ?thesis by blast
  qed
qed


lemma initialise_ok:
  assumes ok: "guard_ok i st" and c: "at st t = Constructing" and v: "v = 0 \<and> d = 0 \<or> v = 2 \<and> d = 1"
  shows "guard_ok i (move t (Finish_enter v) (st\<lparr>constructed := constructed st + d\<rparr>))"
proof (rule guard_ok_change [OF ok])
  note o = guard_okD [OF ok]
  have i: "i = Some t" using o(4) c by simp
  show "at (move t (Finish_enter v) (st\<lparr>constructed := constructed st + d\<rparr>)) = (at st)(t := Finish_enter v)" by (simp add: move_def)
  show "guard (move t (Finish_enter v) (st\<lparr>constructed := constructed st + d\<rparr>)) \<in> {0, 1, 2}"
    "guard (move t (Finish_enter v) (st\<lparr>constructed := constructed st + d\<rparr>)) = 1 \<longleftrightarrow> i \<noteq> None"
    using o(1,2) by (simp_all add: move_rest)
  show "constructed (move t (Finish_enter v) (st\<lparr>constructed := constructed st + d\<rparr>))
      = of_bool (guard (move t (Finish_enter v) (st\<lparr>constructed := constructed st + d\<rparr>)) = 2 \<or>
        (\<exists>u. i = Some u \<and> has_built (at (move t (Finish_enter v) (st\<lparr>constructed := constructed st + d\<rparr>)) u)))"
    using o(2,6) i c v by (auto simp: move_rest move_at)
  show "guard (move t (Finish_enter v) (st\<lparr>constructed := constructed st + d\<rparr>)) = 1 \<or>
      (\<exists>w. owner (move t (Finish_enter v) (st\<lparr>constructed := constructed st + d\<rparr>)) = Some w
         \<and> wakes (at (move t (Finish_enter v) (st\<lparr>constructed := constructed st + d\<rparr>)) w))" for u
    using o(2) i by (simp add: move_rest)
  show "owner (move t (Finish_enter v) (st\<lparr>constructed := constructed st + d\<rparr>))
      = (if holds_lock (Finish_enter v) then Some t else if owner st = Some t then None else owner st)"
    using o(3) c by (simp add: move_rest)
qed (use v guard_okD(4) [OF ok, of t] c in \<open>auto simp: move_rest\<close>)

lemma step_ok: "static_step st st' \<Longrightarrow> guard_ok i st \<Longrightarrow> \<exists>j. guard_ok j st'"
proof (induction rule: static_step.induct)
  case (reach st t)
  have "guard_ok i (move t Check st)" by (rule guard_ok_quiet [OF reach(2)]) (use reach(1) in auto)
  then show ?case by blast
next
  case (acquire t st st')
  then show ?case using acquire_ok by blast
next
  case (spurious st t)
  have "guard_ok i (move t Enter st)" by (rule guard_ok_quiet [OF spurious(2)]) (use spurious(1) in auto)
  then show ?case by blast
next
  case (built st t)
  then show ?case using initialise_ok [OF built(2,1), of 2 1] by (auto simp: static_release_def)
next
  case (thrown st t)
  then show ?case using initialise_ok [OF thrown(2,1), of 0 0] by (auto simp: static_abort_def)
next
  case (finish t st st')
  then show ?case using finish_ok by blast
qed

lemma reachable_ok:
  assumes "static_step\<^sup>*\<^sup>* not_initialised st"
  shows "\<exists>i. guard_ok i st"
  using assms
proof induction
  case base show ?case using guard_ok_start by blast
next
  case (step st st') then show ?case using step_ok by blast
qed

lemma stays_initialised:
  assumes "static_step\<^sup>*\<^sup>* st st'" and "guard_ok i st" and "guard st = 2"
  shows "guard st' = 2 \<and> (\<exists>j. guard_ok j st')"
  using assms(1)
proof induction
  case base then show ?case using assms by blast
next
  case (step u u')
  then obtain j where j: "guard_ok j u" "guard u = 2" by blast
  note o = guard_okD [OF j(1)]
  have n: "\<not> initialises (at u t)" for t using o(2) [of] o(4) [of t] j(2) by simp
  have "guard u' = 2" using step(2) j(2)
  proof cases
    case (acquire t)
    then show ?thesis using j(2)
      by (auto simp: static_acquire_step_def take_lock_def move_rest split: position.splits if_splits)
  next
    case (finish t)
    then show ?thesis using j(2) n [of t]
      by (auto simp: static_finish_step_def take_lock_def move_rest wake_all_def split: position.splits if_splits)
  qed (auto simp: move_rest static_release_def static_abort_def)
  then show ?case using step_ok [OF step(2) j(1)] by blast
qed

section \<open>Construction happens once\<close>

text \<open>C32: static objects are constructed once.  In whatever order any number of threads reach the declaration of a
  static object, fall asleep, are woken (also for no reason), construct it or fail to, at most one of them is constructing
  it at a time and it is constructed at most once; a thread that has got past the declaration finds it constructed, and
  from then on no thread constructs it.\<close>

theorem static_constructed_once:
  assumes "static_step\<^sup>*\<^sup>* not_initialised st"
  shows "constructed st \<le> 1 \<and> (\<forall>t u. at st t = Constructing \<and> at st u = Constructing \<longrightarrow> t = u)
    \<and> (\<forall>t. at st t = Past \<longrightarrow> constructed st = 1
         \<and> (\<forall>st'. static_step\<^sup>*\<^sup>* st st' \<longrightarrow> constructed st' = 1 \<and> (\<forall>u. at st' u \<noteq> Constructing)))"
proof -
  obtain i where ok: "guard_ok i st" using reachable_ok [OF assms] by blast
  have once: "constructed x \<le> 1" "\<And>t. at x t = Constructing \<Longrightarrow> j = Some t" if "guard_ok j x" for j x
    using guard_okD(4,6) [OF that] by simp_all
  have past: "constructed x = 1" "at x u \<noteq> Constructing" if "guard_ok j x" "guard x = 2" for j x u
    using guard_okD(2,6) [OF that(1)] guard_okD(4) [OF that(1), of u] that(2) by auto
  have "t = u" if "at st t = Constructing" "at st u = Constructing" for t u
    using once(2) [OF ok that(1)] once(2) [OF ok that(2)] by simp
  moreover have "constructed st' = 1 \<and> (\<forall>u. at st' u \<noteq> Constructing)" if "at st t = Past" "static_step\<^sup>*\<^sup>* st st'" for t st'
  proof -
    have "guard st = 2" using guard_okD(5) [OF ok, of t] that(1) by simp
    from stays_initialised [OF that(2) ok this] show ?thesis using past by blast
  qed
  moreover have "constructed st = 1" if "at st t = Past" for t using guard_okD(5) [OF ok, of t] past(1) [OF ok] that by simp
  ultimately show ?thesis using once(1) [OF ok] by blast
qed

definition first_constructs :: static_guard where
  "first_constructs = \<lparr>guard = 1, owner = None, at = (\<lambda>_. Outside)(0 := Constructing, 1 := Sleeping), constructed = 0\<rparr>"

lemma first_constructs_reachable: "static_step\<^sup>*\<^sup>* not_initialised first_constructs"
proof -
  define s where "s g w p q = \<lparr>guard = g, owner = w, at = (\<lambda>_. Outside)(0 := p, 1 := q), constructed = 0\<rparr>" for g w p q
  have start: "s 0 None Outside Outside = not_initialised" by (auto simp: s_def not_initialised_def)
  have one: "static_step (s g w p Outside) (s g w p Check)" for g w p
    using static_step.reach [of "s g w p Outside" 1] by (simp add: s_def move_def)
  have zero: "static_step (s 0 None Outside Check) (s 0 None Check Check)"
    using static_step.reach [of "s 0 None Outside Check" 0] by (simp add: s_def move_def fun_upd_twist)
  have run: "static_acquire_step t x = Some y \<Longrightarrow> static_step x y" for t x y by (rule static_step.acquire)
  have "static_step (s 0 None Check Check) (s 0 None Enter Check)"
    "static_step (s 0 None Enter Check) (s 0 (Some 0) Test Check)" "static_step (s 0 (Some 0) Test Check) (s 1 (Some 0) (Leave True) Check)"
    "static_step (s 1 (Some 0) (Leave True) Check) (s 1 None Constructing Check)"
    by (rule run [of 0]; simp add: s_def static_acquire_step_def take_lock_def move_def fun_upd_twist)+
  moreover have "static_step (s 1 None Constructing Check) (s 1 None Constructing Enter)"
    "static_step (s 1 None Constructing Enter) (s 1 (Some 1) Constructing Test)"
    "static_step (s 1 (Some 1) Constructing Test) (s 1 None Constructing Sleeping)"
    by (rule run [of 1]; simp add: s_def static_acquire_step_def take_lock_def move_def)+
  moreover have "s 1 None Constructing Sleeping = first_constructs" by (simp add: s_def first_constructs_def)
  ultimately show ?thesis using one [of 0 None Outside] zero start
    by (metis (no_types, lifting) converse_rtranclp_into_rtranclp rtranclp.rtrancl_refl)
qed

theorem static_constructed_once_witness:
  "constructed first_constructs \<le> 1 \<and> {u. at first_constructs u = Constructing} = {0}"
proof -
  have "at first_constructs 0 = Constructing" by (simp add: first_constructs_def)
  then show ?thesis using static_constructed_once [OF first_constructs_reachable] by auto
qed

text \<open>C33: threads do not wait for ever.  In every state that can be reached, as long as no constructor is running, if some
  thread is on its way through acquiring or finishing then a thread can take its next step there: the lock is not
  lost, and no thread sleeps that nobody will wake.\<close>

theorem static_wait_ends:
  assumes "static_step\<^sup>*\<^sup>* not_initialised st" and "\<forall>u. at st u \<noteq> Constructing" and "at st t \<noteq> Outside" "at st t \<noteq> Past"
  shows "\<exists>u st'. static_acquire_step u st = Some st' \<or> static_finish_step u st = Some st'"
proof -
  obtain i where ok: "guard_ok i st" using reachable_ok [OF assms(1)] by blast
  note o = guard_okD [OF ok]
  show ?thesis
  proof (cases "owner st")
    case (Some u)
    then have "holds_lock (at st u)" using o(3) by simp
    then show ?thesis
      by (intro exI [of _ u]) (cases "at st u"; simp add: static_acquire_step_def static_finish_step_def)
  next
    case None
    then have free: "\<not> holds_lock (at st u)" for u using o(3) [of u] by simp
    show ?thesis
    proof (cases "at st t = Sleeping")
      case True
      then have "guard st = 1" using o(7) None by simp
      then obtain u where "initialises (at st u)" using o(2,4) by auto
      then obtain v where "at st u = Finish_enter v" using free [of u] assms(2) by (cases "at st u") auto
      then show ?thesis using None by (intro exI [of _ u]) (auto simp: static_finish_step_def take_lock_def)
    next
      case False
      then show ?thesis using None free [of t] assms(2-4)
        by (intro exI [of _ t]) (cases "at st t"; auto simp: static_acquire_step_def static_finish_step_def take_lock_def)
    qed
  qed
qed


theorem static_wait_ends_witness:
  "\<exists>st'. static_acquire_step 0 (static_release 0 (first_constructs\<lparr>constructed := 1\<rparr>)) = Some st'
    \<or> static_finish_step 0 (static_release 0 (first_constructs\<lparr>constructed := 1\<rparr>)) = Some st'"
proof -
  define st where "st = static_release 0 (first_constructs\<lparr>constructed := 1\<rparr>)"
  have "static_step first_constructs st"
    using static_step.built [of first_constructs 0] by (simp add: first_constructs_def st_def)
  with first_constructs_reachable have r: "static_step\<^sup>*\<^sup>* not_initialised st" by (rule rtranclp.rtrancl_into_rtrancl)
  have at: "at st = (\<lambda>_. Outside)(0 := Finish_enter 2, 1 := Sleeping)"
    by (auto simp: st_def static_release_def move_def first_constructs_def)
  have "\<exists>u st'. static_acquire_step u st = Some st' \<or> static_finish_step u st = Some st'"
    by (rule static_wait_ends [OF r, of 1]) (simp_all add: at)
  moreover have "u = 0" if "static_acquire_step u st = Some st' \<or> static_finish_step u st = Some st'" for u st'
    using that by (auto simp: static_acquire_step_def static_finish_step_def at split: if_splits)
  ultimately show ?thesis unfolding st_def by blast
qed

end
