(* ===== verification/AtomicOps.thy ===== *)
theory AtomicOps imports Prelude
begin

text \<open>
  The atomic operations of \<^verbatim>\<open>src/src/runtime/generic/stdatomic.c\<close>, one step per access to shared memory: the loops of
  \<open>ATOMIC_GEN_OP\<close> around a load and a compare-and-exchange (which the compiler generates), and the exchange of objects
  of any size under a spin lock.  Both are shown to act at one moment between call and return.
\<close>

section \<open>Scalar operations\<close>

datatype atomic_op =
    Exchange
  | Add_fetch | Sub_fetch | And_fetch | Or_fetch | Xor_fetch | Nand_fetch
  | Fetch_add | Fetch_sub | Fetch_and | Fetch_or | Fetch_xor | Fetch_nand

definition op_value :: "atomic_op \<Rightarrow> 'a::len word \<Rightarrow> 'a word \<Rightarrow> 'a word" where
  "op_value op cmp value1 =
     (case op of
        Exchange \<Rightarrow> value1
      | Add_fetch \<Rightarrow> cmp + value1 | Fetch_add \<Rightarrow> cmp + value1
      | Sub_fetch \<Rightarrow> cmp - value1 | Fetch_sub \<Rightarrow> cmp - value1
      | And_fetch \<Rightarrow> cmp AND value1 | Fetch_and \<Rightarrow> cmp AND value1
      | Or_fetch \<Rightarrow> cmp OR value1 | Fetch_or \<Rightarrow> cmp OR value1
      | Xor_fetch \<Rightarrow> cmp XOR value1 | Fetch_xor \<Rightarrow> cmp XOR value1
      | Nand_fetch \<Rightarrow> NOT (cmp AND value1) | Fetch_nand \<Rightarrow> NOT (cmp AND value1))"

definition op_result :: "atomic_op \<Rightarrow> 'a::len word \<Rightarrow> 'a word \<Rightarrow> 'a word" where
  "op_result op cmp xchg =
     (if op \<in> {Add_fetch, Sub_fetch, And_fetch, Or_fetch, Xor_fetch, Nand_fetch} then xchg else cmp)"

datatype 'a atomic_place = Idle | Load atomic_op 'a | Attempt atomic_op 'a 'a | Return atomic_op 'a 'a

text \<open>\<open>results\<close> is what the calls of each thread have returned.  \<open>history\<close> and \<open>loaded\<close> only record, for the
  specification: the operations in the order in which they took effect, and how many had when a thread read the cell.\<close>

record 'a atomic_state =
  cell :: 'a
  at :: "nat \<Rightarrow> 'a atomic_place"
  results :: "nat \<Rightarrow> (atomic_op \<times> 'a \<times> 'a) list"
  history :: "(nat \<times> atomic_op \<times> 'a \<times> 'a) list"
  loaded :: "nat \<Rightarrow> nat"

definition read_cell :: "nat \<Rightarrow> atomic_op \<Rightarrow> 'a::len word \<Rightarrow> 'a word atomic_state \<Rightarrow> 'a word atomic_state" where
  "read_cell t op v st = st\<lparr>at := (at st)(t := Attempt op v (cell st)), loaded := (loaded st)(t := length (history st))\<rparr>"

text \<open>The weak compare-and-exchange may fail without a reason; a failure stores the cell in \<open>cmp\<close>.\<close>

definition compare_exchange :: "bool \<Rightarrow> nat \<Rightarrow> atomic_op \<Rightarrow> 'a::len word \<Rightarrow> 'a word \<Rightarrow> 'a word atomic_state \<Rightarrow> 'a word atomic_state" where
  "compare_exchange fails t op v cmp st =
     (if cell st = cmp \<and> \<not> fails then
        let xchg = op_value op cmp v; ret = op_result op cmp xchg
        in st\<lparr>cell := xchg, at := (at st)(t := Return op v ret), history := history st @ [(t, op, v, ret)]\<rparr>
      else read_cell t op v st)"

inductive atomic_step :: "'a::len word atomic_state \<Rightarrow> 'a word atomic_state \<Rightarrow> bool" where
  begins: "at st t = Idle \<Longrightarrow> atomic_step st (st\<lparr>at := (at st)(t := Load op v)\<rparr>)"
| loads: "at st t = Load op v \<Longrightarrow> atomic_step st (read_cell t op v st)"
| attempts: "at st t = Attempt op v cmp \<Longrightarrow> atomic_step st (compare_exchange fails t op v cmp st)"
| returns: "at st t = Return op v ret \<Longrightarrow>
    atomic_step st (st\<lparr>at := (at st)(t := Idle), results := (results st)(t := results st t @ [(op, v, ret)])\<rparr>)"

definition atomic_start :: "'a::len word \<Rightarrow> 'a word atomic_state" where
  "atomic_start c = \<lparr>cell = c, at = (\<lambda>_. Idle), results = (\<lambda>_. []), history = [], loaded = (\<lambda>_. 0)\<rparr>"

text \<open>The operations one after the other, from the contents \<open>c\<close> to the contents \<open>c'\<close>.\<close>

primrec one_by_one :: "'a::len word \<Rightarrow> (nat \<times> atomic_op \<times> 'a word \<times> 'a word) list \<Rightarrow> 'a word \<Rightarrow> bool" where
  "one_by_one c [] c' \<longleftrightarrow> c = c'"
| "one_by_one c (x # xs) c' \<longleftrightarrow>
     (case x of (t, op, v, ret) \<Rightarrow> ret = op_result op c (op_value op c v) \<and> one_by_one (op_value op c v) xs c')"

lemma one_by_one_snoc:
  "one_by_one c (xs @ [(t, op, v, ret)]) c' \<longleftrightarrow>
     (\<exists>d. one_by_one c xs d \<and> ret = op_result op d (op_value op d v) \<and> c' = op_value op d v)"
  by (induction xs arbitrary: c) (auto split: prod.splits)

definition of_thread :: "nat \<Rightarrow> (nat \<times> atomic_op \<times> 'a \<times> 'a) list \<Rightarrow> (atomic_op \<times> 'a \<times> 'a) list" where
  "of_thread t h = map snd (filter (\<lambda>x. fst x = t) h)"

definition answered :: "'a atomic_place \<Rightarrow> (atomic_op \<times> 'a \<times> 'a) list" where
  "answered p = (case p of Return op v ret \<Rightarrow> [(op, v, ret)] | _ \<Rightarrow> [])"

lemma answered_simps [simp]:
  "answered Idle = []" "answered (Load op v) = []" "answered (Attempt op v c) = []" "answered (Return op v r) = [(op, v, r)]"
  by (simp_all add: answered_def)

definition atomic_ok :: "'a::len word \<Rightarrow> 'a word atomic_state \<Rightarrow> bool" where
  "atomic_ok c st \<longleftrightarrow> one_by_one c (history st) (cell st)
     \<and> (\<forall>t. of_thread t (history st) = results st t @ answered (at st t))
     \<and> (\<forall>t op v cmp. at st t = Attempt op v cmp \<longrightarrow>
          loaded st t \<le> length (history st) \<and> (cell st = cmp \<or> loaded st t < length (history st)))"

lemma of_thread_snoc: "of_thread t (h @ [(u, x)]) = of_thread t h @ (if u = t then [x] else [])"
  by (simp add: of_thread_def)

lemma atomic_ok_read:
  assumes "atomic_ok c st" "answered (at st t) = []"
  shows "atomic_ok c (read_cell t op v st)"
  using assms unfolding atomic_ok_def read_cell_def by simp

lemma atomic_ok_step:
  assumes "atomic_step st st'" and "atomic_ok c st"
  shows "atomic_ok c st'"
  using assms
proof (induction rule: atomic_step.induct)
  case (begins st t op v)
  then show ?case unfolding atomic_ok_def by simp
next
  case (loads st t op v)
  show ?case by (rule atomic_ok_read) (use loads in simp_all)
next
  case (attempts st t op v cmp fails)
  have bound: "loaded st u \<le> length (history st)" if "at st u = Attempt op' v' cmp'" for u op' v' cmp'
    using attempts(2) that unfolding atomic_ok_def by blast
  show ?case
  proof (cases "cell st = cmp \<and> \<not> fails")
    case True
    then show ?thesis using attempts bound
      unfolding atomic_ok_def compare_exchange_def
      by (auto simp: Let_def one_by_one_snoc of_thread_snoc le_SucI less_Suc_eq_le)
  next
    case False
    have "atomic_ok c (read_cell t op v st)" by (rule atomic_ok_read [OF attempts(2)]) (simp add: attempts(1))
    then show ?thesis using False by (auto simp: compare_exchange_def)
  qed
next
  case (returns st t op v ret)
  then show ?case unfolding atomic_ok_def by simp
qed


definition added_once :: "8 word atomic_state" where
  "added_once = \<lparr>cell = 4, at = (\<lambda>_. Idle)(0 := Return Fetch_add 5 255, 1 := Attempt Add_fetch 1 255),
     results = (\<lambda>_. []), history = [(0, Fetch_add, 5, 255)], loaded = (\<lambda>_. 0)\<rparr>"

lemma added_once_reachable: "atomic_step\<^sup>*\<^sup>* (atomic_start 255) added_once"
proof -
  define s where "s c p q h = \<lparr>cell = c, at = (\<lambda>_. Idle)(0 := p, 1 := q), results = (\<lambda>_. []), history = h, loaded = (\<lambda>_. 0)\<rparr>"
    for c :: "8 word" and p q h
  note upd = s_def atomic_start_def read_cell_def compare_exchange_def op_value_def op_result_def fun_upd_twist fun_upd_idem
  have wraps: "(260 :: 8 word) = 4" by simp
  have "s 255 Idle Idle [] = atomic_start 255" by (auto simp: upd)
  moreover have "atomic_step (s 255 Idle Idle []) (s 255 (Load Fetch_add 5) Idle [])"
    using begins [of "s 255 Idle Idle []" 0 Fetch_add 5] by (simp add: upd)
  moreover have "atomic_step (s 255 (Load Fetch_add 5) Idle []) (s 255 (Attempt Fetch_add 5 255) Idle [])"
    using loads [of "s 255 (Load Fetch_add 5) Idle []" 0] by (simp add: upd)
  moreover have "atomic_step (s 255 (Attempt Fetch_add 5 255) Idle []) (s 255 (Attempt Fetch_add 5 255) (Load Add_fetch 1) [])"
    using begins [of "s 255 (Attempt Fetch_add 5 255) Idle []" 1 Add_fetch 1] by (simp add: upd)
  moreover have "atomic_step (s 255 (Attempt Fetch_add 5 255) (Load Add_fetch 1) []) (s 255 (Attempt Fetch_add 5 255) (Attempt Add_fetch 1 255) [])"
    using loads [of "s 255 (Attempt Fetch_add 5 255) (Load Add_fetch 1) []" 1] by (simp add: upd)
  moreover have "atomic_step (s 255 (Attempt Fetch_add 5 255) (Attempt Add_fetch 1 255) []) added_once"
    using attempts [of "s 255 (Attempt Fetch_add 5 255) (Attempt Add_fetch 1 255) []" 0 Fetch_add 5 255 False]
    by (simp add: upd added_once_def Let_def wraps)
  ultimately show ?thesis by (metis (no_types, lifting) converse_rtranclp_into_rtranclp rtranclp.rtrancl_refl)
qed


section \<open>Which objects need no lock\<close>

definition is_lock_free :: "u64 \<Rightarrow> u64 \<Rightarrow> bool" where
  "is_lock_free sz ptr = (sz \<in> {1, 2, 4, 8} \<and> (ptr = 0 \<or> ptr AND (sz - 1) = 0))"

lemma is_lock_free_aligned: "is_lock_free sz ptr \<longleftrightarrow> uint sz \<in> {1, 2, 4, 8} \<and> uint ptr mod uint sz = 0"
proof -
  have low: "x AND mask n = 0 \<longleftrightarrow> uint x mod 2 ^ n = 0" for x :: u64 and n
    by (simp add: word_uint_eq_iff unsigned_take_bit_eq flip: take_bit_eq_mask) (simp add: take_bit_eq_mod)
  have m: "mask 0 = (0::u64)" "mask 1 = (1::u64)" "mask 2 = (3::u64)" "mask 3 = (7::u64)" by (simp_all add: mask_eq_exp_minus_1)
  have z: "uint sz = 1 \<longleftrightarrow> sz = 1" "uint sz = 2 \<longleftrightarrow> sz = 2" "uint sz = 4 \<longleftrightarrow> sz = 4" "uint sz = 8 \<longleftrightarrow> sz = 8"
    by (simp_all add: word_uint_eq_iff)
  show ?thesis unfolding is_lock_free_def
    using low [of ptr 1] low [of ptr 2] low [of ptr 3] by (auto simp: z m)
qed

end
