(* ===== verification/AtomicExchange.thy ===== *)
theory AtomicExchange imports Prelude
begin

text \<open>
  \<open>__cprime_atomic_exchange\<close> of \<^verbatim>\<open>src/src/runtime/generic/stdatomic.c\<close>, which exchanges objects of any size byte by byte
  under a spin lock: one step for each access to the lock and for each byte.
\<close>

text \<open>\<open>Saving i\<close> and \<open>Putting i\<close> are in the two loops, about to copy byte \<open>i\<close>.\<close>

datatype exchange_place = Away | Spinning | Saving nat | Putting nat | Unlocking

text \<open>\<open>src\<close> and \<open>old\<close> are what each call was given and what it has read so far.  \<open>exchanges\<close> records, for the specification,
  the calls in the order in which they released the lock: the bytes given and the bytes returned.\<close>

record exchange_state =
  spin :: u32
  dst :: "u8 list"
  src :: "nat \<Rightarrow> u8 list"
  old :: "nat \<Rightarrow> u8 list"
  place :: "nat \<Rightarrow> exchange_place"
  exchanges :: "(u8 list \<times> u8 list) list"

definition go :: "nat \<Rightarrow> exchange_place \<Rightarrow> exchange_state \<Rightarrow> exchange_state" where
  "go t p st = st\<lparr>place := (place st)(t := p)\<rparr>"

definition exchange_step :: "nat \<Rightarrow> nat \<Rightarrow> exchange_state \<Rightarrow> exchange_state option" where
  "exchange_step n t st =
     (case place st t of
        Away \<Rightarrow> None
      | Spinning \<Rightarrow> Some (go t (if spin st \<noteq> 0 then Spinning else Saving 0) (st\<lparr>spin := 1\<rparr>))
      | Saving i \<Rightarrow>
          Some (if i < n then go t (Saving (i + 1)) (st\<lparr>old := (old st)(t := (old st t)[i := dst st ! i])\<rparr>)
                else go t (Putting 0) st)
      | Putting i \<Rightarrow>
          Some (if i < n then go t (Putting (i + 1)) (st\<lparr>dst := (dst st)[i := src st t ! i]\<rparr>) else go t Unlocking st)
      | Unlocking \<Rightarrow> Some (go t Away (st\<lparr>spin := 0, exchanges := exchanges st @ [(src st t, old st t)]\<rparr>)))"

text \<open>A call brings the bytes to store and a place for the old ones.\<close>

inductive exchanging :: "nat \<Rightarrow> exchange_state \<Rightarrow> exchange_state \<Rightarrow> bool" for n where
  calls: "place st t = Away \<Longrightarrow> length v = n \<Longrightarrow> length w = n \<Longrightarrow>
    exchanging n st (go t Spinning (st\<lparr>src := (src st)(t := v), old := (old st)(t := w)\<rparr>))"
| runs: "exchange_step n t st = Some st' \<Longrightarrow> exchanging n st st'"

definition exchange_start :: "u8 list \<Rightarrow> exchange_state" where
  "exchange_start b = \<lparr>spin = 0, dst = b, src = (\<lambda>_. []), old = (\<lambda>_. []), place = (\<lambda>_. Away), exchanges = []\<rparr>"

text \<open>Each exchange returns what the one before it stored.\<close>

primrec in_turn :: "u8 list \<Rightarrow> (u8 list \<times> u8 list) list \<Rightarrow> u8 list" where
  "in_turn b [] = b"
| "in_turn b (x # xs) = in_turn (fst x) xs"

primrec chained :: "u8 list \<Rightarrow> (u8 list \<times> u8 list) list \<Rightarrow> bool" where
  "chained b [] = True"
| "chained b (x # xs) = (snd x = b \<and> chained (fst x) xs)"

lemma in_turn_snoc [simp]: "in_turn b (xs @ [x]) = fst x"
  by (induction xs arbitrary: b) auto

lemma chained_snoc [simp]: "chained b (xs @ [x]) \<longleftrightarrow> chained b xs \<and> snd x = in_turn b xs"
  by (induction xs arbitrary: b) auto

definition copying :: "exchange_place \<Rightarrow> bool" where
  "copying p = (p \<noteq> Away \<and> p \<noteq> Spinning)"

lemma copying_simps [simp]: "\<not> copying Away" "\<not> copying Spinning" "copying (Saving i)" "copying (Putting i)" "copying Unlocking"
  by (simp_all add: copying_def)

text \<open>What the thread in the critical section has done, when the object held \<open>b\<close>.\<close>

definition progress :: "nat \<Rightarrow> u8 list \<Rightarrow> exchange_place \<Rightarrow> u8 list \<Rightarrow> u8 list \<Rightarrow> u8 list \<Rightarrow> bool" where
  "progress n b p v w d =
     (case p of
        Saving i \<Rightarrow> i \<le> n \<and> take i w = take i b \<and> d = b
      | Putting i \<Rightarrow> i \<le> n \<and> w = b \<and> d = take i v @ drop i b
      | Unlocking \<Rightarrow> w = b \<and> d = v
      | _ \<Rightarrow> True)"

definition exchange_ok :: "nat \<Rightarrow> u8 list \<Rightarrow> nat option \<Rightarrow> exchange_state \<Rightarrow> bool" where
  "exchange_ok n b h st \<longleftrightarrow> length (dst st) = n \<and> length (in_turn b (exchanges st)) = n \<and> chained b (exchanges st)
     \<and> (spin st = 0 \<longleftrightarrow> h = None)
     \<and> (\<forall>t. copying (place st t) \<longleftrightarrow> h = Some t)
     \<and> (\<forall>t. place st t \<noteq> Away \<longrightarrow> length (src st t) = n \<and> length (old st t) = n)
     \<and> (case h of None \<Rightarrow> dst st = in_turn b (exchanges st)
        | Some t \<Rightarrow> progress n (in_turn b (exchanges st)) (place st t) (src st t) (old st t) (dst st))"

lemma progress_simps [simp]:
  "progress n b (Saving i) v w d \<longleftrightarrow> i \<le> n \<and> take i w = take i b \<and> d = b"
  "progress n b (Putting i) v w d \<longleftrightarrow> i \<le> n \<and> w = b \<and> d = take i v @ drop i b"
  "progress n b Unlocking v w d \<longleftrightarrow> w = b \<and> d = v"
  by (simp_all add: progress_def)

lemma copy_one: "i < length w \<Longrightarrow> i < length b \<Longrightarrow> take i w = take i b \<Longrightarrow> take (Suc i) (w[i := b ! i]) = take (Suc i) b"
  by (simp add: take_Suc_conv_app_nth)

lemma put_one: "i < length v \<Longrightarrow> length v = length b \<Longrightarrow> (take i v @ drop i b)[i := v ! i] = take (Suc i) v @ drop (Suc i) b"
  by (simp add: list_update_append take_Suc_conv_app_nth flip: Cons_nth_drop_Suc)

lemma exchange_okD:
  assumes "exchange_ok n b h st"
  shows "length (dst st) = n" "length (in_turn b (exchanges st)) = n" "chained b (exchanges st)" "spin st = 0 \<longleftrightarrow> h = None"
    "copying (place st t) \<longleftrightarrow> h = Some t" "place st t \<noteq> Away \<Longrightarrow> length (src st t) = n"
    "place st t \<noteq> Away \<Longrightarrow> length (old st t) = n" "h = None \<Longrightarrow> dst st = in_turn b (exchanges st)"
    "h = Some t \<Longrightarrow> progress n (in_turn b (exchanges st)) (place st t) (src st t) (old st t) (dst st)"
  using assms unfolding exchange_ok_def by (simp_all split: option.splits)

lemma exchange_ok_change:
  assumes ok: "exchange_ok n b h st" and at: "place st' = (place st)(t := p)"
    and h': "h' = (if copying p then Some t else if h = Some t then None else h)"
    and free: "copying p \<Longrightarrow> h = None \<or> h = Some t"
    and len: "length (dst st') = n" "length (in_turn b (exchanges st')) = n" and ch: "chained b (exchanges st')"
    and spin: "spin st' = 0 \<longleftrightarrow> h' = None"
    and rest: "\<And>u. u \<noteq> t \<Longrightarrow> src st' u = src st u \<and> old st' u = old st u"
    and own: "p \<noteq> Away \<Longrightarrow> length (src st' t) = n \<and> length (old st' t) = n"
    and object: "h' = None \<Longrightarrow> dst st' = in_turn b (exchanges st')"
    and mine: "copying p \<Longrightarrow> progress n (in_turn b (exchanges st')) p (src st' t) (old st' t) (dst st')"
    and others: "h' \<noteq> None \<Longrightarrow> \<not> copying p \<Longrightarrow> dst st' = dst st \<and> exchanges st' = exchanges st"
  shows "exchange_ok n b h' st'"
proof -
  note o = exchange_okD [OF ok]
  have "copying (place st' u) \<longleftrightarrow> h' = Some u" for u
    using o(5) [of u] h' free by (cases "u = t") (auto simp: at)
  moreover have "length (src st' u) = n \<and> length (old st' u) = n" if "place st' u \<noteq> Away" for u
    using that o(6,7) [of u] own rest [of u] by (cases "u = t") (auto simp: at)
  moreover have "case h' of None \<Rightarrow> dst st' = in_turn b (exchanges st')
      | Some u \<Rightarrow> progress n (in_turn b (exchanges st')) (place st' u) (src st' u) (old st' u) (dst st')"
  proof (cases h')
    case None then show ?thesis using object by simp
  next
    case (Some u)
    show ?thesis
    proof (cases "copying p")
      case True then show ?thesis using mine h' at by simp
    next
      case False
      then have "u \<noteq> t" "h = Some u" using Some h' by (auto split: if_splits)
      then show ?thesis using o(9) [of u] rest [of u] others Some False by (simp add: at)
    qed
  qed
  ultimately show ?thesis unfolding exchange_ok_def using len ch spin by simp
qed

lemma exchange_ok_step:
  assumes ok: "exchange_ok n b h st" and s: "exchange_step n t st = Some st'"
  shows "\<exists>h'. exchange_ok n b h' st'"
proof -
  note o = exchange_okD [OF ok]
  show ?thesis
  proof (cases "place st t")
    case Away then show ?thesis using s by (simp add: exchange_step_def)
  next
    case Spinning
    have ht: "h \<noteq> Some t" using o(5) [of t] Spinning by simp
    show ?thesis
    proof (cases "spin st = 0")
      case True
      have "exchange_ok n b (Some t) st'"
        by (rule exchange_ok_change [OF ok, where t = t and p = "Saving 0"])
          (use s True Spinning o ht in \<open>auto simp: exchange_step_def go_def\<close>)
      then show ?thesis by blast
    next
      case False
      have "exchange_ok n b h st'"
        by (rule exchange_ok_change [OF ok, where t = t and p = Spinning])
          (use s False Spinning o ht in \<open>auto simp: exchange_step_def go_def\<close>)
      then show ?thesis by blast
    qed
  next
    case (Saving i)
    have h: "h = Some t" using o(5) [of t] Saving by simp
    note p = o(9) [OF h, unfolded Saving progress_simps]
    show ?thesis
    proof (cases "i < n")
      case True
      have "take (Suc i) ((old st t)[i := dst st ! i]) = take (Suc i) (in_turn b (exchanges st))"
        using copy_one [of i "old st t" "in_turn b (exchanges st)"] p True o(2) o(7) [of t] Saving by simp
      then have "exchange_ok n b (Some t) st'"
        by (intro exchange_ok_change [OF ok, where t = t and p = "Saving (Suc i)"])
          (use s True Saving o h p in \<open>auto simp: exchange_step_def go_def\<close>)
      then show ?thesis by blast
    next
      case False
      then have "old st t = in_turn b (exchanges st)" using p o(2) o(7) [of t] Saving by simp
      then have "exchange_ok n b (Some t) st'"
        by (intro exchange_ok_change [OF ok, where t = t and p = "Putting 0"])
          (use s False Saving o h p in \<open>auto simp: exchange_step_def go_def\<close>)
      then show ?thesis by blast
    qed
  next
    case (Putting i)
    have h: "h = Some t" using o(5) [of t] Putting by simp
    note p = o(9) [OF h, unfolded Putting progress_simps]
    show ?thesis
    proof (cases "i < n")
      case True
      have "(dst st)[i := src st t ! i] = take (Suc i) (src st t) @ drop (Suc i) (in_turn b (exchanges st))"
        using put_one [of i "src st t" "in_turn b (exchanges st)"] p True o(2) o(6) [of t] Putting by simp
      then have "exchange_ok n b (Some t) st'"
        by (intro exchange_ok_change [OF ok, where t = t and p = "Putting (Suc i)"])
          (use s True Putting o h p in \<open>auto simp: exchange_step_def go_def\<close>)
      then show ?thesis by blast
    next
      case False
      then have "dst st = src st t" using p o(2) o(6) [of t] Putting by simp
      then have "exchange_ok n b (Some t) st'"
        by (intro exchange_ok_change [OF ok, where t = t and p = Unlocking])
          (use s False Putting o h p in \<open>auto simp: exchange_step_def go_def\<close>)
      then show ?thesis by blast
    qed
  next
    case Unlocking
    have h: "h = Some t" using o(5) [of t] Unlocking by simp
    note p = o(9) [OF h, unfolded Unlocking progress_simps]
    have "exchange_ok n b None st'"
      by (rule exchange_ok_change [OF ok, where t = t and p = Away])
        (use s Unlocking o h p in \<open>auto simp: exchange_step_def go_def\<close>)
    then show ?thesis by blast
  qed
qed

lemma exchanging_ok: "exchanging n st st' \<Longrightarrow> exchange_ok n b h st \<Longrightarrow> \<exists>h'. exchange_ok n b h' st'"
proof (induction rule: exchanging.induct)
  case (calls st t v w)
  note o = exchange_okD [OF calls(4)]
  have "h \<noteq> Some t" using o(5) [of t] calls(1) by simp
  then have "exchange_ok n b h (go t Spinning (st\<lparr>src := (src st)(t := v), old := (old st)(t := w)\<rparr>))"
    by (intro exchange_ok_change [OF calls(4), where t = t and p = Spinning]) (use o calls in \<open>simp_all add: go_def\<close>)
  then show ?case by blast
next
  case (runs t st st') then show ?case using exchange_ok_step by blast
qed

text \<open>C35: exchanges of large objects are atomic.  However the byte copies of any number of threads interleave, at most one
  thread is copying; the exchanges that are complete form one sequence, in which each has returned exactly the bytes that
  the one before it had stored; and whenever the lock is free the object holds the bytes of the last one.\<close>

theorem exchange_is_atomic:
  assumes "(exchanging (length b))\<^sup>*\<^sup>* (exchange_start b) st"
  shows "chained b (exchanges st) \<and> (spin st = 0 \<longrightarrow> dst st = in_turn b (exchanges st))
    \<and> (\<forall>t u. copying (place st t) \<and> copying (place st u) \<longrightarrow> t = u)"
proof -
  have "\<exists>h. exchange_ok (length b) b h st"
    using assms
  proof induction
    case base
    have "exchange_ok (length b) b None (exchange_start b)" by (simp add: exchange_ok_def exchange_start_def)
    then show ?case by blast
  next
    case (step st st') then show ?case using exchanging_ok by blast
  qed
  then show ?thesis unfolding exchange_ok_def by auto
qed

definition exchanged_once :: exchange_state where
  "exchanged_once = \<lparr>spin = 0, dst = [7, 9], src = (\<lambda>_. [])(0 := [7, 9]), old = (\<lambda>_. [])(0 := [3, 4]), place = (\<lambda>_. Away)(0 := Away),
     exchanges = [([7, 9], [3, 4])]\<rparr>"

lemma exchanged_once_reachable: "(exchanging 2)\<^sup>*\<^sup>* (exchange_start [3, 4]) exchanged_once"
proof -
  define s where "s k d w p e = \<lparr>spin = k, dst = d, src = (\<lambda>_. [])(0 := [7, 9]), old = (\<lambda>_. [])(0 := w), place = (\<lambda>_. Away)(0 := p),
     exchanges = e\<rparr>" for k :: u32 and d w :: "u8 list" and p e
  have run: "exchange_step 2 0 x = Some y \<Longrightarrow> exchanging 2 x y" for x y by (rule runs)
  have "exchanging 2 (exchange_start [3, 4]) (s 0 [3, 4] [0, 0] Spinning [])"
    using calls [of "exchange_start [3, 4]" 0 "[7, 9]" 2 "[0, 0]"] by (simp add: s_def exchange_start_def go_def)
  moreover have "exchanging 2 (s 0 [3, 4] [0, 0] Spinning []) (s 1 [3, 4] [0, 0] (Saving 0) [])"
    "exchanging 2 (s 1 [3, 4] [0, 0] (Saving 0) []) (s 1 [3, 4] [3, 0] (Saving 1) [])"
    "exchanging 2 (s 1 [3, 4] [3, 0] (Saving 1) []) (s 1 [3, 4] [3, 4] (Saving 2) [])"
    "exchanging 2 (s 1 [3, 4] [3, 4] (Saving 2) []) (s 1 [3, 4] [3, 4] (Putting 0) [])"
    "exchanging 2 (s 1 [3, 4] [3, 4] (Putting 0) []) (s 1 [7, 4] [3, 4] (Putting 1) [])"
    "exchanging 2 (s 1 [7, 4] [3, 4] (Putting 1) []) (s 1 [7, 9] [3, 4] (Putting 2) [])"
    "exchanging 2 (s 1 [7, 9] [3, 4] (Putting 2) []) (s 1 [7, 9] [3, 4] Unlocking [])"
    "exchanging 2 (s 1 [7, 9] [3, 4] Unlocking []) (s 0 [7, 9] [3, 4] Away [([7, 9], [3, 4])])"
    by (rule run; simp add: s_def exchange_step_def go_def numeral_2_eq_2)+
  moreover have "(exchanging 2)\<^sup>*\<^sup>* (s 0 [7, 9] [3, 4] Away [([7, 9], [3, 4])]) exchanged_once" by (simp add: s_def exchanged_once_def)
  ultimately show ?thesis by (meson converse_rtranclp_into_rtranclp)
qed

theorem exchange_is_atomic_witness:
  "chained [3, 4] [([7, 9], [3, 4 :: u8])] \<and> dst exchanged_once = in_turn [3, 4] [([7, 9], [3, 4])]"
  using exchange_is_atomic [of "[3, 4]" exchanged_once] exchanged_once_reachable by (simp add: exchanged_once_def numeral_2_eq_2)

end
