(* ===== verification/ClassBases.thy ===== *)
theory ClassBases imports Prelude
begin

text \<open>
  The class hierarchy of a C++ program (\<^verbatim>\<open>src/src/compiler/frontend/cprimegen.c\<close>): the base specifiers noted for each
  class, and the questions the compiler asks about them, which decide the conversions between classes.  A class
  is named by its token.  The functions recurse from a class to its bases; their first argument bounds the
  depth, \<open>None\<close> is a recursion that is deeper.
\<close>

section \<open>Base specifiers\<close>

text \<open>\<open>base_field\<close> is where the layout put the base in the class (\<open>field->c\<close>), nothing before the class is laid out.\<close>

record base_info =
  class_tok :: int
  base_tok :: int
  access :: int
  is_virtual :: bool
  base_field :: "int option"

text \<open>All base specifiers, the last one noted first, and the same by hash bucket.\<close>

record class_bases =
  class_base_infos :: "base_info list"
  class_base_buckets :: "int \<Rightarrow> base_info list"

definition class_base_candidates :: "class_bases \<Rightarrow> int \<Rightarrow> base_info list" where
  "class_base_candidates H c = class_base_buckets H (c mod 4096)"

text \<open>\<open>rebind\<close> finds the instance of a base that is a template.\<close>

definition note_class_base :: "(int \<Rightarrow> int \<Rightarrow> int) \<Rightarrow> int \<Rightarrow> int \<Rightarrow> int \<Rightarrow> bool \<Rightarrow> class_bases \<Rightarrow> class_bases" where
  "note_class_base rebind c b acc virt H =
     (if c = 0 \<or> b = 0 then H
      else let b' = rebind c b
       in if (\<exists>i \<in> set (class_base_candidates H c). class_tok i = c \<and> base_tok i = b') then H
          else let info = \<lparr>class_tok = c, base_tok = b', access = acc, is_virtual = virt, base_field = None\<rparr>
           in H\<lparr>class_base_infos := info # class_base_infos H,
                class_base_buckets := (class_base_buckets H)(c mod 4096 := info # class_base_candidates H c)\<rparr>)"

section \<open>Derivation\<close>

primrec any_base :: "(base_info \<Rightarrow> bool option) \<Rightarrow> base_info list \<Rightarrow> bool option" where
  "any_base f [] = Some False"
| "any_base f (i # is) = (case f i of None \<Rightarrow> None | Some r \<Rightarrow> if r then Some True else any_base f is)"

fun class_has_base :: "nat \<Rightarrow> class_bases \<Rightarrow> int \<Rightarrow> int \<Rightarrow> bool option" where
  "class_has_base 0 H c b = None"
| "class_has_base (Suc n) H c b =
     any_base (\<lambda>i. if class_tok i \<noteq> c then Some False
                   else if base_tok i = b then Some True
                   else class_has_base n H (base_tok i) b)
       (class_base_candidates H c)"

text \<open>The loop of \<open>class_base_subobject_count\<close>: \<open>has\<close> and \<open>visit\<close> are the calls for a base.\<close>

primrec subobject_loop ::
  "(int \<Rightarrow> bool option) \<Rightarrow> (int \<Rightarrow> int list \<Rightarrow> (int \<times> int list) option) \<Rightarrow> int \<Rightarrow> int \<Rightarrow> base_info list \<Rightarrow> int \<Rightarrow> int list
     \<Rightarrow> (int \<times> int list) option" where
  "subobject_loop has visit c b [] count visited = Some (count, visited)"
| "subobject_loop has visit c b (i # is) count visited =
     (if class_tok i \<noteq> c then subobject_loop has visit c b is count visited
      else case (if base_tok i = b then Some True else has (base_tok i)) of
          None \<Rightarrow> None
        | Some leads \<Rightarrow>
            if \<not> leads \<or> is_virtual i \<and> base_tok i \<in> set visited then subobject_loop has visit c b is count visited
            else (case visit (base_tok i) (if is_virtual i then base_tok i # visited else visited) of
                None \<Rightarrow> None
              | Some (k, visited') \<Rightarrow>
                  if count + k > 1 then Some (count + k, visited')
                  else subobject_loop has visit c b is (count + k) visited'))"

fun class_base_subobject_count :: "nat \<Rightarrow> class_bases \<Rightarrow> int \<Rightarrow> int \<Rightarrow> int list \<Rightarrow> (int \<times> int list) option" where
  "class_base_subobject_count 0 H c b visited = None"
| "class_base_subobject_count (Suc n) H c b visited =
     (if c = 0 \<or> b = 0 then Some (0, visited)
      else if c = b then Some (1, visited)
      else subobject_loop (\<lambda>d. class_has_base n H d b) (\<lambda>d v. class_base_subobject_count n H d b v) c b
             (class_base_candidates H c) 0 visited)"

definition class_has_unique_base :: "nat \<Rightarrow> class_bases \<Rightarrow> int \<Rightarrow> int \<Rightarrow> bool option" where
  "class_has_unique_base n H c b =
     (if c = 0 \<or> b = 0 \<or> c = b then Some False
      else map_option (\<lambda>(count, visited). count = 1) (class_base_subobject_count n H c b []))"

fun class_virtual_base_path :: "nat \<Rightarrow> class_bases \<Rightarrow> int \<Rightarrow> int \<Rightarrow> bool option" where
  "class_virtual_base_path 0 H d t = None"
| "class_virtual_base_path (Suc n) H d t =
     any_base (\<lambda>i. if class_tok i \<noteq> d then Some False
                   else case (if base_tok i = t then Some True else class_has_base n H (base_tok i) t) of
                       None \<Rightarrow> None
                     | Some leads \<Rightarrow>
                         if \<not> leads then Some False
                         else if is_virtual i then Some True else class_virtual_base_path n H (base_tok i) t)
       (class_base_candidates H d)"

definition class_has_direct_virtual_base :: "class_bases \<Rightarrow> int \<Rightarrow> bool" where
  "class_has_direct_virtual_base H c = (\<exists>i \<in> set (class_base_candidates H c). class_tok i = c \<and> is_virtual i)"

text \<open>The recursion of the source ends at depth 64; \<open>n\<close> counts the levels left, \<open>65 - depth\<close>.\<close>

fun class_has_virtual_base_at :: "class_bases \<Rightarrow> int \<Rightarrow> nat \<Rightarrow> bool" where
  "class_has_virtual_base_at H c 0 = False"
| "class_has_virtual_base_at H c (Suc n) =
     (c \<noteq> 0 \<and> (\<exists>i \<in> set (class_base_candidates H c).
        class_tok i = c \<and> (is_virtual i \<or> class_has_virtual_base_at H (base_tok i) n)))"

definition class_has_virtual_base :: "class_bases \<Rightarrow> int \<Rightarrow> bool" where
  "class_has_virtual_base H c = class_has_virtual_base_at H c 65"

section \<open>Access\<close>

text \<open>\<open>friend\<close> is \<open>cpp_class_is_friend\<close> and \<open>lexical_owner\<close> the class a class is nested in, 0 for none.  The loop over the
  enclosing scopes ends after 64; \<open>m\<close> counts what is left, \<open>via\<close> is the recursive call through a protected base.\<close>

fun access_allowed :: "(int \<Rightarrow> int \<Rightarrow> bool) \<Rightarrow> (int \<Rightarrow> int) \<Rightarrow> (int \<Rightarrow> bool option) \<Rightarrow> base_info \<Rightarrow> nat \<Rightarrow> bool \<Rightarrow> int \<Rightarrow> bool option" where
  "access_allowed friend lexical_owner via i m allowed scope =
     (if allowed \<or> scope = 0 then Some allowed
      else case m of
          0 \<Rightarrow> Some False
        | Suc m' \<Rightarrow>
            (case (if scope = class_tok i \<or> friend (class_tok i) scope then Some True
                   else if access i = 1 then via scope else Some False) of
                None \<Rightarrow> None
              | Some a \<Rightarrow> access_allowed friend lexical_owner via i m' a (lexical_owner scope)))"

fun class_base_accessible ::
  "nat \<Rightarrow> class_bases \<Rightarrow> (int \<Rightarrow> int \<Rightarrow> bool) \<Rightarrow> (int \<Rightarrow> int) \<Rightarrow> int \<Rightarrow> int \<Rightarrow> int \<Rightarrow> nat \<Rightarrow> bool option" where
  "class_base_accessible n H friend lexical_owner c b context 0 = Some False"
| "class_base_accessible n H friend lexical_owner c b context (Suc k) =
     (if c = 0 \<or> b = 0 then Some False
      else if c = b then Some True
      else any_base (\<lambda>i.
          if class_tok i \<noteq> c then Some False
          else case (if base_tok i = b then Some True else class_has_base n H (base_tok i) b) of
              None \<Rightarrow> None
            | Some leads \<Rightarrow>
                if \<not> leads then Some False
                else (case access_allowed friend lexical_owner
                         (\<lambda>scope. case class_has_base n H scope c of
                             None \<Rightarrow> None
                           | Some d \<Rightarrow> if d then class_base_accessible n H friend lexical_owner scope c context k else Some False)
                         i 64 (access i = 0) context of
                    None \<Rightarrow> None
                  | Some a \<Rightarrow> if a then class_base_accessible n H friend lexical_owner (base_tok i) b context k else Some False))
        (class_base_candidates H c))"

section \<open>Virtual bases\<close>

definition CPC_MAX_VIRTUAL_BASES :: nat where
  "CPC_MAX_VIRTUAL_BASES = 64"

text \<open>The specifiers were noted last first: the loop runs over them in the order of the declaration.\<close>

definition declared_bases :: "class_bases \<Rightarrow> int \<Rightarrow> base_info list" where
  "declared_bases H c = rev (take CPC_MAX_VIRTUAL_BASES (filter (\<lambda>i. class_tok i = c) (class_base_candidates H c)))"

definition add_virtual_base :: "base_info \<Rightarrow> int list \<Rightarrow> int list" where
  "add_virtual_base i vs =
     (if is_virtual i \<and> base_tok i \<notin> set vs \<and> length vs < CPC_MAX_VIRTUAL_BASES then vs @ [base_tok i] else vs)"

fun collect_class_virtual_bases :: "class_bases \<Rightarrow> int \<Rightarrow> nat \<Rightarrow> int list \<Rightarrow> int list" where
  "collect_class_virtual_bases H c 0 vs = vs"
| "collect_class_virtual_bases H c (Suc n) vs =
     (if c = 0 then vs
      else fold (\<lambda>i vs. add_virtual_base i (collect_class_virtual_bases H (base_tok i) n vs)) (declared_bases H c) vs)"

text \<open>\<open>class_size\<close> is the size of a class that is complete.  A region is moved down from the end of the list.\<close>

fun insert_back :: "int \<Rightarrow> int \<Rightarrow> (int \<times> int) list \<Rightarrow> (int \<times> int) list" where
  "insert_back offset sz [] = [(offset, sz)]"
| "insert_back offset sz (r # rs) = (if fst r > offset then r # insert_back offset sz rs else (offset, sz) # r # rs)"

definition insert_region :: "int \<Rightarrow> int \<Rightarrow> (int \<times> int) list \<Rightarrow> (int \<times> int) list" where
  "insert_region offset sz rs = rev (insert_back offset sz (rev rs))"

fun collect_virtual_base_regions ::
  "class_bases \<Rightarrow> (int \<Rightarrow> int option) \<Rightarrow> int \<Rightarrow> int \<Rightarrow> nat \<Rightarrow> (int \<times> int) list \<Rightarrow> (int \<times> int) list" where
  "collect_virtual_base_regions H class_size c base_offset 0 rs = rs"
| "collect_virtual_base_regions H class_size c base_offset (Suc n) rs =
     (if c = 0 then rs
      else fold (\<lambda>i rs.
          case base_field i of
            None \<Rightarrow> rs
          | Some at \<Rightarrow>
              if class_tok i \<noteq> c then rs
              else if \<not> is_virtual i then collect_virtual_base_regions H class_size (base_tok i) (base_offset + at) n rs
              else if length rs \<ge> CPC_MAX_VIRTUAL_BASES \<or> base_offset + at < 0 then rs
              else (case class_size (base_tok i) of
                  None \<Rightarrow> rs
                | Some sz \<Rightarrow> if sz \<le> 0 then rs else insert_region (base_offset + at) sz rs))
        (class_base_candidates H c) rs)"

section \<open>Offsets of base subobjects\<close>

primrec first_offset :: "(base_info \<Rightarrow> int option option) \<Rightarrow> base_info list \<Rightarrow> int option option" where
  "first_offset f [] = Some None"
| "first_offset f (i # is) = (case f i of None \<Rightarrow> None | Some None \<Rightarrow> first_offset f is | Some (Some off) \<Rightarrow> Some (Some off))"

definition add_field :: "int \<Rightarrow> int option option \<Rightarrow> int option option" where
  "add_field at = map_option (map_option (\<lambda>nested. at + nested))"

fun class_subobject_offset :: "nat \<Rightarrow> class_bases \<Rightarrow> int \<Rightarrow> int \<Rightarrow> int option option" where
  "class_subobject_offset 0 H c b = None"
| "class_subobject_offset (Suc n) H c b =
     (if c = b then Some (Some 0)
      else first_offset (\<lambda>i.
          if class_tok i \<noteq> c then Some None
          else case base_field i of None \<Rightarrow> Some None | Some at \<Rightarrow> add_field at (class_subobject_offset n H (base_tok i) b))
        (class_base_candidates H c))"

fun class_nonvirtual_subobject_offset :: "nat \<Rightarrow> class_bases \<Rightarrow> int \<Rightarrow> int \<Rightarrow> int option option" where
  "class_nonvirtual_subobject_offset 0 H c b = None"
| "class_nonvirtual_subobject_offset (Suc n) H c b =
     (if c = b then Some (Some 0)
      else first_offset (\<lambda>i.
          if class_tok i \<noteq> c \<or> is_virtual i then Some None
          else case base_field i of None \<Rightarrow> Some None | Some at \<Rightarrow> add_field at (class_nonvirtual_subobject_offset n H (base_tok i) b))
        (class_base_candidates H c))"

text \<open>The loop of \<open>class_static_downcast_offset\<close> with \<open>matches\<close> and \<open>*offset\<close>; the result is the count and the offset.\<close>

primrec downcast_loop :: "(int \<Rightarrow> (int \<times> int) option) \<Rightarrow> int \<Rightarrow> base_info list \<Rightarrow> int \<Rightarrow> int \<Rightarrow> (int \<times> int) option" where
  "downcast_loop nested d [] matches off = Some (if matches > 1 then -1 else matches, off)"
| "downcast_loop nested d (i # is) matches off =
     (case base_field i of
        None \<Rightarrow> downcast_loop nested d is matches off
      | Some at \<Rightarrow>
          if class_tok i \<noteq> d then downcast_loop nested d is matches off
          else (case nested (base_tok i) of
              None \<Rightarrow> None
            | Some (count, k) \<Rightarrow>
                if count < 0 \<or> count \<noteq> 0 \<and> is_virtual i then Some (-1, off)
                else if count \<noteq> 0 then downcast_loop nested d is (matches + count) (at + k)
                else downcast_loop nested d is matches off))"

fun class_static_downcast_offset :: "nat \<Rightarrow> class_bases \<Rightarrow> int \<Rightarrow> int \<Rightarrow> int \<Rightarrow> (int \<times> int) option" where
  "class_static_downcast_offset 0 H d t off = None"
| "class_static_downcast_offset (Suc n) H d t off =
     (if d = 0 \<or> t = 0 then Some (0, off)
      else if d = t then Some (1, 0)
      else downcast_loop (\<lambda>e. class_static_downcast_offset n H e t 0) d (class_base_candidates H d) 0 off)"

end
