(* ===== verification/ClassBasesFacts.thy ===== *)
theory ClassBasesFacts imports ClassBases
begin

text \<open>
  What the class hierarchy means: derivation as a relation, ranks (a base is complete before a class derives from it, so
  derivation has no cycles), and the subobjects of a class: the paths of base classes that share their virtual bases.
\<close>

section \<open>Derivation\<close>

definition direct :: "class_bases \<Rightarrow> int \<Rightarrow> base_info \<Rightarrow> bool" where
  "direct H c i \<longleftrightarrow> i \<in> set (class_base_candidates H c) \<and> class_tok i = c"

inductive derives :: "class_bases \<Rightarrow> int \<Rightarrow> int \<Rightarrow> bool" for H where
  base: "direct H c i \<Longrightarrow> derives H c (base_tok i)"
| step: "direct H c i \<Longrightarrow> derives H (base_tok i) b \<Longrightarrow> derives H c b"

definition ranked :: "class_bases \<Rightarrow> (int \<Rightarrow> nat) \<Rightarrow> bool" where
  "ranked H r \<longleftrightarrow> (\<forall>c i. direct H c i \<longrightarrow> r (base_tok i) < r c)"

lemma rankedD: "ranked H r \<Longrightarrow> direct H c i \<Longrightarrow> r (base_tok i) < r c"
  by (auto simp: ranked_def)

lemma derives_trans: "derives H c d \<Longrightarrow> derives H d b \<Longrightarrow> derives H c b"
  by (induction rule: derives.induct) (auto intro: derives.step)

lemma derives_rank: "derives H c b \<Longrightarrow> ranked H r \<Longrightarrow> r b < r c"
  by (induction rule: derives.induct) (auto dest: rankedD order.strict_trans)

lemma derives_irrefl: "ranked H r \<Longrightarrow> \<not> derives H c c"
  using derives_rank by blast

lemma derives_iff: "derives H c b \<longleftrightarrow> (\<exists>i. direct H c i \<and> (base_tok i = b \<or> derives H (base_tok i) b))"
  by (subst derives.simps) auto

lemma any_base_all: "(\<And>i. i \<in> set is \<Longrightarrow> f i = Some (P i)) \<Longrightarrow> any_base f is = Some (\<exists>i \<in> set is. P i)"
  by (induction "is") auto

lemma class_has_base_derives: "ranked H r \<Longrightarrow> r c < n \<Longrightarrow> class_has_base n H c b = Some (derives H c b)"
proof (induction n arbitrary: c)
  case 0 then show ?case by simp
next
  case (Suc n)
  have "class_has_base (Suc n) H c b =
      Some (\<exists>i \<in> set (class_base_candidates H c). class_tok i = c \<and> (base_tok i = b \<or> derives H (base_tok i) b))"
    unfolding class_has_base.simps
  proof (rule any_base_all)
    fix i assume "i \<in> set (class_base_candidates H c)"
    then show "(if class_tok i \<noteq> c then Some False else if base_tok i = b then Some True else class_has_base n H (base_tok i) b)
        = Some (class_tok i = c \<and> (base_tok i = b \<or> derives H (base_tok i) b))"
      using Suc.IH [of "base_tok i"] Suc.prems rankedD [of H r c i] by (auto simp: direct_def)
  qed
  then show ?case using derives_iff [of H c b] by (auto simp: direct_def)
qed

lemma finite_derives: "ranked H r \<Longrightarrow> finite {d. derives H c d}"
proof (induction "r c" arbitrary: c rule: less_induct)
  case less
  have "{d. derives H c d} = (\<Union>i \<in> {i \<in> set (class_base_candidates H c). class_tok i = c}. insert (base_tok i) {d. derives H (base_tok i) d})"
    by (auto simp: derives_iff [of H c] direct_def)
  moreover have "finite {d. derives H (base_tok i) d}" if "i \<in> set (class_base_candidates H c)" "class_tok i = c" for i
    using that less rankedD [of H r c i] by (auto simp: direct_def)
  ultimately show ?case by simp
qed

section \<open>The invariant of the base specifiers\<close>

definition bases_ok :: "class_bases \<Rightarrow> bool" where
  "bases_ok H \<longleftrightarrow>
     (\<forall>c. distinct (map base_tok (filter (\<lambda>i. class_tok i = c) (class_base_candidates H c))))
   \<and> (\<forall>c i. direct H c i \<longrightarrow> class_tok i \<noteq> 0 \<and> base_tok i \<noteq> 0)
   \<and> (\<forall>k i. i \<in> set (class_base_buckets H k) \<longrightarrow> class_tok i mod 4096 = k \<and> i \<in> set (class_base_infos H))"

definition no_bases :: class_bases where
  "no_bases = \<lparr>class_base_infos = [], class_base_buckets = (\<lambda>_. [])\<rparr>"

lemma bases_ok_start: "bases_ok no_bases" "ranked no_bases r"
  by (simp_all add: bases_ok_def no_bases_def class_base_candidates_def direct_def ranked_def)

lemma direct_no_bases [simp]: "\<not> direct no_bases c i"
  by (simp add: direct_def no_bases_def class_base_candidates_def)

lemma direct_note:
  "direct (note_class_base rebind c b acc virt H) d i \<longleftrightarrow>
     direct H d i \<or> d = c \<and> c \<noteq> 0 \<and> b \<noteq> 0 \<and> (\<nexists>j. direct H c j \<and> base_tok j = rebind c b)
       \<and> i = \<lparr>class_tok = c, base_tok = rebind c b, access = acc, is_virtual = virt, base_field = None\<rparr>"
  by (auto simp: note_class_base_def direct_def class_base_candidates_def Let_def)

lemma note_class_base_ok:
  assumes "bases_ok H" and "rebind c b \<noteq> 0"
  shows "bases_ok (note_class_base rebind c b acc virt H)"
proof (cases "c = 0 \<or> b = 0 \<or> (\<exists>i \<in> set (class_base_candidates H c). class_tok i = c \<and> base_tok i = rebind c b)")
  case True
  then show ?thesis using assms(1) by (auto simp: note_class_base_def Let_def)
next
  case False
  define j where "j = \<lparr>class_tok = c, base_tok = rebind c b, access = acc, is_virtual = virt, base_field = None\<rparr>"
  have H': "note_class_base rebind c b acc virt H = H\<lparr>class_base_infos := j # class_base_infos H,
      class_base_buckets := (class_base_buckets H)(c mod 4096 := j # class_base_candidates H c)\<rparr>"
    using False by (auto simp: note_class_base_def Let_def j_def)
  have j: "class_tok j = c" "base_tok j = rebind c b" by (simp_all add: j_def)
  have cand: "class_base_candidates (note_class_base rebind c b acc virt H) d =
      (if d mod 4096 = c mod 4096 then j # class_base_candidates H d else class_base_candidates H d)" for d
    by (auto simp: H' class_base_candidates_def)
  show ?thesis unfolding bases_ok_def
  proof (intro conjI allI impI)
    show "distinct (map base_tok (filter (\<lambda>i. class_tok i = d) (class_base_candidates (note_class_base rebind c b acc virt H) d)))" for d
      using assms(1) False j by (auto simp: cand bases_ok_def)
    show "class_tok i \<noteq> 0" "base_tok i \<noteq> 0" if "direct (note_class_base rebind c b acc virt H) d i" for d i
      using that assms False unfolding direct_note bases_ok_def by auto
    show "class_tok i mod 4096 = k" "i \<in> set (class_base_infos (note_class_base rebind c b acc virt H))"
      if "i \<in> set (class_base_buckets (note_class_base rebind c b acc virt H) k)" for k i
      using that assms(1) j unfolding H' bases_ok_def class_base_candidates_def by (auto split: if_splits)
  qed
qed

text \<open>A class that no class derives from yet may be given a further base.\<close>

lemma note_class_base_ranked:
  assumes "ranked H r" and "\<And>d i. direct H d i \<Longrightarrow> base_tok i \<noteq> c" and "rebind c b \<noteq> c"
  shows "ranked (note_class_base rebind c b acc virt H) (r(c := Suc (max (r c) (r (rebind c b)))))"
  unfolding ranked_def
proof (intro allI impI)
  fix d i assume "direct (note_class_base rebind c b acc virt H) d i"
  then consider "direct H d i" | "d = c" "base_tok i = rebind c b" unfolding direct_note by auto
  then show "(r(c := Suc (max (r c) (r (rebind c b))))) (base_tok i) < (r(c := Suc (max (r c) (r (rebind c b))))) d"
  proof cases
    case 1 then show ?thesis using assms(2) [OF 1] rankedD [OF assms(1) 1] by auto
  next
    case 2 then show ?thesis using assms(3) by auto
  qed
qed

section \<open>Subobjects\<close>

text \<open>A path of nonvirtual bases.\<close>

fun nonvirtual_path :: "class_bases \<Rightarrow> int list \<Rightarrow> bool" where
  "nonvirtual_path H [] = False"
| "nonvirtual_path H [x] = True"
| "nonvirtual_path H (x # y # p) = ((\<exists>i. direct H x i \<and> base_tok i = y \<and> \<not> is_virtual i) \<and> nonvirtual_path H (y # p))"

definition paths :: "class_bases \<Rightarrow> int \<Rightarrow> int \<Rightarrow> int list set" where
  "paths H c b = {p. nonvirtual_path H p \<and> hd p = c \<and> last p = b}"

text \<open>The virtual bases of a class and of its bases.\<close>

definition virtual_base :: "class_bases \<Rightarrow> int \<Rightarrow> int \<Rightarrow> bool" where
  "virtual_base H c v \<longleftrightarrow> (\<exists>d i. (d = c \<or> derives H c d) \<and> direct H d i \<and> is_virtual i \<and> base_tok i = v)"

lemma virtual_base_iff:
  "virtual_base H c v \<longleftrightarrow> (\<exists>i. direct H c i \<and> (is_virtual i \<and> base_tok i = v \<or> virtual_base H (base_tok i) v))"
proof
  assume "virtual_base H c v"
  then obtain d i where d: "d = c \<or> derives H c d" and i: "direct H d i" "is_virtual i" "base_tok i = v" unfolding virtual_base_def by blast
  show "\<exists>i. direct H c i \<and> (is_virtual i \<and> base_tok i = v \<or> virtual_base H (base_tok i) v)"
  proof (cases "d = c")
    case True then show ?thesis using i by blast
  next
    case False
    then obtain j where "direct H c j" "d = base_tok j \<or> derives H (base_tok j) d" using d derives_iff [of H c d] by blast
    then show ?thesis using i unfolding virtual_base_def by blast
  qed
next
  assume "\<exists>i. direct H c i \<and> (is_virtual i \<and> base_tok i = v \<or> virtual_base H (base_tok i) v)"
  then show "virtual_base H c v" unfolding virtual_base_def by (blast intro: derives.base derives.step)
qed

text \<open>The subobjects of class \<open>b\<close> in an object of class \<open>c\<close>: one for each path of nonvirtual bases that starts at the
  class itself or at one of its virtual bases, which all paths to them share.\<close>

definition subobjects :: "class_bases \<Rightarrow> int \<Rightarrow> int \<Rightarrow> int list set" where
  "subobjects H c b = {p. nonvirtual_path H p \<and> (hd p = c \<or> virtual_base H c (hd p)) \<and> last p = b}"

lemma path_derives: "nonvirtual_path H p \<Longrightarrow> hd p = last p \<and> length p = 1 \<or> derives H (hd p) (last p)"
  by (induction H p rule: nonvirtual_path.induct) (auto intro: derives.base derives.step)

lemma paths_self: "ranked H r \<Longrightarrow> paths H b b = {[b]}"
proof -
  assume r: "ranked H r"
  have "p = [b]" if "p \<in> paths H b b" for p
    using that path_derives [of H p] derives_irrefl [OF r, of b] unfolding paths_def by (cases p) (auto split: if_splits)
  then show ?thesis by (auto simp: paths_def)
qed

lemma paths_step:
  "c \<noteq> b \<Longrightarrow> paths H c b = (\<Union>i \<in> {i \<in> set (class_base_candidates H c). class_tok i = c \<and> \<not> is_virtual i}. (#) c ` paths H (base_tok i) b)"
proof (intro set_eqI iffI)
  fix p assume "c \<noteq> b" and p: "p \<in> paths H c b"
  then obtain y q where "p = c # y # q" unfolding paths_def by (cases p rule: remdups_adj.cases) auto
  then show "p \<in> (\<Union>i \<in> {i \<in> set (class_base_candidates H c). class_tok i = c \<and> \<not> is_virtual i}. (#) c ` paths H (base_tok i) b)"
    using p unfolding paths_def by (auto simp: direct_def)
next
  fix p assume "p \<in> (\<Union>i \<in> {i \<in> set (class_base_candidates H c). class_tok i = c \<and> \<not> is_virtual i}. (#) c ` paths H (base_tok i) b)"
  then obtain i q where i: "direct H c i" "\<not> is_virtual i" and q: "q \<in> paths H (base_tok i) b" "p = c # q" by (auto simp: direct_def)
  then obtain q' where "q = base_tok i # q'" unfolding paths_def by (cases q) auto
  with i q show "p \<in> paths H c b" unfolding paths_def by auto
qed

lemma finite_paths: "ranked H r \<Longrightarrow> finite (paths H c b)"
proof (induction "r c" arbitrary: c rule: less_induct)
  case less
  show ?case
  proof (cases "c = b")
    case True then show ?thesis using paths_self [OF less.prems] by simp
  next
    case False
    have "finite (paths H (base_tok i) b)" if "i \<in> set (class_base_candidates H c)" "class_tok i = c" for i
      using that less rankedD [of H r c i] by (auto simp: direct_def)
    then show ?thesis by (simp add: paths_step [OF False])
  qed
qed

text \<open>How many paths there are.\<close>

definition ways :: "class_bases \<Rightarrow> int \<Rightarrow> int \<Rightarrow> nat" where
  "ways H c b = card (paths H c b)"

lemma ways_self: "ranked H r \<Longrightarrow> ways H b b = 1"
  by (simp add: ways_def paths_self)

lemma ways_none: "c \<noteq> b \<Longrightarrow> \<not> derives H c b \<Longrightarrow> ways H c b = 0"
  using path_derives unfolding ways_def paths_def by (auto simp: card_eq_0_iff)

lemma ways_step:
  assumes r: "ranked H r" and ok: "bases_ok H" and ne: "c \<noteq> b"
  shows "ways H c b = (\<Sum>i \<leftarrow> filter (\<lambda>i. class_tok i = c \<and> \<not> is_virtual i) (class_base_candidates H c). ways H (base_tok i) b)"
proof -
  define D where "D = filter (\<lambda>i. class_tok i = c \<and> \<not> is_virtual i) (class_base_candidates H c)"
  have D: "D = filter (\<lambda>i. \<not> is_virtual i) (filter (\<lambda>i. class_tok i = c) (class_base_candidates H c))"
    by (auto simp: D_def intro: filter_cong)
  have inj: "distinct (map base_tok D)"
    unfolding D by (rule distinct_map_filter) (use ok in \<open>simp add: bases_ok_def\<close>)
  have "paths H c b = (\<Union>i \<in> set D. (#) c ` paths H (base_tok i) b)" unfolding paths_step [OF ne] D_def by auto
  also have "card \<dots> = (\<Sum>i \<in> set D. card ((#) c ` paths H (base_tok i) b))"
  proof (rule card_UN_disjoint)
    show "\<forall>i \<in> set D. \<forall>j \<in> set D. i \<noteq> j \<longrightarrow> (#) c ` paths H (base_tok i) b \<inter> (#) c ` paths H (base_tok j) b = {}"
      using inj unfolding paths_def by (auto simp: distinct_map inj_on_def)
  qed (use finite_paths [OF r] in auto)
  also have "\<dots> = (\<Sum>i \<in> set D. ways H (base_tok i) b)" by (simp add: card_image ways_def)
  also have "\<dots> = (\<Sum>i \<leftarrow> D. ways H (base_tok i) b)"
    using inj by (simp add: sum_list_distinct_conv_sum_set distinct_map)
  finally show ?thesis by (simp add: ways_def D_def)
qed

section \<open>An example\<close>

text \<open>Class 4 derives from 2 and 3, which derive virtually from 1.\<close>

definition diamond :: class_bases where
  "diamond = (let note = note_class_base (\<lambda>c b. b) in note 4 3 0 False (note 4 2 0 False (note 3 1 0 True (note 2 1 0 True no_bases))))"

lemma diamond_ok: "bases_ok diamond" "ranked diamond nat"
proof -
  show "bases_ok diamond" unfolding diamond_def Let_def by (intro note_class_base_ok bases_ok_start) simp_all
  show "ranked diamond nat" by (auto simp: ranked_def diamond_def Let_def direct_note)
qed

end
