(* ===== verification/ClassUnique.thy ===== *)
theory ClassUnique imports ClassBasesFacts
begin

text \<open>
  \<open>class_base_subobject_count\<close> visits each virtual base once and stops when it has found two subobjects.  It is
  compared with the number of subobjects.
\<close>

text \<open>\<open>leads\<close>: the walk goes on only where the base is to be found; \<open>shared\<close> are the virtual bases from where it is.\<close>

definition leads :: "class_bases \<Rightarrow> int \<Rightarrow> int \<Rightarrow> bool" where
  "leads H b d \<longleftrightarrow> d = b \<or> derives H d b"

definition shared :: "class_bases \<Rightarrow> int \<Rightarrow> int \<Rightarrow> int set" where
  "shared H b c = {v. virtual_base H c v \<and> leads H b v}"

definition shared_by :: "class_bases \<Rightarrow> int \<Rightarrow> base_info \<Rightarrow> int set" where
  "shared_by H b i = (if leads H b (base_tok i) then (if is_virtual i then insert (base_tok i) (shared H b (base_tok i)) else shared H b (base_tok i)) else {})"

lemma virtual_base_derives: "virtual_base H c v \<Longrightarrow> derives H c v"
  unfolding virtual_base_def by (auto intro: derives.base derives_trans)

lemma leads_up: "derives H c d \<Longrightarrow> leads H b d \<Longrightarrow> leads H b c"
  unfolding leads_def by (auto intro: derives_trans)

lemma shared_step: "shared H b c = (\<Union>i \<in> {i \<in> set (class_base_candidates H c). class_tok i = c}. shared_by H b i)"
proof (intro set_eqI iffI)
  fix v assume "v \<in> shared H b c"
  then obtain i where i: "direct H c i" "is_virtual i \<and> base_tok i = v \<or> virtual_base H (base_tok i) v" and l: "leads H b v"
    unfolding shared_def virtual_base_iff [of H c] by blast
  then have "leads H b (base_tok i)" using leads_up virtual_base_derives by blast
  then have "v \<in> shared_by H b i" using i l by (auto simp: shared_by_def shared_def)
  then show "v \<in> (\<Union>i \<in> {i \<in> set (class_base_candidates H c). class_tok i = c}. shared_by H b i)" using i by (auto simp: direct_def)
next
  fix v assume "v \<in> (\<Union>i \<in> {i \<in> set (class_base_candidates H c). class_tok i = c}. shared_by H b i)"
  then obtain i where "direct H c i" "v \<in> shared_by H b i" by (auto simp: direct_def)
  then show "v \<in> shared H b c" unfolding shared_def virtual_base_iff [of H c] shared_by_def by (auto split: if_splits)
qed

lemma shared_trans: "v \<in> shared H b c \<Longrightarrow> shared H b v \<subseteq> shared H b c"
proof
  fix u assume v: "v \<in> shared H b c" and "u \<in> shared H b v"
  then obtain d i where "d = v \<or> derives H v d" "direct H d i" "is_virtual i" "base_tok i = u" and "leads H b u"
    unfolding shared_def virtual_base_def by blast
  moreover have "derives H c v" using v virtual_base_derives unfolding shared_def by blast
  ultimately show "u \<in> shared H b c" unfolding shared_def virtual_base_def using derives_trans by blast
qed

lemma shared_derives: "v \<in> shared H b c \<Longrightarrow> derives H c v"
  unfolding shared_def using virtual_base_derives by blast

lemma finite_shared: "ranked H r \<Longrightarrow> finite (shared H b c)"
  using finite_derives [of H r c] by (rule finite_subset [rotated]) (auto dest: shared_derives)

lemma finite_shared_by: "ranked H r \<Longrightarrow> finite (shared_by H b i)"
  by (auto simp: shared_by_def intro: finite_shared)

section \<open>The walk\<close>

text \<open>What a walk counts: \<open>w\<close> ways to the base, and those from the virtual bases that were not visited before.\<close>

definition found :: "class_bases \<Rightarrow> int \<Rightarrow> nat \<Rightarrow> int set \<Rightarrow> int set \<Rightarrow> nat" where
  "found H b w V S = w + (\<Sum>v \<in> V - S. ways H v b)"

text \<open>A walk gives the whole count, unless it stops because the count is more than one.\<close>

definition counts :: "class_bases \<Rightarrow> int \<Rightarrow> nat \<Rightarrow> int set \<Rightarrow> int list \<Rightarrow> (int \<times> int list) option \<Rightarrow> bool" where
  "counts H b w V S res \<longleftrightarrow> (\<exists>k S'. res = Some (k, S') \<and> k \<ge> 0 \<and> (k \<le> 1 \<longrightarrow> set S' = set S \<union> V \<and> k = int (found H b w V (set S)))
      \<and> (k > 1 \<longrightarrow> found H b w V (set S) > 1))"

definition closed_below :: "class_bases \<Rightarrow> int \<Rightarrow> int \<Rightarrow> int set \<Rightarrow> bool" where
  "closed_below H b c S \<longleftrightarrow> (\<forall>v \<in> S. derives H c v \<longrightarrow> shared H b v \<subseteq> S)"

lemma found_join:
  assumes "finite V" "finite V'"
  shows "found H b (w + w') (V \<union> V') S = found H b w V S + found H b w' V' (S \<union> V)"
proof -
  have "(V \<union> V') - S = (V - S) \<union> (V' - (S \<union> V))" by auto
  then have "(\<Sum>v \<in> V \<union> V' - S. ways H v b) = (\<Sum>v \<in> V - S. ways H v b) + (\<Sum>v \<in> V' - (S \<union> V). ways H v b)"
    using sum.union_disjoint [of "V - S" "V' - (S \<union> V)" "\<lambda>v. ways H v b"] assms by auto
  then show ?thesis by (simp add: found_def)
qed

lemma closed_below_into:
  "closed_below H b c S \<Longrightarrow> direct H c i \<Longrightarrow> ranked H r \<Longrightarrow> closed_below H b (base_tok i) (if is_virtual i then insert (base_tok i) S else S)"
  unfolding closed_below_def using derives.step [of H c i] derives_irrefl [of H r "base_tok i"] by (auto split: if_splits)

lemma closed_below_after:
  assumes "closed_below H b c S" "direct H c i"
  shows "closed_below H b c (S \<union> shared_by H b i)"
  unfolding closed_below_def
proof (intro ballI impI)
  fix v assume v: "v \<in> S \<union> shared_by H b i" "derives H c v"
  then consider "v \<in> S" | "v = base_tok i" "shared H b v \<subseteq> shared_by H b i" | "v \<in> shared H b (base_tok i)" "shared H b (base_tok i) \<subseteq> shared_by H b i"
    by (auto simp: shared_by_def split: if_splits)
  then show "shared H b v \<subseteq> S \<union> shared_by H b i"
  proof cases
    case 1 then show ?thesis using assms(1) v(2) unfolding closed_below_def by blast
  next
    case 3 then show ?thesis using shared_trans by blast
  qed auto
qed

text \<open>What one base adds to the count, with the visited bases \<open>S\<close>.\<close>

definition adds :: "class_bases \<Rightarrow> int \<Rightarrow> base_info \<Rightarrow> int set \<Rightarrow> nat" where
  "adds H b i S = found H b (if is_virtual i then 0 else ways H (base_tok i) b) (shared_by H b i) S"

lemma adds_visit:
  assumes "ranked H r" "leads H b (base_tok i)" and "\<not> (is_virtual i \<and> base_tok i \<in> S)"
  shows "found H b (ways H (base_tok i) b) (shared H b (base_tok i)) (if is_virtual i then insert (base_tok i) S else S) = adds H b i S"
proof (cases "is_virtual i")
  case True
  have "base_tok i \<notin> shared H b (base_tok i)" using shared_derives derives_irrefl [OF assms(1)] by blast
  then have "insert (base_tok i) (shared H b (base_tok i)) - S = insert (base_tok i) (shared H b (base_tok i) - insert (base_tok i) S)"
    using assms(3) True by auto
  then show ?thesis using True assms(2) finite_shared [OF assms(1)] by (simp add: adds_def found_def shared_by_def)
next
  case False then show ?thesis using assms(2) by (simp add: adds_def shared_by_def)
qed

lemma adds_skip:
  assumes "closed_below H b c S" "direct H c i" and "\<not> leads H b (base_tok i) \<or> is_virtual i \<and> base_tok i \<in> S"
  shows "adds H b i S = 0" and "shared_by H b i \<subseteq> S"
proof -
  show s: "shared_by H b i \<subseteq> S"
    using assms derives.base [of H c i] unfolding closed_below_def shared_by_def by auto
  have "\<not> is_virtual i \<Longrightarrow> ways H (base_tok i) b = 0"
    using assms(3) ways_none [of "base_tok i" b H] unfolding leads_def by auto
  then show "adds H b i S = 0" using s by (auto simp: adds_def found_def Diff_eq_empty_iff [THEN iffD2])
qed

text \<open>The loop over the bases \<open>is\<close>; \<open>step_ways\<close> and \<open>step_shared\<close> are what they add together.\<close>

definition step_ways :: "class_bases \<Rightarrow> int \<Rightarrow> int \<Rightarrow> base_info list \<Rightarrow> nat" where
  "step_ways H b c is = (\<Sum>i \<leftarrow> filter (\<lambda>i. class_tok i = c \<and> \<not> is_virtual i) is. ways H (base_tok i) b)"

definition step_shared :: "class_bases \<Rightarrow> int \<Rightarrow> int \<Rightarrow> base_info list \<Rightarrow> int set" where
  "step_shared H b c is = (\<Union>i \<in> {i \<in> set is. class_tok i = c}. shared_by H b i)"

lemma steps_simps [simp]:
  "step_ways H b c [] = 0" "step_shared H b c [] = {}"
  "class_tok i \<noteq> c \<Longrightarrow> step_ways H b c (i # is) = step_ways H b c is"
  "class_tok i \<noteq> c \<Longrightarrow> step_shared H b c (i # is) = step_shared H b c is"
  by (auto simp: step_ways_def step_shared_def)

lemma finite_steps: "ranked H r \<Longrightarrow> finite (step_shared H b c is)"
  by (auto simp: step_shared_def finite_shared_by)

lemma found_cons:
  assumes "ranked H r" "class_tok i = c"
  shows "found H b (step_ways H b c (i # is)) (step_shared H b c (i # is)) S
    = adds H b i S + found H b (step_ways H b c is) (step_shared H b c is) (S \<union> shared_by H b i)"
proof -
  have "step_ways H b c (i # is) = (if is_virtual i then 0 else ways H (base_tok i) b) + step_ways H b c is"
    "step_shared H b c (i # is) = shared_by H b i \<union> step_shared H b c is"
    using assms(2) by (auto simp: step_ways_def step_shared_def)
  then show ?thesis using found_join [OF finite_shared_by [OF assms(1)] finite_steps [OF assms(1)]] by (simp add: adds_def)
qed

lemma subobject_loop_counts:
  assumes r: "ranked H r" and "set is \<subseteq> set (class_base_candidates H c)" and "closed_below H b c (set S)" and "count \<in> {0, 1}"
    and has: "\<And>i. direct H c i \<Longrightarrow> has (base_tok i) = Some (derives H (base_tok i) b)"
    and visit: "\<And>i S. direct H c i \<Longrightarrow> closed_below H b (base_tok i) (set S) \<Longrightarrow>
      counts H b (ways H (base_tok i) b) (shared H b (base_tok i)) S (visit (base_tok i) S)"
  shows "\<exists>k S'. subobject_loop has visit c b is count S = Some (k, S') \<and> k \<ge> 0
    \<and> (k \<le> 1 \<longrightarrow> set S' = set S \<union> step_shared H b c is \<and> k = count + int (found H b (step_ways H b c is) (step_shared H b c is) (set S)))
    \<and> (k > 1 \<longrightarrow> count + int (found H b (step_ways H b c is) (step_shared H b c is) (set S)) > 1)"
  using assms(2-4)
proof (induction "is" arbitrary: S count)
  case Nil
  then show ?case by (auto simp: found_def)
next
  case (Cons i "is")
  show ?case
  proof (cases "class_tok i = c")
    case False
    then show ?thesis using Cons by simp
  next
    case True
    then have d: "direct H c i" using Cons.prems(1) by (auto simp: direct_def)
    have lead: "(if base_tok i = b then Some True else has (base_tok i)) = Some (leads H b (base_tok i))"
      using has [OF d] by (auto simp: leads_def)
    have step: "step_shared H b c (i # is) = shared_by H b i \<union> step_shared H b c is" using True by (auto simp: step_shared_def)
    note fc = found_cons [OF r True, of b "is" "set S"]
    show ?thesis
    proof (cases "\<not> leads H b (base_tok i) \<or> is_virtual i \<and> base_tok i \<in> set S")
      case skip: True
      note sk = adds_skip [OF Cons.prems(2) d skip]
      have "set S \<union> shared_by H b i = set S" using sk(2) by blast
      then show ?thesis using Cons.IH [of S count] Cons.prems skip sk True lead step fc
        by (simp add: sup.absorb1 Un_assoc [symmetric])
    next
      case go: False
      define S1 where "S1 = (if is_virtual i then base_tok i # S else S)"
      have S1: "set S1 = (if is_virtual i then insert (base_tok i) (set S) else set S)" by (simp add: S1_def)
      have "closed_below H b (base_tok i) (set S1)" unfolding S1 by (rule closed_below_into [OF Cons.prems(2) d r])
      from visit [OF d this] obtain k1 S2 where v: "visit (base_tok i) S1 = Some (k1, S2)" "k1 \<ge> 0"
        and v1: "k1 \<le> 1 \<Longrightarrow> set S2 = set S1 \<union> shared H b (base_tok i) \<and> k1 = int (adds H b i (set S))"
        and v2: "k1 > 1 \<Longrightarrow> adds H b i (set S) > 1"
        unfolding counts_def S1 using adds_visit [OF r, of b i "set S"] go by auto
      have loop: "subobject_loop has visit c b (i # is) count S
          = (if count + k1 > 1 then Some (count + k1, S2) else subobject_loop has visit c b is (count + k1) S2)"
        using True lead go v by (auto simp: S1_def)
      show ?thesis
      proof (cases "count + k1 > 1")
        case True
        then have "count + int (adds H b i (set S)) > 1" using v1 v2 Cons.prems(3) by (cases "k1 \<le> 1") auto
        then show ?thesis using True loop fc v(2) Cons.prems(3) by auto
      next
        case False
        then have k: "k1 \<le> 1" using Cons.prems(3) by auto
        have S2: "set S2 = set S \<union> shared_by H b i" using v1 [OF k] go by (auto simp: S1 shared_by_def)
        have "closed_below H b c (set S2)" unfolding S2 by (rule closed_below_after [OF Cons.prems(2) d])
        moreover have "set is \<subseteq> set (class_base_candidates H c)" "count + k1 \<in> {0, 1}"
          using Cons.prems(1,3) False v(2) by auto
        ultimately obtain k S' where "subobject_loop has visit c b is (count + k1) S2 = Some (k, S')" "k \<ge> 0"
          and "k \<le> 1 \<Longrightarrow> set S' = set S2 \<union> step_shared H b c is
            \<and> k = count + k1 + int (found H b (step_ways H b c is) (step_shared H b c is) (set S2))"
          and "k > 1 \<Longrightarrow> count + k1 + int (found H b (step_ways H b c is) (step_shared H b c is) (set S2)) > 1"
          using Cons.IH [of S2 "count + k1"] by blast
        moreover have "k1 = int (adds H b i (set S))" using v1 [OF k] by simp
        ultimately show ?thesis using False unfolding loop fc S2 by (intro exI [of _ k] exI [of _ S']) (simp add: step Un_assoc add.assoc)
      qed
    qed
  qed
qed

lemma subobject_count:
  assumes r: "ranked H r" and ok: "bases_ok H" and b: "b \<noteq> 0"
  shows "r c < n \<Longrightarrow> c \<noteq> 0 \<Longrightarrow> closed_below H b c (set S) \<Longrightarrow>
    counts H b (ways H c b) (shared H b c) S (class_base_subobject_count n H c b S)"
proof (induction n arbitrary: c S)
  case 0 then show ?case by simp
next
  case (Suc n)
  show ?case
  proof (cases "c = b")
    case True
    have "shared H b b = {}" using derives_irrefl [OF r] derives_trans shared_derives
      unfolding shared_def leads_def by (metis (mono_tags, lifting) Collect_empty_eq virtual_base_derives)
    then show ?thesis using True Suc.prems ways_self [OF r] by (auto simp: counts_def found_def)
  next
    case False
    have "\<exists>k S'. subobject_loop (\<lambda>d. class_has_base n H d b) (\<lambda>d v. class_base_subobject_count n H d b v) c b (class_base_candidates H c) 0 S
        = Some (k, S') \<and> k \<ge> 0
      \<and> (k \<le> 1 \<longrightarrow> set S' = set S \<union> step_shared H b c (class_base_candidates H c)
           \<and> k = 0 + int (found H b (step_ways H b c (class_base_candidates H c)) (step_shared H b c (class_base_candidates H c)) (set S)))
      \<and> (k > 1 \<longrightarrow> 0 + int (found H b (step_ways H b c (class_base_candidates H c)) (step_shared H b c (class_base_candidates H c)) (set S)) > 1)"
    proof (rule subobject_loop_counts [OF r])
      show "class_has_base n H (base_tok i) b = Some (derives H (base_tok i) b)" if "direct H c i" for i
        using class_has_base_derives [OF r] rankedD [OF r that] Suc.prems(1) by simp
      show "counts H b (ways H (base_tok i) b) (shared H b (base_tok i)) S (class_base_subobject_count n H (base_tok i) b S)"
        if "direct H c i" "closed_below H b (base_tok i) (set S)" for i S
        using Suc.IH [of "base_tok i" S] that rankedD [OF r that(1)] Suc.prems(1) ok by (auto simp: bases_ok_def)
    qed (use Suc.prems in simp_all)
    moreover have "step_ways H b c (class_base_candidates H c) = ways H c b" by (simp add: step_ways_def ways_step [OF r ok False])
    moreover have "step_shared H b c (class_base_candidates H c) = shared H b c" by (simp add: step_shared_def flip: shared_step)
    ultimately show ?thesis using False b Suc.prems(2) by (auto simp: counts_def)
  qed
qed

section \<open>The number of subobjects\<close>

lemma subobjects_split:
  assumes r: "ranked H r"
  shows "finite (subobjects H c b)" "card (subobjects H c b) = found H b (ways H c b) (shared H b c) {}"
proof -
  have split: "subobjects H c b = paths H c b \<union> (\<Union>v \<in> shared H b c. paths H v b)"
    using path_derives unfolding subobjects_def paths_def shared_def leads_def by (auto; metis)
  have c: "c \<notin> shared H b c" using shared_derives derives_irrefl [OF r] by blast
  have "paths H c b \<inter> (\<Union>v \<in> shared H b c. paths H v b) = {}" using c unfolding paths_def by auto
  moreover have "card (\<Union>v \<in> shared H b c. paths H v b) = (\<Sum>v \<in> shared H b c. ways H v b)"
    unfolding ways_def by (rule card_UN_disjoint) (use finite_shared [OF r] finite_paths [OF r] in \<open>auto simp: paths_def\<close>)
  ultimately show "card (subobjects H c b) = found H b (ways H c b) (shared H b c) {}"
    unfolding split using finite_shared [OF r] finite_paths [OF r] by (simp add: card_Un_disjoint ways_def found_def)
  show "finite (subobjects H c b)" unfolding split using finite_shared [OF r] finite_paths [OF r] by simp
qed

text \<open>C36: a base is unambiguous exactly when there is one of it.  In a class hierarchy without cycles,
  \<open>class_has_unique_base\<close> holds exactly when an object of the class contains exactly one base subobject of the other
  class, where all inheritance paths through a virtual base share it: the walk that visits virtual bases once and stops
  early neither misses a second subobject nor counts one twice.\<close>

theorem unique_base_counts_subobjects:
  assumes "ranked H r" and "bases_ok H" and "c \<noteq> 0" and "b \<noteq> 0" and "c \<noteq> b" and "r c < n"
  shows "class_has_unique_base n H c b = Some (card (subobjects H c b) = 1)"
proof -
  have "counts H b (ways H c b) (shared H b c) [] (class_base_subobject_count n H c b [])"
    by (rule subobject_count) (use assms in \<open>simp_all add: closed_below_def\<close>)
  then show ?thesis
    using assms(3-5) subobjects_split(2) [OF assms(1), of c b] unfolding class_has_unique_base_def counts_def by fastforce
qed

theorem unique_base_counts_subobjects_witness:
  "card (subobjects diamond 4 1) = 1 \<and> class_has_unique_base 5 diamond 4 1 = Some True"
proof -
  have "class_has_unique_base 5 diamond 4 1 = Some True" by code_simp
  then show ?thesis using unique_base_counts_subobjects [OF diamond_ok(2,1), of 4 1 5] by simp
qed

end
