(* ===== verification/ClassVirtual.thy ===== *)
theory ClassVirtual imports ClassBasesFacts
begin

text \<open>
  The virtual bases of a class, in the order in which the constructor of the most derived class sets them up.
\<close>

section \<open>Virtual bases\<close>

lemma class_has_virtual_base_iff:
  assumes r: "ranked H r" and ok: "bases_ok H"
  shows "r c < n \<Longrightarrow> c \<noteq> 0 \<Longrightarrow> class_has_virtual_base_at H c n \<longleftrightarrow> (\<exists>v. virtual_base H c v)"
proof (induction n arbitrary: c)
  case 0 then show ?case by simp
next
  case (Suc n)
  have "class_has_virtual_base_at H (base_tok i) n \<longleftrightarrow> (\<exists>v. virtual_base H (base_tok i) v)" if "direct H c i" for i
    using Suc.IH [of "base_tok i"] Suc.prems rankedD [OF r that] ok that by (auto simp: bases_ok_def)
  then have "class_has_virtual_base_at H c (Suc n) \<longleftrightarrow> (\<exists>i. direct H c i \<and> (is_virtual i \<or> (\<exists>v. virtual_base H (base_tok i) v)))"
    using Suc.prems(2) by (auto simp: direct_def)
  also have "\<dots> \<longleftrightarrow> (\<exists>v. virtual_base H c v)" using virtual_base_iff [of H c] by blast
  finally show ?case .
qed

section \<open>The order of construction\<close>

definition in_order :: "class_bases \<Rightarrow> int list \<Rightarrow> bool" where
  "in_order H vs \<longleftrightarrow> distinct vs \<and> (\<forall>k < length vs. {w. virtual_base H (vs ! k) w} \<subseteq> set (take k vs))"

lemma in_order_snoc: "in_order H vs \<Longrightarrow> v \<notin> set vs \<Longrightarrow> {w. virtual_base H v w} \<subseteq> set vs \<Longrightarrow> in_order H (vs @ [v])"
  by (auto simp: in_order_def nth_append less_Suc_eq)

text \<open>The virtual bases a class has from one of its direct bases.\<close>

definition brings :: "class_bases \<Rightarrow> base_info \<Rightarrow> int set" where
  "brings H i = {w. virtual_base H (base_tok i) w} \<union> (if is_virtual i then {base_tok i} else {})"

lemma brings_all: "{w. virtual_base H c w} = (\<Union>i \<in> {i. direct H c i}. brings H i)"
  using virtual_base_iff [of H c] by (auto simp: brings_def split: if_splits)

lemma declared_bases_direct:
  assumes "length (filter (\<lambda>i. class_tok i = c) (class_base_candidates H c)) \<le> CPC_MAX_VIRTUAL_BASES"
  shows "set (declared_bases H c) = {i. direct H c i}"
  using assms by (auto simp: declared_bases_def direct_def)

lemma collect_loop:
  assumes "\<And>i vs. i \<in> set js \<Longrightarrow> in_order H vs \<Longrightarrow> set vs \<subseteq> U \<Longrightarrow>
      in_order H (f i vs) \<and> set (f i vs) = set vs \<union> {w. virtual_base H (base_tok i) w}"
    and "finite U" "card U \<le> CPC_MAX_VIRTUAL_BASES" and "\<And>i. i \<in> set js \<Longrightarrow> brings H i \<subseteq> U"
    and "in_order H vs" "set vs \<subseteq> U"
  shows "in_order H (fold (\<lambda>i vs. add_virtual_base i (f i vs)) js vs)
    \<and> set (fold (\<lambda>i vs. add_virtual_base i (f i vs)) js vs) = set vs \<union> (\<Union>i \<in> set js. brings H i)"
  using assms(1,4-6)
proof (induction js arbitrary: vs)
  case Nil then show ?case by simp
next
  case (Cons i js)
  have f: "in_order H (f i vs)" "set (f i vs) = set vs \<union> {w. virtual_base H (base_tok i) w}"
    using Cons.prems(1) [of i vs] Cons.prems(3,4) by simp_all
  have u: "set (f i vs) \<subseteq> U" using f(2) Cons.prems(2) [of i] Cons.prems(4) by (auto simp: brings_def)
  have add: "in_order H (add_virtual_base i (f i vs)) \<and> set (add_virtual_base i (f i vs)) = set vs \<union> brings H i"
  proof (cases "is_virtual i \<and> base_tok i \<notin> set (f i vs)")
    case True
    have "length (f i vs) = card (set (f i vs))" using f(1) by (simp add: in_order_def distinct_card)
    also have "\<dots> < card U"
    proof (rule psubset_card_mono [OF assms(2)])
      show "set (f i vs) \<subset> U" using u True Cons.prems(2) [of i] by (auto simp: brings_def)
    qed
    finally have "length (f i vs) < CPC_MAX_VIRTUAL_BASES" using assms(3) by simp
    then have "add_virtual_base i (f i vs) = f i vs @ [base_tok i]" using True by (simp add: add_virtual_base_def)
    moreover have "in_order H (f i vs @ [base_tok i])" by (rule in_order_snoc) (use f True in auto)
    ultimately show ?thesis using True f(2) by (auto simp: brings_def)
  next
    case False
    then have "add_virtual_base i (f i vs) = f i vs" by (auto simp: add_virtual_base_def)
    then show ?thesis using False f by (auto simp: brings_def)
  qed
  have "in_order H (fold (\<lambda>i vs. add_virtual_base i (f i vs)) js (add_virtual_base i (f i vs)))
    \<and> set (fold (\<lambda>i vs. add_virtual_base i (f i vs)) js (add_virtual_base i (f i vs)))
      = set (add_virtual_base i (f i vs)) \<union> (\<Union>i \<in> set js. brings H i)"
    by (rule Cons.IH) (use Cons.prems add in auto)
  then show ?case using add by (simp add: Un_assoc)
qed

lemma collect_ordered:
  assumes r: "ranked H r" and ok: "bases_ok H" and U: "finite U" "card U \<le> CPC_MAX_VIRTUAL_BASES"
    and few: "\<And>c. length (filter (\<lambda>i. class_tok i = c) (class_base_candidates H c)) \<le> CPC_MAX_VIRTUAL_BASES"
  shows "r c < n \<Longrightarrow> c \<noteq> 0 \<Longrightarrow> {w. virtual_base H c w} \<subseteq> U \<Longrightarrow> in_order H vs \<Longrightarrow> set vs \<subseteq> U \<Longrightarrow>
    in_order H (collect_class_virtual_bases H c n vs)
    \<and> set (collect_class_virtual_bases H c n vs) = set vs \<union> {w. virtual_base H c w}"
proof (induction n arbitrary: c vs)
  case 0 then show ?case by simp
next
  case (Suc n)
  have "in_order H (fold (\<lambda>i vs. add_virtual_base i (collect_class_virtual_bases H (base_tok i) n vs)) (declared_bases H c) vs)
    \<and> set (fold (\<lambda>i vs. add_virtual_base i (collect_class_virtual_bases H (base_tok i) n vs)) (declared_bases H c) vs)
      = set vs \<union> (\<Union>i \<in> set (declared_bases H c). brings H i)"
  proof (rule collect_loop [OF _ U])
    fix i vs assume "i \<in> set (declared_bases H c)" and vs: "in_order H vs" "set vs \<subseteq> U"
    then have i: "direct H c i" using declared_bases_direct [OF few] by auto
    show "in_order H (collect_class_virtual_bases H (base_tok i) n vs)
      \<and> set (collect_class_virtual_bases H (base_tok i) n vs) = set vs \<union> {w. virtual_base H (base_tok i) w}"
    proof (rule Suc.IH)
      show "r (base_tok i) < n" using rankedD [OF r i] Suc.prems(1) by simp
      show "base_tok i \<noteq> 0" using ok i by (auto simp: bases_ok_def)
      show "{w. virtual_base H (base_tok i) w} \<subseteq> U" using Suc.prems(3) i virtual_base_iff [of H c] by blast
    qed (use vs in auto)
  next
    fix i assume "i \<in> set (declared_bases H c)"
    then show "brings H i \<subseteq> U" using Suc.prems(3) declared_bases_direct [OF few] unfolding brings_all by auto
  qed (use Suc.prems in auto)
  then show ?case using Suc.prems(2) declared_bases_direct [OF few, of c] by (simp add: brings_all)
qed

text \<open>C38: virtual bases are set up once each, and before what is built on them.  For a class hierarchy without cycles, at
  most 65 deep and with at most 64 bases to a class and 64 virtual bases, \<open>collect_class_virtual_bases\<close> lists every virtual
  base of the class exactly once and nothing else, and before each of them come all the virtual bases that it has itself.\<close>

theorem virtual_bases_in_order:
  assumes "ranked H r" and "bases_ok H" and "c \<noteq> 0" and "r c < 65"
    and "\<And>d. length (filter (\<lambda>i. class_tok i = d) (class_base_candidates H d)) \<le> CPC_MAX_VIRTUAL_BASES"
    and "card {w. virtual_base H c w} \<le> CPC_MAX_VIRTUAL_BASES"
  shows "let vs = collect_class_virtual_bases H c 65 [] in
    distinct vs \<and> set vs = {w. virtual_base H c w} \<and> (\<forall>k < length vs. {w. virtual_base H (vs ! k) w} \<subseteq> set (take k vs))"
proof -
  have "finite {w. virtual_base H c w}"
    by (rule finite_subset [OF _ finite_derives [OF assms(1), of c]]) (auto simp: virtual_base_def intro: derives.base derives_trans)
  then have "in_order H (collect_class_virtual_bases H c 65 []) \<and> set (collect_class_virtual_bases H c 65 []) = set [] \<union> {w. virtual_base H c w}"
    by (intro collect_ordered [OF assms(1,2) _ assms(6,5,4,3)]) (simp_all add: in_order_def)
  then show ?thesis by (simp add: in_order_def Let_def)
qed

theorem virtual_bases_in_order_witness:
  "collect_class_virtual_bases diamond 4 65 [] = [1] \<and> {w. virtual_base diamond 4 w} = {1}"
proof -
  have v: "virtual_base diamond 4 w \<Longrightarrow> w \<in> {1, 2, 3}" for w
    using diamond_ok by (auto simp: virtual_base_def diamond_def Let_def direct_note)
  have few: "length (filter (\<lambda>i. class_tok i = d) (class_base_candidates diamond d)) \<le> CPC_MAX_VIRTUAL_BASES" for d
    by (simp add: diamond_def Let_def note_class_base_def class_base_candidates_def no_bases_def CPC_MAX_VIRTUAL_BASES_def)
  have "card {w. virtual_base diamond 4 w} \<le> card {1, 2, 3 :: int}" by (rule card_mono) (use v in auto)
  then have card: "card {w. virtual_base diamond 4 w} \<le> CPC_MAX_VIRTUAL_BASES" by (simp add: CPC_MAX_VIRTUAL_BASES_def)
  have "collect_class_virtual_bases diamond 4 65 [] = [1]" by code_simp
  then show ?thesis using virtual_bases_in_order [OF diamond_ok(2,1) _ _ few card] by (simp add: Let_def)
qed

end
