(* ===== verification/ClassOffsets.thy ===== *)
theory ClassOffsets imports ClassBasesFacts
begin

text \<open>
  Where the base subobjects of a class are.  An inheritance chain is a list of base specifiers with a place in the layout;
  its offset is the sum of theirs.  A static cast down to a derived class is compared with the chains.
\<close>

section \<open>Inheritance chains\<close>

primrec inherits :: "class_bases \<Rightarrow> int \<Rightarrow> base_info list \<Rightarrow> int \<Rightarrow> bool" where
  "inherits H c [] b = (c = b)"
| "inherits H c (i # is) b = (direct H c i \<and> base_field i \<noteq> None \<and> inherits H (base_tok i) is b)"

definition chain_offset :: "base_info list \<Rightarrow> int" where
  "chain_offset is = (\<Sum>i \<leftarrow> is. the (base_field i))"

lemma chain_offset_simps [simp]: "chain_offset [] = 0" "chain_offset (i # is) = the (base_field i) + chain_offset is"
  by (simp_all add: chain_offset_def)

definition through :: "class_bases \<Rightarrow> int \<Rightarrow> int \<Rightarrow> base_info list set" where
  "through H c b = {is. inherits H c is b}"

lemma inherits_derives: "inherits H c is b \<Longrightarrow> is = [] \<and> c = b \<or> derives H c b"
  by (induction "is" arbitrary: c) (auto intro: derives.base derives.step)

lemma inherits_self: "ranked H r \<Longrightarrow> inherits H b is b \<Longrightarrow> is = []"
  using inherits_derives derives_irrefl by blast

lemma inherits_append: "inherits H c (is @ js) b \<longleftrightarrow> (\<exists>d. inherits H c is d \<and> inherits H d js b)"
  by (induction "is" arbitrary: c) auto

definition over :: "class_bases \<Rightarrow> int \<Rightarrow> int \<Rightarrow> base_info list \<Rightarrow> base_info list set" where
  "over H c b js = {i # is | i is. i \<in> set js \<and> class_tok i = c \<and> base_field i \<noteq> None \<and> inherits H (base_tok i) is b}"

lemma over_candidates: "c \<noteq> b \<Longrightarrow> over H c b (class_base_candidates H c) = through H c b"
proof -
  assume "c \<noteq> b"
  then have "is \<in> through H c b \<longleftrightarrow> is \<in> over H c b (class_base_candidates H c)" for "is"
    unfolding over_def through_def by (cases "is") (auto simp: direct_def)
  then show ?thesis by blast
qed

lemma over_simps:
  "over H c b [] = {}"
  "class_tok i \<noteq> c \<or> base_field i = None \<Longrightarrow> over H c b (i # js) = over H c b js"
  "class_tok i = c \<Longrightarrow> base_field i \<noteq> None \<Longrightarrow> over H c b (i # js) = (#) i ` through H (base_tok i) b \<union> over H c b js"
  by (auto simp: over_def through_def)

section \<open>The first subobject\<close>

text \<open>An offset that belongs to one of the chains, if there is one.\<close>

definition offset_among :: "base_info list set \<Rightarrow> int option \<Rightarrow> bool" where
  "offset_among P x = (case x of None \<Rightarrow> P = {} | Some k \<Rightarrow> k \<in> chain_offset ` P)"

lemma first_offset_chain:
  assumes "\<And>i. i \<in> set js \<Longrightarrow> class_tok i = c \<Longrightarrow> base_field i \<noteq> None \<Longrightarrow>
      \<exists>x. f (base_tok i) = Some x \<and> offset_among (through H (base_tok i) b) x"
  shows "\<exists>x. first_offset (\<lambda>i. if class_tok i \<noteq> c then Some None
        else case base_field i of None \<Rightarrow> Some None | Some at \<Rightarrow> add_field at (f (base_tok i))) js = Some x
    \<and> offset_among (over H c b js) x"
  using assms
proof (induction js)
  case Nil then show ?case by (simp add: over_simps offset_among_def)
next
  case (Cons i js)
  from Cons obtain y where y: "first_offset (\<lambda>i. if class_tok i \<noteq> c then Some None
        else case base_field i of None \<Rightarrow> Some None | Some at \<Rightarrow> add_field at (f (base_tok i))) js = Some y"
    and yo: "offset_among (over H c b js) y" by auto
  show ?case
  proof (cases "class_tok i = c \<and> base_field i \<noteq> None")
    case False
    then show ?thesis using y yo over_simps(2) [of i c H b js] by auto
  next
    case True
    then obtain at where at: "base_field i = Some at" by auto
    from Cons.prems [of i] True obtain x where x: "f (base_tok i) = Some x"
      and xo: "offset_among (through H (base_tok i) b) x" by auto
    show ?thesis
    proof (cases x)
      case None
      then show ?thesis using True at x xo y yo over_simps(3) [of i c H b js] by (auto simp: add_field_def offset_among_def split: option.splits)
    next
      case (Some k)
      then obtain p where "p \<in> through H (base_tok i) b" "k = chain_offset p" using xo by (auto simp: offset_among_def)
      then have "at + k \<in> chain_offset ` over H c b (i # js)"
        using True at over_simps(3) [of i c H b js] by (intro image_eqI [of _ _ "i # p"]) auto
      then show ?thesis using Some True at x by (auto simp: add_field_def offset_among_def)
    qed
  qed
qed

lemma class_subobject_offset_chain:
  assumes r: "ranked H r"
  shows "r c < n \<Longrightarrow> \<exists>x. class_subobject_offset n H c b = Some x
    \<and> offset_among (through H c b) x"
proof (induction n arbitrary: c)
  case 0 then show ?case by simp
next
  case (Suc n)
  show ?case
  proof (cases "c = b")
    case True
    have "[] \<in> through H b b" by (simp add: through_def)
    then have "0 \<in> chain_offset ` through H b b" using image_eqI [of 0 chain_offset "[]"] by simp
    then show ?thesis using True by (simp add: offset_among_def)
  next
    case False
    have "\<exists>x. first_offset (\<lambda>i. if class_tok i \<noteq> c then Some None
        else case base_field i of None \<Rightarrow> Some None | Some at \<Rightarrow> add_field at (class_subobject_offset n H (base_tok i) b)) (class_base_candidates H c) = Some x
      \<and> offset_among (over H c b (class_base_candidates H c)) x"
    proof (rule first_offset_chain)
      fix i assume "i \<in> set (class_base_candidates H c)" "class_tok i = c"
      then show "\<exists>x. class_subobject_offset n H (base_tok i) b = Some x
        \<and> offset_among (through H (base_tok i) b) x"
        using Suc rankedD [OF r, of c i] by (auto simp: direct_def)
    qed
    then show ?thesis using False over_candidates [OF False] by simp
  qed
qed

section \<open>Static casts to a derived class\<close>

text \<open>The answer for a set of chains: none, exactly one and that without virtual bases, or otherwise.\<close>

definition answers :: "base_info list set \<Rightarrow> int \<Rightarrow> int \<times> int \<Rightarrow> bool" where
  "answers P off res \<longleftrightarrow>
     P = {} \<and> res = (0, off)
   \<or> (\<exists>is. P = {is} \<and> (\<forall>i \<in> set is. \<not> is_virtual i) \<and> res = (1, chain_offset is))
   \<or> fst res = -1 \<and> (\<exists>is \<in> P. (\<exists>i \<in> set is. is_virtual i) \<or> (\<exists>js \<in> P. is \<noteq> js))"

text \<open>The loop so far has seen the chains \<open>P\<close>: none or one.\<close>

definition seen_ok :: "base_info list set \<Rightarrow> int \<Rightarrow> int \<Rightarrow> int \<Rightarrow> bool" where
  "seen_ok P off0 matches off \<longleftrightarrow>
     P = {} \<and> matches = 0 \<and> off = off0
   \<or> (\<exists>is. P = {is} \<and> (\<forall>i \<in> set is. \<not> is_virtual i) \<and> matches = 1 \<and> off = chain_offset is)
   \<or> matches > 1 \<and> (\<exists>is \<in> P. \<exists>js \<in> P. is \<noteq> js)"

lemma answers_bad: "is \<in> P \<Longrightarrow> (\<exists>i \<in> set is. is_virtual i) \<or> (\<exists>js \<in> P. is \<noteq> js) \<Longrightarrow> answers P off (-1, k)"
  unfolding answers_def by auto

lemma seen_answers:
  assumes "seen_ok P off0 matches off"
  shows "answers P off0 (if matches > 1 then -1 else matches, off)"
  using assms unfolding seen_ok_def
proof (elim disjE conjE exE bexE)
  fix p assume "P = {p}" "\<forall>i \<in> set p. \<not> is_virtual i" "matches = 1" "off = chain_offset p"
  then show ?thesis by (simp add: answers_def)
next
  fix p q assume "matches > 1" "p \<in> P" "q \<in> P" "p \<noteq> q"
  then have "answers P off0 (-1, off)" by (intro answers_bad [of p]) auto
  then show ?thesis using \<open>matches > 1\<close> by simp
qed (simp add: answers_def)

lemma seen_more:
  assumes "seen_ok P off0 matches off" "q \<notin> P" "\<forall>i \<in> set q. \<not> is_virtual i"
  shows "seen_ok (insert q P) off0 (matches + 1) (chain_offset q)"
proof -
  have two: "seen_ok (insert q P) off0 (matches + 1) (chain_offset q)" if "matches > 0" "x \<in> insert q P" "y \<in> insert q P" "x \<noteq> y" for x y
    unfolding seen_ok_def using that by (intro disjI2 conjI bexI [of _ x] bexI [of _ y]) auto
  from assms(1) show ?thesis unfolding seen_ok_def [of P]
  proof (elim disjE conjE exE bexE)
    assume "P = {}" "matches = 0" then show ?thesis using assms(3) by (simp add: seen_ok_def)
  next
    fix p assume "P = {p}" "matches = 1" then show ?thesis using two [of p q] assms(2) by simp
  next
    fix x y assume "matches > 1" "x \<in> P" "y \<in> P" "x \<noteq> y" then show ?thesis using two [of x y] by simp
  qed
qed

lemma downcast_loop_answers:
  assumes nested: "\<And>i. i \<in> set js \<Longrightarrow> class_tok i = d \<Longrightarrow> base_field i \<noteq> None \<Longrightarrow>
      \<exists>res. nested (base_tok i) = Some res \<and> answers (through H (base_tok i) t) 0 res"
    and "seen_ok P off0 matches off" and dj: "P \<inter> over H d t js = {}" and dist: "distinct js"
  shows "\<exists>res. downcast_loop nested d js matches off = Some res \<and> answers (P \<union> over H d t js) off0 res"
  using assms
proof (induction js arbitrary: P matches off)
  case Nil
  have "answers P off0 (if matches > 1 then -1 else matches, off)" by (rule seen_answers [OF Nil(2)])
  then show ?case by (simp add: over_simps)
next
  case (Cons i js)
  have tail: "\<exists>res. nested (base_tok j) = Some res \<and> answers (through H (base_tok j) t) 0 res"
    if "j \<in> set js" "class_tok j = d" "base_field j \<noteq> None" for j using that Cons.prems(1) by simp
  show ?case
  proof (cases "class_tok i = d \<and> base_field i \<noteq> None")
    case False
    then have "over H d t (i # js) = over H d t js" using over_simps(2) by blast
    note same = this
    have "downcast_loop nested d (i # js) matches off = downcast_loop nested d js matches off"
      using False by (auto split: option.split)
    moreover have "\<exists>res. downcast_loop nested d js matches off = Some res \<and> answers (P \<union> over H d t js) off0 res"
      using Cons.IH [OF tail Cons.prems(2)] Cons.prems(3,4) unfolding same by simp
    ultimately show ?thesis unfolding same by simp
  next
    case True
    then obtain at where at: "base_field i = Some at" by auto
    define N where "N = (#) i ` through H (base_tok i) t"
    have ov: "over H d t (i # js) = N \<union> over H d t js" using True over_simps(3) by (simp add: N_def)
    obtain k off' where n: "nested (base_tok i) = Some (k, off')" and a: "answers (through H (base_tok i) t) 0 (k, off')"
      using Cons.prems(1) [of i] True by auto
    have step: "downcast_loop nested d (i # js) matches off =
        (if k < 0 \<or> k \<noteq> 0 \<and> is_virtual i then Some (-1, off)
         else if k \<noteq> 0 then downcast_loop nested d js (matches + k) (at + off') else downcast_loop nested d js matches off)"
      using True at n by simp
    have disj: "N \<inter> over H d t js = {}" using Cons.prems(4) by (auto simp: N_def over_def)
    have rest: "\<exists>res. downcast_loop nested d js m o' = Some res \<and> answers (P \<union> N \<union> over H d t js) off0 res"
      if "seen_ok (P \<union> N) off0 m o'" for m o'
    proof (rule Cons.IH [OF tail that])
      show "(P \<union> N) \<inter> over H d t js = {}" using Cons.prems(3) disj unfolding ov by blast
    qed (use Cons.prems(4) in simp_all)
    show ?thesis
    proof (cases "k < 0 \<or> k \<noteq> 0 \<and> is_virtual i")
      case True
      from a have "\<exists>is \<in> N. (\<exists>i \<in> set is. is_virtual i) \<or> (\<exists>js \<in> N. is \<noteq> js)"
        unfolding answers_def
      proof (elim disjE conjE exE bexE)
        fix p assume "through H (base_tok i) t = {p}" "(k, off') = (1, chain_offset p)"
        then show ?thesis using True unfolding N_def by simp
      next
        fix p i' assume "p \<in> through H (base_tok i) t" "i' \<in> set p" "is_virtual i'"
        then show ?thesis unfolding N_def by (intro bexI [of _ "i # p"]) auto
      next
        fix p q assume "p \<in> through H (base_tok i) t" "q \<in> through H (base_tok i) t" "p \<noteq> q"
        then show ?thesis unfolding N_def by (intro bexI [of _ "i # p"] disjI2 bexI [of _ "i # q"]) auto
      qed (use True in simp)
      then obtain "is" where "is \<in> N" "(\<exists>i \<in> set is. is_virtual i) \<or> (\<exists>js \<in> N. is \<noteq> js)" by blast
      then have "answers (P \<union> over H d t (i # js)) off0 (-1, off)"
        unfolding ov by (intro answers_bad [of "is"]) auto
      then show ?thesis using step True by auto
    next
      case False
      from a consider "k = 0" "N = {}" | p where "k = 1" "N = {i # p}" "\<forall>j \<in> set p. \<not> is_virtual j" "off' = chain_offset p" "\<not> is_virtual i"
        unfolding answers_def
      proof (elim disjE conjE exE)
        assume "through H (base_tok i) t = {}" "(k, off') = (0, 0)"
        then show ?thesis using that(1) by (simp add: N_def)
      next
        fix p assume "through H (base_tok i) t = {p}" "\<forall>j \<in> set p. \<not> is_virtual j" "(k, off') = (1, chain_offset p)"
        then show ?thesis using that(2) [of p] False by (simp add: N_def)
      qed (use False in simp)
      then show ?thesis
      proof cases
        case 1 then show ?thesis using step rest [of matches off] Cons.prems(2) unfolding ov by simp
      next
        case (2 p)
        have new: "i # p \<notin> P" using Cons.prems(3) ov 2(2) by auto
        have one: "chain_offset (i # p) = at + off'" "\<forall>j \<in> set (i # p). \<not> is_virtual j" using 2 at by simp_all
        have "seen_ok (P \<union> N) off0 (matches + k) (at + off')"
          using seen_more [OF Cons.prems(2) new one(2)] 2(1,2) one(1) by simp
        moreover have "downcast_loop nested d (i # js) matches off = downcast_loop nested d js (matches + k) (at + off')"
          using step False 2(1) by simp
        ultimately show ?thesis using rest unfolding ov by (simp add: Un_assoc)
      qed
    qed
  qed
qed

lemma class_static_downcast_answers:
  assumes r: "ranked H r" and ok: "bases_ok H" and t: "t \<noteq> 0"
  shows "r d < n \<Longrightarrow> d \<noteq> 0 \<Longrightarrow> \<exists>res. class_static_downcast_offset n H d t off = Some res \<and> answers (through H d t) off res"
proof (induction n arbitrary: d off)
  case 0 then show ?case by simp
next
  case (Suc n)
  show ?case
  proof (cases "d = t")
    case True
    have "through H t t = {[]}" using inherits_self [OF r] by (auto simp: through_def)
    then show ?thesis using True t by (simp add: answers_def)
  next
    case False
    have dist: "distinct (filter (\<lambda>i. class_tok i = d) (class_base_candidates H d))"
      using ok unfolding bases_ok_def distinct_map by blast
    have drop: "downcast_loop f d js m k = downcast_loop f d (filter (\<lambda>i. class_tok i = d) js) m k" for f js m k
      by (induction js arbitrary: m k) (auto split: option.splits)
    have over: "over H d t (filter (\<lambda>i. class_tok i = d) js) = over H d t js" for js by (auto simp: over_def)
    have "\<exists>res. downcast_loop (\<lambda>e. class_static_downcast_offset n H e t 0) d (filter (\<lambda>i. class_tok i = d) (class_base_candidates H d)) 0 off = Some res
        \<and> answers ({} \<union> over H d t (filter (\<lambda>i. class_tok i = d) (class_base_candidates H d))) off res"
    proof (rule downcast_loop_answers)
      fix i assume "i \<in> set (filter (\<lambda>i. class_tok i = d) (class_base_candidates H d))"
      then have "direct H d i" by (simp add: direct_def)
      then show "\<exists>res. class_static_downcast_offset n H (base_tok i) t 0 = Some res \<and> answers (through H (base_tok i) t) 0 res"
        using Suc.IH [of "base_tok i" 0] Suc.prems(1) rankedD [OF r] ok by (fastforce simp: bases_ok_def)
    qed (use dist in \<open>simp_all add: seen_ok_def\<close>)
    then show ?thesis using False Suc.prems t over_candidates [OF False] by (simp add: over flip: drop)
  qed
qed

text \<open>C37: a static cast to a derived class undoes the conversion to the base.  In a class hierarchy without cycles,
  \<open>class_static_downcast_offset\<close> finds the answer 0 exactly when the class does not inherit from the other, and 1 exactly when it
  inherits from it along one chain of bases, none of them virtual, and never anything else but -1; the offset it finds then
  is the one that the conversion to the base adds.\<close>

theorem static_downcast_undoes:
  assumes "ranked H r" and "bases_ok H" and "d \<noteq> 0" and "t \<noteq> 0" and "r d < n"
  shows "\<exists>count off'. class_static_downcast_offset n H d t off = Some (count, off') \<and> count \<in> {-1, 0, 1}
    \<and> (count = 0 \<longleftrightarrow> through H d t = {})
    \<and> (count = 1 \<longleftrightarrow> (\<exists>is. through H d t = {is} \<and> (\<forall>i \<in> set is. \<not> is_virtual i)))
    \<and> (count = 1 \<longrightarrow> class_subobject_offset n H d t = Some (Some off'))"
proof -
  obtain count off' where res: "class_static_downcast_offset n H d t off = Some (count, off')" and a: "answers (through H d t) off (count, off')"
    using class_static_downcast_answers [OF assms(1,2,4,5,3)] by force
  have "class_subobject_offset n H d t = Some (Some off')" if one: "count = 1"
  proof -
    obtain "is" where t: "through H d t = {is}" "off' = chain_offset is" using a one unfolding answers_def by auto
    then show ?thesis using class_subobject_offset_chain [OF assms(1,5), of t] by (auto simp: offset_among_def split: option.splits)
  qed
  then show ?thesis using res a unfolding answers_def by (intro exI [of _ count] exI [of _ off']) auto
qed

text \<open>Class 3 derives from 2 at the offset 8 and class 2 from 1 at 16.\<close>

definition laid_out :: "class_bases" where
  "laid_out =
     (let base = (\<lambda>c b at. \<lparr>class_tok = c, base_tok = b, access = 0, is_virtual = False, base_field = Some at\<rparr>);
        all = [base 3 2 8, base 2 1 16]
      in \<lparr>class_base_infos = all, class_base_buckets = (\<lambda>k. filter (\<lambda>i. class_tok i mod 4096 = k) all)\<rparr>)"

lemma laid_out_ok: "bases_ok laid_out" "ranked laid_out nat"
proof -
  have d: "direct laid_out c i \<longleftrightarrow> i \<in> set (class_base_infos laid_out) \<and> class_tok i = c" for c i
    by (auto simp: direct_def laid_out_def class_base_candidates_def Let_def)
  show "bases_ok laid_out" unfolding bases_ok_def d by (auto simp: laid_out_def class_base_candidates_def Let_def)
  show "ranked laid_out nat" unfolding ranked_def d by (auto simp: laid_out_def Let_def)
qed

theorem static_downcast_undoes_witness:
  "class_static_downcast_offset 4 laid_out 3 1 0 = Some (1, 24) \<and> class_subobject_offset 4 laid_out 3 1 = Some (Some 24)"
proof -
  have "class_static_downcast_offset 4 laid_out 3 1 0 = Some (1, 24)" by code_simp
  then show ?thesis using static_downcast_undoes [OF laid_out_ok(2,1), of 3 1 4 0] by simp
qed

end
