(* ===== verification/Rtti.thy ===== *)
theory Rtti imports ClassOffsets
begin

text \<open>
  Run-time type information.  The compiler (\<^verbatim>\<open>src/src/compiler/frontend/cprimegen_rtti.inc\<close>) lists the base subobjects of
  each polymorphic class in a table, which the vtables point to; \<open>__cpc_dynamic_cast\<close> and \<open>__cpc_virtual_base_cast\<close>
  (\<^verbatim>\<open>src/src/runtime/windows/rtti.inc\<close>) search it.
\<close>

section \<open>The table of a class\<close>

record rtti_node =
  node_class :: int
  node_offset :: int
  node_parent :: int
  node_public :: bool

primrec collect_loop ::
  "(base_info \<Rightarrow> rtti_node list \<Rightarrow> rtti_node list option) \<Rightarrow> int \<Rightarrow> base_info list \<Rightarrow> rtti_node list \<Rightarrow> rtti_node list option" where
  "collect_loop f c [] nodes = Some nodes"
| "collect_loop f c (i # is) nodes =
     (if class_tok i = c \<and> base_field i \<noteq> None
      then (case f i nodes of None \<Rightarrow> None | Some nodes' \<Rightarrow> collect_loop f c is nodes')
      else collect_loop f c is nodes)"

text \<open>All paths to a virtual base have the one place of it in the complete object.\<close>

definition base_offset :: "nat \<Rightarrow> class_bases \<Rightarrow> int \<Rightarrow> int \<Rightarrow> base_info \<Rightarrow> int option" where
  "base_offset n H whole offset i =
     (if is_virtual i
      then (case class_subobject_offset n H whole (base_tok i) of
          None \<Rightarrow> None
        | Some found \<Rightarrow> Some (case found of None \<Rightarrow> offset + the (base_field i) | Some at \<Rightarrow> at))
      else Some (offset + the (base_field i)))"

text \<open>\<open>m\<close> bounds the depth of the recursion, \<open>n\<close> that of \<open>class_subobject_offset\<close>.\<close>

fun cpp_rtti_collect_from ::
  "nat \<Rightarrow> nat \<Rightarrow> class_bases \<Rightarrow> int \<Rightarrow> int \<Rightarrow> int \<Rightarrow> int \<Rightarrow> int \<Rightarrow> rtti_node list \<Rightarrow> rtti_node list option" where
  "cpp_rtti_collect_from 0 n H whole c offset parent acc nodes = None"
| "cpp_rtti_collect_from (Suc m) n H whole c offset parent acc nodes =
     collect_loop (\<lambda>i nodes'. case base_offset n H whole offset i of
          None \<Rightarrow> None
        | Some at \<Rightarrow> cpp_rtti_collect_from m n H whole (base_tok i) at (int (length nodes)) (access i) nodes')
       c (class_base_candidates H c)
       (nodes @ [\<lparr>node_class = c, node_offset = offset, node_parent = parent, node_public = (acc = 0)\<rparr>])"

definition cpp_rtti_collect :: "nat \<Rightarrow> class_bases \<Rightarrow> int \<Rightarrow> rtti_node list option" where
  "cpp_rtti_collect n H c = cpp_rtti_collect_from n n H c c 0 (-1) 0 []"

text \<open>\<open>cpp_rtti_public_base_offset\<close>: the conversion to a base that the compiler knows.  The walk to the root never
  leaves the table.\<close>

partial_function (option) public_to_root :: "rtti_node list \<Rightarrow> int \<Rightarrow> bool \<Rightarrow> bool option" where
  "public_to_root nodes parent is_public =
     (if parent > 0
      then if nat parent \<ge> length nodes then None
           else public_to_root nodes (node_parent (nodes ! nat parent)) (is_public \<and> node_public (nodes ! nat parent))
      else Some is_public)"

primrec public_base_loop :: "rtti_node list \<Rightarrow> int \<Rightarrow> nat list \<Rightarrow> int option \<Rightarrow> bool \<Rightarrow> int option option" where
  "public_base_loop nodes target [] found accessible = Some (if accessible then found else None)"
| "public_base_loop nodes target (i # is) found accessible =
     (if node_class (nodes ! i) \<noteq> target then public_base_loop nodes target is found accessible
      else if found \<noteq> None \<and> found \<noteq> Some (node_offset (nodes ! i)) then Some None
      else (case public_to_root nodes (int i) True of
          None \<Rightarrow> None
        | Some p \<Rightarrow> public_base_loop nodes target is (Some (node_offset (nodes ! i))) (accessible \<or> p)))"

definition cpp_rtti_public_base_offset :: "nat \<Rightarrow> class_bases \<Rightarrow> int \<Rightarrow> int \<Rightarrow> int option option" where
  "cpp_rtti_public_base_offset n H source target =
     (case cpp_rtti_collect n H source of
        None \<Rightarrow> None
      | Some nodes \<Rightarrow> public_base_loop nodes target [0..<length nodes] None False)"

text \<open>What the compiler stores for the run time; \<open>type_name\<close> is the mangled name of a class.\<close>

record table_node =
  name :: string
  offset :: u64
  parent :: int
  public_base :: bool

record rtti_table =
  offset_to_top :: u64
  nodes :: "table_node list"

definition cpp_rtti_table_descriptor :: "nat \<Rightarrow> class_bases \<Rightarrow> (int \<Rightarrow> string) \<Rightarrow> int \<Rightarrow> int \<Rightarrow> rtti_table option" where
  "cpp_rtti_table_descriptor n H type_name c vptr_offset =
     map_option (\<lambda>ns. \<lparr>offset_to_top = word_of_int (- vptr_offset),
         nodes = map (\<lambda>x. \<lparr>name = type_name (node_class x), offset = word_of_int (node_offset x),
                           parent = node_parent x, public_base = node_public x\<rparr>) ns\<rparr>)
       (cpp_rtti_collect n H c)"

section \<open>Casts at run time\<close>

text \<open>\<open>None\<close> is a walk that does not end or leaves the table.\<close>

partial_function (option) cpc_rtti_public_path :: "table_node list \<Rightarrow> int \<Rightarrow> int \<Rightarrow> bool option" where
  "cpc_rtti_public_path ns from to =
     (if from \<noteq> to \<and> from \<ge> 0
      then if nat from \<ge> length ns then None
           else if \<not> public_base (ns ! nat from) then Some False
           else cpc_rtti_public_path ns (parent (ns ! nat from)) to
      else Some (from = to))"

text \<open>\<open>found\<close> and \<open>candidate\<close> as one option; the result \<open>Some None\<close> is the return of \<open>NULL\<close> from inside the loops.\<close>

primrec target_loop :: "table_node list \<Rightarrow> string \<Rightarrow> int \<Rightarrow> nat list \<Rightarrow> u64 option \<Rightarrow> u64 option option option" where
  "target_loop ns target i [] found = Some (Some found)"
| "target_loop ns target i (j # js) found =
     (if name (ns ! j) \<noteq> target then target_loop ns target i js found
      else case cpc_rtti_public_path ns i (int j) of
          None \<Rightarrow> None
        | Some path \<Rightarrow>
            if \<not> path then target_loop ns target i js found
            else if found \<noteq> None \<and> found \<noteq> Some (offset (ns ! j)) then Some None
            else target_loop ns target i js (Some (offset (ns ! j))))"

primrec source_loop ::
  "table_node list \<Rightarrow> string \<Rightarrow> string \<Rightarrow> u64 \<Rightarrow> nat list \<Rightarrow> u64 option \<Rightarrow> bool \<Rightarrow> (u64 option \<times> bool) option option" where
  "source_loop ns source target source_offset [] found source_public = Some (Some (found, source_public))"
| "source_loop ns source target source_offset (i # is) found source_public =
     (if offset (ns ! i) \<noteq> source_offset \<or> name (ns ! i) \<noteq> source
      then source_loop ns source target source_offset is found source_public
      else case cpc_rtti_public_path ns (int i) 0 of
          None \<Rightarrow> None
        | Some p \<Rightarrow>
            (case target_loop ns target (int i) [0..<length ns] found of
                None \<Rightarrow> None
              | Some None \<Rightarrow> Some None
              | Some (Some found') \<Rightarrow> source_loop ns source target source_offset is found' (source_public \<or> p)))"

primrec cross_loop :: "table_node list \<Rightarrow> string \<Rightarrow> nat list \<Rightarrow> u64 option \<Rightarrow> bool \<Rightarrow> u64 option option" where
  "cross_loop ns target [] found target_public = Some (if target_public then found else None)"
| "cross_loop ns target (i # is) found target_public =
     (if name (ns ! i) \<noteq> target then cross_loop ns target is found target_public
      else if found \<noteq> None \<and> found \<noteq> Some (offset (ns ! i)) then Some None
      else (case cpc_rtti_public_path ns (int i) 0 of
          None \<Rightarrow> None
        | Some p \<Rightarrow> cross_loop ns target is (Some (offset (ns ! i))) (target_public \<or> p)))"

definition cast_in_table :: "table_node list \<Rightarrow> string \<Rightarrow> string \<Rightarrow> u64 \<Rightarrow> u64 option option" where
  "cast_in_table ns source target source_offset =
     (case source_loop ns source target source_offset [0..<length ns] None False of
        None \<Rightarrow> None
      | Some None \<Rightarrow> Some None
      | Some (Some (Some candidate, _)) \<Rightarrow> Some (Some candidate)
      | Some (Some (None, source_public)) \<Rightarrow>
          if \<not> source_public then Some None else cross_loop ns target [0..<length ns] None False)"

text \<open>Memory: \<open>load\<close> reads a pointer and \<open>table_at\<close> the table at an address.  A null pointer is 0.\<close>

definition complete_object :: "(u64 \<Rightarrow> u64) \<Rightarrow> (u64 \<Rightarrow> rtti_table) \<Rightarrow> u64 \<Rightarrow> u64 \<Rightarrow> u64 \<times> rtti_table" where
  "complete_object load table_at object vptr_offset =
     (let vtable = load (object + vptr_offset); table = table_at (load (vtable - 16))
      in (object + vptr_offset + offset_to_top table, table))"

definition cpc_dynamic_cast ::
  "(u64 \<Rightarrow> u64) \<Rightarrow> (u64 \<Rightarrow> rtti_table) \<Rightarrow> u64 \<Rightarrow> u64 \<Rightarrow> string \<Rightarrow> string option \<Rightarrow> u64 option" where
  "cpc_dynamic_cast load table_at object vptr_offset source target =
     (if object = 0 then Some 0
      else case complete_object load table_at object vptr_offset of (whole, table) \<Rightarrow>
        (case target of
            None \<Rightarrow> Some whole
          | Some t \<Rightarrow>
              map_option (\<lambda>r. case r of None \<Rightarrow> 0 | Some at \<Rightarrow> whole + at)
                (cast_in_table (nodes table) source t (object - whole))))"

text \<open>\<open>ancestor\<close> is the walk \<open>while (parent > i)\<close>.\<close>

partial_function (option) ancestor :: "table_node list \<Rightarrow> int \<Rightarrow> int \<Rightarrow> int option" where
  "ancestor ns i p =
     (if p > i then if nat p \<ge> length ns then None else ancestor ns i (parent (ns ! nat p)) else Some p)"

primrec inner_base_loop :: "table_node list \<Rightarrow> string \<Rightarrow> nat \<Rightarrow> nat list \<Rightarrow> u64 option option" where
  "inner_base_loop ns target i [] = Some None"
| "inner_base_loop ns target i (j # js) =
     (case ancestor ns (int i) (parent (ns ! j)) of
        None \<Rightarrow> None
      | Some p \<Rightarrow> if p = int i \<and> name (ns ! j) = target then Some (Some (offset (ns ! j))) else inner_base_loop ns target i js)"

primrec outer_base_loop :: "table_node list \<Rightarrow> string \<Rightarrow> string \<Rightarrow> u64 \<Rightarrow> nat list \<Rightarrow> u64 option option" where
  "outer_base_loop ns source target source_offset [] = Some None"
| "outer_base_loop ns source target source_offset (i # is) =
     (if offset (ns ! i) = source_offset \<and> name (ns ! i) = source
      then (case inner_base_loop ns target i [i + 1..<length ns] of
          None \<Rightarrow> None
        | Some None \<Rightarrow> outer_base_loop ns source target source_offset is
        | Some (Some at) \<Rightarrow> Some (Some at))
      else outer_base_loop ns source target source_offset is)"

definition cpc_virtual_base_cast ::
  "(u64 \<Rightarrow> u64) \<Rightarrow> (u64 \<Rightarrow> rtti_table) \<Rightarrow> u64 \<Rightarrow> u64 \<Rightarrow> string \<Rightarrow> string \<Rightarrow> u64 option" where
  "cpc_virtual_base_cast load table_at object vptr_offset source target =
     (if object = 0 then Some 0
      else case complete_object load table_at object vptr_offset of (whole, table) \<Rightarrow>
        map_option (\<lambda>r. case r of None \<Rightarrow> 0 | Some at \<Rightarrow> whole + at)
          (outer_base_loop (nodes table) source target (object - whole) [0..<length (nodes table)]))"

declare public_to_root.simps [code] cpc_rtti_public_path.simps [code] ancestor.simps [code]

end
