(* ===== verification/RttiFacts.thy ===== *)
theory RttiFacts imports Rtti
begin

text \<open>
  The table of a class lists its inheritance chains: each node but the first belongs to a base specifier of its parent's
  class, each base specifier of a node's class has a node, and a node is where the chain to it leads.
\<close>

section \<open>Nodes and base specifiers\<close>

definition edge :: "nat \<Rightarrow> class_bases \<Rightarrow> int \<Rightarrow> rtti_node list \<Rightarrow> nat \<Rightarrow> base_info \<Rightarrow> nat \<Rightarrow> bool" where
  "edge n H whole ns p i k \<longleftrightarrow> p < k \<and> k < length ns \<and> node_parent (ns ! k) = int p
     \<and> direct H (node_class (ns ! p)) i \<and> base_field i \<noteq> None
     \<and> node_class (ns ! k) = base_tok i \<and> node_public (ns ! k) = (access i = 0)
     \<and> base_offset n H whole (node_offset (ns ! p)) i = Some (node_offset (ns ! k))"

lemma edge_append: "edge n H whole ns p i k \<Longrightarrow> edge n H whole (ns @ xs) p i k"
  by (auto simp: edge_def nth_append)

text \<open>The nodes from \<open>from\<close> on belong to the node \<open>from\<close> and to nodes after it, and lack no base.\<close>

definition described :: "nat \<Rightarrow> class_bases \<Rightarrow> int \<Rightarrow> rtti_node list \<Rightarrow> nat \<Rightarrow> nat \<Rightarrow> bool" where
  "described n H whole ns lo hi \<longleftrightarrow> (\<forall>p \<in> {lo..<hi}. \<forall>i. direct H (node_class (ns ! p)) i \<and> base_field i \<noteq> None \<longrightarrow> (\<exists>k. edge n H whole ns p i k))"

lemma described_append: "described n H whole ns lo hi \<Longrightarrow> hi \<le> length ns \<Longrightarrow> described n H whole (ns @ xs) lo hi"
  unfolding described_def using edge_append by (fastforce simp: nth_append)

lemma described_join: "described n H whole ns lo mid \<Longrightarrow> described n H whole ns mid hi \<Longrightarrow> described n H whole ns lo hi"
  unfolding described_def by (metis atLeastLessThan_iff linorder_not_less)

definition grows :: "nat \<Rightarrow> class_bases \<Rightarrow> int \<Rightarrow> rtti_node list \<Rightarrow> rtti_node \<Rightarrow> rtti_node list \<Rightarrow> bool" where
  "grows n H whole ns x new \<longleftrightarrow> (\<exists>xs. new = x # xs) \<and> described n H whole (ns @ new) (length ns) (length ns + length new)
     \<and> (\<forall>k. length ns < k \<and> k < length ns + length new \<longrightarrow> (\<exists>p i. length ns \<le> p \<and> edge n H whole (ns @ new) p i k))"

lemma collect_loop_grows:
  assumes "\<And>i N. i \<in> set js \<Longrightarrow> class_tok i = c \<Longrightarrow> base_field i \<noteq> None \<Longrightarrow> root < length N \<Longrightarrow>
      \<exists>x new. f i N = Some (N @ new) \<and> grows n H whole N x new \<and> node_class x = base_tok i \<and> node_parent x = int root
        \<and> node_public x = (access i = 0) \<and> base_offset n H whole off i = Some (node_offset x)"
    and "\<And>i. i \<in> set js \<Longrightarrow> class_tok i = c \<Longrightarrow> direct H c i"
    and "root < length N" "node_class (N ! root) = c" "node_offset (N ! root) = off"
  shows "\<exists>new. collect_loop f c js N = Some (N @ new)
    \<and> described n H whole (N @ new) (length N) (length N + length new)
    \<and> (\<forall>k. length N \<le> k \<and> k < length N + length new \<longrightarrow> (\<exists>p i. root \<le> p \<and> edge n H whole (N @ new) p i k))
    \<and> (\<forall>i \<in> set js. class_tok i = c \<and> base_field i \<noteq> None \<longrightarrow> (\<exists>k. edge n H whole (N @ new) root i k))"
  using assms
proof (induction js arbitrary: N)
  case Nil then show ?case by (auto simp: described_def)
next
  case (Cons i js)
  show ?case
  proof (cases "class_tok i = c \<and> base_field i \<noteq> None")
    case False
    moreover have "\<exists>new. collect_loop f c js N = Some (N @ new)
      \<and> described n H whole (N @ new) (length N) (length N + length new)
      \<and> (\<forall>k. length N \<le> k \<and> k < length N + length new \<longrightarrow> (\<exists>p i. root \<le> p \<and> edge n H whole (N @ new) p i k))
      \<and> (\<forall>i \<in> set js. class_tok i = c \<and> base_field i \<noteq> None \<longrightarrow> (\<exists>k. edge n H whole (N @ new) root i k))"
      by (rule Cons.IH) (use Cons.prems in auto)
    ultimately show ?thesis by auto
  next
    case True
    from Cons.prems(1) [of i N] Cons.prems(3) True obtain x new1 where f: "f i N = Some (N @ new1)" and g: "grows n H whole N x new1"
      and x: "node_class x = base_tok i" "node_parent x = int root" "node_public x = (access i = 0)" "base_offset n H whole off i = Some (node_offset x)"
      by auto
    from g obtain xs where new1: "new1 = x # xs" by (auto simp: grows_def)
    have first: "edge n H whole (N @ new1) root i (length N)"
      using Cons.prems(2) [of i] Cons.prems(3-5) True x by (simp add: edge_def new1 nth_append)
    have "\<exists>new. collect_loop f c js (N @ new1) = Some ((N @ new1) @ new)
      \<and> described n H whole ((N @ new1) @ new) (length (N @ new1)) (length (N @ new1) + length new)
      \<and> (\<forall>k. length (N @ new1) \<le> k \<and> k < length (N @ new1) + length new \<longrightarrow> (\<exists>p i. root \<le> p \<and> edge n H whole ((N @ new1) @ new) p i k))
      \<and> (\<forall>i \<in> set js. class_tok i = c \<and> base_field i \<noteq> None \<longrightarrow> (\<exists>k. edge n H whole ((N @ new1) @ new) root i k))"
      by (rule Cons.IH) (use Cons.prems in \<open>auto simp: nth_append\<close>)
    then obtain new2 where loop: "collect_loop f c js (N @ new1) = Some ((N @ new1) @ new2)"
      and d: "described n H whole ((N @ new1) @ new2) (length N + length new1) (length N + length new1 + length new2)"
      and e: "\<And>k. length N + length new1 \<le> k \<Longrightarrow> k < length N + length new1 + length new2 \<Longrightarrow> \<exists>p i. root \<le> p \<and> edge n H whole ((N @ new1) @ new2) p i k"
      and b: "\<And>i. i \<in> set js \<Longrightarrow> class_tok i = c \<Longrightarrow> base_field i \<noteq> None \<Longrightarrow> \<exists>k. edge n H whole ((N @ new1) @ new2) root i k"
      by auto
    have d1: "described n H whole ((N @ new1) @ new2) (length N) (length N + length new1)"
      by (rule described_append) (use g in \<open>simp_all add: grows_def\<close>)
    have e1: "\<exists>p i. root \<le> p \<and> edge n H whole ((N @ new1) @ new2) p i k" if "length N \<le> k" "k < length N + length new1" for k
    proof (cases "k = length N")
      case True then show ?thesis using edge_append [OF first] by blast
    next
      case False
      then have "length N < k" "k < length N + length new1" using that by simp_all
      then obtain p j where "length N \<le> p" "edge n H whole (N @ new1) p j k" using g unfolding grows_def by blast
      then show ?thesis using edge_append Cons.prems(3) by (metis less_imp_le order.trans)
    qed
    have "collect_loop f c (i # js) N = Some (N @ (new1 @ new2))" using True f loop by simp
    moreover have "described n H whole (N @ (new1 @ new2)) (length N) (length N + length (new1 @ new2))"
      using described_join [OF d1 d] by (simp add: add.assoc)
    moreover have "\<exists>p i. root \<le> p \<and> edge n H whole (N @ (new1 @ new2)) p i k" if "length N \<le> k" "k < length N + length (new1 @ new2)" for k
      using e [of k] e1 [of k] that by (cases "k < length N + length new1") auto
    moreover have "\<exists>k. edge n H whole (N @ (new1 @ new2)) root j k" if "j \<in> set (i # js)" "class_tok j = c" "base_field j \<noteq> None" for j
      using that b [of j] edge_append [OF first, of new2] by auto
    ultimately show ?thesis by blast
  qed
qed

lemma base_offset_total:
  assumes "ranked H r" "r whole < n"
  shows "\<exists>at. base_offset n H whole off i = Some at"
  using class_subobject_offset_chain [OF assms, of "base_tok i"] by (auto simp: base_offset_def split: option.splits)

lemma collect_from_grows:
  assumes r: "ranked H r" and w: "r whole < n"
  shows "r c < m \<Longrightarrow> \<exists>new. cpp_rtti_collect_from m n H whole c off par acc ns = Some (ns @ new)
    \<and> grows n H whole ns \<lparr>node_class = c, node_offset = off, node_parent = par, node_public = (acc = 0)\<rparr> new"
proof (induction m arbitrary: c off par acc ns)
  case 0 then show ?case by simp
next
  case (Suc m)
  define x where "x = \<lparr>node_class = c, node_offset = off, node_parent = par, node_public = (acc = 0)\<rparr>"
  define f where "f = (\<lambda>i nodes'. case base_offset n H whole off i of None \<Rightarrow> None
    | Some at \<Rightarrow> cpp_rtti_collect_from m n H whole (base_tok i) at (int (length ns)) (access i) nodes')"
  have "\<exists>new. collect_loop f c (class_base_candidates H c) (ns @ [x]) = Some ((ns @ [x]) @ new)
    \<and> described n H whole ((ns @ [x]) @ new) (length (ns @ [x])) (length (ns @ [x]) + length new)
    \<and> (\<forall>k. length (ns @ [x]) \<le> k \<and> k < length (ns @ [x]) + length new \<longrightarrow> (\<exists>p i. length ns \<le> p \<and> edge n H whole ((ns @ [x]) @ new) p i k))
    \<and> (\<forall>i \<in> set (class_base_candidates H c). class_tok i = c \<and> base_field i \<noteq> None \<longrightarrow> (\<exists>k. edge n H whole ((ns @ [x]) @ new) (length ns) i k))"
  proof (rule collect_loop_grows [where off = off])
    fix i N assume i: "i \<in> set (class_base_candidates H c)" "class_tok i = c"
    obtain at where at: "base_offset n H whole off i = Some at" using base_offset_total [OF r w] by blast
    have "r (base_tok i) < m" using rankedD [OF r, of c i] i Suc.prems by (simp add: direct_def)
    from Suc.IH [OF this, of at "int (length ns)" "access i" N] at
    show "\<exists>y new. f i N = Some (N @ new) \<and> grows n H whole N y new \<and> node_class y = base_tok i \<and> node_parent y = int (length ns)
        \<and> node_public y = (access i = 0) \<and> base_offset n H whole off i = Some (node_offset y)"
      by (fastforce simp: f_def)
  qed (auto simp: direct_def x_def)
  then obtain new where loop: "collect_loop f c (class_base_candidates H c) (ns @ [x]) = Some ((ns @ [x]) @ new)"
    and d: "described n H whole ((ns @ [x]) @ new) (Suc (length ns)) (Suc (length ns) + length new)"
    and e: "\<And>k. Suc (length ns) \<le> k \<Longrightarrow> k < Suc (length ns) + length new \<Longrightarrow> \<exists>p i. length ns \<le> p \<and> edge n H whole ((ns @ [x]) @ new) p i k"
    and b: "\<And>i. direct H c i \<Longrightarrow> base_field i \<noteq> None \<Longrightarrow> \<exists>k. edge n H whole ((ns @ [x]) @ new) (length ns) i k"
    by (auto simp: direct_def)
  have "described n H whole ((ns @ [x]) @ new) (length ns) (Suc (length ns))"
    using b unfolding described_def by (auto simp: nth_append x_def)
  from described_join [OF this d] have "grows n H whole ns x (x # new)" using e by (auto simp: grows_def)
  moreover have "cpp_rtti_collect_from (Suc m) n H whole c off par acc ns = Some (ns @ x # new)"
    using loop by (simp add: f_def x_def)
  ultimately show ?case unfolding x_def by blast
qed

definition table_ok :: "nat \<Rightarrow> class_bases \<Rightarrow> int \<Rightarrow> rtti_node list \<Rightarrow> bool" where
  "table_ok n H c ns \<longleftrightarrow> ns \<noteq> [] \<and> ns ! 0 = \<lparr>node_class = c, node_offset = 0, node_parent = -1, node_public = True\<rparr>
     \<and> (\<forall>k. 0 < k \<and> k < length ns \<longrightarrow> (\<exists>p i. edge n H c ns p i k))
     \<and> (\<forall>p < length ns. \<forall>i. direct H (node_class (ns ! p)) i \<and> base_field i \<noteq> None \<longrightarrow> (\<exists>k. edge n H c ns p i k))"

lemma collect_table_ok:
  assumes "ranked H r" "r c < n"
  shows "\<exists>ns. cpp_rtti_collect n H c = Some ns \<and> table_ok n H c ns"
proof -
  from collect_from_grows [OF assms assms(2), of 0 "-1" 0 "[]"] obtain new where
    "cpp_rtti_collect n H c = Some new" and g: "grows n H c [] \<lparr>node_class = c, node_offset = 0, node_parent = -1, node_public = True\<rparr> new"
    by (auto simp: cpp_rtti_collect_def)
  moreover from g have "table_ok n H c new" unfolding grows_def described_def table_ok_def by auto
  ultimately show ?thesis by blast
qed

section \<open>Chains and nodes\<close>

primrec chain_place :: "nat \<Rightarrow> class_bases \<Rightarrow> int \<Rightarrow> int \<Rightarrow> base_info list \<Rightarrow> int" where
  "chain_place n H whole off [] = off"
| "chain_place n H whole off (i # is) = chain_place n H whole (the (base_offset n H whole off i)) is"

lemma place_append: "chain_place n H whole off (is @ js) = chain_place n H whole (chain_place n H whole off is) js"
  by (induction "is" arbitrary: off) auto

primrec walks :: "nat \<Rightarrow> class_bases \<Rightarrow> int \<Rightarrow> rtti_node list \<Rightarrow> nat \<Rightarrow> base_info list \<Rightarrow> nat \<Rightarrow> bool" where
  "walks n H whole ns j [] k = (j = k)"
| "walks n H whole ns j (i # is) k = (\<exists>p. edge n H whole ns j i p \<and> walks n H whole ns p is k)"

lemma walks_snoc: "walks n H whole ns j (is @ [i]) k \<longleftrightarrow> (\<exists>p. walks n H whole ns j is p \<and> edge n H whole ns p i k)"
  by (induction "is" arbitrary: j) auto

lemma walks_append: "walks n H whole ns j (is @ js) k \<longleftrightarrow> (\<exists>p. walks n H whole ns j is p \<and> walks n H whole ns p js k)"
  by (induction "is" arbitrary: j) auto

lemma walks_chain:
  "walks n H whole ns j is k \<Longrightarrow> j < length ns \<Longrightarrow> inherits H (node_class (ns ! j)) is (node_class (ns ! k))
    \<and> node_offset (ns ! k) = chain_place n H whole (node_offset (ns ! j)) is \<and> j \<le> k \<and> k < length ns"
  by (induction "is" arbitrary: j) (fastforce simp: edge_def)+

lemma table_node_walk:
  assumes "table_ok n H c ns"
  shows "k < length ns \<Longrightarrow> \<exists>is. walks n H c ns 0 is k"
proof (induction k rule: less_induct)
  case (less k)
  show ?case
  proof (cases "k = 0")
    case True then show ?thesis by (metis walks.simps(1))
  next
    case False
    then obtain p i where e: "edge n H c ns p i k" using assms less.prems unfolding table_ok_def by auto
    then obtain "is" where "walks n H c ns 0 is p" using less unfolding edge_def by force
    then show ?thesis using walks_snoc e by blast
  qed
qed

lemma table_chain_walk:
  assumes "table_ok n H c ns"
  shows "inherits H (node_class (ns ! j)) is b \<Longrightarrow> j < length ns \<Longrightarrow> \<exists>k. walks n H c ns j is k \<and> node_class (ns ! k) = b"
proof (induction "is" arbitrary: j)
  case Nil then show ?case by simp
next
  case (Cons i "is")
  then obtain p where e: "edge n H c ns j i p" using assms unfolding table_ok_def by fastforce
  then have "\<exists>k. walks n H c ns p is k \<and> node_class (ns ! k) = b" by (intro Cons.IH) (use Cons.prems in \<open>auto simp: edge_def\<close>)
  then show ?case using e by auto
qed

lemma edge_parent: "edge n H c ns p i k \<Longrightarrow> edge n H c ns q j k \<Longrightarrow> p = q \<and> (access i = 0) = (access j = 0)"
  by (auto simp: edge_def)

end
