(* ===== verification/RttiSpec.thy ===== *)
theory RttiSpec imports RttiFacts
begin

text \<open>
  The casts at run time over the tables that the compiler writes, against the rules of C++ stated on inheritance chains.
\<close>

section \<open>Walks towards the root\<close>

definition all_public :: "base_info list \<Rightarrow> bool" where
  "all_public is \<longleftrightarrow> (\<forall>i \<in> set is. access i = 0)"

lemma all_public_simps [simp]: "all_public []" "all_public (is @ js) \<longleftrightarrow> all_public is \<and> all_public js"
  "all_public (i # is) \<longleftrightarrow> access i = 0 \<and> all_public is"
  by (auto simp: all_public_def)

definition public_walk :: "nat \<Rightarrow> class_bases \<Rightarrow> int \<Rightarrow> rtti_node list \<Rightarrow> nat \<Rightarrow> nat \<Rightarrow> bool" where
  "public_walk n H c ns j k \<longleftrightarrow> (\<exists>is. walks n H c ns j is k \<and> all_public is)"

lemma public_walk_self [simp]: "public_walk n H c ns j j"
  unfolding public_walk_def by (intro exI [of _ "[]"]) simp

lemma public_walk_step:
  assumes e: "edge n H c ns p i k" and "j \<noteq> k"
  shows "public_walk n H c ns j k \<longleftrightarrow> node_public (ns ! k) \<and> public_walk n H c ns j p"
proof
  assume "public_walk n H c ns j k"
  then obtain "is" where w: "walks n H c ns j is k" "all_public is" unfolding public_walk_def by blast
  with assms(2) have "is \<noteq> []" by auto
  then obtain js x where js: "is = js @ [x]" by (metis rev_exhaust)
  with w(1) obtain q where q: "walks n H c ns j js q" "edge n H c ns q x k" using walks_snoc by blast
  then show "node_public (ns ! k) \<and> public_walk n H c ns j p"
    using edge_parent [OF e q(2)] w(2) js unfolding public_walk_def by (auto simp: edge_def)
next
  assume "node_public (ns ! k) \<and> public_walk n H c ns j p"
  then obtain "is" where "walks n H c ns j is p" "all_public is" "access i = 0" using e unfolding public_walk_def by (auto simp: edge_def)
  then show "public_walk n H c ns j k" using walks_snoc e unfolding public_walk_def by (intro exI [of _ "is @ [i]"]) auto
qed

lemma public_walk_root: "table_ok n H c ns \<Longrightarrow> j \<noteq> 0 \<Longrightarrow> j < length ns \<Longrightarrow> \<not> public_walk n H c ns j 0"
  unfolding public_walk_def using walks_chain by fastforce

definition stored :: "(int \<Rightarrow> string) \<Rightarrow> rtti_node list \<Rightarrow> table_node list" where
  "stored type_name = map (\<lambda>x. \<lparr>name = type_name (node_class x), offset = word_of_int (node_offset x),
       parent = node_parent x, public_base = node_public x\<rparr>)"

lemma stored_nth [simp]:
  "k < length ns \<Longrightarrow> name (stored f ns ! k) = f (node_class (ns ! k))"
  "k < length ns \<Longrightarrow> offset (stored f ns ! k) = word_of_int (node_offset (ns ! k))"
  "k < length ns \<Longrightarrow> parent (stored f ns ! k) = node_parent (ns ! k)"
  "k < length ns \<Longrightarrow> public_base (stored f ns ! k) = node_public (ns ! k)"
  "length (stored f ns) = length ns"
  by (simp_all add: stored_def)

lemma public_path_walk:
  assumes ok: "table_ok n H c ns" and j: "j < length ns"
  shows "k < length ns \<Longrightarrow> cpc_rtti_public_path (stored f ns) (int k) (int j) = Some (public_walk n H c ns j k)"
proof (induction k rule: less_induct)
  case (less k)
  show ?case
  proof (cases "k = j")
    case True then show ?thesis by (subst cpc_rtti_public_path.simps) simp
  next
    case ne: False
    show ?thesis
    proof (cases "k = 0")
      case True
      have z: "node_public (ns ! 0)" "node_parent (ns ! 0) = -1" using ok by (simp_all add: table_ok_def)
      have "cpc_rtti_public_path (stored f ns) (-1) (int j) = Some False" by (subst cpc_rtti_public_path.simps) simp
      then have "cpc_rtti_public_path (stored f ns) (int k) (int j) = Some False"
        using True ne z less.prems by (subst cpc_rtti_public_path.simps) simp
      then show ?thesis using public_walk_root [OF ok _ j] True ne by simp
    next
      case False
      then obtain p i where e: "edge n H c ns p i k" using ok less.prems unfolding table_ok_def by auto
      have p: "p < k" "node_parent (ns ! k) = int p" using e by (auto simp: edge_def)
      have "cpc_rtti_public_path (stored f ns) (int k) (int j)
          = (if \<not> node_public (ns ! k) then Some False else cpc_rtti_public_path (stored f ns) (int p) (int j))"
        using ne less.prems p(2) by (subst cpc_rtti_public_path.simps) simp
      then show ?thesis using less.IH [OF p(1)] p(1) less.prems public_walk_step [OF e, of j] ne by auto
    qed
  qed
qed

lemma public_to_root_walk:
  assumes ok: "table_ok n H c ns"
  shows "k < length ns \<Longrightarrow> public_to_root ns (int k) b = Some (b \<and> public_walk n H c ns 0 k)"
proof (induction k arbitrary: b rule: less_induct)
  case (less k)
  show ?case
  proof (cases "k = 0")
    case True then show ?thesis by (subst public_to_root.simps) simp
  next
    case False
    then obtain p i where e: "edge n H c ns p i k" using ok less.prems unfolding table_ok_def by auto
    have p: "p < k" "node_parent (ns ! k) = int p" using e by (auto simp: edge_def)
    have "public_to_root ns (int k) b = public_to_root ns (int p) (b \<and> node_public (ns ! k))"
      using False less.prems p(2) by (subst public_to_root.simps) simp
    then show ?thesis using less.IH [OF p(1), of "b \<and> node_public (ns ! k)"] p(1) less.prems public_walk_step [OF e, of 0] False by auto
  qed
qed

section \<open>Searching for a unique offset\<close>

text \<open>The searches keep one offset and give up when they find another.\<close>

definition unique :: "'a set \<Rightarrow> 'a option option" where
  "unique A = (if A = {} then Some None else if is_singleton A then Some (Some (the_elem A)) else None)"

lemma unique_option: "unique (set_option x) = Some x"
  by (cases x) (simp_all add: unique_def)

lemma unique_more:
  assumes "unique A = None" "A \<subseteq> B" shows "unique B = None"
proof -
  have "A \<noteq> {}" "\<not> is_singleton A" using assms(1) by (auto simp: unique_def split: if_splits)
  then have "\<not> is_singleton B" "B \<noteq> {}" using assms(2) by (auto simp: is_singleton_def)
  then show ?thesis by (simp add: unique_def)
qed

lemma unique_two: "x \<in> A \<Longrightarrow> y \<in> A \<Longrightarrow> x \<noteq> y \<Longrightarrow> unique A = None"
  by (auto simp: unique_def is_singleton_def)

lemma unique_Some: "unique A = Some x \<Longrightarrow> A = set_option x"
  by (auto simp: unique_def is_singleton_def split: if_splits)

lemma target_loop_unique:
  assumes "\<And>j. j \<in> set js \<Longrightarrow> cpc_rtti_public_path ns i (int j) = Some (path j)"
  shows "target_loop ns target i js found
    = Some (unique (set_option found \<union> {offset (ns ! j) | j. j \<in> set js \<and> name (ns ! j) = target \<and> path j}))"
  using assms
proof (induction js arbitrary: found)
  case Nil then show ?case by (simp add: unique_option)
next
  case (Cons j js)
  define D where "D = {offset (ns ! j) | j. j \<in> set js \<and> name (ns ! j) = target \<and> path j}"
  show ?case
  proof (cases "name (ns ! j) = target \<and> path j")
    case False
    then have "{offset (ns ! j') | j'. j' \<in> set (j # js) \<and> name (ns ! j') = target \<and> path j'} = D" unfolding D_def by auto
    then show ?thesis using Cons False by (auto simp: D_def)
  next
    case True
    then have D: "{offset (ns ! j') | j'. j' \<in> set (j # js) \<and> name (ns ! j') = target \<and> path j'} = insert (offset (ns ! j)) D"
      unfolding D_def by auto
    show ?thesis
    proof (cases "found \<noteq> None \<and> found \<noteq> Some (offset (ns ! j))")
      case differs: True
      then obtain x where "found = Some x" "x \<noteq> offset (ns ! j)" by auto
      then have "unique (set_option found \<union> insert (offset (ns ! j)) D) = None" by (intro unique_two [of x _ "offset (ns ! j)"]) auto
      then show ?thesis using Cons.prems [of j] True differs unfolding D by simp
    next
      case False
      then have "set_option found \<union> insert (offset (ns ! j)) D = set_option (Some (offset (ns ! j))) \<union> D" by (cases found) auto
      then show ?thesis using Cons True False unfolding D by (auto simp: D_def)
    qed
  qed
qed

text \<open>The loops of the crosscast and of the conversion the compiler knows are the same search, for the nodes \<open>m\<close>.\<close>

primrec keep_loop :: "(nat \<Rightarrow> bool) \<Rightarrow> (nat \<Rightarrow> 'a) \<Rightarrow> (nat \<Rightarrow> bool) \<Rightarrow> nat list \<Rightarrow> 'a option \<Rightarrow> bool \<Rightarrow> 'a option" where
  "keep_loop m off path [] found p = (if p then found else None)"
| "keep_loop m off path (i # is) found p =
     (if \<not> m i then keep_loop m off path is found p
      else if found \<noteq> None \<and> found \<noteq> Some (off i) then None
      else keep_loop m off path is (Some (off i)) (p \<or> path i))"

definition chosen :: "'a option option \<Rightarrow> bool \<Rightarrow> 'a option" where
  "chosen u p = (case u of None \<Rightarrow> None | Some x \<Rightarrow> if p then x else None)"

lemma keep_loop_unique:
  "keep_loop m off path is found p
    = chosen (unique (set_option found \<union> off ` {i \<in> set is. m i})) (p \<or> (\<exists>i \<in> set is. m i \<and> path i))"
proof (induction "is" arbitrary: found p)
  case Nil then show ?case by (simp add: unique_option chosen_def)
next
  case (Cons i "is")
  show ?case
  proof (cases "m i")
    case False
    then have "{i' \<in> set (i # is). m i'} = {i \<in> set is. m i}" "(\<exists>i' \<in> set (i # is). m i' \<and> path i') \<longleftrightarrow> (\<exists>i \<in> set is. m i \<and> path i)" by auto
    then show ?thesis using Cons.IH False by simp
  next
    case True
    then have D: "off ` {i' \<in> set (i # is). m i'} = insert (off i) (off ` {i \<in> set is. m i})" by auto
    have up: "(p \<or> path i) \<or> (\<exists>i \<in> set is. m i \<and> path i) \<longleftrightarrow> p \<or> (\<exists>i \<in> set (i # is). m i \<and> path i)" using True by auto
    show ?thesis
    proof (cases "found \<noteq> None \<and> found \<noteq> Some (off i)")
      case differs: True
      then obtain x where "found = Some x" "x \<noteq> off i" by auto
      then have "unique (set_option found \<union> insert (off i) (off ` {i \<in> set is. m i})) = None" by (intro unique_two [of x _ "off i"]) auto
      then show ?thesis using True differs unfolding D by (simp add: chosen_def)
    next
      case False
      then have s: "set_option found \<union> insert (off i) (off ` {i \<in> set is. m i}) = set_option (Some (off i)) \<union> off ` {i \<in> set is. m i}"
        by (cases found) auto
      have "keep_loop m off path (i # is) found p = keep_loop m off path is (Some (off i)) (p \<or> path i)" using True False by auto
      then show ?thesis unfolding Cons.IH D s up .
    qed
  qed
qed

lemma cross_loop_keeps:
  "(\<And>i. i \<in> set is \<Longrightarrow> cpc_rtti_public_path ns (int i) 0 = Some (path i)) \<Longrightarrow>
    cross_loop ns target is found p = Some (keep_loop (\<lambda>i. name (ns ! i) = target) (\<lambda>i. offset (ns ! i)) path is found p)"
  by (induction "is" arbitrary: found p) auto

lemma public_base_loop_keeps:
  "(\<And>i. i \<in> set is \<Longrightarrow> public_to_root ns (int i) True = Some (path i)) \<Longrightarrow>
    public_base_loop ns target is found p = Some (keep_loop (\<lambda>i. node_class (ns ! i) = target) (\<lambda>i. node_offset (ns ! i)) path is found p)"
  by (induction "is" arbitrary: found p) auto

lemma source_loop_unique:
  assumes root: "\<And>i. i \<in> set is \<Longrightarrow> cpc_rtti_public_path ns (int i) 0 = Some (up i)"
    and path: "\<And>i j. i \<in> set is \<Longrightarrow> j < length ns \<Longrightarrow> cpc_rtti_public_path ns (int i) (int j) = Some (path i j)"
  shows "source_loop ns source target at is found p
    = Some (map_option (\<lambda>x. (x, p \<or> (\<exists>i \<in> set is. offset (ns ! i) = at \<and> name (ns ! i) = source \<and> up i)))
        (unique (set_option found \<union> {offset (ns ! j) | i j. i \<in> set is \<and> offset (ns ! i) = at \<and> name (ns ! i) = source
           \<and> j < length ns \<and> name (ns ! j) = target \<and> path i j})))"
  using assms
proof (induction "is" arbitrary: found p)
  case Nil then show ?case by (simp add: unique_option)
next
  case (Cons i "is")
  define D where "D = {offset (ns ! j) | i j. i \<in> set is \<and> offset (ns ! i) = at \<and> name (ns ! i) = source
      \<and> j < length ns \<and> name (ns ! j) = target \<and> path i j}"
  define E where "E = {offset (ns ! j) | i' j. i' \<in> set (i # is) \<and> offset (ns ! i') = at \<and> name (ns ! i') = source
      \<and> j < length ns \<and> name (ns ! j) = target \<and> path i' j}"
  have IH: "source_loop ns source target at is found p
    = Some (map_option (\<lambda>x. (x, p \<or> (\<exists>i \<in> set is. offset (ns ! i) = at \<and> name (ns ! i) = source \<and> up i))) (unique (set_option found \<union> D)))"
    for found p unfolding D_def by (rule Cons.IH) (use Cons.prems in auto)
  show ?case unfolding E_def [symmetric]
  proof (cases "offset (ns ! i) = at \<and> name (ns ! i) = source")
    case False
    then have "E = D" unfolding D_def E_def by auto
    moreover have "(\<exists>i' \<in> set (i # is). offset (ns ! i') = at \<and> name (ns ! i') = source \<and> up i')
        \<longleftrightarrow> (\<exists>i \<in> set is. offset (ns ! i) = at \<and> name (ns ! i) = source \<and> up i)" using False by auto
    moreover have "source_loop ns source target at (i # is) found p = source_loop ns source target at is found p" using False by auto
    ultimately show "source_loop ns source target at (i # is) found p
      = Some (map_option (\<lambda>x. (x, p \<or> (\<exists>i \<in> set (i # is). offset (ns ! i) = at \<and> name (ns ! i) = source \<and> up i))) (unique (set_option found \<union> E)))"
      using IH by simp
  next
    case True
    define T where "T = {offset (ns ! j) | j. j \<in> set [0..<length ns] \<and> name (ns ! j) = target \<and> path i j}"
    have E: "E = T \<union> D" using True unfolding D_def E_def T_def by auto
    have t: "target_loop ns target (int i) [0..<length ns] found = Some (unique (set_option found \<union> T))"
      unfolding T_def by (rule target_loop_unique) (use Cons.prems(2) in auto)
    have up: "(p \<or> up i) \<or> (\<exists>i \<in> set is. offset (ns ! i) = at \<and> name (ns ! i) = source \<and> up i)
        \<longleftrightarrow> p \<or> (\<exists>i \<in> set (i # is). offset (ns ! i) = at \<and> name (ns ! i) = source \<and> up i)" using True by auto
    show "source_loop ns source target at (i # is) found p
      = Some (map_option (\<lambda>x. (x, p \<or> (\<exists>i \<in> set (i # is). offset (ns ! i) = at \<and> name (ns ! i) = source \<and> up i))) (unique (set_option found \<union> E)))"
    proof (cases "unique (set_option found \<union> T)")
      case None
      then have "unique (set_option found \<union> E) = None" by (rule unique_more) (use E in auto)
      then show ?thesis using True Cons.prems(1) [of i] t None by simp
    next
      case (Some x)
      then have "set_option found \<union> E = set_option x \<union> D" using unique_Some [OF Some] E by auto
      then show ?thesis using True Cons.prems(1) [of i] t Some IH [of x "p \<or> up i"] up by simp
    qed
  qed
qed

section \<open>The rules of C++\<close>

text \<open>Where the subobjects of class \<open>t\<close> are in an object of class \<open>c\<close>; those of them of which the subobject of class \<open>s\<close> at \<open>at\<close>
  is a public base; and whether that subobject is a public base of the whole object.\<close>

definition targets :: "nat \<Rightarrow> class_bases \<Rightarrow> int \<Rightarrow> int \<Rightarrow> u64 set" where
  "targets n H c t = {word_of_int (chain_place n H c 0 is) | is. inherits H c is t}"

definition derived_targets :: "nat \<Rightarrow> class_bases \<Rightarrow> int \<Rightarrow> int \<Rightarrow> u64 \<Rightarrow> int \<Rightarrow> u64 set" where
  "derived_targets n H c s at t = {word_of_int (chain_place n H c 0 is) | is js. inherits H c is t \<and> inherits H t js s
     \<and> all_public js \<and> word_of_int (chain_place n H c 0 (is @ js)) = at}"

definition public_source :: "nat \<Rightarrow> class_bases \<Rightarrow> int \<Rightarrow> int \<Rightarrow> u64 \<Rightarrow> bool" where
  "public_source n H c s at \<longleftrightarrow> (\<exists>is. inherits H c is s \<and> all_public is \<and> word_of_int (chain_place n H c 0 is) = at)"

definition public_base_of :: "class_bases \<Rightarrow> int \<Rightarrow> int \<Rightarrow> bool" where
  "public_base_of H c t \<longleftrightarrow> (\<exists>is. inherits H c is t \<and> all_public is)"

text \<open>The offset to which a dynamic cast leads, from the subobject of class \<open>s\<close> at \<open>at\<close> of an object of class \<open>c\<close> to class \<open>t\<close>.\<close>

definition dynamic_cast_rule :: "nat \<Rightarrow> class_bases \<Rightarrow> int \<Rightarrow> int \<Rightarrow> u64 \<Rightarrow> int \<Rightarrow> u64 option" where
  "dynamic_cast_rule n H c s at t =
     (let D = derived_targets n H c s at t; T = targets n H c t
      in if is_singleton D then Some (the_elem D)
         else if D = {} \<and> public_source n H c s at \<and> public_base_of H c t \<and> is_singleton T then Some (the_elem T)
         else None)"

lemma node_chain:
  assumes ok: "table_ok n H c ns" and k: "walks n H c ns 0 is k"
  shows "inherits H c is (node_class (ns ! k))" "node_offset (ns ! k) = chain_place n H c 0 is" "k < length ns"
  using walks_chain [OF k] ok by (auto simp: table_ok_def)

lemma chain_node:
  assumes ok: "table_ok n H c ns" and "inherits H c is b"
  obtains k where "walks n H c ns 0 is k" "node_class (ns ! k) = b"
proof -
  have "ns \<noteq> []" "node_class (ns ! 0) = c" using ok by (auto simp: table_ok_def)
  then have "\<exists>k. walks n H c ns 0 is k \<and> node_class (ns ! k) = b" by (intro table_chain_walk [OF ok]) (use assms(2) in auto)
  then show thesis using that by blast
qed

lemma nodes_targets:
  assumes ok: "table_ok n H c ns"
  shows "(\<lambda>i. node_offset (ns ! i)) ` {i \<in> {0..<length ns}. node_class (ns ! i) = t} = {chain_place n H c 0 is | is. inherits H c is t}"
proof (intro set_eqI iffI)
  fix x assume "x \<in> (\<lambda>i. node_offset (ns ! i)) ` {i \<in> {0..<length ns}. node_class (ns ! i) = t}"
  then obtain i where i: "i < length ns" "node_class (ns ! i) = t" "x = node_offset (ns ! i)" by auto
  then obtain "is" where "walks n H c ns 0 is i" using table_node_walk [OF ok] by blast
  then show "x \<in> {chain_place n H c 0 is | is. inherits H c is t}" using node_chain [OF ok] i by fastforce
next
  fix x assume "x \<in> {chain_place n H c 0 is | is. inherits H c is t}"
  then obtain "is" where "x = chain_place n H c 0 is" "inherits H c is t" by blast
  then obtain k where k: "walks n H c ns 0 is k" "node_class (ns ! k) = t" using chain_node [OF ok] by blast
  then show "x \<in> (\<lambda>i. node_offset (ns ! i)) ` {i \<in> {0..<length ns}. node_class (ns ! i) = t}"
    using node_chain [OF ok k(1)] \<open>x = chain_place n H c 0 is\<close> by (intro image_eqI [of _ _ k]) auto
qed

lemma nodes_public:
  assumes ok: "table_ok n H c ns"
  shows "(\<exists>i < length ns. node_class (ns ! i) = t \<and> public_walk n H c ns 0 i) \<longleftrightarrow> public_base_of H c t"
  unfolding public_walk_def public_base_of_def using chain_node [OF ok] node_chain [OF ok] by metis

lemma nodes_source:
  assumes ok: "table_ok n H c ns"
  shows "(\<exists>i < length ns. word_of_int (node_offset (ns ! i)) = at \<and> node_class (ns ! i) = s \<and> public_walk n H c ns 0 i)
    \<longleftrightarrow> public_source n H c s at"
  unfolding public_walk_def public_source_def using chain_node [OF ok] node_chain [OF ok] by metis

lemma nodes_derived:
  assumes ok: "table_ok n H c ns"
  shows "{word_of_int (node_offset (ns ! j)) | i j. i < length ns \<and> word_of_int (node_offset (ns ! i)) = at \<and> node_class (ns ! i) = s
      \<and> j < length ns \<and> node_class (ns ! j) = t \<and> public_walk n H c ns j i} = derived_targets n H c s at t"
proof (intro set_eqI iffI)
  fix x :: u64
  assume "x \<in> {word_of_int (node_offset (ns ! j)) | i j. i < length ns \<and> word_of_int (node_offset (ns ! i)) = at \<and> node_class (ns ! i) = s
      \<and> j < length ns \<and> node_class (ns ! j) = t \<and> public_walk n H c ns j i}"
  then obtain i j where x: "x = word_of_int (node_offset (ns ! j))" and i: "i < length ns" "word_of_int (node_offset (ns ! i)) = at" "node_class (ns ! i) = s"
    and j: "j < length ns" "node_class (ns ! j) = t" and w: "public_walk n H c ns j i" by blast
  obtain "is" where a: "walks n H c ns 0 is j" using table_node_walk [OF ok j(1)] by blast
  obtain js where b: "walks n H c ns j js i" "all_public js" using w unfolding public_walk_def by blast
  have ab: "walks n H c ns 0 (is @ js) i" using a b walks_append by blast
  have "inherits H t js s" using walks_chain [OF b(1) j(1)] i(3) j(2) by simp
  then show "x \<in> derived_targets n H c s at t"
    unfolding derived_targets_def using x i(2) node_chain [OF ok a] node_chain [OF ok ab] j(2) b(2) by auto
next
  fix x :: u64 assume "x \<in> derived_targets n H c s at t"
  then obtain "is" js where x: "x = word_of_int (chain_place n H c 0 is)" and c: "inherits H c is t" "inherits H t js s" "all_public js"
    and at: "word_of_int (chain_place n H c 0 (is @ js)) = at" unfolding derived_targets_def by blast
  obtain j where j: "walks n H c ns 0 is j" "node_class (ns ! j) = t" using chain_node [OF ok c(1)] by blast
  note nj = node_chain [OF ok j(1)]
  obtain i where i: "walks n H c ns j js i" "node_class (ns ! i) = s" using table_chain_walk [OF ok, of j js s] c(2) j(2) nj(3) by auto
  have ij: "walks n H c ns 0 (is @ js) i" using i j walks_append by blast
  show "x \<in> {word_of_int (node_offset (ns ! j)) | i j. i < length ns \<and> word_of_int (node_offset (ns ! i)) = at \<and> node_class (ns ! i) = s
      \<and> j < length ns \<and> node_class (ns ! j) = t \<and> public_walk n H c ns j i}"
  proof (rule CollectI, rule exI [of _ i], rule exI [of _ j], intro conjI)
    show "x = word_of_int (node_offset (ns ! j))" "j < length ns" "node_class (ns ! j) = t" using x nj j(2) by simp_all
    show "i < length ns" "word_of_int (node_offset (ns ! i)) = at" "node_class (ns ! i) = s" using at node_chain [OF ok ij] i(2) by simp_all
    show "public_walk n H c ns j i" unfolding public_walk_def using i(1) c(3) by blast
  qed
qed

section \<open>Casts over the tables of the compiler\<close>

lemma compiled_cast:
  assumes ok: "table_ok n H c ns" and inj: "inj_on type_name (insert s (insert t {d. d = c \<or> derives H c d}))"
  shows "cast_in_table (stored type_name ns) (type_name s) (type_name t) at = Some (dynamic_cast_rule n H c s at t)"
proof -
  define xs where "xs = stored type_name ns"
  have len: "length xs = length ns" by (simp add: xs_def)
  have cls: "node_class (ns ! i) \<in> {d. d = c \<or> derives H c d}" if i: "i < length ns" for i
  proof -
    obtain "is" where "walks n H c ns 0 is i" using table_node_walk [OF ok i] by blast
    from node_chain(1) [OF ok this] show ?thesis using inherits_derives by auto
  qed
  have s: "name (xs ! i) = type_name s \<longleftrightarrow> node_class (ns ! i) = s" if "i < length ns" for i
    using inj_on_eq_iff [OF inj, of "node_class (ns ! i)" s] cls [OF that] that by (auto simp: xs_def)
  have t: "name (xs ! i) = type_name t \<longleftrightarrow> node_class (ns ! i) = t" if "i < length ns" for i
    using inj_on_eq_iff [OF inj, of "node_class (ns ! i)" t] cls [OF that] that by (auto simp: xs_def)
  have path: "cpc_rtti_public_path xs (int i) (int j) = Some (public_walk n H c ns j i)" if "i < length ns" "j < length ns" for i j
    unfolding xs_def by (rule public_path_walk [OF ok that(2,1)])
  have ne: "0 < length ns" using ok by (simp add: table_ok_def)
  define D where "D = derived_targets n H c s at t"
  define T where "T = targets n H c t"
  have "{offset (xs ! j) | i j. i \<in> set [0..<length ns] \<and> offset (xs ! i) = at \<and> name (xs ! i) = type_name s
      \<and> j < length xs \<and> name (xs ! j) = type_name t \<and> public_walk n H c ns j i}
    = {word_of_int (node_offset (ns ! j)) | i j. i < length ns \<and> word_of_int (node_offset (ns ! i)) = at \<and> node_class (ns ! i) = s
      \<and> j < length ns \<and> node_class (ns ! j) = t \<and> public_walk n H c ns j i}"
    unfolding len by (intro Collect_cong ex_cong1) (use s t in \<open>auto simp: xs_def\<close>)
  then have D: "{offset (xs ! j) | i j. i \<in> set [0..<length ns] \<and> offset (xs ! i) = at \<and> name (xs ! i) = type_name s
      \<and> j < length xs \<and> name (xs ! j) = type_name t \<and> public_walk n H c ns j i} = D"
    unfolding D_def nodes_derived [OF ok] .
  have up: "(\<exists>i \<in> set [0..<length ns]. offset (xs ! i) = at \<and> name (xs ! i) = type_name s \<and> public_walk n H c ns 0 i) \<longleftrightarrow> public_source n H c s at"
    using s unfolding nodes_source [OF ok, symmetric] by (auto simp: xs_def)
  have src: "source_loop xs (type_name s) (type_name t) at [0..<length ns] None False
      = Some (map_option (\<lambda>x. (x, public_source n H c s at)) (unique D))"
    using source_loop_unique [of "[0..<length ns]" xs "\<lambda>i. public_walk n H c ns 0 i" "\<lambda>i j. public_walk n H c ns j i" "type_name s" "type_name t" at None False]
      path path [of _ 0] ne unfolding D up by (simp add: len)
  have "(\<lambda>i. offset (xs ! i)) ` {i \<in> set [0..<length ns]. name (xs ! i) = type_name t}
      = word_of_int ` ((\<lambda>i. node_offset (ns ! i)) ` {i \<in> {0..<length ns}. node_class (ns ! i) = t})"
    using t by (auto simp: xs_def image_image intro!: image_cong)
  then have T: "(\<lambda>i. offset (xs ! i)) ` {i \<in> set [0..<length ns]. name (xs ! i) = type_name t} = T"
    unfolding nodes_targets [OF ok] T_def targets_def by blast
  have pub: "(\<exists>i \<in> set [0..<length ns]. name (xs ! i) = type_name t \<and> public_walk n H c ns 0 i) \<longleftrightarrow> public_base_of H c t"
    using t unfolding nodes_public [OF ok, symmetric] by auto
  have cross: "cross_loop xs (type_name t) [0..<length ns] None False = Some (chosen (unique T) (public_base_of H c t))"
  proof -
    have "cross_loop xs (type_name t) [0..<length ns] None False
        = Some (keep_loop (\<lambda>i. name (xs ! i) = type_name t) (\<lambda>i. offset (xs ! i)) (public_walk n H c ns 0) [0..<length ns] None False)"
      by (rule cross_loop_keeps) (use path [of _ 0] ne in simp)
    also have "\<dots> = Some (chosen (unique T) (public_base_of H c t))" unfolding keep_loop_unique T pub by simp
    finally show ?thesis .
  qed
  show ?thesis
    unfolding cast_in_table_def dynamic_cast_rule_def Let_def D_def [symmetric] T_def [symmetric] xs_def [symmetric] len src
    using cross by (auto simp: unique_def chosen_def is_singleton_def split: if_splits)
qed



section \<open>An example\<close>

text \<open>Class 3 derives publicly from 1 and 2, at the offsets 0 and 8.\<close>

definition two_bases :: class_bases where
  "two_bases =
     (let base = (\<lambda>b at. \<lparr>class_tok = 3, base_tok = b, access = 0, is_virtual = False, base_field = Some at\<rparr>);
        all = [base 2 8, base 1 0]
      in \<lparr>class_base_infos = all, class_base_buckets = (\<lambda>k. if k = 3 then all else [])\<rparr>)"

definition example_name :: "int \<Rightarrow> string" where
  "example_name d = (if d = 1 then ''A'' else if d = 2 then ''B'' else ''C'')"

definition example_load :: "u64 \<Rightarrow> u64" where
  "example_load a = (if a = 4096 then 8192 else 12288)"

lemma two_bases_ok: "ranked two_bases nat" "derives two_bases 3 d \<Longrightarrow> d \<in> {1, 2}"
proof -
  have d: "direct two_bases c i \<Longrightarrow> c = 3 \<and> base_tok i \<in> {1, 2}" for c i
    by (auto simp: direct_def two_bases_def class_base_candidates_def Let_def split: if_splits)
  then show "ranked two_bases nat" unfolding ranked_def by fastforce
  show "d \<in> {1, 2}" if "derives two_bases 3 d"
  proof -
    have "\<not> derives two_bases b x" if "b \<in> {1, 2}" for b x using derives_iff [of two_bases b x] d that by fastforce
    then show ?thesis using that derives_iff [of two_bases 3 d] d by blast
  qed
qed

lemma example_name_inj: "inj_on example_name (insert 1 (insert 2 {d. d = 3 \<or> derives two_bases 3 d}))"
proof (rule inj_on_subset)
  show "inj_on example_name {1, 2, 3}" by (auto simp: inj_on_def example_name_def)
qed (use two_bases_ok(2) in auto)

definition example_table :: rtti_table where
  "example_table = the (cpp_rtti_table_descriptor 4 two_bases example_name 3 0)"

lemma example_table_written: "cpp_rtti_table_descriptor 4 two_bases example_name 3 0 = Some example_table"
  using collect_table_ok [OF two_bases_ok(1), of 3 4] unfolding example_table_def cpp_rtti_table_descriptor_def by auto



end
