(* ===== verification/RttiVirtual.thy ===== *)
theory RttiVirtual imports RttiSpec
begin

text \<open>
  The conversion to a virtual base at run time: \<open>__cpc_virtual_base_cast\<close> over the tables that the compiler writes.
\<close>

lemma ancestor_walk:
  assumes ok: "table_ok n H c ns" and i: "i < length ns"
  shows "k < length ns \<Longrightarrow> \<exists>q. ancestor (stored f ns) (int i) (int k) = Some q \<and> (q = int i \<longleftrightarrow> (\<exists>is. walks n H c ns i is k))"
proof (induction k rule: less_induct)
  case (less k)
  show ?case
  proof (cases "k \<le> i")
    case True
    have "ancestor (stored f ns) (int i) (int k) = Some (int k)" using True by (subst ancestor.simps) simp
    moreover have "k = i \<longleftrightarrow> (\<exists>is. walks n H c ns i is k)"
    proof
      assume "k = i" then show "\<exists>is. walks n H c ns i is k" by (intro exI [of _ "[]"]) simp
    next
      assume "\<exists>is. walks n H c ns i is k" then show "k = i" using walks_chain [OF _ i] True by fastforce
    qed
    ultimately show ?thesis by auto
  next
    case False
    then obtain p x where e: "edge n H c ns p x k" using ok less.prems unfolding table_ok_def by (metis not_le not_less0 neq0_conv)
    have p: "p < k" "node_parent (ns ! k) = int p" using e by (auto simp: edge_def)
    have "ancestor (stored f ns) (int i) (int k) = ancestor (stored f ns) (int i) (int p)"
      using False less.prems p(2) by (subst ancestor.simps) simp
    moreover have "(\<exists>is. walks n H c ns i is k) \<longleftrightarrow> (\<exists>is. walks n H c ns i is p)"
    proof
      assume "\<exists>is. walks n H c ns i is k"
      then obtain "is" where w: "walks n H c ns i is k" by blast
      with False have "is \<noteq> []" by auto
      then obtain js y where "is = js @ [y]" by (metis rev_exhaust)
      then obtain q where "walks n H c ns i js q" "edge n H c ns q y k" using w walks_snoc by blast
      then show "\<exists>is. walks n H c ns i is p" using edge_parent [OF e] by blast
    qed (use e walks_snoc in blast)
    ultimately show ?thesis using less.IH [OF p(1)] p(1) less.prems by simp
  qed
qed

text \<open>Below: nodes whose chain goes on from another node.\<close>

definition below :: "nat \<Rightarrow> class_bases \<Rightarrow> int \<Rightarrow> rtti_node list \<Rightarrow> nat \<Rightarrow> nat \<Rightarrow> bool" where
  "below n H c ns i j \<longleftrightarrow> (\<exists>is. is \<noteq> [] \<and> walks n H c ns i is j)"

lemma ancestor_below:
  assumes ok: "table_ok n H c ns" and j: "i < j" "j < length ns"
  shows "\<exists>q. ancestor (stored f ns) (int i) (parent (stored f ns ! j)) = Some q \<and> (q = int i \<longleftrightarrow> below n H c ns i j)"
proof -
  from ok j obtain p x where e: "edge n H c ns p x j" unfolding table_ok_def by (metis not_less0 neq0_conv)
  have p: "p < length ns" "node_parent (ns ! j) = int p" using e by (auto simp: edge_def)
  have "below n H c ns i j \<longleftrightarrow> (\<exists>is. walks n H c ns i is p)"
  proof
    assume "below n H c ns i j"
    then obtain js y where "walks n H c ns i (js @ [y]) j" unfolding below_def by (metis rev_exhaust)
    then obtain q where "walks n H c ns i js q" "edge n H c ns q y j" using walks_snoc by blast
    then show "\<exists>is. walks n H c ns i is p" using edge_parent [OF e] by blast
  next
    assume "\<exists>is. walks n H c ns i is p"
    then obtain "is" where "walks n H c ns i (is @ [x]) j" using e walks_snoc by blast
    then show "below n H c ns i j" unfolding below_def by (intro exI [of _ "is @ [x]"]) simp
  qed
  then show ?thesis using ancestor_walk [OF ok _ p(1), of i f] j p(2) by simp
qed

lemma inner_base_loop_finds:
  assumes ok: "table_ok n H c ns" and "set js \<subseteq> {i<..<length ns}"
  shows "\<exists>res. inner_base_loop (stored f ns) target i js = Some res
    \<and> (res = None \<longleftrightarrow> (\<forall>j \<in> set js. \<not> (below n H c ns i j \<and> f (node_class (ns ! j)) = target)))
    \<and> (\<forall>at. res = Some at \<longrightarrow> (\<exists>j \<in> set js. below n H c ns i j \<and> f (node_class (ns ! j)) = target \<and> at = word_of_int (node_offset (ns ! j))))"
  using assms(2)
proof (induction js)
  case Nil then show ?case by simp
next
  case (Cons j js)
  obtain q where "ancestor (stored f ns) (int i) (parent (stored f ns ! j)) = Some q" "q = int i \<longleftrightarrow> below n H c ns i j"
    using ancestor_below [OF ok, of i j f] Cons.prems by auto
  then show ?case using Cons by (cases "below n H c ns i j \<and> f (node_class (ns ! j)) = target") auto
qed

definition base_pair :: "nat \<Rightarrow> class_bases \<Rightarrow> int \<Rightarrow> rtti_node list \<Rightarrow> (int \<Rightarrow> string) \<Rightarrow> string \<Rightarrow> string \<Rightarrow> u64 \<Rightarrow> nat \<Rightarrow> nat \<Rightarrow> bool" where
  "base_pair n H c ns f source target at i j \<longleftrightarrow> word_of_int (node_offset (ns ! i)) = at \<and> f (node_class (ns ! i)) = source
      \<and> j < length ns \<and> below n H c ns i j \<and> f (node_class (ns ! j)) = target"

lemma outer_base_loop_finds:
  assumes ok: "table_ok n H c ns" and "set is \<subseteq> {..<length ns}"
  shows "\<exists>res. outer_base_loop (stored f ns) source target at is = Some res
    \<and> (res = None \<longleftrightarrow> (\<nexists>i j. i \<in> set is \<and> base_pair n H c ns f source target at i j))
    \<and> (\<forall>k. res = Some k \<longrightarrow> (\<exists>i j. (i \<in> set is \<and> base_pair n H c ns f source target at i j) \<and> k = word_of_int (node_offset (ns ! j))))"
  using assms(2)
proof (induction "is")
  case Nil then show ?case by simp
next
  case (Cons i "is")
  have less: "i < j" if "below n H c ns i j" for j
  proof -
    from that obtain js where "js \<noteq> []" "walks n H c ns i js j" unfolding below_def by blast
    moreover from calculation obtain x js' where "js = x # js'" by (cases js) auto
    ultimately obtain p where e: "edge n H c ns i x p" "walks n H c ns p js' j" by auto
    then show ?thesis using walks_chain [OF e(2)] by (auto simp: edge_def)
  qed
  obtain r1 where r1: "inner_base_loop (stored f ns) target i [i + 1..<length ns] = Some r1"
    "r1 = None \<longleftrightarrow> (\<forall>j \<in> set [i + 1..<length ns]. \<not> (below n H c ns i j \<and> f (node_class (ns ! j)) = target))"
    "\<forall>k. r1 = Some k \<longrightarrow> (\<exists>j \<in> set [i + 1..<length ns]. below n H c ns i j \<and> f (node_class (ns ! j)) = target \<and> k = word_of_int (node_offset (ns ! j)))"
    using inner_base_loop_finds [OF ok, of "[i + 1..<length ns]" i f target] by fastforce
  from Cons obtain r2 where r2: "outer_base_loop (stored f ns) source target at is = Some r2"
    "r2 = None \<longleftrightarrow> (\<nexists>i j. i \<in> set is \<and> base_pair n H c ns f source target at i j)"
    "\<forall>k. r2 = Some k \<longrightarrow> (\<exists>i j. (i \<in> set is \<and> base_pair n H c ns f source target at i j) \<and> k = word_of_int (node_offset (ns ! j)))" by auto
  show ?case
  proof (cases "word_of_int (node_offset (ns ! i)) = at \<and> f (node_class (ns ! i)) = source \<and> r1 \<noteq> None")
    case True
    then obtain k where k: "r1 = Some k" by auto
    with r1(3) obtain j where "j < length ns" "below n H c ns i j" "f (node_class (ns ! j)) = target" "k = word_of_int (node_offset (ns ! j))" by auto
    moreover have "outer_base_loop (stored f ns) source target at (i # is) = Some (Some k)" using True k r1(1) Cons.prems by simp
    ultimately show ?thesis using True by (intro exI [of _ "Some k"]) (auto simp: base_pair_def)
  next
    case False
    have "outer_base_loop (stored f ns) source target at (i # is) = Some r2" using False r1(1) r2(1) Cons.prems by auto
    moreover have "\<not> base_pair n H c ns f source target at i j" for j
      using False r1(2) less [of j] unfolding base_pair_def by auto
    then have "i' \<in> set (i # is) \<and> base_pair n H c ns f source target at i' j \<longleftrightarrow> i' \<in> set is \<and> base_pair n H c ns f source target at i' j"
      for i' j by auto
    ultimately show ?thesis using r2(2,3) by simp
  qed
qed

text \<open>Where the base subobjects of class \<open>t\<close> are of the subobject of class \<open>s\<close> at \<open>at\<close> in an object of class \<open>c\<close>.\<close>

definition inner_bases :: "nat \<Rightarrow> class_bases \<Rightarrow> int \<Rightarrow> int \<Rightarrow> u64 \<Rightarrow> int \<Rightarrow> u64 set" where
  "inner_bases n H c s at t = {word_of_int (chain_place n H c 0 (is @ js)) | is js.
     inherits H c is s \<and> word_of_int (chain_place n H c 0 is) = at \<and> js \<noteq> [] \<and> inherits H s js t}"

lemma nodes_inner_bases:
  assumes ok: "table_ok n H c ns"
  shows "x \<in> inner_bases n H c s at t \<longleftrightarrow> (\<exists>i j. i < length ns \<and> word_of_int (node_offset (ns ! i)) = at \<and> node_class (ns ! i) = s
      \<and> j < length ns \<and> below n H c ns i j \<and> node_class (ns ! j) = t \<and> x = word_of_int (node_offset (ns ! j)))"
proof
  assume "x \<in> inner_bases n H c s at t"
  then obtain "is" js where x: "x = word_of_int (chain_place n H c 0 (is @ js))" and c: "inherits H c is s" "inherits H s js t" "js \<noteq> []"
    and at: "word_of_int (chain_place n H c 0 is) = at" unfolding inner_bases_def by blast
  obtain i where i: "walks n H c ns 0 is i" "node_class (ns ! i) = s" using chain_node [OF ok c(1)] by blast
  note ni = node_chain [OF ok i(1)]
  obtain j where j: "walks n H c ns i js j" "node_class (ns ! j) = t" using table_chain_walk [OF ok, of i js t] c(2) i(2) ni(3) by auto
  have ij: "walks n H c ns 0 (is @ js) j" using i j walks_append by blast
  show "\<exists>i j. i < length ns \<and> word_of_int (node_offset (ns ! i)) = at \<and> node_class (ns ! i) = s
      \<and> j < length ns \<and> below n H c ns i j \<and> node_class (ns ! j) = t \<and> x = word_of_int (node_offset (ns ! j))"
  proof (rule exI [of _ i], rule exI [of _ j], intro conjI)
    show "below n H c ns i j" unfolding below_def using j(1) c(3) by blast
  qed (use ni node_chain [OF ok ij] i j x at in simp_all)
next
  assume "\<exists>i j. i < length ns \<and> word_of_int (node_offset (ns ! i)) = at \<and> node_class (ns ! i) = s
      \<and> j < length ns \<and> below n H c ns i j \<and> node_class (ns ! j) = t \<and> x = word_of_int (node_offset (ns ! j))"
  then obtain i j where i: "i < length ns" "word_of_int (node_offset (ns ! i)) = at" "node_class (ns ! i) = s"
    and j: "below n H c ns i j" "node_class (ns ! j) = t" and x: "x = word_of_int (node_offset (ns ! j))" by blast
  obtain "is" where a: "walks n H c ns 0 is i" using table_node_walk [OF ok i(1)] by blast
  obtain js where b: "js \<noteq> []" "walks n H c ns i js j" using j(1) unfolding below_def by blast
  have ab: "walks n H c ns 0 (is @ js) j" using a b walks_append by blast
  have inh: "inherits H s js t" using walks_chain [OF b(2) i(1)] i(3) j(2) by simp
  show "x \<in> inner_bases n H c s at t"
    unfolding inner_bases_def
  proof (rule CollectI, rule exI [of _ "is"], rule exI [of _ js], intro conjI)
    show "x = word_of_int (chain_place n H c 0 (is @ js))" using x node_chain [OF ok ab] by simp
    show "inherits H c is s" "word_of_int (chain_place n H c 0 is) = at" using i node_chain [OF ok a] by simp_all
  qed (use b(1) inh in simp_all)
qed

text \<open>Virtual bases are found at run time.  Let an object of class \<open>c\<close> hold the table that the compiler wrote for \<open>c\<close>, in
  a hierarchy without cycles whose classes have different mangled names.  Then \<open>__cpc_virtual_base_cast\<close> ends, and goes from the
  subobject of class \<open>s\<close> that it is given to a base subobject of class \<open>t\<close> of that subobject; it returns the null
  pointer only where there is none.\<close>

theorem virtual_base_cast_finds:
  assumes "ranked H r" and "r c < n" and "inj_on type_name (insert s (insert t {d. d = c \<or> derives H c d}))"
    and "object \<noteq> 0" and "cpp_rtti_table_descriptor n H type_name c vptr = Some (table_at (load (load (object + vptr_offset) - 16)))"
  shows "let whole = object + vptr_offset - word_of_int vptr; B = inner_bases n H c s (object - whole) t
    in \<exists>res. cpc_virtual_base_cast load table_at object vptr_offset (type_name s) (type_name t) = Some res
      \<and> (if B = {} then res = 0 else \<exists>at \<in> B. res = whole + at)"
proof -
  obtain ns where ns: "cpp_rtti_collect n H c = Some ns" and ok: "table_ok n H c ns" using collect_table_ok [OF assms(1,2)] by blast
  define at where "at = object - (object + vptr_offset - word_of_int vptr)"
  have cls: "node_class (ns ! i) \<in> {d. d = c \<or> derives H c d}" if i: "i < length ns" for i
  proof -
    obtain "is" where "walks n H c ns 0 is i" using table_node_walk [OF ok i] by blast
    from node_chain(1) [OF ok this] show ?thesis using inherits_derives by auto
  qed
  have eq: "type_name (node_class (ns ! i)) = type_name u \<longleftrightarrow> node_class (ns ! i) = u" if "i < length ns" "u \<in> {s, t}" for i u
    using inj_on_eq_iff [OF assms(3), of "node_class (ns ! i)" u] cls [OF that(1)] that(2) by auto
  obtain res where res: "outer_base_loop (stored type_name ns) (type_name s) (type_name t) at [0..<length ns] = Some res"
    "res = None \<longleftrightarrow> (\<nexists>i j. i \<in> set [0..<length ns] \<and> base_pair n H c ns type_name (type_name s) (type_name t) at i j)"
    "\<And>k. res = Some k \<Longrightarrow> \<exists>i j. (i \<in> set [0..<length ns] \<and> base_pair n H c ns type_name (type_name s) (type_name t) at i j)
      \<and> k = word_of_int (node_offset (ns ! j))"
    using outer_base_loop_finds [OF ok, where f = type_name and at = at and source = "type_name s" and target = "type_name t", of "[0..<length ns]"] by fastforce
  have pair: "i \<in> set [0..<length ns] \<and> base_pair n H c ns type_name (type_name s) (type_name t) at i j
      \<longleftrightarrow> i < length ns \<and> word_of_int (node_offset (ns ! i)) = at \<and> node_class (ns ! i) = s \<and> j < length ns \<and> below n H c ns i j \<and> node_class (ns ! j) = t" for i j
    using eq [of i s] eq [of j t] unfolding base_pair_def by auto
  have none: "res = None \<longleftrightarrow> inner_bases n H c s at t = {}" using res(2) nodes_inner_bases [OF ok] unfolding pair by blast
  have some: "k \<in> inner_bases n H c s at t" if "res = Some k" for k using res(3) [OF that] nodes_inner_bases [OF ok] unfolding pair by blast
  have "table_at (load (load (object + vptr_offset) - 16)) = \<lparr>offset_to_top = word_of_int (- vptr), nodes = stored type_name ns\<rparr>"
    using assms(5) ns by (simp add: cpp_rtti_table_descriptor_def stored_def)
  then have "cpc_virtual_base_cast load table_at object vptr_offset (type_name s) (type_name t)
      = Some (case res of None \<Rightarrow> 0 | Some k \<Rightarrow> object + vptr_offset - word_of_int vptr + k)"
    using assms(4) res(1) by (simp add: cpc_virtual_base_cast_def complete_object_def Let_def at_def)
  then show ?thesis using none some by (cases res) (auto simp: Let_def at_def)
qed

theorem virtual_base_cast_finds_witness:
  "\<exists>res. cpc_virtual_base_cast example_load (\<lambda>_. example_table) 4096 0 ''C'' ''B'' = Some res \<and> res = 4104
    \<and> inner_bases 4 two_bases 3 3 0 2 \<noteq> {}"
proof -
  have inj: "inj_on example_name (insert 3 (insert 2 {d. d = 3 \<or> derives two_bases 3 d}))"
    by (rule inj_on_subset [OF example_name_inj]) auto
  have cast: "cpc_virtual_base_cast example_load (\<lambda>_. example_table) 4096 0 ''C'' ''B'' = Some 4104" by code_simp
  show ?thesis
    using virtual_base_cast_finds [OF two_bases_ok(1) _ inj, of 4 4096 0 "\<lambda>_. example_table" example_load 0] example_table_written cast
    by (auto simp: Let_def example_name_def split: if_splits)
qed

end
