(* ===== verification/Spec2Isabelle.thy ===== *)
theory Spec2Isabelle
  imports BoundSpec OverflowQuery BitQuery DoubleConv EhSpec ElfSpec X86RelocSpec ConstSimplifySpec TokenStringSpec CTypesSpec X86CodeSpec X86JumpSpec SymScopeSpec
    StaticGuardSpec AtomicOps AtomicExchange ClassUnique ClassVirtual RttiVirtual
begin

text \<open>
  \<^bold>\<open>CPrime\<close> is a one-pass C and C++ compiler for Windows on x86-64.  Its own code is under
  \<^verbatim>\<open>src/src\<close>: a preprocessor and parser that generate code while they read (\<^verbatim>\<open>compiler/frontend\<close>), the code
  generator and relocation of x86-64 (\<^verbatim>\<open>compiler/backend/x64\<close>), sections, symbols and the writer of
  executables (\<^verbatim>\<open>compiler/middleend\<close>), and a runtime that the compiled programs call
  (\<^verbatim>\<open>runtime/generic\<close>, \<^verbatim>\<open>runtime/windows\<close>).  This development models the parts listed below and proves
  what makes them correct.

  \<^bold>\<open>How the parts interact.\<close>  The preprocessor keeps tokens it has to read again (macro bodies, inline
  functions, templates) in token strings.  The parser describes what it reads as types (\<open>CType\<close>, \<open>Sym\<close>) and
  pushes operands on the value stack; the constant folder rewrites the top of that stack, and what it cannot
  fold goes to the code generator, which appends bytes to the text section, records relocations and
  chains jumps whose target is not known yet.  The linker part of the middle end enters symbols in hash
  tables, decides between definitions of one name, sorts the tables and applies the relocations.  A program
  compiled with bounds checking calls the checker for every pointer operation; a program that throws calls
  the exception runtime; both are linked to it from the runtime library, as are the arithmetic helpers.

  \<^bold>\<open>Theories and code.\<close>
  \<^item> \<open>Prelude\<close>: the words of the machine and facts on words, lists and options that the parts share.
  \<^item> \<^bold>\<open>Bounds checker\<close> (\<^verbatim>\<open>runtime/generic/bcheck.c\<close>).  \<open>Regions\<close> has the node of a region and the interface
    of the tree of regions (locale \<open>region_store\<close>); \<open>RegionTree\<close> the splay tree (\<open>splay\<close>, \<open>splay_insert\<close>,
    \<open>splay_delete\<close>) and the interpretation of the interface; \<open>BoundState\<close> the state of the checker and the memory of
    the process; \<open>BoundOps\<close> the checks of pointers (\<open>bound_ptr_add\<close>, \<open>bound_ptr_indir\<close>), the allocation
    functions, the regions of stack frames and \<open>longjmp\<close>; \<open>BoundMem\<close> the checked memory and string functions.
    \<open>BoundFacts\<close> and \<open>BoundSpec\<close> prove that the tree is a map of disjoint intervals, that a check accepts
    exactly the accesses inside a live region, and that regions appear and disappear with their blocks and frames.
  \<^item> \<^bold>\<open>Helpers of compiled code\<close>.  \<open>OverflowQuery\<close> (\<^verbatim>\<open>include/runtime/cprime_overflow_query.h\<close>): the query decides
    overflow exactly.  \<open>BitQuery\<close> (\<^verbatim>\<open>cprime_bit_query.h\<close> and \<^verbatim>\<open>runtime/generic/builtin.c\<close>): counting bits.
    \<open>DoubleConv\<close> (\<^verbatim>\<open>runtime/generic/libcprime1.c\<close>): conversion of a double to 64-bit integers.
  \<^item> \<^bold>\<open>Exception runtime\<close> (\<^verbatim>\<open>runtime/windows/exception.c\<close>).  \<open>EhTypes\<close>, \<open>EhTypeFacts\<close>: type descriptors,
    equality and the qualification rule.  \<open>EhRuntime\<close>: exception objects, their reference counts and the
    stack of catch contexts of a thread.  \<open>EhFrame\<close>: selection of a handler and the passes of the language
    handler.  \<open>EhFacts\<close>, \<open>EhSpec\<close>: an exception lives exactly while it has an owner, however the operations are
    ordered; cleanups run from the innermost out.
  \<^item> \<^bold>\<open>Sections and symbols\<close> (\<^verbatim>\<open>compiler/middleend/cprimeelf.c\<close>).  \<open>ElfSection\<close>: memory of sections.
    \<open>ElfSymbols\<close>: symbol and hash tables.  \<open>ElfResolve\<close>: definitions of one name, sorting, undefined symbols.
    \<open>ElfSpec\<close>: the hash table refines a map from names, the strongest definition wins.
  \<^item> \<^bold>\<open>Relocation\<close> (\<^verbatim>\<open>compiler/backend/x64/x86_64-link.c\<close>).  \<open>LittleEndian\<close>: fields of 16, 32 and 64 bits in the
    bytes of a section, with the locales \<open>byte_field\<close> and \<open>byte_field_pair\<close>.  \<open>X86Reloc\<close>, \<open>X86RelocSpec\<close>: each
    relocation type, the walk over a table, overflow, and independence of disjoint fields.
  \<^item> \<^bold>\<open>Constant folding\<close> (\<open>gen_opic\<close> of \<^verbatim>\<open>compiler/frontend/cprimegen.c\<close>).  \<open>ConstFold\<close> is the code;
    \<open>ConstFoldSpec\<close> compares folding with integer arithmetic modulo the width of the type, \<open>ConstSimplifySpec\<close> the
    rewrites of operations with one constant.
  \<^item> \<^bold>\<open>Token strings\<close> (\<open>tok_str_new\<close> to \<open>tok_get\<close> of \<^verbatim>\<open>compiler/frontend/cprimepp.c\<close>).  \<open>TokenString\<close>,
    \<open>TokenStringSpec\<close>: what is saved is read back, whatever the allocated memory held.
  \<^item> \<^bold>\<open>Types\<close> (\<open>compare_types\<close>, \<open>type_size\<close>, \<open>combine_types\<close> of \<^verbatim>\<open>cprimegen.c\<close>).  \<open>CTypes\<close>, \<open>CTypesSpec\<close>: types on a
    heap of symbols; comparison is sound for size and alignment.
  \<^item> \<^bold>\<open>Names and scopes\<close> (\<open>sym_push\<close> to \<open>sym_pop\<close> of \<^verbatim>\<open>cprimegen.c\<close>, \<^verbatim>\<open>cprimegen_statements.inc\<close>).  \<open>SymScope\<close>: the
    allocator of symbols, the symbol stacks and the chains of bindings that hang on each identifier.  \<open>SymChains\<close>,
    \<open>SymScopeFacts\<close>: the chains as lists and the invariant of names, which says of which lists the memory consists.
    \<open>SymScopeOps\<close>, \<open>SymScopeNames\<close>, \<open>SymScopePush\<close>: what linking, unlinking, declaring and popping do to the lists.
    \<open>SymScopeSpec\<close>: leaving a scope restores the names.
  \<^item> \<^bold>\<open>Class hierarchy\<close> (\<open>note_class_base\<close> to \<open>class_static_downcast_offset\<close> of \<^verbatim>\<open>cprimegen.c\<close>).  \<open>ClassBases\<close> is the
    code, \<open>ClassBasesFacts\<close> derivation as a relation, its ranks and the subobjects of a class.  \<open>ClassUnique\<close>: a base is
    unambiguous exactly when there is one subobject of it.  \<open>ClassVirtual\<close>: the order in which virtual bases are set up.
    \<open>ClassOffsets\<close>: inheritance chains, their offsets, and casts to a derived class.
  \<^item> \<^bold>\<open>Run-time type information\<close>.  \<open>Rtti\<close> has both sides: the tables that the compiler writes (\<^verbatim>\<open>cprimegen_rtti.inc\<close>) and
    the casts that search them (\<^verbatim>\<open>runtime/windows/rtti.inc\<close>).  \<open>RttiFacts\<close>: the nodes of a table are the inheritance
    chains.  \<open>RttiSpec\<close>, \<open>RttiVirtual\<close>: the casts over such a table follow the rules of C++, stated on the chains.
  \<^item> \<^bold>\<open>Code emission\<close> (\<^verbatim>\<open>compiler/backend/x64/x86_64-gen.c\<close>).  \<open>X86Emit\<close>: bytes, prefixes and memory operands;
    \<open>X86Jump\<close>: jumps and the chains of jumps to a label; \<open>X86Load\<close>: \<open>load\<close> and \<open>store\<close> (the parameter \<open>get_reg\<close> finds a
    free register).  \<open>X86Machine\<close> is the processor, for the instructions that occur.  \<open>X86EmitFacts\<close>, \<open>X86Encode\<close>,
    \<open>X86LoadForms\<close>, \<open>X86LoadSpec\<close>, \<open>X86LoadValue\<close>: what the emitted bytes decode to.  \<open>X86CodeSpec\<close>: the code of
    \<open>load\<close>, linked and run, leaves the operand in the register.  \<open>X86JumpSpec\<close>: forward jumps land on their label.
  \<^item> \<^bold>\<open>Static objects\<close> (\<^verbatim>\<open>runtime/windows/wincompat.c\<close>).  \<open>StaticGuard\<close>: the steps of the threads at the guard of a
    static object, and the list by which static objects are destroyed.  \<open>StaticGuardSpec\<close>: one construction, and no lost wake-up.
  \<^item> \<^bold>\<open>Atomic operations\<close> (\<^verbatim>\<open>runtime/generic/stdatomic.c\<close>).  \<open>AtomicOps\<close>: the loops of compare-and-exchange;
    \<open>AtomicExchange\<close>: exchanges of large objects under a spin lock.  Both act as if one after the other.

  \<^bold>\<open>How the code is translated.\<close>  Machine integers are words of their width (\<open>unsigned long\<close> has 32 bits on the
  target), structures are records, pointers into tables are indices, and memory is a function or a
  list of bytes.  What a function returns or stores is the model's result; an error, a crash or a process that stops is a
  value of the result.  Code that is not in the repository is a parameter: the allocator of
  the system, the destructors and cleanups of the program, and what the code generator does for the constant
  folder.

  \<^bold>\<open>Bounds and fuel.\<close>  Loops that need not end are \<open>partial_function (option)\<close>, with \<open>None\<close> for a loop that runs
  for ever, and a theorem says when they return: \<open>section_realloc\<close> returns exactly for sizes up to 2 GiB, the
  chain of a hash bucket and the walk over undefined symbols always return in tables the compiler builds, comparing types
  returns on types that are finite trees; so are the walks along chains of jumps and of bindings (\<open>patch_chain\<close>,
  \<open>find_slot\<close>, \<open>pop_loop\<close>), the parents of a node in a table of classes, and the destruction of static objects, which ends unless
  destructors register objects for ever.  Recursions from a class to its bases have the depth as their first argument; a
  hierarchy without cycles has a rank, and the theorems hold for every depth above the rank of the class, so that enough depth gives the
  answer.  Loops over a list, a tree or a counter are recursions on it and need no fuel.  The theorem on \<open>load\<close> is for the operands that
  \<open>loadable\<close> describes: scalar values, registers below 16, offsets that fit the instruction, comparisons in the first four
  registers, and text sections below 2 GiB.

  \<^bold>\<open>Not modelled.\<close>  The writer of executables (\<^verbatim>\<open>cprimepe.c\<close>), debug information (\<^verbatim>\<open>cprimedbg.c\<close>) and the reading and
  writing of ELF files are input and output of formats defined elsewhere.  The parser, templates and the other C++ rules of
  \<^verbatim>\<open>cprimegen.c\<close>, macro expansion and lexing of \<^verbatim>\<open>cprimepp.c\<close>, the inline assembler (\<^verbatim>\<open>cprimeasm.c\<close>), the selection of instructions for arithmetic and calls
  (\<open>gen_opi\<close>, \<open>gen_opf\<close>, \<open>gfunc_call\<close> of \<^verbatim>\<open>x86_64-gen.c\<close>), its assembly listing and its fast pass, the layout of classes and virtual tables, and the
  driver are not modelled: they work on the whole state of the compiler.  The wrappers of mutexes, condition variables and threads
  in \<^verbatim>\<open>wincompat.c\<close> are calls of Windows.  The repository's
  third-party directory is not its own code.
\<close>

end
